(* ===== verification/Rutis_Prelude.thy ===== *)
theory Rutis_Prelude
  imports Main "HOL-Library.Multiset" "HOL-Library.Monad_Syntax"
begin

text \<open>
  Shared vocabulary of the development: the lemma collections the component
  theories fill, and the operations on strings, lists and association lists
  that several components of the Rust code use.

  A Rust \<open>String\<close> or \<open>&str\<close> is an Isabelle \<open>string\<close> (its bytes).  A
  \<open>Result\<close> is a sum (\<open>Inl\<close> the error), an \<open>Option\<close> an \<open>option\<close>.  A \<open>Vec\<close>
  is a list, and a map whose order of entries is visible (serde_json's
  \<open>Map\<close>) is an association list with distinct keys.
\<close>

named_theorems kernel_defs \<open>definitions of the kernel's atomic sections\<close>
named_theorems fiber_frame \<open>what an operation on a fiber leaves unchanged\<close>
named_theorems waits_simps \<open>simplification of the wait table's operations\<close>

section \<open>Strings\<close>

definition starts_with :: "string \<Rightarrow> string \<Rightarrow> bool" where
  "starts_with p s \<longleftrightarrow> take (length p) s = p"

definition strip_prefix :: "string \<Rightarrow> string \<Rightarrow> string option" where
  "strip_prefix p s = (if starts_with p s then Some (drop (length p) s) else None)"

lemma starts_with_append [simp]: "starts_with p (p @ s)"
  by (simp add: starts_with_def)

lemma strip_prefix_append [simp]: "strip_prefix p (p @ s) = Some s"
  by (simp add: strip_prefix_def)

lemma strip_prefix_SomeD: "strip_prefix p s = Some r \<Longrightarrow> s = p @ r"
  by (auto simp: strip_prefix_def starts_with_def split: if_splits)
     (metis append_take_drop_id)

lemma starts_with_Nil [simp]: "starts_with [] s"
  by (simp add: starts_with_def)

text \<open>\<open>str::split_once\<close> at a character: before and after its first occurrence.\<close>

fun split_once :: "char \<Rightarrow> string \<Rightarrow> (string \<times> string) option" where
  "split_once c [] = None"
| "split_once c (x # xs) =
     (if x = c then Some ([], xs)
      else map_option (\<lambda>(a, b). (x # a, b)) (split_once c xs))"

lemma split_once_join [simp]: "c \<notin> set a \<Longrightarrow> split_once c (a @ c # b) = Some (a, b)"
  by (induction a) auto

lemma split_once_None: "split_once c s = None \<longleftrightarrow> c \<notin> set s"
  by (induction s) auto

lemma split_once_SomeD: "split_once c s = Some (a, b) \<Longrightarrow> s = a @ c # b \<and> c \<notin> set a"
  by (induction s arbitrary: a) (auto split: if_splits)

text \<open>\<open>[String]::join\<close>.\<close>

fun join_with :: "string \<Rightarrow> string list \<Rightarrow> string" where
  "join_with sep [] = []"
| "join_with sep [x] = x"
| "join_with sep (x # y # xs) = x @ sep @ join_with sep (y # xs)"

text \<open>The decimal text of a natural number, as \<open>{}\<close> formats it.\<close>

definition digit_char :: "nat \<Rightarrow> char" where
  "digit_char d = char_of (48 + d)"

fun show_nat :: "nat \<Rightarrow> string" where
  "show_nat n = (if n < 10 then [digit_char n] else show_nat (n div 10) @ [digit_char (n mod 10)])"

declare show_nat.simps [simp del]

lemma show_nat_nonempty [simp]: "show_nat n \<noteq> []"
  by (subst show_nat.simps) simp

section \<open>Lists\<close>

text \<open>\<open>Vec::swap_remove\<close>: the last element takes the removed one's place.\<close>

definition swap_remove :: "nat \<Rightarrow> 'a list \<Rightarrow> 'a list" where
  "swap_remove i xs = (if i < length xs then butlast (xs[i := last xs]) else xs)"

text \<open>\<open>Iterator::position\<close>: the index of the first element that satisfies \<open>P\<close>.\<close>

fun position :: "('a \<Rightarrow> bool) \<Rightarrow> 'a list \<Rightarrow> nat option" where
  "position P [] = None"
| "position P (x # xs) = (if P x then Some 0 else map_option Suc (position P xs))"

lemma position_SomeD: "position P xs = Some i \<Longrightarrow> i < length xs \<and> P (xs ! i)"
  by (induction xs arbitrary: i) (auto split: if_splits)

lemma position_None: "position P xs = None \<longleftrightarrow> (\<forall>x \<in> set xs. \<not> P x)"
  by (induction xs) auto

lemma mset_swap_remove:
  assumes "i < length xs"
  shows "mset (swap_remove i xs) = mset xs - {#xs ! i#}"
proof -
  obtain a b where xs: "xs = a @ xs ! i # b" and a: "length a = i"
    using assms by (metis id_take_nth_drop length_take less_or_eq_imp_le min.absorb2)
  show ?thesis
  proof (cases b rule: rev_cases)
    case Nil
    define x where "x = xs ! i"
    have xs': "xs = a @ [x]" using xs Nil by (simp add: x_def)
    have "swap_remove i xs = a"
      using a by (simp add: xs' swap_remove_def list_update_append)
    moreover have "xs ! i = x" by (simp add: x_def)
    ultimately show ?thesis by (simp only:) (simp add: xs')
  next
    case (snoc c z)
    define x where "x = xs ! i"
    have xs': "xs = a @ x # c @ [z]" using xs snoc by (simp add: x_def)
    have "swap_remove i xs = a @ z # c"
      using a by (simp add: xs' swap_remove_def list_update_append butlast_append)
    moreover have "xs ! i = x" by (simp add: x_def)
    ultimately show ?thesis by (simp only:) (simp add: xs')
  qed
qed

section \<open>Association lists in insertion order\<close>

text \<open>
  serde_json's \<open>Map\<close> with \<open>preserve_order\<close>: an insert at a known key keeps
  its place, a new key goes last, a removal shifts the rest.
\<close>

fun al_insert :: "'k \<Rightarrow> 'v \<Rightarrow> ('k \<times> 'v) list \<Rightarrow> ('k \<times> 'v) list" where
  "al_insert k v [] = [(k, v)]"
| "al_insert k v ((k', v') # m) = (if k = k' then (k, v) # m else (k', v') # al_insert k v m)"

definition al_remove :: "'k \<Rightarrow> ('k \<times> 'v) list \<Rightarrow> ('k \<times> 'v) list" where
  "al_remove k m = filter (\<lambda>(k', _). k' \<noteq> k) m"

lemma map_of_al_insert [simp]: "map_of (al_insert k v m) = (map_of m)(k \<mapsto> v)"
  by (induction m) (auto simp: fun_eq_iff)

lemma map_of_al_remove [simp]: "map_of (al_remove k m) = (map_of m)(k := None)"
  by (induction m) (auto simp: al_remove_def fun_eq_iff)

lemma keys_al_insert: "fst ` set (al_insert k v m) = insert k (fst ` set m)"
proof (induction m)
  case (Cons p m)
  then show ?case by (cases p) (simp add: insert_commute)
qed simp

lemma distinct_al_insert [simp]:
  "distinct (map fst m) \<Longrightarrow> distinct (map fst (al_insert k v m))"
proof (induction m)
  case (Cons p m)
  have "fst ` set (al_insert k v m) = insert k (fst ` set m)" by (rule keys_al_insert)
  with Cons show ?case by (cases p) (auto simp del: list.set_map simp: set_map)
qed simp

lemma distinct_al_remove [simp]:
  "distinct (map fst m) \<Longrightarrow> distinct (map fst (al_remove k m))"
  by (induction m) (auto simp: al_remove_def)

end
