(* ===== verification/Core_Types.thy ===== *)
theory Core_Types
  imports Rutis_Prelude
begin

text \<open>
  The kernel's plain data: fiber states (\<open>fiber.rs\<close>), service keys and
  instance ids (\<open>key.rs\<close>), dependency states (\<open>diagnostics.rs\<close>) and errors
  (\<open>error.rs\<close>).  A service's Rust type is a number, its \<open>TypeId\<close>; the type
  name kept for messages is a function of it.  Durations and source
  locations inside an error are numbers and strings.
\<close>

section \<open>Fiber states\<close>

datatype fiber_state = Pending | Loading | Active | Failed | Disposed | Unloading

section \<open>Keys\<close>

text \<open>
  \<open>Qualifier\<close>: a static or a dynamic name; the two compare by their text.
  A key keeps the text, so that equality of keys is equality of values.
\<close>

datatype qualifier = Static string | Dynamic string

fun as_str :: "qualifier \<Rightarrow> string" where
  "as_str (Static s) = s"
| "as_str (Dynamic s) = s"

definition qualifier_eq :: "qualifier \<Rightarrow> qualifier \<Rightarrow> bool" where
  "qualifier_eq a b \<longleftrightarrow> as_str a = as_str b"

datatype type_key =
  TypeKey (key_type: nat) (key_qualifier: "string option") (key_instance: "nat option")

definition key_of :: "nat \<Rightarrow> type_key" where
  "key_of t = TypeKey t None None"

definition keyed :: "nat \<Rightarrow> qualifier \<Rightarrow> type_key" where
  "keyed t q = TypeKey t (Some (as_str q)) None"

definition with_instance :: "type_key \<Rightarrow> nat \<Rightarrow> type_key" where
  "with_instance k i = TypeKey (key_type k) (key_qualifier k) (Some i)"

text \<open>\<open>TypeKey::describe\<close>, given the name of each type.\<close>

definition describe :: "(nat \<Rightarrow> string) \<Rightarrow> type_key \<Rightarrow> string" where
  "describe type_name k =
     (let base = (case key_qualifier k of
                    Some q \<Rightarrow> type_name (key_type k) @ ''#'' @ q
                  | None \<Rightarrow> type_name (key_type k))
      in case key_instance k of
           Some i \<Rightarrow> base @ ''@'' @ show_nat i
         | None \<Rightarrow> base)"

text \<open>
  \<open>InstanceId::allocate_from\<close>: the counter's value, and the counter after
  it; at the last \<open>u64\<close> the allocation panics (\<open>None\<close>), it never wraps.
\<close>

definition u64_max :: nat where
  "u64_max = 2 ^ 64 - 1"

definition allocate_from :: "nat \<Rightarrow> (nat \<times> nat) option" where
  "allocate_from next = (if next < u64_max then Some (next, next + 1) else None)"

text \<open>A binding's slot: its key and its isolation scope.\<close>

type_synonym slot = "type_key \<times> string option"

text \<open>A resolved dependency: provider, the provider's generation, key, scope.\<close>

type_synonym dep = "nat \<times> nat \<times> type_key \<times> string option"

section \<open>Dependency states and read failures\<close>

datatype dependency_status =
    OutOfScope | Missing | Removing | ProviderInactive fiber_state | Ready

datatype read_failure =
    RfUndeclared | RfUnavailable dependency_status | RfOutOfScope | RfInactive | RfTypeMismatch

datatype write_failure = WrongOwner | Stale

datatype read_error =
  ReadError (re_key: type_key) (re_plugin: nat) (re_instance: nat) (re_reason: read_failure)

section \<open>Errors\<close>

datatype next_misuse = AlreadyCalled | Ended | NotWaterfall nat | SyncInAsync

datatype error_kind =
    ServiceRead read_error
  | ServiceNotFound string
  | PluginFailed string
  | Aggregate "error_kind list"
  | InactiveEffect
  | StaleGeneration nat nat
  | InactiveGeneration nat fiber_state
  | Closed
  | Validation "string list"
  | InjectUnsatisfied "string list"
  | ServiceExists string
  | InstanceOutOfScope nat
  | ListenersFailed string "error_kind list"
  | AsyncListener string string nat
  | WaterfallNext string next_misuse
  | ReservedEvent string
  | ListenerFailed string string error_kind
  | FilterFailed string string error_kind
  | ListenerWithdrawn nat string
  | EventValue string string
  | SyncEventPanicked error_kind
  | EventNeedsName string
  | ListenersStillRunning string nat
  | StillWaiting string nat "string list"
  | StartFailed string error_kind
  | RuntimeDown string string
  | NotServedByName string

text \<open>
  \<open>ErrorKind::wire_name\<close>: the cross-language name of an event error.
\<close>

fun wire_name :: "error_kind \<Rightarrow> string option" where
  "wire_name (ListenersFailed n es) = Some ''AggregateError''"
| "wire_name (AsyncListener n l m) = Some ''AsyncListener''"
| "wire_name (WaterfallNext n m) = Some ''WaterfallNext''"
| "wire_name (ReservedEvent n) = Some ''ReservedEvent''"
| "wire_name (EventNeedsName e) = Some ''BindingError''"
| "wire_name _ = None"

text \<open>\<open>Error\<close>: a kind, whether plugin code made it, and whether it is a caught panic.\<close>

record error =
  e_kind :: error_kind
  e_foreign :: bool
  e_panicked :: bool

definition error_new :: "error_kind \<Rightarrow> bool \<Rightarrow> error" where
  "error_new k foreign = \<lparr>e_kind = k, e_foreign = foreign, e_panicked = False\<rparr>"

definition error_msg :: "string \<Rightarrow> error" where
  "error_msg m = error_new (PluginFailed m) True"

definition is_panic :: "error \<Rightarrow> bool" where
  "is_panic e = e_panicked e"

definition error_kind_of :: "error \<Rightarrow> error_kind option" where
  "error_kind_of e = (if e_foreign e then None else Some (e_kind e))"

definition shared :: "error \<Rightarrow> error_kind" where
  "shared e = e_kind e"

text \<open>
  \<open>aggregate_arcs\<close>: one error as it is, several as an unflattened
  \<open>Aggregate\<close>.
\<close>

fun aggregate_arcs :: "error_kind list \<Rightarrow> error_kind option" where
  "aggregate_arcs [] = None"
| "aggregate_arcs [e] = Some e"
| "aggregate_arcs es = Some (Aggregate es)"

text \<open>
  \<open>panic_error\<close>: the payload's text, if it is one, as a \<open>PluginFailed\<close>
  marked as a panic; \<open>join_panic_error\<close> of a task that did not end.
\<close>

definition panic_error :: "string option \<Rightarrow> error" where
  "panic_error payload =
     (error_new (PluginFailed (case payload of Some s \<Rightarrow> s | None \<Rightarrow> ''panic in task'')) False)
       \<lparr>e_panicked := True\<rparr>"

datatype join_error = JoinPanicked "string option" | JoinCancelled

fun join_panic_error :: "join_error \<Rightarrow> error" where
  "join_panic_error (JoinPanicked p) = panic_error p"
| "join_panic_error JoinCancelled = error_new (PluginFailed ''task cancelled before completion'') False"

section \<open>Lemmas\<close>

lemma aggregate_arcs_None [simp]: "aggregate_arcs es = None \<longleftrightarrow> es = []"
  by (cases es rule: aggregate_arcs.cases) auto

lemma aggregate_arcs_two [simp]: "2 \<le> length es \<Longrightarrow> aggregate_arcs es = Some (Aggregate es)"
  by (cases es rule: aggregate_arcs.cases) auto

lemma is_panic_panic_error [simp]: "is_panic (panic_error p)"
  by (simp add: is_panic_def panic_error_def)

lemma is_panic_error_new [simp]: "\<not> is_panic (error_new k b)"
  by (simp add: is_panic_def error_new_def)

lemma allocate_from_bound:
  "allocate_from n = Some (i, n') \<Longrightarrow> i = n \<and> n' = Suc n \<and> n' \<le> u64_max"
  by (auto simp: allocate_from_def split: if_splits)

end
