(* ===== verification/Effects.thy ===== *)
theory Effects
  imports Core_Types
begin

text \<open>
  Cleanups, \<open>crates/rutis/src/effect.rs\<close>: an effect's cleanups, the record
  that runs them exactly once, and the joins that share the result.

  A closure is a value of type \<open>'c\<close>; what calling it does is given by
  \<open>callbacks\<close> (user code).  Concurrent drains of one record are the step
  relation \<open>drain_step\<close>: each caller of \<open>drain\<close>, the task the first one
  spawns, and callers whose future is dropped.
\<close>

section \<open>Effects and cleanups\<close>

datatype 'c effect =
    EffDone
  | EffDisposer 'c
  | EffAsyncDisposer 'c
  | EffMany "'c effect list"

datatype 'c cleanup = CSync 'c | CAsync 'c

fun into_cleanups :: "'c effect \<Rightarrow> 'c cleanup list" where
  "into_cleanups EffDone = []"
| "into_cleanups (EffDisposer f) = [CSync f]"
| "into_cleanups (EffAsyncDisposer f) = [CAsync f]"
| "into_cleanups (EffMany v) = concat (map into_cleanups v)"

fun closure :: "'c cleanup \<Rightarrow> 'c" where
  "closure (CSync f) = f"
| "closure (CAsync f) = f"

text \<open>What user code does: a panic carries its payload's text, if it is one.\<close>

datatype sync_outcome = SyncPanics "string option" | SyncReturns "error option"

datatype async_outcome =
    CallPanics "string option"
  | TaskEnds "error option"
  | TaskFails join_error

record 'c callbacks =
  cb_sync :: "'c \<Rightarrow> sync_outcome"
  cb_async :: "'c \<Rightarrow> async_outcome"

text \<open>One cleanup's error, if any: the body of the loop of \<open>run_cleanups\<close>.\<close>

fun cleanup_error :: "'c callbacks \<Rightarrow> 'c cleanup \<Rightarrow> error option" where
  "cleanup_error cb (CSync f) =
     (case cb_sync cb f of
        SyncReturns r \<Rightarrow> r
      | SyncPanics p \<Rightarrow> Some (panic_error p))"
| "cleanup_error cb (CAsync f) =
     (case cb_async cb f of
        CallPanics p \<Rightarrow> Some (panic_error p)
      | TaskEnds r \<Rightarrow> r
      | TaskFails j \<Rightarrow> Some (join_panic_error j))"

text \<open>
  \<open>while let Some(cleanup) = cleanups.pop()\<close>: the last cleanup first; an
  error is pushed and the loop goes on.
\<close>

function cleanups_loop :: "'c callbacks \<Rightarrow> 'c cleanup list \<Rightarrow> error list \<Rightarrow> error list" where
  "cleanups_loop cb cleanups errors =
     (if cleanups = [] then errors
      else cleanups_loop cb (butlast cleanups)
             (case cleanup_error cb (last cleanups) of
                None \<Rightarrow> errors
              | Some e \<Rightarrow> errors @ [e]))"
  by pat_completeness auto
termination
  by (relation "measure (\<lambda>(_, cleanups, _). length cleanups)") auto

declare cleanups_loop.simps [simp del]

definition run_cleanups :: "'c callbacks \<Rightarrow> 'c cleanup list \<Rightarrow> error_kind option" where
  "run_cleanups cb cleanups = aggregate_arcs (map shared (cleanups_loop cb cleanups []))"

section \<open>Effect records\<close>

datatype 'c effect_state =
    Live "'c cleanup list"
  | Draining
  | Done "error_kind option"

datatype origin = OEffect string | OProvide type_key | OApply | OMount | OOther

record 'c effect_record =
  er_state :: "'c effect_state"
  er_label :: string
  er_origin :: origin
  er_owner :: nat

definition record_from :: "'c effect \<Rightarrow> string \<Rightarrow> origin \<Rightarrow> nat \<Rightarrow> 'c effect_record" where
  "record_from eff label origin owner =
     \<lparr>er_state = Live (into_cleanups eff), er_label = label, er_origin = origin, er_owner = owner\<rparr>"

definition draining :: "'c effect_record \<Rightarrow> (origin \<times> string) option" where
  "draining r = (case er_state r of
     Draining \<Rightarrow> Some (er_origin r, er_label r)
   | _ \<Rightarrow> None)"

text \<open>\<open>claim\<close>: the cleanups, to the one caller that finds the record live.\<close>

fun claim :: "'c effect_state \<Rightarrow> 'c cleanup list option \<times> 'c effect_state" where
  "claim (Live cleanups) = (Some cleanups, Draining)"
| "claim Draining = (None, Draining)"
| "claim (Done e) = (None, Done e)"

text \<open>
  \<open>finish\<close>: record the result; a record still on its owner's list removes
  itself and leaves its error there for the owner's next unload.
\<close>

definition finish_owner ::
  "'r \<Rightarrow> error_kind option \<Rightarrow> 'r list \<times> error_kind list \<Rightarrow> 'r list \<times> error_kind list" where
  "finish_owner r err own =
     (let (effects, drained) = own in
      if r \<in> set effects
      then (filter (\<lambda>x. x \<noteq> r) effects, case err of None \<Rightarrow> drained | Some e \<Rightarrow> drained @ [e])
      else (effects, drained))"

text \<open>\<open>join\<close>: the result, once there is one (\<open>None\<close>: it waits).\<close>

fun join_record :: "'c effect_state \<Rightarrow> (error_kind + unit) option" where
  "join_record (Done (Some e)) = Some (Inl e)"
| "join_record (Done None) = Some (Inr ())"
| "join_record _ = None"

section \<open>Concurrent drains of one record\<close>

datatype caller =
    NotCalled
  | Joining
  | Joined "error_kind + unit"
  | Dropped

record 'c drain_sys =
  ds_state :: "'c effect_state"
  ds_task :: "('c cleanup list \<times> error list) option"
  ds_callers :: "nat \<Rightarrow> caller"
  ds_called :: "'c cleanup list"

text \<open>
  A step: caller \<open>i\<close> enters \<open>drain\<close> (and spawns the task, if it claims the
  cleanups); the task runs its next cleanup, or finishes; a waiting caller
  wakes on the result; a waiting caller's future is dropped.
\<close>

inductive drain_step :: "'c callbacks \<Rightarrow> 'c drain_sys \<Rightarrow> 'c drain_sys \<Rightarrow> bool" for cb where
  enter_claims:
    "ds_callers s i = NotCalled \<Longrightarrow> claim (ds_state s) = (Some cs, st) \<Longrightarrow>
     drain_step cb s (s\<lparr>ds_state := st, ds_task := Some (cs, []),
       ds_callers := (ds_callers s)(i := Joining)\<rparr>)"
| enter_joins:
    "ds_callers s i = NotCalled \<Longrightarrow> claim (ds_state s) = (None, st) \<Longrightarrow>
     drain_step cb s (s\<lparr>ds_state := st, ds_callers := (ds_callers s)(i := Joining)\<rparr>)"
| run_one:
    "ds_task s = Some (cs, errs) \<Longrightarrow> cs \<noteq> [] \<Longrightarrow>
     drain_step cb s (s\<lparr>ds_called := ds_called s @ [last cs],
       ds_task := Some (butlast cs, case cleanup_error cb (last cs) of
                                      None \<Rightarrow> errs | Some e \<Rightarrow> errs @ [e])\<rparr>)"
| task_finishes:
    "ds_task s = Some ([], errs) \<Longrightarrow>
     drain_step cb s (s\<lparr>ds_state := Done (aggregate_arcs (map shared errs)), ds_task := None\<rparr>)"
| wakes:
    "ds_callers s i = Joining \<Longrightarrow> join_record (ds_state s) = Some r \<Longrightarrow>
     drain_step cb s (s\<lparr>ds_callers := (ds_callers s)(i := Joined r)\<rparr>)"
| drops:
    "ds_callers s i = Joining \<Longrightarrow>
     drain_step cb s (s\<lparr>ds_callers := (ds_callers s)(i := Dropped)\<rparr>)"

definition drain_init :: "'c cleanup list \<Rightarrow> 'c drain_sys" where
  "drain_init cs =
     \<lparr>ds_state = Live cs, ds_task = None, ds_callers = (\<lambda>_. NotCalled), ds_called = []\<rparr>"

inductive drain_reachable ::
  "'c callbacks \<Rightarrow> 'c cleanup list \<Rightarrow> 'c drain_sys \<Rightarrow> bool" for cb cs where
  dr_init: "drain_reachable cb cs (drain_init cs)"
| dr_step: "drain_reachable cb cs s \<Longrightarrow> drain_step cb s t \<Longrightarrow> drain_reachable cb cs t"

section \<open>The cleanups of one record, one at a time\<close>

lemma cleanups_loop_Nil [simp]: "cleanups_loop cb [] errors = errors"
  by (simp add: cleanups_loop.simps)

lemma cleanups_loop_snoc [simp]:
  "cleanups_loop cb (cs @ [c]) errors =
     cleanups_loop cb cs
       (case cleanup_error cb c of None \<Rightarrow> errors | Some e \<Rightarrow> errors @ [e])"
  by (subst cleanups_loop.simps) simp

lemma cleanups_loop_errors:
  "cleanups_loop cb cs errors = errors @ List.map_filter (cleanup_error cb) (rev cs)"
proof (induction cs arbitrary: errors rule: rev_induct)
  case (snoc c cs)
  then show ?case by (auto simp: List.map_filter_def split: option.split)
qed (simp add: List.map_filter_def)

lemma run_cleanups_errors:
  "run_cleanups cb cs =
     aggregate_arcs (map shared (List.map_filter (cleanup_error cb) (rev cs)))"
  by (simp add: run_cleanups_def cleanups_loop_errors)

lemma into_cleanups_many_append:
  "into_cleanups (EffMany (v @ w)) = into_cleanups (EffMany v) @ into_cleanups (EffMany w)"
  by simp

section \<open>What every reachable state of the drains satisfies\<close>

definition join_result :: "'c callbacks \<Rightarrow> 'c cleanup list \<Rightarrow> error_kind + unit" where
  "join_result cb cs = (case run_cleanups cb cs of Some e \<Rightarrow> Inl e | None \<Rightarrow> Inr ())"

lemma join_record_Done [simp]:
  "join_record (Done e) = Some (case e of Some x \<Rightarrow> Inl x | None \<Rightarrow> Inr ())"
  by (cases e) auto

definition errors_of :: "'c callbacks \<Rightarrow> 'c cleanup list \<Rightarrow> error list" where
  "errors_of cb called = List.map_filter (cleanup_error cb) called"

lemma errors_of_snoc [simp]:
  "errors_of cb (called @ [c]) =
     (case cleanup_error cb c of None \<Rightarrow> errors_of cb called | Some e \<Rightarrow> errors_of cb called @ [e])"
  by (auto simp: errors_of_def List.map_filter_def split: option.split)

lemma errors_of_Nil [simp]: "errors_of cb [] = []"
  by (simp add: errors_of_def List.map_filter_def)

definition drain_inv :: "'c callbacks \<Rightarrow> 'c cleanup list \<Rightarrow> 'c drain_sys \<Rightarrow> bool" where
  "drain_inv cb cs0 s \<longleftrightarrow>
     (case ds_state s of
        Live cs \<Rightarrow> cs = cs0 \<and> ds_task s = None \<and> ds_called s = [] \<and>
          (\<forall>i. ds_callers s i = NotCalled)
      | Draining \<Rightarrow>
          (\<exists>cs errs. ds_task s = Some (cs, errs) \<and> ds_called s @ rev cs = rev cs0 \<and>
             errs = errors_of cb (ds_called s)) \<and>
          (\<forall>i r. ds_callers s i \<noteq> Joined r)
      | Done e \<Rightarrow> ds_task s = None \<and> ds_called s = rev cs0 \<and> e = run_cleanups cb cs0 \<and>
          (\<forall>i r. ds_callers s i = Joined r \<longrightarrow> r = join_result cb cs0))"

lemma drain_inv_init: "drain_inv cb cs (drain_init cs)"
  by (simp add: drain_inv_def drain_init_def)

lemma drain_inv_task:
  assumes "drain_inv cb cs0 s" and "ds_task s = Some (cs, errs)"
  shows "ds_state s = Draining" "ds_called s @ rev cs = rev cs0"
    "errs = errors_of cb (ds_called s)" "ds_callers s i \<noteq> Joined r"
  using assms by (auto simp: drain_inv_def split: effect_state.splits)

lemma drain_step_inv: "drain_step cb s t \<Longrightarrow> drain_inv cb cs0 s \<Longrightarrow> drain_inv cb cs0 t"
proof (induction rule: drain_step.induct)
  case (enter_claims s i cs st)
  then show ?case by (cases "ds_state s") (auto simp: drain_inv_def)
next
  case (enter_joins s i st)
  then show ?case by (cases "ds_state s") (auto simp: drain_inv_def)
next
  case (run_one s cs errs)
  note task = drain_inv_task [OF run_one.prems run_one.hyps(1)]
  have "rev cs = last cs # rev (butlast cs)"
    using run_one.hyps(2) by (metis append_butlast_last_id rev.simps(2) rev_swap rev_rev_ident)
  with task show ?case by (auto simp: drain_inv_def)
next
  case (task_finishes s errs)
  note task = drain_inv_task [OF task_finishes.prems task_finishes.hyps]
  then show ?case
    by (auto simp: drain_inv_def run_cleanups_errors errors_of_def)
next
  case (wakes s i r)
  then show ?case
    by (auto simp: drain_inv_def join_result_def split: effect_state.splits)
next
  case (drops s i)
  then show ?case by (auto simp: drain_inv_def split: effect_state.splits)
qed

lemma drain_reachable_inv: "drain_reachable cb cs s \<Longrightarrow> drain_inv cb cs s"
  by (induction rule: drain_reachable.induct) (auto intro: drain_inv_init drain_step_inv)

text \<open>The task alone brings the record to its result, whatever the callers do.\<close>

lemma task_completes:
  assumes "ds_task s = Some (cs, errs)"
  shows "\<exists>t e. (drain_step cb)\<^sup>*\<^sup>* s t \<and> ds_state t = Done e \<and> ds_callers t = ds_callers s"
  using assms
proof (induction cs arbitrary: s errs rule: rev_induct)
  case Nil
  then show ?case by (intro exI conjI r_into_rtranclp, rule task_finishes) auto
next
  case (snoc c cs)
  define s' where "s' = s\<lparr>ds_called := ds_called s @ [c],
    ds_task := Some (cs, case cleanup_error cb c of None \<Rightarrow> errs | Some e \<Rightarrow> errs @ [e])\<rparr>"
  have step: "drain_step cb s s'"
    using run_one [OF snoc.prems, of cb] by (simp add: s'_def)
  have "ds_task s' = Some (cs, case cleanup_error cb c of None \<Rightarrow> errs | Some e \<Rightarrow> errs @ [e])"
    by (simp add: s'_def)
  from snoc.IH [OF this] obtain t e where
    "(drain_step cb)\<^sup>*\<^sup>* s' t" "ds_state t = Done e" "ds_callers t = ds_callers s'"
    by blast
  with step show ?case
    by (intro exI [of _ t] exI [of _ e] conjI) (auto simp: s'_def)
qed

section \<open>A drain\<close>

text \<open>Two callers of one drain: the second is dropped, a cleanup fails.\<close>

definition demo_callbacks :: "nat callbacks" where
  "demo_callbacks = \<lparr>cb_sync = (\<lambda>_. SyncReturns (Some (error_msg ''busy''))),
     cb_async = (\<lambda>_. TaskEnds None)\<rparr>"

definition demo_cleanups :: "nat cleanup list" where
  "demo_cleanups = [CSync 1, CAsync 2]"

definition demo_drained :: "nat drain_sys" where
  "demo_drained = \<lparr>ds_state = Done (Some (shared (error_msg ''busy''))), ds_task = None,
     ds_callers = (\<lambda>_. NotCalled)(1 := Dropped, 0 := Joined (Inl (shared (error_msg ''busy'')))),
     ds_called = [CAsync 2, CSync 1]\<rparr>"

lemma demo_drained_reachable: "drain_reachable demo_callbacks demo_cleanups demo_drained"
proof -
  let ?cb = demo_callbacks
  define s1 where "s1 = (drain_init demo_cleanups)\<lparr>ds_state := Draining,
    ds_task := Some (demo_cleanups, []), ds_callers := (\<lambda>_. NotCalled)(0 := Joining)\<rparr>"
  define s2 where "s2 = s1\<lparr>ds_callers := (\<lambda>_. NotCalled)(0 := Joining, 1 := Joining)\<rparr>"
  define s3 where "s3 = s2\<lparr>ds_called := [CAsync 2], ds_task := Some ([CSync 1], [])\<rparr>"
  define s4 where "s4 = s3\<lparr>ds_callers := (\<lambda>_. NotCalled)(0 := Joining, 1 := Dropped)\<rparr>"
  define s5 where "s5 = s4\<lparr>ds_called := [CAsync 2, CSync 1],
    ds_task := Some ([], [error_msg ''busy''])\<rparr>"
  define s6 where "s6 = s5\<lparr>ds_state := Done (Some (shared (error_msg ''busy''))), ds_task := None\<rparr>"
  have 1: "drain_step ?cb (drain_init demo_cleanups) s1"
    using enter_claims [of "drain_init demo_cleanups" 0 demo_cleanups Draining ?cb]
    by (simp add: s1_def drain_init_def)
  have 2: "drain_step ?cb s1 s2"
    using enter_joins [of s1 1 Draining ?cb] by (simp add: s1_def s2_def drain_init_def)
  have 3: "drain_step ?cb s2 s3"
    using run_one [of s2 demo_cleanups "[]" ?cb]
    by (simp add: s1_def s2_def s3_def demo_cleanups_def demo_callbacks_def drain_init_def)
  have 4: "drain_step ?cb s3 s4"
    using drops [of s3 1 ?cb] by (simp add: s1_def s2_def s3_def s4_def drain_init_def)
  have 5: "drain_step ?cb s4 s5"
    using run_one [of s4 "[CSync 1]" "[]" ?cb]
    by (simp add: s3_def s4_def s5_def demo_callbacks_def)
  have 6: "drain_step ?cb s5 s6"
    using task_finishes [of s5 "[error_msg ''busy'']" ?cb]
    by (simp add: s5_def s6_def aggregate_arcs.simps)
  have 7: "drain_step ?cb s6 demo_drained"
    using wakes [of s6 0 "Inl (shared (error_msg ''busy''))" ?cb]
    by (simp add: s1_def s2_def s3_def s4_def s5_def s6_def demo_drained_def drain_init_def)
  show ?thesis
    by (rule dr_step [OF dr_step [OF dr_step [OF dr_step [OF dr_step [OF dr_step [OF dr_step
      [OF dr_init 1] 2] 3] 4] 5] 6] 7])
qed

section \<open>Properties\<close>

text \<open>
  C13.  However many callers drain a record at once, and whichever of their
  futures are dropped, its cleanups are called in reverse order of
  registration, each at most once; once the record is done all of them have
  been called, and its result is that of one sequential run.
\<close>

theorem cleanups_run_once_in_reverse:
  assumes "drain_reachable cb cs s"
  shows "\<exists>n. ds_called s = take n (rev cs) \<and>
     (\<forall>e. ds_state s = Done e \<longrightarrow> ds_called s = rev cs \<and> e = run_cleanups cb cs)"
proof -
  have inv: "drain_inv cb cs s" using assms by (rule drain_reachable_inv)
  show ?thesis
  proof (cases "ds_state s")
    case Draining
    with inv obtain rest errs where "ds_called s @ rev rest = rev cs"
      by (auto simp: drain_inv_def)
    then have "ds_called s = take (length (ds_called s)) (rev cs)"
      by (metis append_eq_conv_conj)
    with Draining show ?thesis by auto
  next
    case (Live x)
    with inv show ?thesis by (intro exI [of _ 0]) (auto simp: drain_inv_def)
  next
    case (Done e)
    with inv show ?thesis by (intro exI [of _ "length cs"]) (auto simp: drain_inv_def)
  qed
qed

theorem cleanups_run_once_in_reverse_witness:
  "ds_called demo_drained = rev demo_cleanups \<and>
     ds_state demo_drained = Done (run_cleanups demo_callbacks demo_cleanups)"
  using cleanups_run_once_in_reverse [OF demo_drained_reachable] by (simp add: demo_drained_def)

text \<open>
  C14.  Every caller of \<open>drain\<close> that returns gets the same result, the
  aggregate of the failed cleanups' errors in the order they ran, and no
  reachable state leaves the record draining for ever: from it the spawned
  task alone reaches the result, whatever the callers do.
\<close>

theorem drains_share_one_result:
  assumes "drain_reachable cb cs s"
  shows "(ds_callers s i = Joined r \<longrightarrow>
            r = (case aggregate_arcs (map shared (List.map_filter (cleanup_error cb) (rev cs))) of
                   Some e \<Rightarrow> Inl e | None \<Rightarrow> Inr ())) \<and>
         (ds_state s = Draining \<longrightarrow>
            (\<exists>t e. (drain_step cb)\<^sup>*\<^sup>* s t \<and> ds_state t = Done e \<and> ds_callers t = ds_callers s))"
proof -
  have inv: "drain_inv cb cs s" using assms by (rule drain_reachable_inv)
  then have "ds_callers s i = Joined r \<longrightarrow> r = join_result cb cs"
    by (auto simp: drain_inv_def split: effect_state.splits)
  moreover have "ds_state s = Draining \<Longrightarrow> \<exists>cs' errs. ds_task s = Some (cs', errs)"
    using inv by (auto simp: drain_inv_def)
  ultimately show ?thesis
    by (auto simp: join_result_def run_cleanups_errors dest: task_completes)
qed

theorem drains_share_one_result_witness:
  "ds_callers demo_drained 0 = Joined (Inl (shared (error_msg ''busy''))) \<and>
   aggregate_arcs (map shared (List.map_filter (cleanup_error demo_callbacks) (rev demo_cleanups))) =
     Some (shared (error_msg ''busy''))"
  using drains_share_one_result [OF demo_drained_reachable, of 0 "Inl (shared (error_msg ''busy''))"]
  by (auto simp: demo_drained_def split: option.splits)

end
