(* ===== verification/Kernel_State.thy ===== *)
theory Kernel_State
  imports Effects
begin

text \<open>
  The state of the kernel, \<open>crates/rutis/src\<close>: the fibers (\<open>fiber.rs\<close>), the
  service registry's tables (\<open>registry.rs\<close>), what the root shares
  (\<open>Shared\<close> of \<open>ctx.rs\<close>), and the threads that run on it.

  An \<open>Arc\<close> is a number into a table of the kernel, so that \<open>Arc::ptr_eq\<close> is
  equality of numbers: fibers by \<open>PluginId\<close>, bindings, effect records,
  transition tasks.  A \<open>Weak\<close> upgrade is a lookup.  A thread is a list of
  pending atomic sections (\<open>kop\<close>); the driver of a fiber, an early disposer
  and a caller of the fiber's API are each one.  Sections are cut at awaits
  and where the code lets go of a lock that orders it against other threads.
\<close>

section \<open>Requests and pending sections\<close>

text \<open>\<open>Intent\<close>, with the number of the transition task it carries.\<close>

datatype intent =
    RefreshDeps
  | RefreshDepsJoin nat
  | Settle nat
  | Restart nat
  | Dispose
  | Shutdown nat

fun intent_task :: "intent \<Rightarrow> nat option" where
  "intent_task (RefreshDepsJoin t) = Some t"
| "intent_task (Settle t) = Some t"
| "intent_task (Restart t) = Some t"
| "intent_task (Shutdown t) = Some t"
| "intent_task RefreshDeps = None"
| "intent_task Dispose = None"

datatype next_state = NextPending | NextDisposed

text \<open>
  A cleanup's closure: user code (by number), the withdrawal of a service
  (\<open>evict_and_finalize\<close>), or the cascading dispose of a mounted child.
\<close>

datatype kclosure =
    UserCleanup nat
  | Withdraw nat nat type_key "string option"
  | DisposeChild nat

text \<open>What the errors of a drain are for.\<close>

datatype drain_for =
    ForUnload next_state
  | ForFailedLoad error "dep set" bool

text \<open>The sections of a dependency check and a load (\<open>refresh_deps\<close>, \<open>load\<close>, \<open>fail_load\<close>).\<close>

datatype load_op =
    Refresh
  | UnloadForDispose
  | WatchWaiting
  | Load "dep set"
  | RecordDeps "dep set"
  | Gate "dep set"
  | Build "dep set"
  | Validate "dep set"
  | Apply "dep set"
  | Adopt
  | Activate
  | NotifyProvided
  | RepostIfReady
  | FailLoad error "dep set"
  | FailStop error "dep set"

text \<open>Those of an unload (\<open>unload\<close>, \<open>wait_events\<close>, \<open>drain_effects\<close>).\<close>

datatype unload_op =
    Unload next_state
  | WaitEvents
  | TakeEffects drain_for
  | DrainRecords "nat list" "error_kind list" drain_for
  | DrainEnd "error_kind list" drain_for

text \<open>Those of the driver's intents (\<open>drive\<close>).\<close>

datatype drive_op =
    Recv
  | CompleteTask nat
  | RestartOp nat
  | RestartRefresh nat
  | RestartEnd nat nat
  | DisposeOp
  | DisposeUnload
  | DisposeEnd
  | ShutdownOp
  | ShutdownEnd "error_kind option"
  | FinishEvent
  | Flush

text \<open>Those of a driver's end (\<open>drive\<close> after a terminal intent, \<open>release_transient\<close>).\<close>

datatype exit_op =
    StopDisposed
  | DrainMailboxDisposed "error_kind option"
  | StopShutdown nat
  | DrainMailboxShutdown nat "nat option" "error_kind option"
  | EndShutdown nat "nat option" "error_kind option"
  | ReleaseInjects
  | ReleaseMount
  | ReportRecord nat
  | ReleaseChild
  | EndDriver

text \<open>Those of cleanups, joins and posts (\<open>effect.rs\<close>, \<open>evict_and_finalize\<close>, \<open>post_join\<close>).\<close>

datatype cleanup_op =
    DrainRecord nat
  | RunCleanups nat "kclosure cleanup list" "error list"
  | FinishRecord nat "error_kind option"
  | EvictMark nat nat type_key "string option"
  | EvictNotify nat nat type_key "string option" "nat option"
  | EvictConsumers "nat list" "nat list" nat type_key "string option" "nat option"
  | EvictEnd nat type_key "string option" "nat option"
  | ChildDispose nat
  | ChildJoined nat bool
  | JoinTask nat
  | FinishTask nat "error_kind option"
  | Post nat intent
  | Send nat intent
  | Recheck nat nat

text \<open>Those of the task that ends a subtree's shutdown (\<open>begin_subtree_shutdown_locked\<close>).\<close>

datatype shut_op =
    JoinInner nat nat "nat list" nat
  | JoinDriver nat "error_kind list" "nat list" nat
  | JoinChildren "error_kind list" "nat list" nat

datatype kop =
    LoadOp nat load_op
  | UnloadOp nat unload_op
  | DriveOp nat drive_op
  | ExitOp nat exit_op
  | CleanupOp cleanup_op
  | ShutOp shut_op

section \<open>Fibers\<close>

datatype plugin_source = NoPlugin | StaticPlugin | Factory nat

record status_changed =
  sc_plugin :: nat
  sc_seq :: nat
  sc_generation :: nat
  sc_from :: fiber_state
  sc_to :: fiber_state

record access =
  ac_key :: type_key
  ac_scope :: "string option"
  ac_provider :: "nat option"
  ac_generation :: "nat option"
  ac_declared :: bool
  ac_external :: bool
  ac_out_of_scope :: bool
  ac_strict :: bool
  ac_failure :: "read_failure option"

definition NOT_LIVE :: nat where
  "NOT_LIVE = u64_max"

text \<open>
  \<open>FiberInner\<close> with its \<open>Trans\<close>.  \<open>f_isolates\<close> lists the isolation scopes of
  the fiber's context and its parents, nearest first; \<open>f_token\<close> says whether
  the current generation's token is cancelled; \<open>f_receiver\<close>, whether the driver
  still holds the mailbox's receiver, so that a send succeeds.
\<close>

record fiber =
  f_instance :: nat
  f_name :: string
  f_row :: "string option"
  f_is_root :: bool
  f_platform :: bool
  f_source :: plugin_source
  f_config :: "nat option"
  f_isolates :: "(type_key \<times> string) list"
  f_parent :: "nat option"
  f_children :: "nat list"
  f_closing :: bool
  f_event_flights :: nat
  f_shutdown_task :: "nat option"
  f_shutdown_inner :: "nat option"
  f_token :: bool
  f_generation :: nat
  f_state :: fiber_state
  f_error :: "error_kind option"
  f_seq :: nat
  f_status_queue :: "status_changed list"
  f_terminal_task :: "nat option"
  f_pending_restarts :: nat
  f_pre_cancelled :: bool
  f_effects :: "nat list"
  f_drained_errors :: "error_kind list"
  f_mount :: "nat option"
  f_declared_injects :: "type_key list"
  f_intents :: "intent list"
  f_alive :: bool
  f_receiver :: bool
  f_live_generation :: nat
  f_provided :: "slot list"
  f_last_deps :: "dep set option"
  f_accesses :: "access list"
  f_waiting_watch :: "nat option"

section \<open>Bindings and the kernel\<close>

datatype value_slot = Fixed nat | Mutable nat

record binding =
  b_value :: value_slot
  b_provider :: nat
  b_provider_gen :: nat
  b_removing :: bool

text \<open>\<open>TaskDone\<close>: running, or done with an error or none.\<close>

datatype task_done = Running | TaskDone "error_kind option"

record kernel =
  k_fibers :: "nat \<Rightarrow> fiber option"
  k_bindings :: "slot \<Rightarrow> nat option"
  k_binding_heap :: "nat \<Rightarrow> binding"
  k_next_binding :: nat
  k_inject_index :: "type_key \<Rightarrow> nat list option"
  k_records :: "nat \<Rightarrow> kclosure effect_record"
  k_next_record :: nat
  k_tasks :: "nat \<Rightarrow> task_done"
  k_next_task :: nat
  k_closing :: bool
  k_shutdown_task :: "nat option"
  k_next_plugin_id :: nat
  k_next_instance :: nat
  k_sink :: "error_kind list"
  k_emitted :: "status_changed list"

section \<open>Access to the tables\<close>

definition set_fiber :: "nat \<Rightarrow> fiber \<Rightarrow> kernel \<Rightarrow> kernel" where
  "set_fiber i f k = k\<lparr>k_fibers := (k_fibers k)(i \<mapsto> f)\<rparr>"

definition mod_fiber :: "nat \<Rightarrow> (fiber \<Rightarrow> fiber) \<Rightarrow> kernel \<Rightarrow> kernel" where
  "mod_fiber i g k = (case k_fibers k i of None \<Rightarrow> k | Some f \<Rightarrow> set_fiber i (g f) k)"

definition report :: "error_kind \<Rightarrow> kernel \<Rightarrow> kernel" where
  "report e k = k\<lparr>k_sink := k_sink k @ [e]\<rparr>"

definition report_all :: "error_kind list \<Rightarrow> kernel \<Rightarrow> kernel" where
  "report_all es k = k\<lparr>k_sink := k_sink k @ es\<rparr>"

text \<open>\<open>TransitionTask::new\<close> and \<open>complete\<close>.\<close>

definition new_task :: "kernel \<Rightarrow> nat \<times> kernel" where
  "new_task k = (k_next_task k,
     k\<lparr>k_next_task := Suc (k_next_task k), k_tasks := (k_tasks k)(k_next_task k := Running)\<rparr>)"

definition complete :: "nat \<Rightarrow> error_kind option \<Rightarrow> kernel \<Rightarrow> kernel" where
  "complete t e k = k\<lparr>k_tasks := (k_tasks k)(t := TaskDone e)\<rparr>"

text \<open>\<open>complete_intent\<close>: the task an intent carries, if it carries one.\<close>

definition complete_intent :: "intent \<Rightarrow> error_kind option \<Rightarrow> kernel \<Rightarrow> kernel" where
  "complete_intent it e k = (case intent_task it of Some t \<Rightarrow> complete t e k | None \<Rightarrow> k)"

definition complete_opt :: "nat option \<Rightarrow> error_kind option \<Rightarrow> kernel \<Rightarrow> kernel" where
  "complete_opt t e k = (case t of Some t \<Rightarrow> complete t e k | None \<Rightarrow> k)"

text \<open>\<open>join_task\<close>: the result, once there is one (\<open>None\<close>: it waits).\<close>

definition task_result :: "nat \<Rightarrow> kernel \<Rightarrow> (error_kind + unit) option" where
  "task_result t k = (case k_tasks k t of
     Running \<Rightarrow> None
   | TaskDone (Some e) \<Rightarrow> Some (Inl e)
   | TaskDone None \<Rightarrow> Some (Inr ()))"

section \<open>Contexts: the walks up the tree\<close>

text \<open>
  The fibers from \<open>i\<close> up to the root, while they are there.  A parent has a
  smaller id than its children (\<open>next_plugin_id\<close> only grows), so \<open>Suc i\<close>
  steps reach the root (\<open>ancestors\<close>).
\<close>

fun ancestors_fuel :: "nat \<Rightarrow> kernel \<Rightarrow> nat \<Rightarrow> nat list" where
  "ancestors_fuel 0 k i = []"
| "ancestors_fuel (Suc n) k i =
     (case k_fibers k i of
        None \<Rightarrow> []
      | Some f \<Rightarrow> i # (case f_parent f of None \<Rightarrow> [] | Some p \<Rightarrow> ancestors_fuel n k p))"

definition ancestors :: "kernel \<Rightarrow> nat \<Rightarrow> nat list" where
  "ancestors k i = ancestors_fuel (Suc i) k i"

definition fiber_is :: "kernel \<Rightarrow> (fiber \<Rightarrow> bool) \<Rightarrow> nat \<Rightarrow> bool" where
  "fiber_is k P i = (case k_fibers k i of None \<Rightarrow> False | Some f \<Rightarrow> P f)"

definition in_instance :: "kernel \<Rightarrow> nat \<Rightarrow> nat \<Rightarrow> bool" where
  "in_instance k i inst \<longleftrightarrow>
     (\<exists>a \<in> set (ancestors k i). fiber_is k (\<lambda>f. f_instance f = inst) a)"

definition check_instance :: "kernel \<Rightarrow> nat \<Rightarrow> type_key \<Rightarrow> error_kind + unit" where
  "check_instance k i key = (case key_instance key of
     None \<Rightarrow> Inr ()
   | Some inst \<Rightarrow> if in_instance k i inst then Inr () else Inl (InstanceOutOfScope inst))"

definition in_instance_key :: "kernel \<Rightarrow> nat \<Rightarrow> type_key \<Rightarrow> bool" where
  "in_instance_key k i key \<longleftrightarrow> (case check_instance k i key of Inr _ \<Rightarrow> True | Inl _ \<Rightarrow> False)"

definition subtree_closing :: "kernel \<Rightarrow> nat \<Rightarrow> bool" where
  "subtree_closing k i \<longleftrightarrow>
     (\<exists>a \<in> set (ancestors k i). fiber_is k f_closing a)"

definition in_subtree_of :: "kernel \<Rightarrow> nat \<Rightarrow> nat \<Rightarrow> bool" where
  "in_subtree_of k i other \<longleftrightarrow> other \<in> set (ancestors k i)"

text \<open>\<open>scope_for\<close>: the nearest isolate of the key.\<close>

definition scope_for :: "(type_key \<times> string) list \<Rightarrow> type_key \<Rightarrow> string option" where
  "scope_for isolates key = map_of isolates key"

section \<open>Simplification of the accessors\<close>

lemma set_fiber_simps [simp]:
  "k_fibers (set_fiber i f k) = (k_fibers k)(i \<mapsto> f)"
  "k_closing (set_fiber i f k) = k_closing k"
  "k_tasks (set_fiber i f k) = k_tasks k"
  "k_emitted (set_fiber i f k) = k_emitted k"
  "k_bindings (set_fiber i f k) = k_bindings k"
  "k_binding_heap (set_fiber i f k) = k_binding_heap k"
  "k_inject_index (set_fiber i f k) = k_inject_index k"
  "k_records (set_fiber i f k) = k_records k"
  "k_next_task (set_fiber i f k) = k_next_task k"
  "k_next_record (set_fiber i f k) = k_next_record k"
  "k_next_binding (set_fiber i f k) = k_next_binding k"
  "k_sink (set_fiber i f k) = k_sink k"
  by (simp_all add: set_fiber_def)

lemma mod_fiber_simps [simp]:
  "k_fibers (mod_fiber i g k) = (k_fibers k)(i := map_option g (k_fibers k i))"
  "k_closing (mod_fiber i g k) = k_closing k"
  "k_tasks (mod_fiber i g k) = k_tasks k"
  "k_emitted (mod_fiber i g k) = k_emitted k"
  "k_bindings (mod_fiber i g k) = k_bindings k"
  "k_binding_heap (mod_fiber i g k) = k_binding_heap k"
  "k_inject_index (mod_fiber i g k) = k_inject_index k"
  "k_records (mod_fiber i g k) = k_records k"
  "k_next_task (mod_fiber i g k) = k_next_task k"
  "k_next_record (mod_fiber i g k) = k_next_record k"
  "k_next_binding (mod_fiber i g k) = k_next_binding k"
  "k_sink (mod_fiber i g k) = k_sink k"
  by (auto simp: mod_fiber_def fun_eq_iff split: option.split)

lemma report_simps [simp]:
  "k_fibers (report e k) = k_fibers k" "k_tasks (report e k) = k_tasks k"
  "k_closing (report e k) = k_closing k" "k_emitted (report e k) = k_emitted k"
  "k_bindings (report e k) = k_bindings k" "k_binding_heap (report e k) = k_binding_heap k"
  "k_records (report e k) = k_records k" "k_inject_index (report e k) = k_inject_index k"
  "k_fibers (report_all es k) = k_fibers k" "k_tasks (report_all es k) = k_tasks k"
  "k_closing (report_all es k) = k_closing k" "k_emitted (report_all es k) = k_emitted k"
  "k_bindings (report_all es k) = k_bindings k"
  "k_binding_heap (report_all es k) = k_binding_heap k"
  "k_records (report_all es k) = k_records k"
  "k_inject_index (report_all es k) = k_inject_index k"
  by (simp_all add: report_def report_all_def)

lemma complete_simps [simp]:
  "k_fibers (complete t e k) = k_fibers k" "k_closing (complete t e k) = k_closing k"
  "k_emitted (complete t e k) = k_emitted k" "k_bindings (complete t e k) = k_bindings k"
  "k_binding_heap (complete t e k) = k_binding_heap k"
  "k_records (complete t e k) = k_records k"
  "k_inject_index (complete t e k) = k_inject_index k"
  "k_tasks (complete t e k) = (k_tasks k)(t := TaskDone e)"
  by (simp_all add: complete_def)

lemma complete_intent_simps [simp]:
  "k_fibers (complete_intent it e k) = k_fibers k"
  "k_closing (complete_intent it e k) = k_closing k"
  "k_emitted (complete_intent it e k) = k_emitted k"
  "k_bindings (complete_intent it e k) = k_bindings k"
  "k_binding_heap (complete_intent it e k) = k_binding_heap k"
  by (auto simp: complete_intent_def split: option.split)

lemma complete_opt_simps [simp]:
  "k_fibers (complete_opt t e k) = k_fibers k"
  "k_closing (complete_opt t e k) = k_closing k"
  "k_emitted (complete_opt t e k) = k_emitted k"
  "k_bindings (complete_opt t e k) = k_bindings k"
  by (auto simp: complete_opt_def split: option.split)

lemma new_task_simps [simp]:
  "k_fibers (snd (new_task k)) = k_fibers k"
  "k_closing (snd (new_task k)) = k_closing k"
  "k_emitted (snd (new_task k)) = k_emitted k"
  "k_bindings (snd (new_task k)) = k_bindings k"
  "fst (new_task k) = k_next_task k"
  by (simp_all add: new_task_def)

end
