(* ===== verification/Registry.thy ===== *)
theory Registry
  imports Kernel_State
begin

text \<open>
  The service registry, \<open>crates/rutis/src/registry.rs\<close>: the binding table,
  the index of the fibers that declare each key, and gated resolution.  A
  binding is a number into the binding heap; the table maps a slot to it.

  The contract the rest of the kernel relies on is the locale
  \<open>binding_table\<close>: a provide never displaces a live binding, and a
  withdrawal removes its own binding only.
\<close>

section \<open>Operations\<close>

text \<open>\<open>holder\<close>: how a message names who holds a binding.\<close>

definition holder :: "kernel \<Rightarrow> binding \<Rightarrow> string" where
  "holder k b = (case k_fibers k (b_provider b) of
     None \<Rightarrow> ''another plugin''
   | Some f \<Rightarrow> (case f_row f of
        Some row \<Rightarrow> row
      | None \<Rightarrow> if f_parent f = None then ''the host'' else f_name f))"

text \<open>\<open>service::taken_message\<close>.\<close>

definition taken_message :: "string \<Rightarrow> string \<Rightarrow> string" where
  "taken_message name hold =
     (let hold' = (case strip_prefix ''row '' hold of Some h \<Rightarrow> h | None \<Rightarrow> hold)
      in if hold' = ''the host''
         then name @ '' is already provided by the host: rename it''
         else name @ '' is already provided by '' @ hold' @ '': rename one of them'')"

definition insert_binding ::
  "slot \<Rightarrow> binding \<Rightarrow> string \<Rightarrow> kernel \<Rightarrow> error_kind + nat \<times> kernel" where
  "insert_binding sl b name k =
     (let put = (k_next_binding k,
          k\<lparr>k_bindings := (k_bindings k)(sl \<mapsto> k_next_binding k),
            k_binding_heap := (k_binding_heap k)(k_next_binding k := b),
            k_next_binding := Suc (k_next_binding k)\<rparr>)
      in case k_bindings k sl of
           None \<Rightarrow> Inr put
         | Some old \<Rightarrow>
             if \<not> b_removing (k_binding_heap k old)
             then Inl (ServiceExists (taken_message name (holder k (k_binding_heap k old))))
             else Inr put)"

definition lookup_binding :: "slot \<Rightarrow> kernel \<Rightarrow> nat option" where
  "lookup_binding sl k = k_bindings k sl"

text \<open>
  \<open>replace_mutable_if_current\<close>: the old value on success, the candidate
  value back on failure.
\<close>

definition replace_mutable_if_current ::
  "slot \<Rightarrow> nat \<Rightarrow> nat \<Rightarrow> kernel \<Rightarrow> (nat + nat) \<times> kernel" where
  "replace_mutable_if_current sl expected v k =
     (case k_bindings k sl of
        None \<Rightarrow> (Inl v, k)
      | Some cur \<Rightarrow>
          if cur \<noteq> expected \<or> b_removing (k_binding_heap k cur) then (Inl v, k)
          else (case b_value (k_binding_heap k cur) of
                  Fixed _ \<Rightarrow> (Inl v, k)
                | Mutable old \<Rightarrow>
                    (Inr old,
                     k\<lparr>k_binding_heap := (k_binding_heap k)
                        (cur := (k_binding_heap k cur)\<lparr>b_value := Mutable v\<rparr>)\<rparr>)))"

definition mark_removing_if :: "slot \<Rightarrow> nat \<Rightarrow> kernel \<Rightarrow> kernel" where
  "mark_removing_if sl expected k =
     (if k_bindings k sl = Some expected
      then k\<lparr>k_binding_heap := (k_binding_heap k)
              (expected := (k_binding_heap k expected)\<lparr>b_removing := True\<rparr>)\<rparr>
      else k)"

definition binding_status :: "kernel \<Rightarrow> binding \<Rightarrow> dependency_status" where
  "binding_status k b =
     (if b_removing b then Removing
      else case k_fibers k (b_provider b) of
             None \<Rightarrow> Missing
           | Some p \<Rightarrow> if f_state p \<noteq> Active then ProviderInactive (f_state p) else Ready)"

definition dependency_status :: "slot \<Rightarrow> kernel \<Rightarrow> dependency_status" where
  "dependency_status sl k = (case lookup_binding sl k of
     None \<Rightarrow> Missing
   | Some b \<Rightarrow> binding_status k (k_binding_heap k b))"

definition finalize_binding_if :: "slot \<Rightarrow> nat \<Rightarrow> kernel \<Rightarrow> bool \<times> kernel" where
  "finalize_binding_if sl expected k =
     (if k_bindings k sl = Some expected
      then (True, k\<lparr>k_bindings := (k_bindings k)(sl := None)\<rparr>)
      else (False, k))"

text \<open>\<open>consumers_of\<close>: declared on the key, and bound to exactly this binding.\<close>

definition consumers_of :: "type_key \<Rightarrow> dep \<Rightarrow> kernel \<Rightarrow> nat list" where
  "consumers_of key quad k =
     (case k_inject_index k key of
        None \<Rightarrow> []
      | Some l \<Rightarrow> filter (\<lambda>i. case k_fibers k i of
            None \<Rightarrow> False
          | Some f \<Rightarrow> (case f_last_deps f of None \<Rightarrow> False | Some deps \<Rightarrow> quad \<in> deps)) l)"

definition register_inject :: "type_key \<Rightarrow> nat \<Rightarrow> kernel \<Rightarrow> kernel" where
  "register_inject key i k = k\<lparr>k_inject_index := (k_inject_index k)
     (key \<mapsto> (case k_inject_index k key of None \<Rightarrow> [] | Some l \<Rightarrow> l) @ [i])\<rparr>"

text \<open>A key whose list becomes empty leaves the index.\<close>

definition unregister_inject :: "nat \<Rightarrow> type_key \<Rightarrow> kernel \<Rightarrow> kernel" where
  "unregister_inject i key k = (case k_inject_index k key of
     None \<Rightarrow> k
   | Some l \<Rightarrow>
       (let l' = filter (\<lambda>j. j \<noteq> i) l
        in k\<lparr>k_inject_index := (k_inject_index k)(key := if l' = [] then None else Some l')\<rparr>))"

definition unregister_injects :: "nat \<Rightarrow> type_key list \<Rightarrow> kernel \<Rightarrow> kernel" where
  "unregister_injects i keys k = fold (unregister_inject i) keys k"

definition resolve_dep :: "slot \<Rightarrow> kernel \<Rightarrow> (nat \<times> nat) option" where
  "resolve_dep sl k = (case lookup_binding sl k of
     None \<Rightarrow> None
   | Some n \<Rightarrow>
       (let b = k_binding_heap k n in
        if b_removing b then None
        else case k_fibers k (b_provider b) of
               None \<Rightarrow> None
             | Some p \<Rightarrow>
                 if f_state p \<noteq> Active then None
                 else Some (b_provider b, b_provider_gen b)))"

section \<open>The contract\<close>

locale binding_table =
  fixes insert_b :: "slot \<Rightarrow> 'b \<Rightarrow> 'r \<Rightarrow> (nat \<times> 'r) option"
    and lookup_b :: "slot \<Rightarrow> 'r \<Rightarrow> nat option"
    and removing_b :: "nat \<Rightarrow> 'r \<Rightarrow> bool"
    and mark_b :: "slot \<Rightarrow> nat \<Rightarrow> 'r \<Rightarrow> 'r"
    and finalize_b :: "slot \<Rightarrow> nat \<Rightarrow> 'r \<Rightarrow> 'r"
    and wf_b :: "'r \<Rightarrow> bool"
  assumes insert_refused:
      "lookup_b sl r = Some o' \<Longrightarrow> \<not> removing_b o' r \<Longrightarrow> insert_b sl b r = None"
    and insert_free:
      "lookup_b sl r = None \<or> lookup_b sl r = Some o' \<and> removing_b o' r \<Longrightarrow>
       \<exists>n r'. insert_b sl b r = Some (n, r')"
    and lookup_insert:
      "insert_b sl b r = Some (n, r') \<Longrightarrow>
       lookup_b sl' r' = (if sl' = sl then Some n else lookup_b sl' r)"
    and insert_fresh:
      "wf_b r \<Longrightarrow> insert_b sl b r = Some (n, r') \<Longrightarrow> lookup_b sl' r \<noteq> Some n"
    and lookup_mark: "lookup_b sl' (mark_b sl n r) = lookup_b sl' r"
    and removing_mark: "lookup_b sl r = Some n \<Longrightarrow> removing_b n (mark_b sl n r)"
    and lookup_finalize:
      "lookup_b sl' (finalize_b sl n r) =
         (if sl' = sl \<and> lookup_b sl r = Some n then None else lookup_b sl' r)"
    and wf_insert: "wf_b r \<Longrightarrow> insert_b sl b r = Some (n, r') \<Longrightarrow> wf_b r'"
    and wf_mark: "wf_b r \<Longrightarrow> wf_b (mark_b sl n r)"
    and wf_finalize: "wf_b r \<Longrightarrow> wf_b (finalize_b sl n r)"
begin

text \<open>The slot of a binding being withdrawn can be provided again at once.\<close>

lemma reinsert_during_removal:
  assumes "lookup_b sl r = Some n"
  shows "\<exists>m r'. insert_b sl b (mark_b sl n r) = Some (m, r')"
proof (rule insert_free [of _ _ n])
  show "lookup_b sl (mark_b sl n r) = None \<or>
    lookup_b sl (mark_b sl n r) = Some n \<and> removing_b n (mark_b sl n r)"
    using assms by (simp add: lookup_mark removing_mark)
qed

text \<open>A withdrawal that ends later leaves the new binding alone.\<close>

lemma finalize_keeps_replacement:
  assumes "wf_b r" and "lookup_b sl r = Some n"
    and "insert_b sl b (mark_b sl n r) = Some (m, r')"
  shows "lookup_b sl (finalize_b sl n r') = Some m"
proof -
  have "m \<noteq> n"
    using insert_fresh [OF wf_mark [OF assms(1)] assms(3), of sl] assms(2) by (auto simp: lookup_mark)
  moreover have "lookup_b sl r' = Some m" using lookup_insert [OF assms(3)] by simp
  ultimately show ?thesis by (simp add: lookup_finalize)
qed

lemma finalize_removes: "lookup_b sl (finalize_b sl n r) \<noteq> Some n"
  by (simp add: lookup_finalize)

lemma finalize_frame: "sl' \<noteq> sl \<Longrightarrow> lookup_b sl' (finalize_b sl n r) = lookup_b sl' r"
  by (simp add: lookup_finalize)

lemma insert_preserves_live:
  assumes "insert_b sl b r = Some (n, r')" and "lookup_b sl' r = Some o'" and "\<not> removing_b o' r"
  shows "lookup_b sl' r' = Some o'"
proof -
  have "sl' \<noteq> sl" using assms insert_refused [of sl r o' b] by auto
  then show ?thesis using lookup_insert [OF assms(1)] assms(2) by simp
qed

end

definition insert_opt :: "slot \<Rightarrow> binding \<times> string \<Rightarrow> kernel \<Rightarrow> (nat \<times> kernel) option" where
  "insert_opt sl bn k = (case insert_binding sl (fst bn) (snd bn) k of
     Inl _ \<Rightarrow> None | Inr r \<Rightarrow> Some r)"

text \<open>Binding numbers in the table are below the next one.\<close>

definition table_wf :: "kernel \<Rightarrow> bool" where
  "table_wf k \<longleftrightarrow> (\<forall>sl n. k_bindings k sl = Some n \<longrightarrow> n < k_next_binding k)"

lemma insert_opt_next: "insert_opt sl b k = Some (n, k') \<Longrightarrow> n = k_next_binding k"
  by (auto simp: insert_opt_def insert_binding_def Let_def split: option.splits if_splits)

interpretation reg: binding_table insert_opt lookup_binding
  "\<lambda>n k. b_removing (k_binding_heap k n)" mark_removing_if
  "\<lambda>sl n k. snd (finalize_binding_if sl n k)" table_wf
proof (unfold_locales, goal_cases)
  case (1 sl r o' b)
  then show ?case by (simp add: insert_opt_def insert_binding_def lookup_binding_def)
next
  case (2 sl r o' b)
  then show ?case by (auto simp: insert_opt_def insert_binding_def lookup_binding_def Let_def)
next
  case (3 sl b r n r' sl')
  then show ?case
    by (auto simp: insert_opt_def insert_binding_def lookup_binding_def Let_def
        split: option.splits if_splits)
next
  case (4 r sl b n r' sl')
  then show ?case unfolding lookup_binding_def table_wf_def by (metis insert_opt_next less_irrefl)
next
  case (8 r sl b n r')
  then show ?case
    by (fastforce simp: insert_opt_def insert_binding_def table_wf_def Let_def less_Suc_eq
        split: option.splits if_splits)
qed (auto simp: lookup_binding_def mark_removing_if_def finalize_binding_if_def table_wf_def)

section \<open>Lemmas\<close>

lemma resolve_dep_Some:
  "resolve_dep sl k = Some (p, g) \<longleftrightarrow>
     (\<exists>n f. k_bindings k sl = Some n \<and> \<not> b_removing (k_binding_heap k n) \<and>
        b_provider (k_binding_heap k n) = p \<and> b_provider_gen (k_binding_heap k n) = g \<and>
        k_fibers k p = Some f \<and> f_state f = Active)"
  by (auto simp: resolve_dep_def lookup_binding_def Let_def split: option.splits)

lemma resolve_dep_ready:
  "resolve_dep sl k \<noteq> None \<longleftrightarrow> dependency_status sl k = Ready"
  by (auto simp: resolve_dep_def dependency_status_def binding_status_def lookup_binding_def Let_def
      split: option.splits)

lemma consumers_of_bound:
  "i \<in> set (consumers_of key quad k) \<longleftrightarrow>
     (\<exists>l f deps. k_inject_index k key = Some l \<and> i \<in> set l \<and> k_fibers k i = Some f \<and>
        f_last_deps f = Some deps \<and> quad \<in> deps)"
  by (cases "k_inject_index k key") (auto simp: consumers_of_def split: option.splits)

lemma unregister_inject_index:
  "k_inject_index (unregister_inject i key k) key' =
     (if key' = key then (case k_inject_index k key of
         None \<Rightarrow> None
       | Some l \<Rightarrow> if filter (\<lambda>j. j \<noteq> i) l = [] then None else Some (filter (\<lambda>j. j \<noteq> i) l))
      else k_inject_index k key')"
  by (auto simp: unregister_inject_def Let_def split: option.split)

text \<open>No list of the index is empty, and none names a fiber after it left.\<close>

definition index_wf :: "kernel \<Rightarrow> bool" where
  "index_wf k \<longleftrightarrow> (\<forall>key. k_inject_index k key \<noteq> Some [])"

lemma index_wf_register: "index_wf k \<Longrightarrow> index_wf (register_inject key i k)"
  by (auto simp: index_wf_def register_inject_def)

lemma index_wf_unregister_inject: "index_wf k \<Longrightarrow> index_wf (unregister_inject i key k)"
  by (auto simp: index_wf_def unregister_inject_index split: option.splits if_splits)

lemma index_wf_unregister: "index_wf k \<Longrightarrow> index_wf (unregister_injects i keys k)"
  by (induction keys arbitrary: k) (auto simp: unregister_injects_def index_wf_unregister_inject)

lemma unregister_injects_gone:
  "(\<And>l. k_inject_index k key = Some l \<Longrightarrow> i \<in> set l \<Longrightarrow> key \<in> set keys) \<Longrightarrow>
   k_inject_index (unregister_injects i keys k) key = Some l \<Longrightarrow> i \<notin> set l"
proof (induction keys arbitrary: k)
  case Nil
  then show ?case by (auto simp: unregister_injects_def)
next
  case (Cons a keys)
  have eq: "unregister_injects i (a # keys) k = unregister_injects i keys (unregister_inject i a k)"
    by (simp add: unregister_injects_def)
  show ?case
  proof (rule Cons.IH [OF _ Cons.prems(2) [unfolded eq]])
    fix l assume "k_inject_index (unregister_inject i a k) key = Some l" "i \<in> set l"
    then show "key \<in> set keys"
      using Cons.prems(1) by (auto simp: unregister_inject_index split: option.splits if_splits)
  qed
qed

end
