(* ===== verification/Fiber_Ops.thy ===== *)
theory Fiber_Ops
  imports Registry
begin

text \<open>
  A fiber's operations, \<open>crates/rutis/src/fiber.rs\<close>: state changes and their
  status events, posting an intent, dependency resolution, and the sections
  of \<open>refresh_deps\<close>, \<open>load\<close>, \<open>fail_load\<close> and \<open>unload\<close>.

  A section takes the kernel and gives the kernel after it and the sections
  that follow it on the same thread; \<open>None\<close> means that it waits.  What user
  code does (\<open>build\<close>, \<open>validate\<close>, \<open>apply\<close>, cleanups) and whether a deadline
  has passed are in the environment \<open>env\<close>.

  Not modelled: the copies of plugin definitions that \<open>drain_effects\<close> ends
  first (\<open>definition.rs\<close>), and the capacity of the lists (\<open>shrink_to_fit\<close>).
\<close>

section \<open>The environment\<close>

datatype 'a call = Returns 'a | Fails error | Panics "string option"

record env =
  en_build :: "unit call"
  en_validate :: "unit call"
  en_apply :: "nat effect call"
  en_cleanups :: "nat callbacks"
  en_deadline :: "nat option"

text \<open>\<open>catch_unwind\<close> around a call: a panic becomes an error.\<close>

fun call_error :: "'a call \<Rightarrow> error option" where
  "call_error (Returns _) = None"
| "call_error (Fails e) = Some e"
| "call_error (Panics p) = Some (panic_error p)"

section \<open>State changes\<close>

definition publish_live :: "fiber \<Rightarrow> fiber" where
  "publish_live f = f\<lparr>f_live_generation :=
     (case f_state f of
        Loading \<Rightarrow> f_generation f
      | Active \<Rightarrow> f_generation f
      | _ \<Rightarrow> NOT_LIVE)\<rparr>"

definition set_state :: "nat \<Rightarrow> fiber_state \<Rightarrow> fiber \<Rightarrow> fiber" where
  "set_state i new f =
     (let old = f_state f in
      if old = new then publish_live f
      else
        let f1 = publish_live (f\<lparr>f_state := new\<rparr>);
            f2 = f1\<lparr>f_seq := Suc (f_seq f1)\<rparr>
        in f2\<lparr>f_status_queue := f_status_queue f2 @
               [\<lparr>sc_plugin = i, sc_seq = f_seq f2, sc_generation = f_generation f2,
                 sc_from = old, sc_to = new\<rparr>]\<rparr>)"

text \<open>\<open>flush_status\<close>: the queued events, taken and emitted in order.\<close>

definition flush_status :: "nat \<Rightarrow> kernel \<Rightarrow> kernel" where
  "flush_status i k = (case k_fibers k i of
     None \<Rightarrow> k
   | Some f \<Rightarrow>
       (set_fiber i (f\<lparr>f_status_queue := []\<rparr>) k)
         \<lparr>k_emitted := k_emitted k @ f_status_queue f\<rparr>)"

definition pre_cancel :: "fiber \<Rightarrow> fiber" where
  "pre_cancel f = f\<lparr>f_pre_cancelled := True, f_token := True\<rparr>"

definition cancel_current :: "fiber \<Rightarrow> fiber" where
  "cancel_current f = f\<lparr>f_token := True\<rparr>"

definition terminal_registered :: "fiber \<Rightarrow> bool" where
  "terminal_registered f \<longleftrightarrow> \<not> f_is_root f \<and> f_terminal_task f \<noteq> None"

definition display_name :: "fiber \<Rightarrow> string" where
  "display_name f = (case f_row f of Some row \<Rightarrow> row | None \<Rightarrow> f_name f)"

definition begin_event :: "fiber \<Rightarrow> fiber" where
  "begin_event f = f\<lparr>f_event_flights := Suc (f_event_flights f)\<rparr>"

definition finish_event :: "fiber \<Rightarrow> fiber" where
  "finish_event f = f\<lparr>f_event_flights := f_event_flights f - 1\<rparr>"

text \<open>\<open>push_effect\<close>: a new record of the fiber, at the end of its list.\<close>

definition push_effect :: "nat \<Rightarrow> kclosure effect_record \<Rightarrow> kernel \<Rightarrow> nat \<times> kernel" where
  "push_effect i r k =
     (let n = k_next_record k;
          k1 = k\<lparr>k_records := (k_records k)(n := r), k_next_record := Suc n\<rparr>
      in (n, mod_fiber i (\<lambda>f. f\<lparr>f_effects := f_effects f @ [n]\<rparr>) k1))"

section \<open>Posting\<close>

definition stopped_error :: "kernel \<Rightarrow> fiber \<Rightarrow> error_kind option" where
  "stopped_error k f = (case f_error f of
     Some e \<Rightarrow> Some e
   | None \<Rightarrow> if k_closing k then Some Closed else None)"

text \<open>
  \<open>post\<close>: refused by a stopped driver, whose task then completes at once;
  otherwise the send follows.
\<close>

definition post :: "nat \<Rightarrow> intent \<Rightarrow> kernel \<Rightarrow> kernel \<times> kop list" where
  "post i it k = (case k_fibers k i of
     None \<Rightarrow> (k, [])
   | Some f \<Rightarrow>
       if \<not> f_alive f then (complete_intent it (stopped_error k f) k, [])
       else (k, [CleanupOp (Send i it)]))"

definition send :: "nat \<Rightarrow> intent \<Rightarrow> kernel \<Rightarrow> kernel" where
  "send i it k = (case k_fibers k i of
     None \<Rightarrow> k
   | Some f \<Rightarrow>
       if f_receiver f then set_fiber i (f\<lparr>f_intents := f_intents f @ [it]\<rparr>) k
       else complete_intent it (stopped_error k f) k)"

text \<open>\<open>post_join_to\<close>: the same, and the driver's flag is read again after the send.\<close>

definition post_join :: "nat \<Rightarrow> nat \<Rightarrow> (nat \<Rightarrow> intent) \<Rightarrow> kernel \<Rightarrow> kernel \<times> kop list" where
  "post_join i t mk k = (case k_fibers k i of
     None \<Rightarrow> (k, [])
   | Some f \<Rightarrow>
       if \<not> f_alive f then (complete t (stopped_error k f) k, [])
       else (k, [CleanupOp (Send i (mk t)), CleanupOp (Recheck i t)]))"

definition recheck :: "nat \<Rightarrow> nat \<Rightarrow> kernel \<Rightarrow> kernel" where
  "recheck i t k = (case k_fibers k i of
     None \<Rightarrow> k
   | Some f \<Rightarrow> if \<not> f_alive f then complete t (stopped_error k f) k else k)"

text \<open>\<open>notify_key_changed\<close>: a re-check for every fiber that injects the key.\<close>

fun post_all :: "nat list \<Rightarrow> intent \<Rightarrow> kernel \<Rightarrow> kernel \<times> kop list" where
  "post_all [] it k = (k, [])"
| "post_all (i # is) it k =
     (let (k1, ops1) = post i it k; (k2, ops2) = post_all is it k1 in (k2, ops1 @ ops2))"

definition notify_key_changed :: "type_key \<Rightarrow> kernel \<Rightarrow> kernel \<times> kop list" where
  "notify_key_changed key k =
     (case k_inject_index k key of
        None \<Rightarrow> (k, [])
      | Some l \<Rightarrow> post_all (filter (\<lambda>i. k_fibers k i \<noteq> None) l) RefreshDeps k)"

fun notify_keys :: "type_key list \<Rightarrow> kernel \<Rightarrow> kernel \<times> kop list" where
  "notify_keys [] k = (k, [])"
| "notify_keys (key # keys) k =
     (let (k1, ops1) = notify_key_changed key k; (k2, ops2) = notify_keys keys k1
      in (k2, ops1 @ ops2))"

section \<open>Dependencies\<close>

fun resolve_keys ::
  "kernel \<Rightarrow> nat \<Rightarrow> (type_key \<times> string) list \<Rightarrow> type_key list \<Rightarrow> dep set \<times> type_key list" where
  "resolve_keys k i isolates [] = ({}, [])"
| "resolve_keys k i isolates (key # keys) =
     (let (satisfied, missing) = resolve_keys k i isolates keys in
      case check_instance k i key of
        Inl _ \<Rightarrow> (satisfied, key # missing)
      | Inr _ \<Rightarrow>
          (let scope = scope_for isolates key in
           case resolve_dep (key, scope) k of
             Some (p, g) \<Rightarrow> (insert (p, g, key, scope) satisfied, missing)
           | None \<Rightarrow> (satisfied, key # missing)))"

definition resolve_deps :: "kernel \<Rightarrow> nat \<Rightarrow> fiber \<Rightarrow> dep set \<times> type_key list" where
  "resolve_deps k i f = resolve_keys k i (f_isolates f) (f_declared_injects f)"

fun unavailable :: "read_failure \<Rightarrow> bool" where
  "unavailable (RfUnavailable _) = True"
| "unavailable _ = False"

definition read_a_lost_dependency :: "fiber \<Rightarrow> bool" where
  "read_a_lost_dependency f \<longleftrightarrow>
     (\<exists>a \<in> set (f_accesses f). ac_strict a \<and>
        (case ac_failure a of Some r \<Rightarrow> unavailable r | None \<Rightarrow> False) \<and>
        ac_key a \<in> set (f_declared_injects f))"

definition reports_a_lost_dependency :: "fiber \<Rightarrow> error \<Rightarrow> bool" where
  "reports_a_lost_dependency f e \<longleftrightarrow>
     (case e_kind e of
        InjectUnsatisfied _ \<Rightarrow> True
      | ServiceRead r \<Rightarrow> unavailable (re_reason r) \<and> re_key r \<in> set (f_declared_injects f)
      | _ \<Rightarrow> False) \<and> read_a_lost_dependency f"

section \<open>Dependency checks and loads\<close>

definition refresh_deps :: "nat \<Rightarrow> fiber \<Rightarrow> kernel \<Rightarrow> load_op list \<times> unload_op list \<times> load_op list" where
  "refresh_deps i f k =
     (if f_closing f \<or> k_closing k then ([], [], [])
      else if f_source f = NoPlugin then ([], [], [])
      else if f_state f = Disposed then ([], [], [])
      else if terminal_registered f then ([UnloadForDispose], [], [])
      else
        let (satisfied, missing) = resolve_deps k i f;
            loaded = (f_state f \<noteq> Pending \<and> f_state f \<noteq> Disposed)
        in if missing \<noteq> [] then
             ([], if f_state f = Active \<or> f_state f = Loading then [Unload NextPending] else [],
              [WatchWaiting])
           else if f_last_deps f = Some satisfied then ([], [], [])
           else ([], if loaded then [Unload NextPending] else [], [Load satisfied]))"

definition refresh_ops :: "nat \<Rightarrow> load_op list \<times> unload_op list \<times> load_op list \<Rightarrow> kop list" where
  "refresh_ops i ops =
     (let (a, b, c) = ops
      in map (LoadOp i) a @ map (UnloadOp i) b @ map (LoadOp i) c)"

definition watch_waiting :: "fiber \<Rightarrow> fiber" where
  "watch_waiting f =
     (if f_is_root f \<or> f_state f \<noteq> Pending then f
      else if f_waiting_watch f = Some (f_generation f) then f
      else f\<lparr>f_waiting_watch := Some (f_generation f)\<rparr>)"

text \<open>
  \<open>load\<close>, its first section: under the admission and transition locks, a new
  generation with its own token starts, unless the fiber is ending.
\<close>

definition start_generation :: "nat \<Rightarrow> fiber \<Rightarrow> fiber" where
  "start_generation i f =
     (let stopping = f_pending_restarts f > 0
      in set_state i Loading
           (f\<lparr>f_token := stopping, f_pre_cancelled := stopping,
              f_generation := Suc (f_generation f), f_error := None\<rparr>))"

definition load_start :: "nat \<Rightarrow> fiber \<Rightarrow> dep set \<Rightarrow> kernel \<Rightarrow> kernel \<times> kop list" where
  "load_start i f deps k =
     (if f_closing f \<or> k_closing k then (k, [])
      else if f_terminal_task f \<noteq> None then (k, [])
      else (flush_status i (set_fiber i ((start_generation i f)\<lparr>f_accesses := []\<rparr>) k),
            [LoadOp i (RecordDeps deps)]))"

text \<open>The gate is checked again once the dependencies are recorded.\<close>

definition load_gate :: "nat \<Rightarrow> fiber \<Rightarrow> dep set \<Rightarrow> kernel \<Rightarrow> kop list" where
  "load_gate i f deps k =
     (let (now, missing) = resolve_deps k i f in
      if missing \<noteq> [] \<or> now \<noteq> deps
      then [UnloadOp i (Unload NextPending), DriveOp i Flush] @
           (if missing \<noteq> [] then [LoadOp i WatchWaiting] else [])
      else [LoadOp i (Build deps)])"

text \<open>\<open>current_plugin\<close>: the static plugin, or one built from the config.\<close>

definition current_plugin :: "env \<Rightarrow> fiber \<Rightarrow> error option" where
  "current_plugin en f = (case f_source f of
     StaticPlugin \<Rightarrow> None
   | NoPlugin \<Rightarrow> Some (error_new (PluginFailed ''fiber has no plugin or factory'') False)
   | Factory _ \<Rightarrow>
       (case f_config f of
          None \<Rightarrow> Some (error_new (PluginFailed ''factory fiber has no config'') False)
        | Some _ \<Rightarrow> call_error (en_build en)))"

definition load_build :: "env \<Rightarrow> nat \<Rightarrow> fiber \<Rightarrow> dep set \<Rightarrow> kop list" where
  "load_build en i f deps = (case current_plugin en f of
     None \<Rightarrow> [LoadOp i (Validate deps)]
   | Some e \<Rightarrow> [LoadOp i (FailLoad e deps)])"

definition load_validate :: "env \<Rightarrow> nat \<Rightarrow> dep set \<Rightarrow> kop list" where
  "load_validate en i deps = (case call_error (en_validate en) of
     None \<Rightarrow> [LoadOp i (Apply deps)]
   | Some e \<Rightarrow> [LoadOp i (FailLoad e deps)])"

text \<open>\<open>apply\<close> returned: its cleanup is recorded, or the load is rolled back.\<close>

definition apply_returned :: "env \<Rightarrow> nat \<Rightarrow> fiber \<Rightarrow> dep set \<Rightarrow> kernel \<Rightarrow> kernel \<times> kop list" where
  "apply_returned en i f deps k =
     (case en_apply en of
        Returns eff \<Rightarrow>
          (snd (push_effect i (record_from (map_effect UserCleanup eff)
                  (''plugin apply: '' @ f_name f) OApply i) k),
           if f_closing f then [UnloadOp i (Unload NextDisposed)]
           else [LoadOp i Adopt, LoadOp i Activate, LoadOp i NotifyProvided, DriveOp i Flush])
      | Fails e \<Rightarrow>
          (k, if reports_a_lost_dependency f e
              then [UnloadOp i (Unload NextPending), LoadOp i RepostIfReady, DriveOp i Flush]
              else [LoadOp i (FailLoad e deps), DriveOp i Flush])
      | Panics p \<Rightarrow>
          (k, if reports_a_lost_dependency f (panic_error p)
              then [UnloadOp i (Unload NextPending), LoadOp i RepostIfReady, DriveOp i Flush]
              else [LoadOp i (FailLoad (panic_error p) deps), DriveOp i Flush]))"

definition adopt_deps :: "nat \<Rightarrow> fiber \<Rightarrow> kernel \<Rightarrow> kernel" where
  "adopt_deps i f k =
     (let (fresh, missing) = resolve_deps k i f in
      if missing = [] then set_fiber i (f\<lparr>f_last_deps := Some fresh\<rparr>) k else k)"

definition activate :: "nat \<Rightarrow> fiber \<Rightarrow> fiber" where
  "activate i f = set_state i Active (f\<lparr>f_error := None\<rparr>)"

text \<open>
  \<open>fail_load\<close>: a generation the driver pre-cancelled is no failed start; it
  unloads, to \<open>Disposed\<close> when its end is registered.
\<close>

definition fail_load :: "nat \<Rightarrow> fiber \<Rightarrow> error \<Rightarrow> dep set \<Rightarrow> kernel \<Rightarrow> kernel \<times> kop list" where
  "fail_load i f e deps k =
     (if f_pre_cancelled f then
        (if is_panic e then report (shared e) k else k,
         [UnloadOp i (Unload (if f_terminal_task f \<noteq> None then NextDisposed else NextPending))])
      else (flush_status i (set_fiber i (set_state i Unloading f) k), [LoadOp i (FailStop e deps)]))"

definition fail_stop :: "nat \<Rightarrow> fiber \<Rightarrow> error \<Rightarrow> dep set \<Rightarrow> kernel \<Rightarrow> kernel \<times> kop list" where
  "fail_stop i f e deps k =
     (let stopping = (f_token f \<or> f_closing f \<or> k_closing k)
      in (set_fiber i (cancel_current f) k,
          [UnloadOp i WaitEvents, UnloadOp i (TakeEffects (ForFailedLoad e deps stopping))]))"

definition exec_load :: "env \<Rightarrow> nat \<Rightarrow> load_op \<Rightarrow> fiber \<Rightarrow> kernel \<Rightarrow> kernel \<times> kop list" where
  "exec_load en i lo f k = (case lo of
     Refresh \<Rightarrow> (k, refresh_ops i (refresh_deps i f k))
   | UnloadForDispose \<Rightarrow>
       (k, if f_state f \<noteq> Disposed then [UnloadOp i (Unload NextDisposed)] else [])
   | WatchWaiting \<Rightarrow> (set_fiber i (watch_waiting f) k, [])
   | Load deps \<Rightarrow> load_start i f deps k
   | RecordDeps deps \<Rightarrow> (set_fiber i (f\<lparr>f_last_deps := Some deps\<rparr>) k, [LoadOp i (Gate deps)])
   | Gate deps \<Rightarrow> (k, load_gate i f deps k)
   | Build deps \<Rightarrow> (k, load_build en i f deps)
   | Validate deps \<Rightarrow> (k, load_validate en i deps)
   | Apply deps \<Rightarrow> apply_returned en i f deps k
   | Adopt \<Rightarrow> (adopt_deps i f k, [])
   | Activate \<Rightarrow> (set_fiber i (activate i f) k, [])
   | NotifyProvided \<Rightarrow> notify_keys (map fst (f_provided f)) k
   | RepostIfReady \<Rightarrow> if snd (resolve_deps k i f) = [] then post i RefreshDeps k else (k, [])
   | FailLoad e deps \<Rightarrow> fail_load i f e deps k
   | FailStop e deps \<Rightarrow> fail_stop i f e deps k)"

section \<open>Unloads\<close>

definition unload_start :: "nat \<Rightarrow> fiber \<Rightarrow> next_state \<Rightarrow> kernel \<Rightarrow> kernel \<times> kop list" where
  "unload_start i f next k =
     (mod_fiber i cancel_current (flush_status i (set_fiber i (set_state i Unloading f) k)),
      [UnloadOp i WaitEvents, UnloadOp i (TakeEffects (ForUnload next))])"

text \<open>
  \<open>wait_events\<close>: until no call counted on the fiber runs, or until the
  deadline (given in the environment once it has passed).
\<close>

definition wait_events :: "env \<Rightarrow> fiber \<Rightarrow> kernel \<Rightarrow> (kernel \<times> kop list) option" where
  "wait_events en f k =
     (if f_event_flights f = 0 then Some (k, [])
      else case en_deadline en of
             None \<Rightarrow> None
           | Some seconds \<Rightarrow>
               Some (report (ListenersStillRunning
                  (case f_row f of Some row \<Rightarrow> ''row '' @ row | None \<Rightarrow> ''plugin '' @ f_name f)
                  seconds) k, []))"

definition drain_records ::
  "nat \<Rightarrow> fiber \<Rightarrow> nat list \<Rightarrow> error_kind list \<Rightarrow> drain_for \<Rightarrow> kernel \<Rightarrow> (kernel \<times> kop list) option" where
  "drain_records i f recs errors why k = (case recs of
     [] \<Rightarrow>
       Some (set_fiber i (f\<lparr>f_drained_errors := [], f_last_deps := None, f_provided := []\<rparr>) k,
             [UnloadOp i (DrainEnd (errors @ f_drained_errors f) why)])
   | r # rs \<Rightarrow>
       (case claim (er_state (k_records k r)) of
          (Some cs, st) \<Rightarrow>
            Some (k\<lparr>k_records := (k_records k)(r := (k_records k r)\<lparr>er_state := st\<rparr>)\<rparr>,
                  [CleanupOp (RunCleanups r cs []), UnloadOp i (DrainRecords recs errors why)])
        | (None, st) \<Rightarrow>
            (case join_record st of
               None \<Rightarrow> None
             | Some (Inl e) \<Rightarrow> Some (k, [UnloadOp i (DrainRecords rs (errors @ [e]) why)])
             | Some (Inr _) \<Rightarrow> Some (k, [UnloadOp i (DrainRecords rs errors why)]))))"

text \<open>The end of \<open>unload\<close> and of \<open>fail_load\<close>: where the cleanup errors go, and the next state.\<close>

definition unload_end :: "nat \<Rightarrow> fiber \<Rightarrow> next_state \<Rightarrow> error_kind list \<Rightarrow> kernel \<Rightarrow> kernel" where
  "unload_end i f next errors k = (case next of
     NextPending \<Rightarrow>
       flush_status i (set_fiber i (set_state i Pending f)
         (case aggregate_arcs errors of Some e \<Rightarrow> report e k | None \<Rightarrow> k))
   | NextDisposed \<Rightarrow>
       flush_status i (set_fiber i (set_state i Disposed (f\<lparr>f_error := aggregate_arcs errors\<rparr>)) k))"

definition fail_end ::
  "nat \<Rightarrow> fiber \<Rightarrow> error \<Rightarrow> dep set \<Rightarrow> bool \<Rightarrow> error_kind list \<Rightarrow> kernel \<Rightarrow> kernel" where
  "fail_end i f e deps stopping cleanup_errors k =
     (let arc = aggregate_arcs (shared e # cleanup_errors);
          f1 = set_state i Failed (f\<lparr>f_last_deps := Some deps, f_error := arc\<rparr>);
          k1 = flush_status i (set_fiber i f1 (report_all cleanup_errors k))
      in if \<not> f_platform f \<and> \<not> stopping
         then (case arc of Some a \<Rightarrow> report (StartFailed (display_name f) a) k1 | None \<Rightarrow> k1)
         else k1)"

definition exec_unload :: "env \<Rightarrow> nat \<Rightarrow> unload_op \<Rightarrow> fiber \<Rightarrow> kernel \<Rightarrow> (kernel \<times> kop list) option" where
  "exec_unload en i uo f k = (case uo of
     Unload next \<Rightarrow> Some (unload_start i f next k)
   | WaitEvents \<Rightarrow> wait_events en f k
   | TakeEffects why \<Rightarrow>
       Some (set_fiber i (f\<lparr>f_effects := []\<rparr>) k,
             [UnloadOp i (DrainRecords (rev (f_effects f)) [] why)])
   | DrainRecords recs errors why \<Rightarrow> drain_records i f recs errors why k
   | DrainEnd errors why \<Rightarrow>
       Some ((case why of
                ForUnload next \<Rightarrow> unload_end i f next errors k
              | ForFailedLoad e deps stopping \<Rightarrow> fail_end i f e deps stopping errors k), []))"

end
