(* ===== verification/Cleanup_Ops.thy ===== *)
theory Cleanup_Ops
  imports Fiber_Ops
begin

text \<open>
  The sections of a record's drain (\<open>effect.rs\<close>), of a service's withdrawal
  (\<open>evict_and_finalize\<close> of \<open>ctx.rs\<close>), of the cascading dispose of a mounted
  child (\<open>mount_fiber\<close>), and of posts and joins (\<open>fiber.rs\<close>).

  A drain runs on the thread that claimed the record (the code spawns a task
  for it and joins the task; \<open>Effects\<close> has that task, with callers that are
  dropped).  Not modelled: the event that a service was removed
  (\<open>emit_service_changed\<close>).
\<close>

section \<open>Draining a record\<close>

definition set_record :: "nat \<Rightarrow> kclosure effect_state \<Rightarrow> kernel \<Rightarrow> kernel" where
  "set_record r st k =
     k\<lparr>k_records := (k_records k)(r := (k_records k r)\<lparr>er_state := st\<rparr>)\<rparr>"

definition drain_record :: "nat \<Rightarrow> kernel \<Rightarrow> (kernel \<times> kop list) option" where
  "drain_record r k = (case claim (er_state (k_records k r)) of
     (Some cs, st) \<Rightarrow>
       Some (set_record r st k, [CleanupOp (RunCleanups r cs []), CleanupOp (DrainRecord r)])
   | (None, st) \<Rightarrow>
       (case join_record st of None \<Rightarrow> None | Some _ \<Rightarrow> Some (k, [])))"

definition run_cleanup_op ::
  "env \<Rightarrow> nat \<Rightarrow> kclosure cleanup list \<Rightarrow> error list \<Rightarrow> kop list" where
  "run_cleanup_op en r cs errs =
     (if cs = [] then [CleanupOp (FinishRecord r (aggregate_arcs (map shared errs)))]
      else
        case closure (last cs) of
          UserCleanup n \<Rightarrow>
            [CleanupOp (RunCleanups r (butlast cs)
               (case cleanup_error (en_cleanups en)
                       (case last cs of CSync _ \<Rightarrow> CSync n | CAsync _ \<Rightarrow> CAsync n) of
                  None \<Rightarrow> errs | Some e \<Rightarrow> errs @ [e]))]
        | Withdraw p g key scope \<Rightarrow>
            [CleanupOp (EvictMark p g key scope), CleanupOp (RunCleanups r (butlast cs) errs)]
        | DisposeChild c \<Rightarrow>
            [CleanupOp (ChildDispose c), CleanupOp (RunCleanups r (butlast cs) errs)])"

definition finish_record :: "nat \<Rightarrow> error_kind option \<Rightarrow> kernel \<Rightarrow> kernel" where
  "finish_record r e k =
     mod_fiber (er_owner (k_records k r))
       (\<lambda>f. let (effects, drained) = finish_owner r e (f_effects f, f_drained_errors f)
            in f\<lparr>f_effects := effects, f_drained_errors := drained\<rparr>)
       (set_record r (Done e) k)"

section \<open>Withdrawing a service\<close>

definition evicted_binding :: "nat \<Rightarrow> nat \<Rightarrow> slot \<Rightarrow> kernel \<Rightarrow> nat option" where
  "evicted_binding p g sl k = (case lookup_binding sl k of
     None \<Rightarrow> None
   | Some n \<Rightarrow>
       if b_provider (k_binding_heap k n) = p \<and> b_provider_gen (k_binding_heap k n) = g
       then Some n else None)"

definition evict_mark ::
  "nat \<Rightarrow> nat \<Rightarrow> type_key \<Rightarrow> string option \<Rightarrow> kernel \<Rightarrow> kernel \<times> kop list" where
  "evict_mark p g key scope k =
     (let old = evicted_binding p g (key, scope) k in
      (case old of Some n \<Rightarrow> mark_removing_if (key, scope) n k | None \<Rightarrow> k,
       [CleanupOp (EvictNotify p g key scope old)]))"

definition evict_notify ::
  "nat \<Rightarrow> nat \<Rightarrow> type_key \<Rightarrow> string option \<Rightarrow> nat option \<Rightarrow> kernel \<Rightarrow> kop list" where
  "evict_notify p g key scope old k =
     [CleanupOp (EvictConsumers (filter (\<lambda>i. i \<noteq> p) (consumers_of key (p, g, key, scope) k))
        [] p key scope old)]"

text \<open>
  One consumer: cancelled, and joined on its re-check, or on its own shutdown
  when it is closing.  After the last one the other fibers that inject the
  key check again, and the withdrawal waits.
\<close>

definition evict_consumers ::
  "nat list \<Rightarrow> nat list \<Rightarrow> nat \<Rightarrow> type_key \<Rightarrow> string option \<Rightarrow> nat option \<Rightarrow>
   kernel \<Rightarrow> kernel \<times> kop list" where
  "evict_consumers consumers tasks p key scope old k = (case consumers of
     [] \<Rightarrow>
       (let (k1, ops) = notify_key_changed key k in
        (k1, ops @ map (\<lambda>t. CleanupOp (JoinTask t)) tasks
               @ [CleanupOp (EvictEnd p key scope old)]))
   | c # cs \<Rightarrow>
       (let k1 = mod_fiber c pre_cancel k in
        case k_fibers k c of
          None \<Rightarrow> (k, [CleanupOp (EvictConsumers cs tasks p key scope old)])
        | Some f \<Rightarrow>
            if f_closing f
            then (k1, [CleanupOp (EvictConsumers cs
                   (case f_shutdown_inner f of Some t \<Rightarrow> tasks @ [t] | None \<Rightarrow> tasks)
                   p key scope old)])
            else
              (let (t, k2) = new_task k1; (k3, ops) = post_join c t RefreshDepsJoin k2 in
               (k3, ops @ [CleanupOp (EvictConsumers cs (tasks @ [t]) p key scope old)]))))"

definition remove_provided :: "slot \<Rightarrow> slot list \<Rightarrow> slot list" where
  "remove_provided sl provided = (case position (\<lambda>x. x = sl) provided of
     Some n \<Rightarrow> swap_remove n provided
   | None \<Rightarrow> provided)"

definition evict_end ::
  "nat \<Rightarrow> type_key \<Rightarrow> string option \<Rightarrow> nat option \<Rightarrow> kernel \<Rightarrow> kernel" where
  "evict_end p key scope old k =
     mod_fiber p (\<lambda>f. f\<lparr>f_provided := remove_provided (key, scope) (f_provided f)\<rparr>)
       (case old of Some n \<Rightarrow> snd (finalize_binding_if (key, scope) n k) | None \<Rightarrow> k)"

section \<open>Disposing a child\<close>

text \<open>
  \<open>register_dispose\<close>, without a condition: the task it registers, or the one
  that is registered; a new one cancels the generation and is posted.
\<close>

definition register_dispose :: "nat \<Rightarrow> fiber \<Rightarrow> kernel \<Rightarrow> nat \<times> kernel \<times> kop list" where
  "register_dispose i f k = (case f_terminal_task f of
     Some t \<Rightarrow> (t, k, [])
   | None \<Rightarrow>
       (let (t, k1) = new_task k in
        (t, set_fiber i (f\<lparr>f_pre_cancelled := True, f_token := True, f_terminal_task := Some t\<rparr>) k1,
         [CleanupOp (Post i Dispose), CleanupOp (Recheck i t)])))"

definition child_dispose :: "nat \<Rightarrow> kernel \<Rightarrow> kernel \<times> kop list" where
  "child_dispose c k = (case k_fibers k c of
     None \<Rightarrow> (k, [])
   | Some f \<Rightarrow>
       (case f_shutdown_inner f of
          Some t \<Rightarrow> (k, [CleanupOp (JoinTask t)])
        | None \<Rightarrow>
            (let (t, k1, ops) = register_dispose c f k
             in (k1, ops @ [CleanupOp (ChildJoined t (f_state f = Disposed))]))))"

definition child_joined :: "nat \<Rightarrow> bool \<Rightarrow> kernel \<Rightarrow> (kernel \<times> kop list) option" where
  "child_joined t delivered k = (case task_result t k of
     None \<Rightarrow> None
   | Some (Inl e) \<Rightarrow> Some (if delivered then k else report e k, [])
   | Some (Inr _) \<Rightarrow> Some (k, []))"

section \<open>The sections\<close>

definition exec_cleanup :: "env \<Rightarrow> cleanup_op \<Rightarrow> kernel \<Rightarrow> (kernel \<times> kop list) option" where
  "exec_cleanup en co k = (case co of
     DrainRecord r \<Rightarrow> drain_record r k
   | RunCleanups r cs errs \<Rightarrow> Some (k, run_cleanup_op en r cs errs)
   | FinishRecord r e \<Rightarrow> Some (finish_record r e k, [])
   | EvictMark p g key scope \<Rightarrow> Some (evict_mark p g key scope k)
   | EvictNotify p g key scope old \<Rightarrow> Some (k, evict_notify p g key scope old k)
   | EvictConsumers cs ts p key scope old \<Rightarrow> Some (evict_consumers cs ts p key scope old k)
   | EvictEnd p key scope old \<Rightarrow> Some (evict_end p key scope old k, [])
   | ChildDispose c \<Rightarrow> Some (child_dispose c k)
   | ChildJoined t delivered \<Rightarrow> child_joined t delivered k
   | JoinTask t \<Rightarrow> (case task_result t k of None \<Rightarrow> None | Some _ \<Rightarrow> Some (k, []))
   | FinishTask t e \<Rightarrow> Some (complete t e k, [])
   | Post i it \<Rightarrow> Some (post i it k)
   | Send i it \<Rightarrow> Some (send i it k, [])
   | Recheck i t \<Rightarrow> Some (recheck i t k, []))"

end
