(* ===== verification/Driver_Ops.thy ===== *)
theory Driver_Ops
  imports Cleanup_Ops
begin

text \<open>
  The driver of a fiber, \<open>drive\<close> and \<open>release_transient\<close> of \<open>fiber.rs\<close>: it
  takes one intent at a time from its mailbox, and a non-root driver stops
  after a dispose or a shutdown.

  Not modelled: \<open>recover_driver_panic\<close> (a panic of the driver itself; panics
  of the code it calls are outcomes of that code here).
\<close>

section \<open>Taking up an intent\<close>

definition intent_ops :: "nat \<Rightarrow> fiber \<Rightarrow> intent \<Rightarrow> kop list" where
  "intent_ops i f it = (case it of
     RefreshDeps \<Rightarrow> [LoadOp i Refresh, DriveOp i Flush, DriveOp i Recv]
   | RefreshDepsJoin t \<Rightarrow>
       [LoadOp i Refresh, DriveOp i (CompleteTask t), DriveOp i Flush, DriveOp i Recv]
   | Settle t \<Rightarrow>
       [CleanupOp (FinishTask t (if f_state f = Failed then f_error f else None)),
        DriveOp i Flush, DriveOp i Recv]
   | Restart t \<Rightarrow> [DriveOp i (RestartOp t), DriveOp i Recv]
   | Dispose \<Rightarrow>
       [DriveOp i DisposeOp, DriveOp i DisposeUnload, DriveOp i DisposeEnd, DriveOp i Flush]
       @ (if f_is_root f then [DriveOp i Recv] else [ExitOp i StopDisposed])
   | Shutdown t \<Rightarrow>
       [UnloadOp i WaitEvents, DriveOp i ShutdownOp, DriveOp i Flush, ExitOp i (StopShutdown t)])"

definition recv :: "nat \<Rightarrow> fiber \<Rightarrow> kernel \<Rightarrow> (kernel \<times> kop list) option" where
  "recv i f k = (case f_intents f of
     [] \<Rightarrow> None
   | it # rest \<Rightarrow> Some (set_fiber i (f\<lparr>f_intents := rest\<rparr>) k, intent_ops i f it))"

section \<open>Restarts\<close>

definition restart_root :: "nat \<Rightarrow> fiber \<Rightarrow> fiber" where
  "restart_root i f =
     set_state i Active (f\<lparr>f_token := False, f_error := None, f_terminal_task := None\<rparr>)"

definition restart_op :: "nat \<Rightarrow> nat \<Rightarrow> fiber \<Rightarrow> kernel \<Rightarrow> kernel \<times> kop list" where
  "restart_op i t f0 k0 =
     (let f = f0\<lparr>f_pending_restarts := f_pending_restarts f0 - 1\<rparr>;
          k = set_fiber i f k0 in
      if f_closing f \<or> k_closing k then (complete t (Some Closed) k, [])
      else if terminal_registered f then
        (k, [LoadOp i UnloadForDispose, CleanupOp (FinishTask t (Some InactiveEffect))])
      else if f_state f = Disposed then
        (if f_is_root f then flush_status i (set_fiber i (restart_root i f) k) else k,
         [DriveOp i (CompleteTask t)])
      else
        (k, (if f_state f = Pending then [] else [UnloadOp i (Unload NextPending)])
            @ [DriveOp i (RestartRefresh t)]))"

definition restart_end :: "nat \<Rightarrow> nat \<Rightarrow> nat \<Rightarrow> fiber \<Rightarrow> kernel \<Rightarrow> kernel \<times> kop list" where
  "restart_end i t before f k =
     (if f_generation f = before \<and> terminal_registered f
      then (complete t (Some InactiveEffect) k, [])
      else if f_generation f = before then (complete t None k, [])
      else (complete t (f_error f) k, [DriveOp i Flush]))"

section \<open>Dispose and shutdown\<close>

definition unload_unless_disposed :: "nat \<Rightarrow> fiber \<Rightarrow> kop list" where
  "unload_unless_disposed i f =
     (if f_state f = Disposed then [] else [UnloadOp i (Unload NextDisposed)])"

definition prior_error :: "fiber \<Rightarrow> error_kind option" where
  "prior_error f = (if \<not> f_is_root f \<and> f_state f = Failed then f_error f else None)"

definition add_prior :: "error_kind option \<Rightarrow> fiber \<Rightarrow> fiber" where
  "add_prior prior f = (case prior of
     None \<Rightarrow> f
   | Some p \<Rightarrow> f\<lparr>f_error := aggregate_arcs
       (p # (case f_error f of None \<Rightarrow> [] | Some e \<Rightarrow> [e]))\<rparr>)"

definition exec_drive :: "nat \<Rightarrow> drive_op \<Rightarrow> fiber \<Rightarrow> kernel \<Rightarrow> (kernel \<times> kop list) option" where
  "exec_drive i d f k = (case d of
     Recv \<Rightarrow> recv i f k
   | CompleteTask t \<Rightarrow> Some (complete t (f_error f) k, [])
   | RestartOp t \<Rightarrow> Some (restart_op i t f k)
   | RestartRefresh t \<Rightarrow>
       Some (k, [LoadOp i Refresh, DriveOp i (RestartEnd t (f_generation f))])
   | RestartEnd t before \<Rightarrow> Some (restart_end i t before f k)
   | DisposeOp \<Rightarrow> Some (k, if f_closing f then [UnloadOp i WaitEvents] else [])
   | DisposeUnload \<Rightarrow> Some (k, unload_unless_disposed i f)
   | DisposeEnd \<Rightarrow> Some (complete_opt (f_terminal_task f) (f_error f) k, [])
   | ShutdownOp \<Rightarrow>
       Some (k, unload_unless_disposed i f @ [DriveOp i (ShutdownEnd (prior_error f))])
   | ShutdownEnd prior \<Rightarrow> Some (set_fiber i (add_prior prior f) k, [])
   | FinishEvent \<Rightarrow> Some (set_fiber i (finish_event f) k, [])
   | Flush \<Rightarrow> Some (flush_status i k, []))"

section \<open>The end of a driver\<close>

definition release_ops :: "nat \<Rightarrow> kop list" where
  "release_ops i = [ExitOp i ReleaseInjects, ExitOp i ReleaseMount, ExitOp i ReleaseChild]"

text \<open>Each of the two loops that empty the mailbox, one intent at a time.\<close>

definition drain_mailbox_disposed ::
  "nat \<Rightarrow> error_kind option \<Rightarrow> fiber \<Rightarrow> kernel \<Rightarrow> kernel \<times> kop list" where
  "drain_mailbox_disposed i err f k = (case f_intents f of
     [] \<Rightarrow> (k, release_ops i @ [ExitOp i EndDriver])
   | it # rest \<Rightarrow>
       (complete_intent it (case it of Settle _ \<Rightarrow> None | _ \<Rightarrow> err)
          (set_fiber i (f\<lparr>f_intents := rest\<rparr>) k),
        [ExitOp i (DrainMailboxDisposed err)]))"

definition drain_mailbox_shutdown ::
  "nat \<Rightarrow> nat \<Rightarrow> nat option \<Rightarrow> error_kind option \<Rightarrow> fiber \<Rightarrow> kernel \<Rightarrow> kernel \<times> kop list" where
  "drain_mailbox_shutdown i t terminal err f k = (case f_intents f of
     [] \<Rightarrow>
       (if f_is_root f then k else complete t err k,
        (if f_is_root f then [] else release_ops i)
        @ [ExitOp i (EndShutdown t terminal err), ExitOp i EndDriver])
   | it # rest \<Rightarrow>
       (complete_intent it
          (case it of Settle _ \<Rightarrow> None | Shutdown _ \<Rightarrow> err | _ \<Rightarrow> Some Closed)
          (set_fiber i (f\<lparr>f_intents := rest\<rparr>) k),
        [ExitOp i (DrainMailboxShutdown t terminal err)]))"

definition release_mount :: "nat \<Rightarrow> fiber \<Rightarrow> kernel \<Rightarrow> kernel \<times> kop list" where
  "release_mount i f k = (case f_mount f of
     None \<Rightarrow> (k, [])
   | Some r \<Rightarrow>
       (set_fiber i (f\<lparr>f_mount := None\<rparr>) k,
        [CleanupOp (DrainRecord r), ExitOp i (ReportRecord r)]))"

definition release_child :: "nat \<Rightarrow> fiber \<Rightarrow> kernel \<Rightarrow> kernel" where
  "release_child i f k = (case f_parent f of
     None \<Rightarrow> k
   | Some p \<Rightarrow> mod_fiber p (\<lambda>g. g\<lparr>f_children := filter (\<lambda>c. c \<noteq> i) (f_children g)\<rparr>) k)"

definition exec_exit :: "nat \<Rightarrow> exit_op \<Rightarrow> fiber \<Rightarrow> kernel \<Rightarrow> kernel \<times> kop list" where
  "exec_exit i e f k = (case e of
     StopDisposed \<Rightarrow>
       (set_fiber i (f\<lparr>f_alive := False\<rparr>) k, [ExitOp i (DrainMailboxDisposed (f_error f))])
   | DrainMailboxDisposed err \<Rightarrow> drain_mailbox_disposed i err f k
   | StopShutdown t \<Rightarrow>
       (set_fiber i (f\<lparr>f_alive := False\<rparr>) k,
        [ExitOp i (DrainMailboxShutdown t (f_terminal_task f) (f_error f))])
   | DrainMailboxShutdown t terminal err \<Rightarrow> drain_mailbox_shutdown i t terminal err f k
   | EndShutdown t terminal err \<Rightarrow> (complete t err (complete_opt terminal err k), [])
   | ReleaseInjects \<Rightarrow> (unregister_injects i (f_declared_injects f) k, [])
   | ReleaseMount \<Rightarrow> release_mount i f k
   | ReportRecord r \<Rightarrow>
       (case join_record (er_state (k_records k r)) of
          Some (Inl e) \<Rightarrow> (report e k, [])
        | _ \<Rightarrow> (k, []))
   | ReleaseChild \<Rightarrow> (release_child i f k, [])
   | EndDriver \<Rightarrow> (set_fiber i (f\<lparr>f_receiver := False, f_intents := []\<rparr>) k, []))"

section \<open>The end of a subtree's shutdown\<close>

text \<open>
  The task of \<open>begin_subtree_shutdown_locked\<close>: the fiber's own end, its driver,
  its children, and then the public result, with the errors of all of them.
\<close>

definition add_result :: "error_kind list \<Rightarrow> error_kind + unit \<Rightarrow> error_kind list" where
  "add_result errs r = (case r of Inl e \<Rightarrow> errs @ [e] | Inr _ \<Rightarrow> errs)"

definition exec_shut :: "shut_op \<Rightarrow> kernel \<Rightarrow> (kernel \<times> kop list) option" where
  "exec_shut so k = (case so of
     JoinInner i t children public \<Rightarrow>
       map_option (\<lambda>r. (k, [ShutOp (JoinDriver i (add_result [] r) children public)]))
         (task_result t k)
   | JoinDriver i errs children public \<Rightarrow>
       (case k_fibers k i of
          None \<Rightarrow> Some (k, [ShutOp (JoinChildren errs children public)])
        | Some f \<Rightarrow>
            if f_receiver f then None
            else Some (k, [ShutOp (JoinChildren errs children public)]))
   | JoinChildren errs children public \<Rightarrow>
       (case children of
          [] \<Rightarrow> Some (complete public (aggregate_arcs errs) k, [])
        | c # cs \<Rightarrow>
            map_option (\<lambda>r. (k, [ShutOp (JoinChildren (add_result errs r) cs public)]))
              (task_result c k)))"

section \<open>One section of a thread\<close>

text \<open>A section of a fiber that is not there ends its thread's work on it.\<close>

definition exec :: "env \<Rightarrow> kop \<Rightarrow> kernel \<Rightarrow> (kernel \<times> kop list) option" where
  "exec en op k = (case op of
     LoadOp i lo \<Rightarrow>
       (case k_fibers k i of None \<Rightarrow> Some (k, []) | Some f \<Rightarrow> Some (exec_load en i lo f k))
   | UnloadOp i uo \<Rightarrow>
       (case k_fibers k i of None \<Rightarrow> Some (k, []) | Some f \<Rightarrow> exec_unload en i uo f k)
   | DriveOp i d \<Rightarrow>
       (case k_fibers k i of None \<Rightarrow> Some (k, []) | Some f \<Rightarrow> exec_drive i d f k)
   | ExitOp i e \<Rightarrow>
       (case k_fibers k i of None \<Rightarrow> Some (k, []) | Some f \<Rightarrow> Some (exec_exit i e f k))
   | CleanupOp co \<Rightarrow> exec_cleanup en co k
   | ShutOp so \<Rightarrow> exec_shut so k)"

end
