(* ===== verification/Contexts.thy ===== *)
theory Contexts
  imports Driver_Ops
begin

text \<open>
  A plugin's context, \<open>crates/rutis/src/ctx.rs\<close> and \<open>writer.rs\<close>: admission of
  registrations, effects, services provided, read and rewritten.

  A service's value is a number; its Rust type is its key's (the typed keys of
  the API see to it), except at a strict read, which checks it.  The source
  location of a read error and the events about services are left out.
  A generation's token is the fiber's token while the generation is current.
\<close>

record ctx =
  cx_fiber :: nat
  cx_isolates :: "(type_key \<times> string) list"
  cx_generation :: "nat option"

section \<open>Admission\<close>

definition ending_state :: "fiber_state \<Rightarrow> bool" where
  "ending_state s \<longleftrightarrow> s = Unloading \<or> s = Disposed"

definition check_generation :: "ctx \<Rightarrow> nat \<Rightarrow> fiber_state \<Rightarrow> error_kind + unit" where
  "check_generation cx current state = (case cx_generation cx of
     None \<Rightarrow> Inr ()
   | Some expected \<Rightarrow>
       if expected \<noteq> current then Inl (StaleGeneration expected current)
       else if ending_state state then Inl InactiveEffect
       else if \<not> (state = Loading \<or> state = Active) then Inl (InactiveGeneration expected state)
       else Inr ())"

definition registration_open :: "ctx \<Rightarrow> kernel \<Rightarrow> error_kind + unit" where
  "registration_open cx k =
     (if k_closing k \<or> subtree_closing k (cx_fiber cx) then Inl Closed else Inr ())"

definition registration_preflight :: "ctx \<Rightarrow> kernel \<Rightarrow> error_kind + unit" where
  "registration_preflight cx k = (case registration_open cx k of
     Inl e \<Rightarrow> Inl e
   | Inr _ \<Rightarrow>
       (case k_fibers k (cx_fiber cx) of
          None \<Rightarrow> Inl InactiveEffect
        | Some f \<Rightarrow>
            (case check_generation cx (f_generation f) (f_state f) of
               Inl e \<Rightarrow> Inl e
             | Inr _ \<Rightarrow> if ending_state (f_state f) then Inl InactiveEffect else Inr ())))"

text \<open>
  \<open>register_internal_effect\<close>: the admission lock and the fiber's transition
  lock cover the check, the insertion and its cleanup record.
\<close>

definition register_internal_effect ::
  "ctx \<Rightarrow> string \<Rightarrow> origin \<Rightarrow>
   (fiber \<Rightarrow> kernel \<Rightarrow> error_kind + (kclosure effect \<times> kernel \<times> kop list)) \<Rightarrow> kernel \<Rightarrow>
   error_kind + (nat \<times> kernel \<times> kop list)" where
  "register_internal_effect cx label origin act k = (case registration_open cx k of
     Inl e \<Rightarrow> Inl e
   | Inr _ \<Rightarrow>
       (case k_fibers k (cx_fiber cx) of
          None \<Rightarrow> Inl InactiveEffect
        | Some f \<Rightarrow>
            (case check_generation cx (f_generation f) (f_state f) of
               Inl e \<Rightarrow> Inl e
             | Inr _ \<Rightarrow>
                 if ending_state (f_state f) then Inl InactiveEffect
                 else (case act f k of
                         Inl e \<Rightarrow> Inl e
                       | Inr (eff, k1, ops) \<Rightarrow>
                           (let (r, k2) = push_effect (cx_fiber cx)
                                (record_from eff label origin (cx_fiber cx)) k1
                            in Inr (r, k2, ops))))))"

text \<open>
  \<open>register_effect_named\<close>, around the call of the factory: the lease before
  it, and the record after it, drained at once when the fiber moved on.
\<close>

definition effect_begin :: "ctx \<Rightarrow> kernel \<Rightarrow> error_kind + kernel" where
  "effect_begin cx k =
     (let i = cx_fiber cx in
      case k_fibers k i of
        None \<Rightarrow> Inl (if k_closing k \<or> subtree_closing k i then Closed else InactiveEffect)
      | Some f \<Rightarrow>
          if k_closing k \<or> subtree_closing k i \<and> f_state f \<noteq> Loading then Inl Closed
          else (case check_generation cx (f_generation f) (f_state f) of
                  Inl e \<Rightarrow> Inl e
                | Inr _ \<Rightarrow>
                    if ending_state (f_state f) then Inl InactiveEffect
                    else Inr (set_fiber i (begin_event f) k)))"

definition effect_commit ::
  "ctx \<Rightarrow> string \<Rightarrow> origin \<Rightarrow> nat effect \<Rightarrow> kernel \<Rightarrow> (error_kind + nat) \<times> kernel \<times> kop list" where
  "effect_commit cx label origin eff k =
     (let i = cx_fiber cx;
          rec' = record_from (map_effect UserCleanup eff) label origin i
      in case k_fibers k i of
           None \<Rightarrow> (Inl InactiveEffect, k, [])
         | Some f \<Rightarrow>
             (let refused = (case check_generation cx (f_generation f) (f_state f) of
                   Inl e \<Rightarrow> Some e
                 | Inr _ \<Rightarrow> if ending_state (f_state f) then Some InactiveEffect else None)
              in case refused of
                   Some e \<Rightarrow>
                     (Inl e,
                      k\<lparr>k_records := (k_records k)(k_next_record k := rec'),
                        k_next_record := Suc (k_next_record k)\<rparr>,
                      [CleanupOp (DrainRecord (k_next_record k)),
                       ExitOp i (ReportRecord (k_next_record k)),
                       DriveOp i FinishEvent])
                 | None \<Rightarrow>
                     (let (r, k1) = push_effect i rec' k
                      in (Inr r, k1, [DriveOp i FinishEvent]))))"

section \<open>Providing a service\<close>

definition provide_act ::
  "nat \<Rightarrow> type_key \<Rightarrow> string option \<Rightarrow> value_slot \<Rightarrow> string \<Rightarrow> fiber \<Rightarrow> kernel \<Rightarrow>
   error_kind + (kclosure effect \<times> kernel \<times> kop list)" where
  "provide_act i key scope v named f k =
     (case insert_binding (key, scope)
             \<lparr>b_value = v, b_provider = i, b_provider_gen = f_generation f, b_removing = False\<rparr>
             named k of
        Inl e \<Rightarrow> Inl e
      | Inr (n, k1) \<Rightarrow>
          (let k2 = mod_fiber i (\<lambda>g. g\<lparr>f_provided := f_provided g @ [(key, scope)]\<rparr>) k1;
               (k3, ops) = (if f_state f = Active then notify_key_changed key k2 else (k2, []))
           in Inr (EffAsyncDisposer (Withdraw i (f_generation f) key scope), k3, ops)))"

definition provide_native ::
  "ctx \<Rightarrow> (nat \<Rightarrow> string) \<Rightarrow> type_key \<Rightarrow> value_slot \<Rightarrow> string \<Rightarrow> kernel \<Rightarrow>
   error_kind + (nat \<times> kernel \<times> kop list)" where
  "provide_native cx type_name key v named k =
     register_internal_effect cx (''service provide: '' @ describe type_name key) (OProvide key)
       (provide_act (cx_fiber cx) key (scope_for (cx_isolates cx) key) v named) k"

definition slot_taken :: "ctx \<Rightarrow> type_key \<Rightarrow> kernel \<Rightarrow> bool" where
  "slot_taken cx key k = (case lookup_binding (key, scope_for (cx_isolates cx) key) k of
     None \<Rightarrow> False
   | Some n \<Rightarrow> \<not> b_removing (k_binding_heap k n))"

section \<open>Reading a service\<close>

text \<open>\<open>read_binding_as\<close>: the value, if the reader may see it, and where it comes from.\<close>

definition read_binding_as ::
  "ctx \<Rightarrow> nat option \<Rightarrow> kernel \<Rightarrow> nat option \<times> (nat \<times> nat \<times> bool) option" where
  "read_binding_as cx bn k = (case bn of
     None \<Rightarrow> (None, None)
   | Some n \<Rightarrow>
       (let b = k_binding_heap k n in
        case k_fibers k (b_provider b) of
          None \<Rightarrow> (None, None)
        | Some p \<Rightarrow>
            (let self_access = in_subtree_of k (cx_fiber cx) (b_provider b);
                 found = Some (b_provider b, b_provider_gen b, \<not> self_access);
                 value = (case b_value b of Fixed v \<Rightarrow> v | Mutable v \<Rightarrow> v);
                 hidden = (\<not> self_access \<and>
                   ((case k_fibers k (cx_fiber cx) of
                       None \<Rightarrow> True | Some a \<Rightarrow> ending_state (f_state a)) \<or>
                    f_state p \<noteq> Active \<or> b_removing b))
             in (if hidden then None else Some value, found))))"

definition record_access :: "nat \<Rightarrow> access \<Rightarrow> kernel \<Rightarrow> kernel" where
  "record_access i a k = mod_fiber i (\<lambda>f. if a \<in> set (f_accesses f) then f
     else f\<lparr>f_accesses := f_accesses f @ [a]\<rparr>) k"

definition access_of ::
  "type_key \<Rightarrow> string option \<Rightarrow> (nat \<times> nat \<times> bool) option \<Rightarrow> bool \<Rightarrow> bool \<Rightarrow> bool \<Rightarrow>
   read_failure option \<Rightarrow> access" where
  "access_of key scope found declared out_of_scope strict failure =
     \<lparr>ac_key = key, ac_scope = scope,
      ac_provider = map_option fst found,
      ac_generation = map_option (fst \<circ> snd) found,
      ac_declared = declared,
      ac_external = (case found of Some (_, _, x) \<Rightarrow> x | None \<Rightarrow> False),
      ac_out_of_scope = out_of_scope, ac_strict = strict, ac_failure = failure\<rparr>"

definition read_optional :: "ctx \<Rightarrow> type_key \<Rightarrow> kernel \<Rightarrow> nat option \<times> kernel" where
  "read_optional cx key k =
     (let scope = scope_for (cx_isolates cx) key;
          out_of_scope = (\<not> in_instance_key k (cx_fiber cx) key);
          (result, found) = (if out_of_scope then (None, None)
                             else read_binding_as cx (lookup_binding (key, scope) k) k)
      in (result,
          case k_fibers k (cx_fiber cx) of
            None \<Rightarrow> k
          | Some f \<Rightarrow>
              if f_state f = Loading
              then record_access (cx_fiber cx)
                     (access_of key scope found (key \<in> set (f_declared_injects f))
                        out_of_scope False None) k
              else k))"

text \<open>The walk over the fibers around the reader: one that injects the key in the same scope.\<close>

definition declared_by_injects :: "ctx \<Rightarrow> type_key \<Rightarrow> kernel \<Rightarrow> bool" where
  "declared_by_injects cx key k \<longleftrightarrow>
     (\<exists>a \<in> set (ancestors k (cx_fiber cx)). fiber_is k (\<lambda>f. key \<in> set (f_declared_injects f) \<and>
        scope_for (f_isolates f) key = scope_for (cx_isolates cx) key) a)"

definition own_service :: "ctx \<Rightarrow> type_key \<Rightarrow> kernel \<Rightarrow> bool" where
  "own_service cx key k = (case k_fibers k (cx_fiber cx) of
     None \<Rightarrow> False
   | Some f \<Rightarrow> (key, scope_for (cx_isolates cx) key) \<in> set (f_provided f))"

definition caller_ending :: "ctx \<Rightarrow> kernel \<Rightarrow> bool" where
  "caller_ending cx k = (case k_fibers k (cx_fiber cx) of
     None \<Rightarrow> True
   | Some f \<Rightarrow> ending_state (f_state f))"

text \<open>The checks before the registry is read, in their order.\<close>

definition early_failure :: "ctx \<Rightarrow> nat \<Rightarrow> type_key \<Rightarrow> kernel \<Rightarrow> read_failure option" where
  "early_failure cx ty key k =
     (if \<not> in_instance_key k (cx_fiber cx) key then Some RfOutOfScope
      else if key_type key \<noteq> ty then Some RfTypeMismatch
      else if caller_ending cx k \<and> \<not> own_service cx key k then Some RfInactive
      else if \<not> (own_service cx key k \<or> declared_by_injects cx key k) then Some RfUndeclared
      else None)"

definition status_of :: "nat option \<Rightarrow> kernel \<Rightarrow> dependency_status" where
  "status_of bn k = (case bn of
     None \<Rightarrow> Missing
   | Some n \<Rightarrow> binding_status k (k_binding_heap k n))"

text \<open>A replacement in the slot of a service of one's own is no service of one's own.\<close>

definition replaced_failure :: "ctx \<Rightarrow> type_key \<Rightarrow> nat option \<Rightarrow> kernel \<Rightarrow> read_failure option" where
  "replaced_failure cx key bn k =
     (if caller_ending cx k then Some RfInactive
      else if \<not> declared_by_injects cx key k then Some RfUndeclared
      else if status_of bn k \<noteq> Ready then Some (RfUnavailable (status_of bn k))
      else None)"

definition failed_read :: "ctx \<Rightarrow> type_key \<Rightarrow> nat option \<Rightarrow> kernel \<Rightarrow> read_failure" where
  "failed_read cx key bn k =
     (if \<not> own_service cx key k \<and> caller_ending cx k then RfInactive
      else RfUnavailable (if status_of bn k = Ready then Missing else status_of bn k))"

definition read_error_of :: "ctx \<Rightarrow> type_key \<Rightarrow> read_failure \<Rightarrow> kernel \<Rightarrow> read_error" where
  "read_error_of cx key reason k = ReadError key (cx_fiber cx)
     (case k_fibers k (cx_fiber cx) of Some f \<Rightarrow> f_instance f | None \<Rightarrow> 0) reason"

definition require_inner ::
  "ctx \<Rightarrow> nat \<Rightarrow> type_key \<Rightarrow> nat option \<Rightarrow> kernel \<Rightarrow> (read_error + nat) \<times> kernel" where
  "require_inner cx ty key provision k =
     (let i = cx_fiber cx;
          scope = scope_for (cx_isolates cx) key;
          own = own_service cx key k;
          injected = declared_by_injects cx key k;
          bn = lookup_binding (key, scope) k;
          refuse = (\<lambda>r declared. (Inl (read_error_of cx key r k),
             record_access i (access_of key scope None declared (r = RfOutOfScope) True (Some r)) k))
      in case early_failure cx ty key k of
           Some r \<Rightarrow> refuse r (own \<or> injected)
         | None \<Rightarrow>
             if provision \<noteq> None \<and> bn \<noteq> provision
             then (Inl (read_error_of cx key (RfUnavailable Missing) k), k)
             else if \<not> own \<and> status_of bn k \<noteq> Ready
             then refuse (RfUnavailable (status_of bn k)) (own \<or> injected)
             else
               (let (value, found) = read_binding_as cx bn k;
                    replaced = (own \<and> (case found of Some (p, _, _) \<Rightarrow> p \<noteq> i | None \<Rightarrow> False))
                in case (if replaced then replaced_failure cx key bn k else None) of
                     Some r \<Rightarrow> refuse r injected
                   | None \<Rightarrow>
                       (let failure = (case value of
                              None \<Rightarrow> Some (failed_read cx key bn k) | Some _ \<Rightarrow> None)
                        in (case value of
                              Some v \<Rightarrow> Inr v
                            | None \<Rightarrow> Inl (read_error_of cx key (failed_read cx key bn k) k),
                            record_access i
                              (access_of key scope found (own \<or> injected) False True failure) k))))"

section \<open>Rewriting a service\<close>

text \<open>
  \<open>ServiceWriter::set\<close> on the binding \<open>n\<close> of the slot (the caller is of the
  same runtime): only its provider, and only in the generation that provided
  it.
\<close>

definition writer_set ::
  "type_key \<Rightarrow> string option \<Rightarrow> nat \<Rightarrow> ctx \<Rightarrow> nat \<Rightarrow> kernel \<Rightarrow> (write_failure + unit) \<times> kernel" where
  "writer_set key scope n cx v k =
     (let b = k_binding_heap k n; i = cx_fiber cx in
      case k_fibers k (b_provider b) of
        None \<Rightarrow> (Inl Stale, k)
      | Some p \<Rightarrow>
          if k_fibers k i = None then (Inl WrongOwner, k)
          else if i \<noteq> b_provider b \<or> scope_for (cx_isolates cx) key \<noteq> scope
                  \<or> \<not> in_instance_key k i key
          then (Inl WrongOwner, k)
          else (case registration_preflight cx k of
                  Inl _ \<Rightarrow> (Inl Stale, k)
                | Inr _ \<Rightarrow>
                    if f_generation p \<noteq> b_provider_gen b \<or>
                       \<not> (f_state p = Loading \<or> f_state p = Active)
                    then (Inl Stale, k)
                    else (case replace_mutable_if_current (key, scope) n v k of
                            (Inr _, k') \<Rightarrow> (Inr (), k')
                          | (Inl _, k') \<Rightarrow> (Inl Stale, k'))))"

end
