(* ===== verification/Fiber_Api.thy ===== *)
theory Fiber_Api
  imports Contexts
begin

text \<open>
  What callers do with a fiber, \<open>FiberView\<close> of \<open>fiber.rs\<close> and \<open>plugin\<close>,
  \<open>dispose_self\<close> and \<open>shutdown\<close> of \<open>ctx.rs\<close>: spawn and mount it, dispose,
  restart, update and settle it, and shut a subtree or the root down.

  A call gives the kernel after its synchronous part, the sections it still
  has to run (its join last), and the threads it spawns.  A refused call is
  \<open>Inl\<close>.
\<close>

definition ROOT :: nat where
  "ROOT = 1"

section \<open>Spawning\<close>

text \<open>What a plugin or factory says of itself, and the config it is mounted with.\<close>

record plugin_meta =
  pm_source :: plugin_source
  pm_name :: string
  pm_platform :: bool
  pm_injects :: "type_key list"
  pm_config :: "nat option"

definition new_fiber ::
  "bool \<Rightarrow> nat \<Rightarrow> nat \<Rightarrow> plugin_meta \<Rightarrow> ctx option \<Rightarrow> nat option \<Rightarrow> fiber" where
  "new_fiber closed i inst pm parent closed_task =
     (let root = (parent = None);
          initial = (if closed then Disposed else if root then Active else Pending)
      in \<lparr>f_instance = inst,
          f_name = (if closed then ''closed'' else pm_name pm),
          f_row = None,
          f_is_root = root,
          f_platform = (root \<or> \<not> closed \<and> pm_platform pm),
          f_source = (if closed then NoPlugin else pm_source pm),
          f_config = (if closed then None else pm_config pm),
          f_isolates = (case parent of None \<Rightarrow> [] | Some cx \<Rightarrow> cx_isolates cx),
          f_parent = map_option cx_fiber parent,
          f_children = [],
          f_closing = closed,
          f_event_flights = 0,
          f_shutdown_task = None,
          f_shutdown_inner = None,
          f_token = False,
          f_generation = 0,
          f_state = initial,
          f_error = (if closed then Some Closed else None),
          f_seq = 0,
          f_status_queue = [],
          f_terminal_task = closed_task,
          f_pending_restarts = 0,
          f_pre_cancelled = False,
          f_effects = [],
          f_drained_errors = [],
          f_mount = None,
          f_declared_injects = (if closed then [] else pm_injects pm),
          f_intents = [],
          f_alive = (\<not> closed),
          f_receiver = (\<not> closed),
          f_live_generation = (if initial = Active then 0 else NOT_LIVE),
          f_provided = [],
          f_last_deps = None,
          f_accesses = [],
          f_waiting_watch = None\<rparr>)"

text \<open>A declaration on an instance outside the fiber's ancestry is not indexed.\<close>

definition index_injects :: "nat \<Rightarrow> type_key list \<Rightarrow> kernel \<Rightarrow> kernel" where
  "index_injects i keys k =
     fold (\<lambda>key k. if in_instance_key k i key then register_inject key i k else k) keys k"

text \<open>\<open>spawn_fiber_inner\<close>; \<open>None\<close>: the instance ids have run out.\<close>

definition spawn_fiber ::
  "ctx option \<Rightarrow> plugin_meta \<Rightarrow> kernel \<Rightarrow> (nat \<times> kernel \<times> kop list list) option" where
  "spawn_fiber parent pm k = (case allocate_from (k_next_instance k) of
     None \<Rightarrow> None
   | Some (inst, next) \<Rightarrow>
       (let closed = (case parent of
              None \<Rightarrow> False
            | Some cx \<Rightarrow> k_closing k \<or> subtree_closing k (cx_fiber cx)
                         \<or> k_fibers k (cx_fiber cx) = None);
            i = k_next_plugin_id k;
            k1 = k\<lparr>k_next_plugin_id := Suc i, k_next_instance := next\<rparr>
        in if closed
           then (let (t, k2) = new_task k1;
                     k3 = complete t (Some Closed) k2
                 in Some (i, set_fiber i (new_fiber True i inst pm parent (Some t)) k3, []))
           else (let k2 = set_fiber i (new_fiber False i inst pm parent None) k1;
                     k3 = (case parent of
                             None \<Rightarrow> k2
                           | Some cx \<Rightarrow> mod_fiber (cx_fiber cx)
                               (\<lambda>p. p\<lparr>f_children := f_children p @ [i]\<rparr>) k2)
                 in Some (i, index_injects i (pm_injects pm) k3, [[DriveOp i Recv]]))))"

section \<open>Shutting a subtree down\<close>

fun descendants_fuel :: "nat \<Rightarrow> kernel \<Rightarrow> nat \<Rightarrow> nat list" where
  "descendants_fuel 0 k i = [i]"
| "descendants_fuel (Suc n) k i =
     i # (case k_fibers k i of
            None \<Rightarrow> []
          | Some f \<Rightarrow> concat (map (descendants_fuel n k) (f_children f)))"

definition subtree :: "kernel \<Rightarrow> nat \<Rightarrow> nat list" where
  "subtree k i = descendants_fuel (k_next_plugin_id k) k i"

definition close_fiber :: "fiber \<Rightarrow> fiber" where
  "close_fiber f = pre_cancel (f\<lparr>f_closing := True\<rparr>)"

definition close_subtree :: "nat \<Rightarrow> kernel \<Rightarrow> kernel" where
  "close_subtree i k = fold (\<lambda>j. mod_fiber j close_fiber) (subtree k i) k"

text \<open>The terminal task of a closing fiber: the one registered, or a new one that is posted.\<close>

definition shutdown_terminal :: "nat \<Rightarrow> kernel \<Rightarrow> nat \<times> kernel \<times> kop list" where
  "shutdown_terminal i k =
     (case Option.bind (k_fibers k i) f_terminal_task of
        Some t \<Rightarrow> (t, mod_fiber i (\<lambda>f. f\<lparr>f_shutdown_inner := Some t\<rparr>) k, [])
      | None \<Rightarrow>
          (let (t, k1) = new_task k in
           (t, mod_fiber i (\<lambda>f. f\<lparr>f_terminal_task := Some t, f_shutdown_inner := Some t\<rparr>) k1,
            [CleanupOp (Post i (Shutdown t))])))"

text \<open>
  \<open>begin_subtree_shutdown_locked\<close>, on each fiber of a list in turn: the public
  tasks, what is to be posted (children first), and a task for each fiber.
\<close>

fun begin_shutdown ::
  "nat \<Rightarrow> nat list \<Rightarrow> kernel \<Rightarrow> nat list \<times> kernel \<times> kop list \<times> kop list list" where
  "begin_shutdown n [] k = ([], k, [], [])"
| "begin_shutdown 0 (i # is) k = ([], k, [], [])"
| "begin_shutdown (Suc n) (i # is) k =
     (case k_fibers k i of
        None \<Rightarrow> begin_shutdown (Suc n) is k
      | Some f \<Rightarrow>
          (let (t, k', ops, threads) = (case f_shutdown_task f of
                 Some t \<Rightarrow> (t, k, [], [])
               | None \<Rightarrow>
                   (let (public, k1) = new_task k;
                        k2 = set_fiber i (f\<lparr>f_shutdown_task := Some public\<rparr>) k1;
                        (cts, k3, ops3, th3) = begin_shutdown n (f_children f) k2;
                        (inner, k4, ops4) = shutdown_terminal i k3
                    in (public, k4, ops3 @ ops4,
                        th3 @ [[ShutOp (JoinInner i inner cts public)]])));
               (ts, k'', ops'', threads'') = begin_shutdown (Suc n) is k'
           in (t # ts, k'', ops @ ops'', threads @ threads'')))"

definition subtree_shutdown ::
  "nat \<Rightarrow> kernel \<Rightarrow> nat list \<times> kernel \<times> kop list \<times> kop list list" where
  "subtree_shutdown i k = begin_shutdown (Suc (k_next_plugin_id k)) [i] (close_subtree i k)"

section \<open>Mounting\<close>

text \<open>\<open>register_mount_effect\<close>: the child's dispose, an effect of the parent.\<close>

definition register_mount :: "ctx \<Rightarrow> nat \<Rightarrow> fiber \<Rightarrow> kernel \<Rightarrow> error_kind + kernel" where
  "register_mount cx c child k = (case registration_open cx k of
     Inl e \<Rightarrow> Inl e
   | Inr _ \<Rightarrow>
       if f_closing child \<or> \<not> f_alive child then Inl Closed
       else (case k_fibers k (cx_fiber cx) of
               None \<Rightarrow> Inl InactiveEffect
             | Some p \<Rightarrow>
                 (case check_generation cx (f_generation p) (f_state p) of
                    Inl e \<Rightarrow> Inl e
                  | Inr _ \<Rightarrow>
                      if ending_state (f_state p) then Inl InactiveEffect
                      else (let (r, k1) = push_effect (cx_fiber cx)
                                  (record_from (EffAsyncDisposer (DisposeChild c))
                                     (''plugin mount: '' @ f_name child @ '' #'' @ show_nat c)
                                     OMount (cx_fiber cx)) k
                            in Inr (mod_fiber c (\<lambda>f. f\<lparr>f_mount := Some r\<rparr>) k1)))))"

definition mount_fiber ::
  "ctx \<Rightarrow> nat \<Rightarrow> kernel \<Rightarrow> kernel \<times> kop list \<times> kop list list" where
  "mount_fiber cx c k = (case k_fibers k c of
     None \<Rightarrow> (k, [], [])
   | Some child \<Rightarrow>
       if \<not> f_alive child then (k, [], [])
       else (case register_mount cx c child k of
               Inr k1 \<Rightarrow> (k1, [CleanupOp (Post c RefreshDeps)], [])
             | Inl _ \<Rightarrow>
                 if f_closing child then (k, [], [])
                 else if k_closing k
                 then (let (_, k1, ops, threads) = subtree_shutdown c k in (k1, ops, threads))
                 else (k, [CleanupOp (Post c Dispose)], [])))"

section \<open>Dispose\<close>

definition dispose ::
  "nat \<Rightarrow> kernel \<Rightarrow> kernel \<times> kop list" where
  "dispose i k = (case k_fibers k i of
     None \<Rightarrow> (k, [])
   | Some f \<Rightarrow>
       (case (if f_is_root f \<and> k_closing k then k_shutdown_task k else None) of
          Some t \<Rightarrow> (k, [CleanupOp (JoinTask t)])
        | None \<Rightarrow>
            (let (t, k1, ops) = register_dispose i f k in (k1, ops @ [CleanupOp (JoinTask t)]))))"

definition dispose_self :: "ctx \<Rightarrow> kernel \<Rightarrow> error_kind + (kernel \<times> kop list)" where
  "dispose_self cx k = (case k_fibers k (cx_fiber cx) of
     None \<Rightarrow> Inl InactiveEffect
   | Some f \<Rightarrow>
       if f_is_root f then Inl (Validation [''the root disposes through shutdown''])
       else if (case cx_generation cx of Some g \<Rightarrow> g \<noteq> f_generation f | None \<Rightarrow> False)
               \<or> f_token f \<or> ending_state (f_state f)
       then Inl InactiveEffect
       else (let (t, k1, ops) = register_dispose (cx_fiber cx) f k in Inr (k1, ops)))"

section \<open>Restart, update, settle\<close>

definition accepts :: "fiber \<Rightarrow> kernel \<Rightarrow> error_kind option" where
  "accepts f k =
     (if k_closing k \<or> f_closing f then Some Closed
      else if \<not> f_is_root f \<and> (f_terminal_task f \<noteq> None \<or> \<not> f_alive f) then Some InactiveEffect
      else None)"

definition request_restart :: "fiber \<Rightarrow> fiber" where
  "request_restart f =
     f\<lparr>f_pending_restarts := Suc (f_pending_restarts f), f_pre_cancelled := True, f_token := True\<rparr>"

definition post_restart :: "nat \<Rightarrow> kernel \<Rightarrow> kernel \<times> kop list" where
  "post_restart i k =
     (let (t, k1) = new_task k; (k2, ops) = post_join i t Restart k1
      in (k2, ops @ [CleanupOp (JoinTask t)]))"

definition restart :: "nat \<Rightarrow> kernel \<Rightarrow> error_kind + (kernel \<times> kop list)" where
  "restart i k = (case k_fibers k i of
     None \<Rightarrow> Inl InactiveEffect
   | Some f \<Rightarrow>
       (case accepts f k of
          Some e \<Rightarrow> Inl e
        | None \<Rightarrow> Inr (post_restart i (set_fiber i (request_restart f) k))))"

text \<open>
  \<open>update\<close> before its dry run, the dry run, and what follows it (the
  conditions are checked again).  \<open>ty\<close> is the type of the new config.
\<close>

definition update_check :: "nat \<Rightarrow> nat \<Rightarrow> kernel \<Rightarrow> error_kind option" where
  "update_check i ty k = (case k_fibers k i of
     None \<Rightarrow> Some InactiveEffect
   | Some f \<Rightarrow>
       (case accepts f k of
          Some e \<Rightarrow> Some e
        | None \<Rightarrow>
            (case f_source f of
               Factory t \<Rightarrow> if t = ty then None else Some (Validation [''config type mismatch''])
             | _ \<Rightarrow> Some (Validation [''fiber has no factory (static plugin cannot update)'']))))"

definition dry_run :: "unit call \<Rightarrow> unit call \<Rightarrow> unit call \<Rightarrow> error_kind option" where
  "dry_run validate_config build validate =
     map_option shared
       (case call_error validate_config of
          Some e \<Rightarrow> Some e
        | None \<Rightarrow> (case call_error build of Some e \<Rightarrow> Some e | None \<Rightarrow> call_error validate))"

definition update_commit :: "nat \<Rightarrow> nat \<Rightarrow> kernel \<Rightarrow> error_kind + (kernel \<times> kop list)" where
  "update_commit i config k = (case k_fibers k i of
     None \<Rightarrow> Inl InactiveEffect
   | Some f \<Rightarrow>
       (case accepts f k of
          Some e \<Rightarrow> Inl e
        | None \<Rightarrow>
            Inr (post_restart i (set_fiber i ((request_restart f)\<lparr>f_config := Some config\<rparr>) k))))"

text \<open>\<open>set_config\<close>: stored without a restart, when its own check accepts it.\<close>

definition set_config :: "nat \<Rightarrow> nat \<Rightarrow> nat \<Rightarrow> unit call \<Rightarrow> kernel \<Rightarrow> error_kind + kernel" where
  "set_config i ty config validate_config k = (case k_fibers k i of
     None \<Rightarrow> Inl InactiveEffect
   | Some f \<Rightarrow>
       (case accepts f k of
          Some e \<Rightarrow> Inl e
        | None \<Rightarrow>
            (case f_source f of
               Factory t \<Rightarrow>
                 if t \<noteq> ty then Inl (Validation [''config type mismatch''])
                 else (case call_error validate_config of
                         Some e \<Rightarrow> Inl (shared e)
                       | None \<Rightarrow> Inr (set_fiber i (f\<lparr>f_config := Some config\<rparr>) k))
             | _ \<Rightarrow> Inl (Validation [''fiber has no factory (static plugin has no config)'']))))"

definition settle :: "nat \<Rightarrow> kernel \<Rightarrow> kernel \<times> kop list" where
  "settle i k =
     (let (t, k1) = new_task k; (k2, ops) = post_join i t Settle k1
      in (k2, ops @ [CleanupOp (JoinTask t)]))"

section \<open>Shutdown\<close>

definition shutdown_root :: "kernel \<Rightarrow> kernel \<times> kop list" where
  "shutdown_root k = (case k_shutdown_task k of
     Some t \<Rightarrow> (k, [CleanupOp (JoinTask t)])
   | None \<Rightarrow>
       (let (t, k1) = new_task k;
            k2 = k1\<lparr>k_shutdown_task := Some t, k_closing := True\<rparr>
        in if k_fibers k2 ROOT = None then (complete t (Some Closed) k2, [CleanupOp (JoinTask t)])
           else (fold (\<lambda>j. mod_fiber j pre_cancel) (subtree k2 ROOT) k2,
                 [CleanupOp (Post ROOT (Shutdown t)), CleanupOp (JoinTask t)])))"

definition shutdown_fiber :: "nat \<Rightarrow> kernel \<Rightarrow> kernel \<times> kop list \<times> kop list list" where
  "shutdown_fiber i k =
     (if i = ROOT then (let (k1, ops) = shutdown_root k in (k1, ops, []))
      else (let (ts, k1, ops, threads) = subtree_shutdown i k
            in (k1, ops @ map (\<lambda>t. CleanupOp (JoinTask t)) ts, threads)))"

end
