(* ===== verification/System.thy ===== *)
theory System
  imports Fiber_Api
begin

text \<open>
  The kernel running: a state of the tables and a list of threads, each with
  the sections it still has to run.  A step runs the head section of one
  thread, in any environment, or makes one call of the public API.

  Every interleaving of sections is a run here.  Calls are not restricted to
  the order a well-behaved caller keeps, so that an invariant of the
  reachable states holds whatever callers do.
\<close>

record sys =
  sy_kernel :: kernel
  sy_threads :: "kop list list"

text \<open>Calls whose future is joined, and those whose thread is new.\<close>

inductive api_call :: "kernel \<Rightarrow> kernel \<Rightarrow> kop list list \<Rightarrow> bool" where
  call_mount_spawn:
    "spawn_fiber (Some cx) pm k = Some (i, k', threads) \<Longrightarrow> api_call k k' threads"
| call_mount: "mount_fiber cx c k = (k', ops, threads) \<Longrightarrow> api_call k k' (ops # threads)"
| call_dispose: "dispose i k = (k', ops) \<Longrightarrow> api_call k k' [ops]"
| call_dispose_self: "dispose_self cx k = Inr (k', ops) \<Longrightarrow> api_call k k' [ops]"
| call_restart: "restart i k = Inr (k', ops) \<Longrightarrow> api_call k k' [ops]"
| call_update: "update_commit i config k = Inr (k', ops) \<Longrightarrow> api_call k k' [ops]"
| call_set_config: "set_config i ty config vc k = Inr k' \<Longrightarrow> api_call k k' []"
| call_settle: "settle i k = (k', ops) \<Longrightarrow> api_call k k' [ops]"
| call_shutdown: "shutdown_fiber i k = (k', ops, threads) \<Longrightarrow> api_call k k' (ops # threads)"
| call_effect_begin: "effect_begin cx k = Inr k' \<Longrightarrow> api_call k k' []"
| call_effect_commit:
    "effect_commit cx label origin eff k = (r, k', ops) \<Longrightarrow> api_call k k' [ops]"
| call_provide:
    "provide_native cx type_name key v named k = Inr (r, k', ops) \<Longrightarrow> api_call k k' [ops]"
| call_read: "read_optional cx key k = (r, k') \<Longrightarrow> api_call k k' []"
| call_require: "require_inner cx ty key prov k = (r, k') \<Longrightarrow> api_call k k' []"
| call_write: "writer_set key scope n cx v k = (r, k') \<Longrightarrow> api_call k k' []"
| call_disposer: "api_call k k [[CleanupOp (DrainRecord r)]]"

inductive sys_step :: "sys \<Rightarrow> sys \<Rightarrow> bool" where
  step_thread:
    "n < length ths \<Longrightarrow> ths ! n = op # ops \<Longrightarrow> exec en op k = Some (k', new) \<Longrightarrow>
     sys_step \<lparr>sy_kernel = k, sy_threads = ths\<rparr>
              \<lparr>sy_kernel = k', sy_threads = ths[n := new @ ops]\<rparr>"
| step_call:
    "api_call k k' threads \<Longrightarrow>
     sys_step \<lparr>sy_kernel = k, sy_threads = ths\<rparr>
              \<lparr>sy_kernel = k', sy_threads = ths @ threads\<rparr>"

text \<open>\<open>Ctx::root_with_sink\<close>: empty tables, and the root.\<close>

definition empty_kernel :: "nat \<Rightarrow> kernel" where
  "empty_kernel inst =
     \<lparr>k_fibers = Map.empty, k_bindings = Map.empty,
      k_binding_heap = (\<lambda>_. \<lparr>b_value = Fixed 0, b_provider = 0, b_provider_gen = 0, b_removing = False\<rparr>),
      k_next_binding = 0, k_inject_index = Map.empty,
      k_records = (\<lambda>_. record_from EffDone [] OOther 0), k_next_record = 0,
      k_tasks = (\<lambda>_. Running), k_next_task = 0, k_closing = False, k_shutdown_task = None,
      k_next_plugin_id = ROOT, k_next_instance = inst, k_sink = [], k_emitted = []\<rparr>"

definition root_meta :: plugin_meta where
  "root_meta = \<lparr>pm_source = NoPlugin, pm_name = ''root'', pm_platform = False,
     pm_injects = [], pm_config = None\<rparr>"

text \<open>\<open>inst\<close> is the value of the process-wide instance counter.\<close>

definition sys_init :: "nat \<Rightarrow> sys option" where
  "sys_init inst = (case spawn_fiber None root_meta (empty_kernel inst) of
     None \<Rightarrow> None
   | Some (i, k, threads) \<Rightarrow> Some \<lparr>sy_kernel = k, sy_threads = threads\<rparr>)"

inductive sys_reachable :: "nat \<Rightarrow> sys \<Rightarrow> bool" for inst where
  sr_init: "sys_init inst = Some s \<Longrightarrow> sys_reachable inst s"
| sr_step: "sys_reachable inst s \<Longrightarrow> sys_step s t \<Longrightarrow> sys_reachable inst t"

inductive_cases sys_step_cases: "sys_step s t"

lemma sys_init_root:
  "sys_init inst = Some s \<longleftrightarrow> inst < u64_max \<and>
     s = \<lparr>sy_kernel = set_fiber ROOT (new_fiber False ROOT inst root_meta None None)
            ((empty_kernel inst)\<lparr>k_next_plugin_id := Suc ROOT, k_next_instance := inst + 1\<rparr>),
          sy_threads = [[DriveOp ROOT Recv]]\<rparr>"
  by (auto simp: sys_init_def spawn_fiber_def allocate_from_def Let_def root_meta_def
      index_injects_def empty_kernel_def)

section \<open>What leaves the life of fibers alone\<close>

text \<open>
  The part of a fiber that says where it is in its life.  Only its driver
  changes it.
\<close>

record core =
  co_state :: fiber_state
  co_generation :: nat
  co_live :: nat
  co_seq :: nat
  co_queue :: "status_changed list"
  co_root :: bool

definition core_of :: "fiber \<Rightarrow> core" where
  "core_of f = \<lparr>co_state = f_state f, co_generation = f_generation f,
     co_live = f_live_generation f, co_seq = f_seq f, co_queue = f_status_queue f,
     co_root = f_is_root f\<rparr>"

definition cores :: "kernel \<Rightarrow> nat \<Rightarrow> core option" where
  "cores k i = map_option core_of (k_fibers k i)"

definition same_core :: "kernel \<Rightarrow> kernel \<Rightarrow> bool" where
  "same_core k k' \<longleftrightarrow> cores k' = cores k \<and> k_emitted k' = k_emitted k \<and>
     k_next_plugin_id k' = k_next_plugin_id k"

lemma same_core_refl [simp]: "same_core k k"
  by (simp add: same_core_def)

lemma same_core_trans: "same_core a b \<Longrightarrow> same_core b c \<Longrightarrow> same_core a c"
  by (simp add: same_core_def)

lemma same_core_eq:
  "k_fibers k' = k_fibers k \<Longrightarrow> k_emitted k' = k_emitted k \<Longrightarrow>
   k_next_plugin_id k' = k_next_plugin_id k \<Longrightarrow> same_core k k'"
  by (simp add: same_core_def cores_def fun_eq_iff)

lemma same_core_set:
  "same_core k k1 \<Longrightarrow> k_fibers k i = Some f \<Longrightarrow> core_of g = core_of f \<Longrightarrow>
   same_core k (set_fiber i g k1)"
  by (auto simp: same_core_def cores_def fun_eq_iff set_fiber_def)

lemma cores_mod: "(\<And>f. core_of (g f) = core_of f) \<Longrightarrow> cores (mod_fiber i g k) = cores k"
  by (auto simp: cores_def fun_eq_iff option.map_comp comp_def intro: option.map_cong)

lemma next_plugin_mod [simp]: "k_next_plugin_id (mod_fiber i g k) = k_next_plugin_id k"
  by (simp add: mod_fiber_def set_fiber_def split: option.split)

lemma same_core_mod:
  "same_core k k1 \<Longrightarrow> (\<And>f. core_of (g f) = core_of f) \<Longrightarrow> same_core k (mod_fiber i g k1)"
  by (simp add: same_core_def cores_mod)

lemma same_core_report [fiber_frame]:
  "same_core k (report e k)" "same_core k (report_all es k)"
  by (auto intro!: same_core_eq simp: report_def report_all_def)

lemma same_core_complete [fiber_frame]: "same_core k (complete t e k)"
  by (auto intro!: same_core_eq simp: complete_def)

lemma same_core_complete_opt [fiber_frame]: "same_core k (complete_opt t e k)"
  by (auto simp: complete_opt_def fiber_frame split: option.split)

lemma same_core_complete_intent [fiber_frame]: "same_core k (complete_intent it e k)"
  by (auto simp: complete_intent_def fiber_frame split: option.split)

lemma same_core_new_task [fiber_frame]: "same_core k (snd (new_task k))"
  by (auto intro!: same_core_eq simp: new_task_def)

lemma same_core_post [fiber_frame]: "same_core k (fst (post i it k))"
  by (auto simp: post_def fiber_frame split: option.split)

lemma same_core_post_join [fiber_frame]: "same_core k (fst (post_join i t mk k))"
  by (auto simp: post_join_def fiber_frame split: option.split)

lemma same_core_recheck [fiber_frame]: "same_core k (recheck i t k)"
  by (auto simp: recheck_def fiber_frame split: option.split)

lemma same_core_send [fiber_frame]: "same_core k (send i it k)"
  by (auto simp: send_def fiber_frame core_of_def intro: same_core_set split: option.split)

lemma same_core_post_all [fiber_frame]: "same_core k (fst (post_all is it k))"
proof (induction "is" arbitrary: k)
  case (Cons i js)
  have "same_core k (fst (post i it k))" by (rule same_core_post)
  moreover have "same_core (fst (post i it k)) (fst (post_all js it (fst (post i it k))))"
    by (rule Cons.IH)
  ultimately show ?case by (auto simp: split_beta Let_def intro: same_core_trans)
qed simp

lemma same_core_notify [fiber_frame]: "same_core k (fst (notify_key_changed key k))"
  by (auto simp: notify_key_changed_def fiber_frame split: option.split)

lemma same_core_notify_keys [fiber_frame]: "same_core k (fst (notify_keys keys k))"
proof (induction keys arbitrary: k)
  case (Cons key ks)
  have "same_core k (fst (notify_key_changed key k))" by (rule same_core_notify)
  moreover have "same_core (fst (notify_key_changed key k))
      (fst (notify_keys ks (fst (notify_key_changed key k))))"
    by (rule Cons.IH)
  ultimately show ?case by (auto simp: split_beta Let_def intro: same_core_trans)
qed simp

lemma core_simps [simp]:
  "core_of (pre_cancel f) = core_of f" "core_of (cancel_current f) = core_of f"
  "core_of (close_fiber f) = core_of f" "core_of (watch_waiting f) = core_of f"
  "core_of (begin_event f) = core_of f" "core_of (finish_event f) = core_of f"
  "core_of (request_restart f) = core_of f" "core_of (add_prior p f) = core_of f"
  by (auto simp: core_of_def pre_cancel_def cancel_current_def close_fiber_def watch_waiting_def
      begin_event_def finish_event_def request_restart_def add_prior_def split: option.split)

lemma same_core_push_effect [fiber_frame]: "same_core k (snd (push_effect i r k))"
  by (auto simp: push_effect_def Let_def core_of_def intro!: same_core_mod same_core_eq)

lemma same_core_set_record [fiber_frame]: "same_core k (set_record r st k)"
  by (auto intro!: same_core_eq simp: set_record_def)

lemma same_core_finish_record [fiber_frame]: "same_core k (finish_record r e k)"
  by (auto simp: finish_record_def core_of_def split_beta Let_def
      intro!: same_core_mod same_core_set_record)

lemma same_core_evict [fiber_frame]:
  "same_core k (fst (evict_mark p g key scope k))"
  "same_core k (evict_end p key scope old k)"
  by (auto simp: evict_mark_def evict_end_def mark_removing_if_def finalize_binding_if_def Let_def
      core_of_def intro!: same_core_mod same_core_eq split: option.split)

lemma same_core_register_dispose [fiber_frame]:
  "k_fibers k i = Some f \<Longrightarrow> same_core k (fst (snd (register_dispose i f k)))"
  by (auto simp: register_dispose_def split_beta Let_def core_of_def fiber_frame
      intro!: same_core_set split: option.split)

lemma same_core_child [fiber_frame]: "same_core k (fst (child_dispose c k))"
  by (auto simp: child_dispose_def split_beta Let_def fiber_frame split: option.split)

lemma same_core_evict_consumers [fiber_frame]:
  "same_core k (fst (evict_consumers cs ts p key scope old k))"
proof (cases cs)
  case Nil
  then show ?thesis by (simp add: evict_consumers_def split_beta Let_def fiber_frame)
next
  case (Cons c cs')
  let ?k1 = "mod_fiber c pre_cancel k" and ?k2 = "snd (new_task (mod_fiber c pre_cancel k))"
  have 1: "same_core k ?k1" by (rule same_core_mod) simp_all
  have 2: "same_core ?k1 ?k2" by (rule same_core_new_task)
  have 3: "same_core ?k2 (fst (post_join c (fst (new_task ?k1)) RefreshDepsJoin ?k2))"
    by (rule same_core_post_join)
  show ?thesis
    using 1 same_core_trans [OF 1 same_core_trans [OF 2 3]]
    by (auto simp: evict_consumers_def Cons split_beta Let_def split: option.split)
qed

lemma exec_cleanup_core: "exec_cleanup en co k = Some (k', new) \<Longrightarrow> same_core k k'"
  by (cases co)
     (auto simp: exec_cleanup_def drain_record_def child_joined_def fiber_frame
       intro: same_core_set_record
       split: option.splits prod.splits sum.splits
       dest!: arg_cong [of "evict_mark _ _ _ _ _" _ fst] arg_cong [of "evict_consumers _ _ _ _ _ _ _" _ fst]
         arg_cong [of "child_dispose _ _" _ fst] arg_cong [of "post _ _ _" _ fst]
       simp del: core_simps)

lemma exec_shut_core: "exec_shut so k = Some (k', new) \<Longrightarrow> same_core k k'"
  by (cases so) (auto simp: exec_shut_def fiber_frame split: option.splits list.splits if_splits)

end
