(* ===== verification/Lifecycle.thy ===== *)
theory Lifecycle
  imports System
begin

text \<open>
  The life of a fiber: which state changes there are, that every reachable
  state's log of status events is a path of them, and what the driver's
  pending sections expect of the state they start in.

  The proof assigns each section that belongs to a driver the states it may
  start in (\<open>pre\<close>) and the states its whole work may end in (\<open>post\<close>), and
  shows that a section keeps that promise through the sections it leaves.
\<close>

section \<open>State changes and the log of them\<close>

definition legal :: "fiber_state \<Rightarrow> fiber_state \<Rightarrow> bool" where
  "legal s t \<longleftrightarrow> (case s of
     Pending \<Rightarrow> t = Loading \<or> t = Unloading
   | Loading \<Rightarrow> t = Active \<or> t = Unloading
   | Active \<Rightarrow> t = Unloading
   | Failed \<Rightarrow> t = Unloading
   | Unloading \<Rightarrow> t = Pending \<or> t = Disposed \<or> t = Failed
   | Disposed \<Rightarrow> t = Active)"

text \<open>A log, followed from a state, a generation and a sequence number.\<close>

fun life :: "nat \<Rightarrow> fiber_state \<Rightarrow> nat \<Rightarrow> nat \<Rightarrow> status_changed list \<Rightarrow>
    (fiber_state \<times> nat \<times> nat) option" where
  "life i s g n [] = Some (s, g, n)"
| "life i s g n (e # es) =
     (let g' = (if sc_to e = Loading then Suc g else g) in
      if sc_plugin e = i \<and> sc_from e = s \<and> legal s (sc_to e) \<and> sc_seq e = Suc n \<and>
         sc_generation e = g'
      then life i (sc_to e) g' (Suc n) es else None)"

lemma life_append:
  "life i s g n (a @ b) = (case life i s g n a of
     None \<Rightarrow> None | Some (s', g', n') \<Rightarrow> life i s' g' n' b)"
  by (induction a arbitrary: s g n) (auto simp: Let_def)

lemma legal_neq: "legal s t \<Longrightarrow> s \<noteq> t"
  by (auto simp: legal_def split: fiber_state.splits)

definition events_of :: "kernel \<Rightarrow> nat \<Rightarrow> status_changed list" where
  "events_of k i = filter (\<lambda>e. sc_plugin e = i) (k_emitted k)"

definition live_of :: "fiber_state \<Rightarrow> nat \<Rightarrow> nat" where
  "live_of s g = (if s = Loading \<or> s = Active then g else NOT_LIVE)"

definition first_state :: "fiber_state \<Rightarrow> bool \<Rightarrow> bool" where
  "first_state s root \<longleftrightarrow> (if root then s = Active else s = Pending \<or> s = Disposed)"

definition life_core :: "status_changed list \<Rightarrow> nat \<Rightarrow> core \<Rightarrow> bool" where
  "life_core es i c \<longleftrightarrow>
     (\<exists>s0. first_state s0 (co_root c) \<and>
        life i s0 0 0 (es @ co_queue c) = Some (co_state c, co_generation c, co_seq c)) \<and>
     co_live c = live_of (co_state c) (co_generation c) \<and>
     (\<forall>e \<in> set (co_queue c). sc_plugin e = i)"

definition life_at :: "kernel \<Rightarrow> nat \<Rightarrow> bool" where
  "life_at k i \<longleftrightarrow> (\<forall>c. cores k i = Some c \<longrightarrow> life_core (events_of k i) i c)"

lemma life_at_same_core: "same_core k k' \<Longrightarrow> life_at k' i = life_at k i"
  by (simp add: life_at_def same_core_def events_of_def)

lemma cores_Some: "cores k i = Some c \<longleftrightarrow> (\<exists>f. k_fibers k i = Some f \<and> c = core_of f)"
  by (auto simp: cores_def)

lemma same_core_fiber:
  "same_core k k' \<Longrightarrow> k_fibers k i = Some f \<Longrightarrow> \<exists>g. k_fibers k' i = Some g \<and> core_of g = core_of f"
  by (auto simp: same_core_def cores_def fun_eq_iff dest: spec [of _ i])

section \<open>The changes a driver makes\<close>

text \<open>What a section of driver \<open>i\<close> may do: nothing, one legal change, and a flush.\<close>

definition driven :: "nat \<Rightarrow> kernel \<Rightarrow> kernel \<Rightarrow> bool" where
  "driven i k k' \<longleftrightarrow>
     k_next_plugin_id k' = k_next_plugin_id k \<and>
     (\<forall>j. j \<noteq> i \<longrightarrow> cores k' j = cores k j) \<and>
     (cores k i = None \<longrightarrow> cores k' i = None) \<and>
     (life_at k i \<longrightarrow> life_at k' i \<and> (\<forall>j. j \<noteq> i \<longrightarrow> events_of k' j = events_of k j))"

lemma driven_same_core: "same_core k k' \<Longrightarrow> driven i k k'"
  by (auto simp: driven_def same_core_def life_at_def events_of_def)

lemma driven_trans: "driven i a b \<Longrightarrow> driven i b c \<Longrightarrow> driven i a c"
  by (auto simp: driven_def)

lemma driven_flush: "driven i k (flush_status i k)"
proof (cases "k_fibers k i")
  case None
  then show ?thesis by (simp add: flush_status_def driven_def)
next
  case (Some f)
  let ?k = "flush_status i k"
  have em: "k_emitted ?k = k_emitted k @ f_status_queue f"
    and fi: "k_fibers ?k = (k_fibers k)(i \<mapsto> f\<lparr>f_status_queue := []\<rparr>)"
    and nx: "k_next_plugin_id ?k = k_next_plugin_id k"
    by (simp_all add: flush_status_def Some set_fiber_def)
  have co: "cores ?k i = Some ((core_of f)\<lparr>co_queue := []\<rparr>)"
    and old: "cores k i = Some (core_of f)" and ot: "\<And>j. j \<noteq> i \<Longrightarrow> cores ?k j = cores k j"
    by (simp_all add: cores_def fi Some core_of_def)
  have "life_at ?k i \<and> (\<forall>j. j \<noteq> i \<longrightarrow> events_of ?k j = events_of k j)" if "life_at k i"
  proof -
    have lc: "life_core (events_of k i) i (core_of f)" using that old by (simp add: life_at_def)
    then have q: "\<forall>e \<in> set (f_status_queue f). sc_plugin e = i"
      by (simp add: life_core_def core_of_def)
    have ev: "events_of ?k i = events_of k i @ f_status_queue f"
      using q by (simp add: events_of_def em)
    have "life_core (events_of ?k i) i ((core_of f)\<lparr>co_queue := []\<rparr>)"
      using lc by (simp add: life_core_def ev core_of_def)
    moreover have "\<forall>j. j \<noteq> i \<longrightarrow> events_of ?k j = events_of k j"
      using q by (auto simp: events_of_def em filter_empty_conv)
    ultimately show ?thesis using co by (simp add: life_at_def)
  qed
  then show ?thesis using co old ot nx by (auto simp: driven_def)
qed

lemma core_set_state:
  "f_state f \<noteq> new \<Longrightarrow>
   core_of (set_state i new f) = (core_of f)\<lparr>co_state := new, co_live := live_of new (f_generation f),
     co_seq := Suc (f_seq f),
     co_queue := f_status_queue f @ [\<lparr>sc_plugin = i, sc_seq = Suc (f_seq f),
        sc_generation = f_generation f, sc_from = f_state f, sc_to = new\<rparr>]\<rparr>"
  by (auto simp: set_state_def Let_def core_of_def publish_live_def live_of_def
      split: fiber_state.split)

lemma life_snoc:
  "life i s g n es = Some (s', g', n') \<Longrightarrow> legal s' t \<Longrightarrow>
   g'' = (if t = Loading then Suc g' else g') \<Longrightarrow>
   life i s g n (es @ [\<lparr>sc_plugin = i, sc_seq = Suc n', sc_generation = g'', sc_from = s',
     sc_to = t\<rparr>]) = Some (t, g'', Suc n')"
  by (simp add: life_append)

lemma life_core_change:
  assumes lc: "life_core es i c" and legal: "legal (co_state c) t"
    and g: "g = (if t = Loading then Suc (co_generation c) else co_generation c)"
    and d: "co_state d = t" "co_generation d = g" "co_live d = live_of t g"
      "co_seq d = Suc (co_seq c)" "co_root d = co_root c"
      "co_queue d = co_queue c @ [\<lparr>sc_plugin = i, sc_seq = Suc (co_seq c), sc_generation = g,
         sc_from = co_state c, sc_to = t\<rparr>]"
  shows "life_core es i d"
proof -
  obtain s0 where s0: "first_state s0 (co_root c)"
    and l: "life i s0 0 0 (es @ co_queue c) = Some (co_state c, co_generation c, co_seq c)"
    using lc by (auto simp: life_core_def)
  have "life i s0 0 0 (es @ co_queue d) = Some (co_state d, co_generation d, co_seq d)"
    using life_snoc [OF l legal g] by (simp add: d)
  then show ?thesis using s0 lc d by (auto simp: life_core_def)
qed

text \<open>A state change, of a fiber whose generation may just have moved on.\<close>

lemma driven_set_state:
  assumes f: "k_fibers k i = Some f" and legal: "legal (f_state f) new"
    and k1: "same_core k k1"
    and core: "core_of g = (core_of f)\<lparr>co_generation := f_generation g\<rparr>"
    and gen: "f_generation g = (if new = Loading then Suc (f_generation f) else f_generation f)"
  shows "driven i k (set_fiber i (set_state i new g) k1)"
proof -
  let ?k = "set_fiber i (set_state i new g) k1"
  have cf: "f_state g = f_state f" "f_seq g = f_seq f" "f_status_queue g = f_status_queue f"
    "f_is_root g = f_is_root f"
    using core by (auto simp: core_of_def)
  have "f_state g \<noteq> new" using legal_neq [OF legal] cf by simp
  then have cg: "core_of (set_state i new g) = (core_of g)\<lparr>co_state := new,
      co_live := live_of new (f_generation g), co_seq := Suc (f_seq g),
      co_queue := f_status_queue g @ [\<lparr>sc_plugin = i, sc_seq = Suc (f_seq g),
        sc_generation = f_generation g, sc_from = f_state g, sc_to = new\<rparr>]\<rparr>"
    by (rule core_set_state)
  have co: "cores ?k i = Some (core_of (set_state i new g))"
    and ot: "\<And>j. j \<noteq> i \<Longrightarrow> cores ?k j = cores k j"
    and ev: "\<And>j. events_of ?k j = events_of k j"
    and nx: "k_next_plugin_id ?k = k_next_plugin_id k"
    using k1 by (auto simp: cores_def same_core_def events_of_def fun_eq_iff set_fiber_def)
  have "life_at ?k i" if "life_at k i"
  proof -
    have "life_core (events_of k i) i (core_of f)" using that f by (simp add: life_at_def cores_def)
    then have "life_core (events_of k i) i (core_of (set_state i new g))"
      by (rule life_core_change [of _ _ _ new "f_generation g"])
        (use legal gen cf cg in \<open>auto simp: core_of_def\<close>)
    then show ?thesis using co ev by (simp add: life_at_def)
  qed
  then show ?thesis using ot ev nx f by (auto simp: driven_def cores_def)
qed

section \<open>What the pending sections of a driver expect\<close>

definition resting :: "fiber_state set" where
  "resting = {Pending, Active, Failed, Disposed}"

definition loaded_end :: "fiber_state set" where
  "loaded_end = {Pending, Active, Failed, Disposed}"

fun next_fiber_state :: "next_state \<Rightarrow> fiber_state" where
  "next_fiber_state NextPending = Pending"
| "next_fiber_state NextDisposed = Disposed"

fun drain_end :: "drain_for \<Rightarrow> fiber_state" where
  "drain_end (ForUnload next) = next_fiber_state next"
| "drain_end (ForFailedLoad _ _ _) = Failed"

fun pre_load :: "load_op \<Rightarrow> fiber_state \<Rightarrow> bool" where
  "pre_load Refresh s \<longleftrightarrow> s \<in> resting"
| "pre_load UnloadForDispose s \<longleftrightarrow> s \<in> resting"
| "pre_load (Load _) s \<longleftrightarrow> s = Pending"
| "pre_load (RecordDeps _) s \<longleftrightarrow> s = Loading"
| "pre_load (Gate _) s \<longleftrightarrow> s = Loading"
| "pre_load (Build _) s \<longleftrightarrow> s = Loading"
| "pre_load (Validate _) s \<longleftrightarrow> s = Loading"
| "pre_load (Apply _) s \<longleftrightarrow> s = Loading"
| "pre_load Adopt s \<longleftrightarrow> s = Loading"
| "pre_load Activate s \<longleftrightarrow> s = Loading"
| "pre_load (FailLoad _ _) s \<longleftrightarrow> s = Loading"
| "pre_load (FailStop _ _) s \<longleftrightarrow> s = Unloading"
| "pre_load WatchWaiting s \<longleftrightarrow> True"
| "pre_load NotifyProvided s \<longleftrightarrow> True"
| "pre_load RepostIfReady s \<longleftrightarrow> True"

fun post_load :: "load_op \<Rightarrow> fiber_state \<Rightarrow> fiber_state set" where
  "post_load Refresh s = (if s = Disposed then {Disposed} else loaded_end)"
| "post_load UnloadForDispose s = {Disposed}"
| "post_load (Load _) s = loaded_end"
| "post_load (RecordDeps _) s = loaded_end"
| "post_load (Gate _) s = loaded_end"
| "post_load (Build _) s = loaded_end"
| "post_load (Validate _) s = loaded_end"
| "post_load (Apply _) s = loaded_end"
| "post_load Activate s = {Active}"
| "post_load (FailLoad _ _) s = {Pending, Disposed, Failed}"
| "post_load (FailStop _ _) s = {Failed}"
| "post_load Adopt s = {s}"
| "post_load WatchWaiting s = {s}"
| "post_load NotifyProvided s = {s}"
| "post_load RepostIfReady s = {s}"

fun pre_unload :: "unload_op \<Rightarrow> fiber_state \<Rightarrow> bool" where
  "pre_unload (Unload _) s \<longleftrightarrow> legal s Unloading"
| "pre_unload WaitEvents s \<longleftrightarrow> True"
| "pre_unload _ s \<longleftrightarrow> s = Unloading"

fun post_unload :: "unload_op \<Rightarrow> fiber_state \<Rightarrow> fiber_state set" where
  "post_unload (Unload next) s = {next_fiber_state next}"
| "post_unload WaitEvents s = {s}"
| "post_unload (TakeEffects why) s = {drain_end why}"
| "post_unload (DrainRecords _ _ why) s = {drain_end why}"
| "post_unload (DrainEnd _ why) s = {drain_end why}"

fun pre_drive :: "drive_op \<Rightarrow> fiber_state \<Rightarrow> bool" where
  "pre_drive Recv s \<longleftrightarrow> s \<in> resting"
| "pre_drive (RestartOp _) s \<longleftrightarrow> s \<in> resting"
| "pre_drive (RestartRefresh _) s \<longleftrightarrow> s \<in> resting"
| "pre_drive DisposeUnload s \<longleftrightarrow> s \<in> resting"
| "pre_drive ShutdownOp s \<longleftrightarrow> s \<in> resting"
| "pre_drive _ s \<longleftrightarrow> True"

fun post_drive :: "drive_op \<Rightarrow> fiber_state \<Rightarrow> fiber_state set" where
  "post_drive Recv s = UNIV"
| "post_drive (RestartOp _) s = resting"
| "post_drive (RestartRefresh _) s = resting"
| "post_drive DisposeUnload s = {Disposed}"
| "post_drive ShutdownOp s = {Disposed}"
| "post_drive _ s = {s}"

fun drives :: "nat \<Rightarrow> kop \<Rightarrow> bool" where
  "drives j (LoadOp i _) \<longleftrightarrow> i = j"
| "drives j (UnloadOp i _) \<longleftrightarrow> i = j"
| "drives j (DriveOp i d) \<longleftrightarrow> i = j \<and> d \<noteq> FinishEvent"
| "drives j (ExitOp i e) \<longleftrightarrow> i = j \<and> (\<forall>r. e \<noteq> ReportRecord r)"
| "drives j (CleanupOp _) \<longleftrightarrow> False"
| "drives j (ShutOp _) \<longleftrightarrow> False"

fun pre_op :: "kop \<Rightarrow> fiber_state \<Rightarrow> bool" where
  "pre_op (LoadOp _ lo) s = pre_load lo s"
| "pre_op (UnloadOp _ uo) s = pre_unload uo s"
| "pre_op (DriveOp _ d) s = pre_drive d s"
| "pre_op _ s = True"

fun post_op :: "kop \<Rightarrow> fiber_state \<Rightarrow> fiber_state set" where
  "post_op (LoadOp _ lo) s = post_load lo s"
| "post_op (UnloadOp _ uo) s = post_unload uo s"
| "post_op (DriveOp _ d) s = post_drive d s"
| "post_op _ s = {s}"

text \<open>The pending sections of driver \<open>i\<close>, started in \<open>s\<close>: no expectation is broken.\<close>

fun flow :: "nat \<Rightarrow> fiber_state \<Rightarrow> kop list \<Rightarrow> bool" where
  "flow i s [] \<longleftrightarrow> True"
| "flow i s (op # ops) \<longleftrightarrow>
     (if drives i op then pre_op op s \<and> (\<forall>t \<in> post_op op s. flow i t ops) else flow i s ops)"

fun runs :: "nat \<Rightarrow> fiber_state \<Rightarrow> kop list \<Rightarrow> fiber_state set" where
  "runs i s [] = {s}"
| "runs i s (op # ops) =
     (if drives i op then (\<Union>t \<in> post_op op s. runs i t ops) else runs i s ops)"

lemma flow_append: "flow i s (a @ b) \<longleftrightarrow> flow i s a \<and> (\<forall>t \<in> runs i s a. flow i t b)"
  by (induction a arbitrary: s) auto

lemma runs_append: "runs i s (a @ b) = (\<Union>t \<in> runs i s a. runs i t b)"
  by (induction a arbitrary: s) auto

definition undriven :: "nat \<Rightarrow> kop list \<Rightarrow> bool" where
  "undriven i ops \<longleftrightarrow> (\<forall>op \<in> set ops. \<not> drives i op)"

lemma undriven_simps [simp]:
  "undriven i []" "undriven i (op # ops) \<longleftrightarrow> \<not> drives i op \<and> undriven i ops"
  "undriven i (a @ b) \<longleftrightarrow> undriven i a \<and> undriven i b"
  by (auto simp: undriven_def)

lemma flow_undriven [simp]: "undriven i ops \<Longrightarrow> flow i s ops"
  by (induction ops) auto

lemma runs_undriven [simp]: "undriven i ops \<Longrightarrow> runs i s ops = {s}"
  by (induction ops) auto

lemma undriven_post [simp]: "undriven j (snd (post i it k))"
  by (auto simp: post_def split: option.split)

lemma undriven_post_join [simp]: "undriven j (snd (post_join i t mk k))"
  by (auto simp: post_join_def split: option.split)

lemma undriven_post_all [simp]: "undriven j (snd (post_all is it k))"
  by (induction "is" arbitrary: k) (auto simp: split_beta Let_def)

lemma undriven_notify [simp]: "undriven j (snd (notify_key_changed key k))"
  by (auto simp: notify_key_changed_def split: option.split)

lemma undriven_notify_keys [simp]: "undriven j (snd (notify_keys keys k))"
  by (induction keys arbitrary: k) (auto simp: split_beta Let_def)

lemma undriven_register_dispose [simp]: "undriven j (snd (snd (register_dispose i f k)))"
  by (auto simp: register_dispose_def split_beta Let_def split: option.split)

lemma undriven_cleanup:
  assumes "exec_cleanup en co k = Some (k', new)"
  shows "undriven j new"
proof (cases co)
  case (EvictConsumers cs ts p key scope old)
  have "undriven j (snd (evict_consumers cs ts p key scope old k))"
    by (cases cs) (auto simp: evict_consumers_def split_beta Let_def undriven_def [of _ "map _ _"]
        split: option.split)
  then show ?thesis using assms by (auto simp: exec_cleanup_def EvictConsumers)
next
  case (ChildDispose c)
  have "undriven j (snd (child_dispose c k))"
    by (auto simp: child_dispose_def split_beta Let_def split: option.split)
  then show ?thesis using assms by (auto simp: exec_cleanup_def ChildDispose)
next
  case (Post i it)
  have "undriven j (snd (post i it k))" by simp
  then show ?thesis using assms by (auto simp: exec_cleanup_def Post simp del: undriven_post)
qed (use assms in \<open>auto simp: exec_cleanup_def drain_record_def child_joined_def evict_mark_def
       run_cleanup_op_def evict_notify_def Let_def
       split: option.splits prod.splits sum.splits kclosure.splits if_splits\<close>)

lemma undriven_shut: "exec_shut so k = Some (k', new) \<Longrightarrow> undriven j new"
  by (cases so) (auto simp: exec_shut_def split: option.splits list.splits if_splits)

section \<open>Each section keeps its promise\<close>

definition keeps :: "nat \<Rightarrow> fiber_state set \<Rightarrow> kernel \<Rightarrow> kop list \<Rightarrow> bool" where
  "keeps i P k new \<longleftrightarrow>
     (\<exists>f. k_fibers k i = Some f \<and> flow i (f_state f) new \<and> runs i (f_state f) new \<subseteq> P) \<and>
     (\<forall>j. j \<noteq> i \<longrightarrow> undriven j new)"

definition promise :: "nat \<Rightarrow> fiber_state set \<Rightarrow> kernel \<Rightarrow> kernel \<times> kop list \<Rightarrow> bool" where
  "promise i P k r \<longleftrightarrow> driven i k (fst r) \<and> keeps i P (fst r) (snd r)"

lemma promise_same:
  assumes "k_fibers k i = Some f" and "same_core k (fst r)"
    and "flow i (f_state f) (snd r)" and "runs i (f_state f) (snd r) \<subseteq> P"
    and "\<And>j. j \<noteq> i \<Longrightarrow> undriven j (snd r)"
  shows "promise i P k r"
  using same_core_fiber [OF assms(2,1)] assms driven_same_core [OF assms(2)]
  by (auto simp: promise_def keeps_def core_of_def)

lemma state_set_state [simp]: "f_state (set_state i new f) = new"
  by (simp add: set_state_def publish_live_def Let_def)

lemma flush_fiber:
  "k_fibers k i = Some f \<Longrightarrow> k_fibers (flush_status i k) i = Some (f\<lparr>f_status_queue := []\<rparr>)"
  by (simp add: flush_status_def)

lemma promise_change:
  assumes f: "k_fibers k i = Some f" and "legal (f_state f) new" and "same_core k k1"
    and "core_of g = (core_of f)\<lparr>co_generation := f_generation g\<rparr>"
    and "f_generation g = (if new = Loading then Suc (f_generation f) else f_generation f)"
    and k2: "k2 = set_fiber i (set_state i new g) k1 \<or>
      k2 = flush_status i (set_fiber i (set_state i new g) k1)"
    and k3: "same_core k2 k3"
    and "flow i new ops" and "runs i new ops \<subseteq> P" and "\<And>j. j \<noteq> i \<Longrightarrow> undriven j ops"
  shows "promise i P k (k3, ops)"
proof -
  let ?k = "set_fiber i (set_state i new g) k1"
  have 1: "driven i k ?k" by (rule driven_set_state) fact+
  have 2: "driven i k k2" using k2 1 driven_trans [OF 1 driven_flush] by auto
  have "\<exists>h. k_fibers k2 i = Some h \<and> f_state h = new"
    using k2 by (auto simp: flush_fiber)
  then obtain h' where "k_fibers k3 i = Some h'" "f_state h' = new"
    using same_core_fiber [OF k3] by (fastforce simp: core_of_def)
  then show ?thesis
    using driven_trans [OF 2 driven_same_core [OF k3]] assms(8-10)
    by (auto simp: promise_def keeps_def)
qed

lemmas promise_set = promise_change [OF _ _ _ _ _ disjI1 [OF refl]]
lemmas promise_flush = promise_change [OF _ _ _ _ _ disjI2 [OF refl]]

lemma resting_legal: "s \<in> resting \<Longrightarrow> s \<noteq> Disposed \<Longrightarrow> legal s Unloading"
  by (auto simp: resting_def legal_def)

lemma promise_refresh:
  assumes f: "k_fibers k i = Some f" and st: "f_state f \<in> resting"
  shows "promise i (post_load Refresh (f_state f)) k (k, refresh_ops i (refresh_deps i f k))"
  by (rule promise_same [OF f])
    (use st in \<open>auto simp: refresh_ops_def refresh_deps_def Let_def split_beta resting_def loaded_end_def
       legal_def\<close>)

lemma core_accesses [simp]: "core_of (f\<lparr>f_accesses := a\<rparr>) = core_of f"
  by (simp add: core_of_def)

lemma set_state_accesses:
  "(set_state i new f)\<lparr>f_accesses := a\<rparr> = set_state i new (f\<lparr>f_accesses := a\<rparr>)"
  by (cases new) (simp_all add: set_state_def publish_live_def Let_def)

lemma promise_load_start:
  assumes f: "k_fibers k i = Some f" and st: "f_state f = Pending"
  shows "promise i loaded_end k (load_start i f deps k)"
proof (cases "f_closing f \<or> k_closing k \<or> f_terminal_task f \<noteq> None")
  case True
  then show ?thesis by (intro promise_same [OF f]) (auto simp: load_start_def st loaded_end_def)
next
  case False
  let ?s = "f_pending_restarts f > 0"
  let ?g = "f\<lparr>f_token := ?s, f_pre_cancelled := ?s, f_generation := Suc (f_generation f),
      f_error := None, f_accesses := []\<rparr>"
  have eq: "load_start i f deps k =
      (flush_status i (set_fiber i (set_state i Loading ?g) k), [LoadOp i (RecordDeps deps)])"
    using False by (simp add: load_start_def start_generation_def Let_def set_state_accesses)
  show ?thesis
    unfolding eq
    by (rule promise_flush [OF f, where new = Loading and g = ?g and ?k1.0 = k])
      (auto simp: st legal_def core_of_def)
qed

lemma promise_fail_load:
  assumes f: "k_fibers k i = Some f" and st: "f_state f = Loading"
  shows "promise i {Pending, Disposed, Failed} k (fail_load i f e deps k)"
proof (cases "f_pre_cancelled f")
  case True
  then show ?thesis
    by (intro promise_same [OF f]) (auto simp: fail_load_def st fiber_frame legal_def)
next
  case False
  then have eq: "fail_load i f e deps k =
      (flush_status i (set_fiber i (set_state i Unloading f) k), [LoadOp i (FailStop e deps)])"
    by (simp add: fail_load_def)
  show ?thesis
    unfolding eq
    by (rule promise_flush [OF f, where new = Unloading and g = f and ?k1.0 = k])
      (auto simp: st legal_def core_of_def)
qed

lemma load_gate_ops:
  "flow i Loading (load_gate i f deps k) \<and> runs i Loading (load_gate i f deps k) \<subseteq> loaded_end \<and>
   (j \<noteq> i \<longrightarrow> undriven j (load_gate i f deps k))"
  by (auto simp: load_gate_def Let_def split_beta legal_def loaded_end_def)

lemma promise_apply:
  assumes f: "k_fibers k i = Some f" and st: "f_state f = Loading"
  shows "promise i loaded_end k (apply_returned en i f deps k)"
  by (rule promise_same [OF f])
    (auto simp: apply_returned_def st fiber_frame legal_def loaded_end_def split: call.split)

lemma exec_load_promise:
  assumes f: "k_fibers k i = Some f" and pre: "pre_load lo (f_state f)"
  shows "promise i (post_load lo (f_state f)) k (exec_load en i lo f k)"
proof (cases lo)
  case Refresh
  then show ?thesis using promise_refresh [OF f] pre by (simp add: exec_load_def)
next
  case UnloadForDispose
  then show ?thesis using pre resting_legal
    by (intro promise_same [OF f]) (auto simp: exec_load_def)
next
  case WatchWaiting
  then show ?thesis
    by (intro promise_same [OF f]) (auto simp: exec_load_def f intro!: same_core_set)
next
  case (Load deps)
  then show ?thesis using promise_load_start [OF f] pre by (simp add: exec_load_def)
next
  case (RecordDeps deps)
  then show ?thesis using pre
    by (intro promise_same [OF f]) (auto simp: exec_load_def f core_of_def intro!: same_core_set)
next
  case (Gate deps)
  then show ?thesis using pre load_gate_ops [of i f deps k]
    by (intro promise_same [OF f]) (auto simp: exec_load_def)
next
  case (Build deps)
  then show ?thesis using pre
    by (intro promise_same [OF f])
      (auto simp: exec_load_def load_build_def loaded_end_def split: option.split)
next
  case (Validate deps)
  then show ?thesis using pre
    by (intro promise_same [OF f])
      (auto simp: exec_load_def load_validate_def loaded_end_def split: option.split)
next
  case (Apply deps)
  then show ?thesis using promise_apply [OF f] pre by (simp add: exec_load_def)
next
  case Adopt
  then show ?thesis using pre
    by (intro promise_same [OF f])
      (auto simp: exec_load_def adopt_deps_def split_beta Let_def f core_of_def intro!: same_core_set)
next
  case Activate
  have "promise i {Active} k (set_fiber i (set_state i Active (f\<lparr>f_error := None\<rparr>)) k, [])"
    by (rule promise_set [OF f, where new = Active and ?k1.0 = k and g = "f\<lparr>f_error := None\<rparr>"])
      (use pre Activate in \<open>auto simp: legal_def core_of_def\<close>)
  then show ?thesis by (simp add: exec_load_def Activate activate_def)
next
  case NotifyProvided
  then show ?thesis
    by (intro promise_same [OF f]) (auto simp: exec_load_def fiber_frame)
next
  case RepostIfReady
  then show ?thesis
    by (intro promise_same [OF f]) (auto simp: exec_load_def fiber_frame)
next
  case (FailLoad e deps)
  then show ?thesis using promise_fail_load [OF f] pre by (simp add: exec_load_def)
next
  case (FailStop e deps)
  then show ?thesis using pre
    by (intro promise_same [OF f])
      (auto simp: exec_load_def fail_stop_def Let_def f intro!: same_core_set)
qed

lemma promise_unload_start:
  assumes f: "k_fibers k i = Some f" and l: "legal (f_state f) Unloading"
  shows "promise i {next_fiber_state next} k (unload_start i f next k)"
  unfolding unload_start_def
  by (rule promise_flush [OF f l, where ?k1.0 = k and g = f])
    (simp_all add: l same_core_mod, simp add: core_of_def)

lemma unload_end_next:
  "unload_end i f NextPending errors k = flush_status i (set_fiber i (set_state i Pending f)
     (case aggregate_arcs errors of Some e \<Rightarrow> report e k | None \<Rightarrow> k))"
  "unload_end i f NextDisposed errors k = flush_status i
     (set_fiber i (set_state i Disposed (f\<lparr>f_error := aggregate_arcs errors\<rparr>)) k)"
  by (simp_all add: unload_end_def)

lemma promise_unload_end:
  assumes f: "k_fibers k i = Some f" and st: "f_state f = Unloading"
  shows "promise i {next_fiber_state nx} k (unload_end i f nx errors k, [])"
proof (cases nx)
  case NextPending
  show ?thesis
    unfolding NextPending unload_end_next
    by (rule promise_flush [OF f, where new = Pending and g = f
          and ?k1.0 = "case aggregate_arcs errors of Some e \<Rightarrow> report e k | None \<Rightarrow> k"])
      (auto simp: st legal_def core_of_def fiber_frame split: option.split)
next
  case NextDisposed
  show ?thesis
    unfolding NextDisposed unload_end_next
    by (rule promise_flush [OF f, where new = Disposed and ?k1.0 = k
          and g = "f\<lparr>f_error := aggregate_arcs errors\<rparr>"])
      (auto simp: st legal_def core_of_def)
qed

lemma promise_fail_end:
  assumes f: "k_fibers k i = Some f" and st: "f_state f = Unloading"
  shows "promise i {Failed} k (fail_end i f e deps stopping errors k, [])"
  unfolding fail_end_def Let_def
  by (rule promise_flush [OF f, where new = Failed and ?k1.0 = "report_all errors k"
        and g = "f\<lparr>f_last_deps := Some deps, f_error := aggregate_arcs (shared e # errors)\<rparr>"])
    (auto simp: st legal_def core_of_def fiber_frame split: option.split)

lemma exec_unload_promise:
  assumes f: "k_fibers k i = Some f" and pre: "pre_unload uo (f_state f)"
    and ex: "exec_unload en i uo f k = Some r"
  shows "promise i (post_unload uo (f_state f)) k r"
proof (cases uo)
  case (Unload nx)
  then show ?thesis using promise_unload_start [OF f] pre ex by (auto simp: exec_unload_def)
next
  case WaitEvents
  then show ?thesis using ex
    by (intro promise_same [OF f])
      (auto simp: exec_unload_def wait_events_def fiber_frame split: if_splits option.splits)
next
  case (TakeEffects why)
  then show ?thesis using ex pre
    by (intro promise_same [OF f]) (auto simp: exec_unload_def f core_of_def intro!: same_core_set)
next
  case (DrainRecords recs errors why)
  then show ?thesis using ex pre
    by (intro promise_same [OF f])
      (auto simp: exec_unload_def drain_records_def f core_of_def same_core_eq intro!: same_core_set
        split: list.splits option.splits prod.splits sum.splits)
next
  case (DrainEnd errors why)
  then show ?thesis using ex pre promise_unload_end [OF f] promise_fail_end [OF f]
    by (cases why) (auto simp: exec_unload_def)
qed

lemma promise_restart_root:
  assumes f: "k_fibers k i = Some f" and st: "f_state f = Disposed" and g: "core_of g = core_of f"
  shows "promise i resting k
    (flush_status i (set_fiber i (restart_root i g) (set_fiber i g k)), [DriveOp i (CompleteTask t)])"
  unfolding restart_root_def
  by (rule promise_flush [OF f, where new = Active and ?k1.0 = "set_fiber i g k"
        and g = "g\<lparr>f_token := False, f_error := None, f_terminal_task := None\<rparr>"])
    (use f g st in \<open>auto simp: legal_def core_of_def resting_def intro!: same_core_set\<close>)

lemma same_core_set_then_complete:
  "k_fibers k i = Some f \<Longrightarrow> core_of g = core_of f \<Longrightarrow>
   same_core k (complete t e (set_fiber i g k))"
  by (rule same_core_trans [OF same_core_set [OF same_core_refl] same_core_complete])

lemma promise_restart_op:
  assumes f: "k_fibers k i = Some f" and st: "f_state f \<in> resting"
  shows "promise i resting k (restart_op i t f k)"
proof -
  let ?g = "f\<lparr>f_pending_restarts := f_pending_restarts f - 1\<rparr>"
  have core: "core_of ?g = core_of f" by (simp add: core_of_def)
  have root: "f_is_root ?g = f_is_root f" by simp
  show ?thesis
  proof (cases "\<not> (f_closing f \<or> k_closing k) \<and> \<not> terminal_registered ?g \<and> f_state f = Disposed \<and>
      f_is_root f")
    case True
    then have "restart_op i t f k =
        (flush_status i (set_fiber i (restart_root i ?g) (set_fiber i ?g k)),
         [DriveOp i (CompleteTask t)])"
      by (simp add: restart_op_def Let_def)
    then show ?thesis using promise_restart_root [OF f _ core] True by simp
  next
    case False
    show ?thesis
      by (rule promise_same [OF f])
        (use False st f core in \<open>auto simp: restart_op_def Let_def resting_def legal_def
           intro!: same_core_set same_core_set_then_complete\<close>)
  qed
qed

lemma exec_drive_promise:
  assumes f: "k_fibers k i = Some f" and pre: "pre_drive d (f_state f)" and d: "d \<noteq> FinishEvent"
    and ex: "exec_drive i d f k = Some r"
  shows "promise i (post_drive d (f_state f)) k r"
proof (cases d)
  case Recv
  then show ?thesis using ex pre
    by (intro promise_same [OF f])
      (auto simp: exec_drive_def recv_def intent_ops_def f core_of_def resting_def loaded_end_def
        intro!: same_core_set split: list.splits intent.splits if_splits)
next
  case (RestartOp t)
  then show ?thesis using ex pre promise_restart_op [OF f] by (auto simp: exec_drive_def)
next
  case (RestartEnd t before)
  then show ?thesis using ex
    by (intro promise_same [OF f])
      (auto simp: exec_drive_def restart_end_def fiber_frame split: if_splits)
next
  case Flush
  have "promise i {f_state f} k (flush_status i k, [])"
    using flush_fiber [OF f] driven_flush by (auto simp: promise_def keeps_def)
  then show ?thesis using ex Flush by (auto simp: exec_drive_def)
next
  case FinishEvent
  then show ?thesis using d by simp
next
  case (RestartRefresh t)
  then show ?thesis using ex pre
    by (intro promise_same [OF f]) (auto simp: exec_drive_def resting_def loaded_end_def)
next
  case DisposeOp
  then show ?thesis using ex
    by (cases "f_closing f"; intro promise_same [OF f]) (auto simp: exec_drive_def)
next
  case DisposeUnload
  then show ?thesis using ex pre resting_legal
    by (cases "f_state f = Disposed"; intro promise_same [OF f])
      (auto simp: exec_drive_def unload_unless_disposed_def)
next
  case ShutdownOp
  then show ?thesis using ex pre resting_legal
    by (cases "f_state f = Disposed"; intro promise_same [OF f])
      (auto simp: exec_drive_def unload_unless_disposed_def)
next
  case (ShutdownEnd prior)
  then show ?thesis using ex
    by (intro promise_same [OF f]) (auto simp: exec_drive_def f intro!: same_core_set)
next
  case (CompleteTask t)
  then show ?thesis using ex
    by (intro promise_same [OF f]) (auto simp: exec_drive_def fiber_frame)
next
  case DisposeEnd
  then show ?thesis using ex
    by (intro promise_same [OF f]) (auto simp: exec_drive_def fiber_frame)
qed

lemma same_core_unregister [fiber_frame]: "same_core k (unregister_injects i keys k)"
proof (induction keys arbitrary: k)
  case (Cons key keys)
  have "same_core k (unregister_inject i key k)"
    by (auto simp: unregister_inject_def Let_def intro!: same_core_eq split: option.split)
  then show ?case using same_core_trans Cons.IH by (auto simp: unregister_injects_def)
qed (simp add: unregister_injects_def)

lemma same_core_release_child [fiber_frame]: "same_core k (release_child i f k)"
  by (auto simp: release_child_def core_of_def intro!: same_core_mod split: option.split)

lemma exec_exit_core:
  "k_fibers k i = Some f \<Longrightarrow> same_core k (fst (exec_exit i e f k))"
  by (cases e)
    (auto simp: exec_exit_def drain_mailbox_disposed_def drain_mailbox_shutdown_def release_mount_def
      fiber_frame core_of_def same_core_trans [OF same_core_complete_opt same_core_complete]
      intro!: same_core_set same_core_trans [OF same_core_set [OF same_core_refl] same_core_complete_intent]
      split: list.splits option.splits sum.splits)

lemma exec_exit_ops:
  "flow i s (snd (exec_exit i e f k)) \<and> runs i s (snd (exec_exit i e f k)) = {s} \<and>
   (j \<noteq> i \<longrightarrow> undriven j (snd (exec_exit i e f k)))"
  by (cases e)
    (auto simp: exec_exit_def drain_mailbox_disposed_def drain_mailbox_shutdown_def release_mount_def
      release_ops_def split: list.splits option.splits sum.splits)

lemma exec_exit_promise:
  "k_fibers k i = Some f \<Longrightarrow> promise i {f_state f} k (exec_exit i e f k)"
  using exec_exit_ops [of i "f_state f" e f k] exec_exit_core [of k i f e]
  by (intro promise_same) auto

lemma exec_promise:
  assumes ex: "exec en op k = Some (k', new)" and i: "drives i op"
    and f: "k_fibers k i = Some f" and pre: "pre_op op (f_state f)"
  shows "promise i (post_op op (f_state f)) k (k', new)"
proof (cases op)
  case (LoadOp j lo)
  then show ?thesis using ex i f pre exec_load_promise [OF f, of lo en] by (auto simp: exec_def)
next
  case (UnloadOp j uo)
  then show ?thesis using ex i f pre exec_unload_promise [OF f, of uo en] by (auto simp: exec_def)
next
  case (DriveOp j d)
  then show ?thesis using ex i f pre exec_drive_promise [OF f, of d] by (auto simp: exec_def)
next
  case (ExitOp j e)
  then show ?thesis using ex i f exec_exit_promise [OF f, of e] by (auto simp: exec_def)
qed (use i in auto)

text \<open>A section that drives no fiber changes the life of none.\<close>

lemma exec_undriven:
  assumes ex: "exec en op k = Some (k', new)" and nd: "\<And>i. \<not> drives i op"
  shows "same_core k k' \<and> undriven j new"
proof (cases op)
  case (DriveOp i d)
  then have "d = FinishEvent" using nd [of i] by simp
  then show ?thesis using ex DriveOp
    by (auto simp: exec_def exec_drive_def intro!: same_core_set split: option.splits)
next
  case (ExitOp i e)
  then obtain r where "e = ReportRecord r" using nd [of i] by auto
  then show ?thesis using ex ExitOp
    by (auto simp: exec_def exec_exit_def fiber_frame split: option.splits sum.splits)
next
  case (CleanupOp co)
  then show ?thesis using ex undriven_cleanup exec_cleanup_core by (auto simp: exec_def)
next
  case (ShutOp so)
  then show ?thesis using ex undriven_shut exec_shut_core by (auto simp: exec_def)
next
  case (LoadOp i lo)
  then show ?thesis using nd [of i] by simp
next
  case (UnloadOp i uo)
  then show ?thesis using nd [of i] by simp
qed

end
