(* ===== verification/Kernel_Safety.thy ===== *)
theory Kernel_Safety
  imports Lifecycle
begin

text \<open>
  Safety of the running kernel: the invariant of the reachable states, and
  what follows of the status events, the published generation, the admission
  of loads and the end of an unload.
\<close>

section \<open>Calls leave the life of fibers alone\<close>

lemma close_fiber_fold: "same_core k (fold (\<lambda>j. mod_fiber j close_fiber) js k)"
proof (induction js arbitrary: k)
  case (Cons j js)
  have "same_core k (mod_fiber j close_fiber k)" by (rule same_core_mod) simp_all
  then show ?case using same_core_trans Cons.IH by auto
qed simp

lemma pre_cancel_fold: "same_core k (fold (\<lambda>j. mod_fiber j pre_cancel) js k)"
proof (induction js arbitrary: k)
  case (Cons j js)
  have "same_core k (mod_fiber j pre_cancel k)" by (rule same_core_mod) simp_all
  then show ?case using same_core_trans Cons.IH by auto
qed simp

lemma shutdown_terminal_core:
  "same_core k (fst (snd (shutdown_terminal i k))) \<and> undriven j (snd (snd (shutdown_terminal i k)))"
  by (auto simp: shutdown_terminal_def split_beta Let_def core_of_def fiber_frame
      intro!: same_core_mod split: option.split)

definition frames :: "nat \<Rightarrow> kernel \<Rightarrow> nat list \<times> kernel \<times> kop list \<times> kop list list \<Rightarrow> bool" where
  "frames j k r \<longleftrightarrow> same_core k (fst (snd r)) \<and> undriven j (fst (snd (snd r))) \<and>
     (\<forall>th \<in> set (snd (snd (snd r))). undriven j th)"

lemma frames_one:
  assumes f: "k_fibers k i = Some f"
    and IH: "\<And>js k. frames j k (begin_shutdown n js k)"
  shows "frames j k (let (public, k1) = new_task k;
      k2 = set_fiber i (f\<lparr>f_shutdown_task := Some public\<rparr>) k1;
      (cts, k3, ops3, th3) = begin_shutdown n (f_children f) k2;
      (inner, k4, ops4) = shutdown_terminal i k3
    in ([public], k4, ops3 @ ops4, th3 @ [[ShutOp (JoinInner i inner cts public)]]))"
proof -
  let ?k2 = "set_fiber i (f\<lparr>f_shutdown_task := Some (fst (new_task k))\<rparr>) (snd (new_task k))"
  have "same_core k ?k2"
    by (rule same_core_set [OF same_core_new_task f]) (simp add: core_of_def)
  moreover note IH [of ?k2 "f_children f", unfolded frames_def]
    shutdown_terminal_core [of "fst (snd (begin_shutdown n (f_children f) ?k2))" i j]
  ultimately show ?thesis
    by (simp add: frames_def split_beta Let_def) (blast intro: same_core_trans)
qed

lemma frames_append:
  "frames j k r1 \<Longrightarrow> frames j (fst (snd r1)) r2 \<Longrightarrow>
   frames j k (c, fst (snd r2), fst (snd (snd r1)) @ fst (snd (snd r2)),
     snd (snd (snd r1)) @ snd (snd (snd r2)))"
  by (auto simp: frames_def intro: same_core_trans)

lemma begin_shutdown_frames: "frames j k (begin_shutdown n js k)"
proof (induction n arbitrary: js k)
  case 0
  then show ?case by (cases js) (auto simp: frames_def)
next
  case (Suc n)
  note outer = Suc.IH
  show ?case
  proof (induction js arbitrary: k)
    case Nil
    then show ?case by (simp add: frames_def)
  next
    case (Cons i js)
    note inner = Cons.IH
    show ?case
    proof (cases "k_fibers k i")
      case None
      then show ?thesis using inner [of k] by simp
    next
      case (Some f)
      show ?thesis
      proof (cases "f_shutdown_task f")
        case (Some t)
        then show ?thesis using inner [of k] \<open>k_fibers k i = Some f\<close>
          by (simp add: split_beta Let_def frames_def)
      next
        case None
        show ?thesis
          using frames_append [OF frames_one [where n = n, OF \<open>k_fibers k i = Some f\<close> outer] inner]
            None \<open>k_fibers k i = Some f\<close>
          by (simp add: split_beta Let_def frames_def)
      qed
    qed
  qed
qed

lemma subtree_shutdown_frames: "frames j k (subtree_shutdown i k)"
proof -
  have "same_core k (close_subtree i k)" by (simp add: close_subtree_def close_fiber_fold)
  then show ?thesis
    using begin_shutdown_frames [of j "close_subtree i k" "Suc (k_next_plugin_id k)" "[i]"]
    by (auto simp: frames_def subtree_shutdown_def intro: same_core_trans)
qed

lemma register_mount_core: "register_mount cx c child k = Inr k' \<Longrightarrow> same_core k k'"
  by (auto simp: register_mount_def split_beta Let_def core_of_def fiber_frame
      intro!: same_core_mod split: sum.splits option.splits if_splits)

lemma mount_fiber_core:
  "mount_fiber cx c k = (k', ops, threads) \<Longrightarrow>
   same_core k k' \<and> (\<forall>th \<in> set (ops # threads). undriven j th)"
  using subtree_shutdown_frames [of j k c]
  by (auto simp: mount_fiber_def frames_def split_beta Let_def undriven_def
      dest: register_mount_core split: sum.splits option.splits if_splits)

lemma shutdown_root_core: "same_core k (fst (shutdown_root k)) \<and> undriven j (snd (shutdown_root k))"
proof (cases "k_shutdown_task k")
  case None
  let ?k = "(snd (new_task k))\<lparr>k_shutdown_task := Some (fst (new_task k)), k_closing := True\<rparr>"
  have 1: "same_core k ?k" by (rule same_core_trans [OF same_core_new_task same_core_eq]) simp_all
  show ?thesis
    using None same_core_trans [OF 1 pre_cancel_fold] same_core_trans [OF 1 same_core_complete]
    by (simp add: shutdown_root_def split_beta Let_def)
qed (simp add: shutdown_root_def)

lemma shutdown_fiber_core:
  "shutdown_fiber i k = (k', ops, threads) \<Longrightarrow>
   same_core k k' \<and> (\<forall>th \<in> set (ops # threads). undriven j th)"
  using subtree_shutdown_frames [of j k i] shutdown_root_core [of k j]
  by (auto simp: shutdown_fiber_def frames_def split_beta Let_def undriven_def split: if_splits)

lemma dispose_core: "same_core k (fst (dispose i k)) \<and> undriven j (snd (dispose i k))"
  by (auto simp: dispose_def split_beta Let_def fiber_frame split: option.split)

lemma dispose_self_core:
  "dispose_self cx k = Inr (k', ops) \<Longrightarrow> same_core k k' \<and> undriven j ops"
  using undriven_register_dispose [of j "cx_fiber cx" _ k] same_core_register_dispose [of k "cx_fiber cx"]
  by (auto simp: dispose_self_def split_beta Let_def simp del: undriven_register_dispose
      split: option.splits if_splits) (metis fst_conv snd_conv)+

lemma post_restart_core:
  "same_core k (fst (post_restart i k)) \<and> undriven j (snd (post_restart i k))"
  using same_core_trans [OF same_core_new_task same_core_post_join, of k i]
  by (simp add: post_restart_def split_beta Let_def)

lemma restart_core: "restart i k = Inr (k', ops) \<Longrightarrow> same_core k k' \<and> undriven j ops"
proof -
  assume r: "restart i k = Inr (k', ops)"
  then obtain f where f: "k_fibers k i = Some f"
    and p: "post_restart i (set_fiber i (request_restart f) k) = (k', ops)"
    by (auto simp: restart_def split: option.splits)
  have "same_core k (set_fiber i (request_restart f) k)" by (rule same_core_set [OF _ f]) simp_all
  then show ?thesis
    using post_restart_core [of "set_fiber i (request_restart f) k" i j] p same_core_trans by auto
qed

lemma update_core: "update_commit i c k = Inr (k', ops) \<Longrightarrow> same_core k k' \<and> undriven j ops"
proof -
  assume r: "update_commit i c k = Inr (k', ops)"
  then obtain f where f: "k_fibers k i = Some f"
    and p: "post_restart i (set_fiber i ((request_restart f)\<lparr>f_config := Some c\<rparr>) k) = (k', ops)"
    by (auto simp: update_commit_def split: option.splits)
  have "same_core k (set_fiber i ((request_restart f)\<lparr>f_config := Some c\<rparr>) k)"
    by (rule same_core_set [OF _ f]) (simp_all add: core_of_def request_restart_def)
  then show ?thesis
    using post_restart_core [of "set_fiber i ((request_restart f)\<lparr>f_config := Some c\<rparr>) k" i j] p
      same_core_trans by auto
qed

lemma settle_core: "same_core k (fst (settle i k)) \<and> undriven j (snd (settle i k))"
  using same_core_trans [OF same_core_new_task same_core_post_join, of k i]
  by (simp add: settle_def split_beta Let_def)

lemma set_config_core: "set_config i ty c vc k = Inr k' \<Longrightarrow> same_core k k'"
  by (auto simp: set_config_def core_of_def intro!: same_core_set
      split: option.splits plugin_source.splits if_splits)

lemma effect_begin_core: "effect_begin cx k = Inr k' \<Longrightarrow> same_core k k'"
  by (auto simp: effect_begin_def Let_def intro!: same_core_set
      split: option.splits sum.splits if_splits)

lemma effect_commit_core:
  "same_core k (fst (snd (effect_commit cx l og eff k))) \<and>
   undriven j (snd (snd (effect_commit cx l og eff k)))"
  by (auto simp: effect_commit_def Let_def split_beta fiber_frame intro!: same_core_eq
      split: option.splits sum.splits)

lemma insert_binding_core: "insert_binding sl b n k = Inr (m, k') \<Longrightarrow> same_core k k'"
  by (auto simp: insert_binding_def Let_def intro!: same_core_eq split: option.splits if_splits)

lemma provide_act_core:
  assumes "provide_act i key scope v named f k = Inr (eff, k', ops)"
  shows "same_core k k' \<and> undriven j ops"
proof -
  obtain n k1 where ins: "insert_binding (key, scope)
      \<lparr>b_value = v, b_provider = i, b_provider_gen = f_generation f, b_removing = False\<rparr> named k
      = Inr (n, k1)"
    using assms by (auto simp: provide_act_def split: sum.splits)
  let ?k2 = "mod_fiber i (\<lambda>g. g\<lparr>f_provided := f_provided g @ [(key, scope)]\<rparr>) k1"
  have k2: "same_core k ?k2"
    by (rule same_core_mod [OF insert_binding_core [OF ins]]) (simp add: core_of_def)
  show ?thesis
    using assms k2 same_core_trans [OF k2 same_core_notify [of ?k2 key]]
      undriven_notify [of j key ?k2]
    by (auto simp: provide_act_def ins split_beta Let_def simp del: undriven_notify split: if_splits)
qed

lemma provide_core:
  "provide_native cx tn key v named k = Inr (r, k', ops) \<Longrightarrow> same_core k k' \<and> undriven j ops"
  using provide_act_core [of "cx_fiber cx" key "scope_for (cx_isolates cx) key" v named _ k _ _ _ j]
  by (auto simp: provide_native_def register_internal_effect_def split_beta Let_def
      intro: same_core_trans [OF _ same_core_push_effect]
      split: sum.splits option.splits if_splits)

lemma record_access_core [fiber_frame]: "same_core k (record_access i a k)"
  by (auto simp: record_access_def core_of_def intro!: same_core_mod)

lemma read_core: "same_core k (snd (read_optional cx key k))"
  by (auto simp: read_optional_def split_beta Let_def fiber_frame split: option.split)

lemma require_core: "same_core k (snd (require_inner cx ty key prov k))"
  by (auto simp: require_inner_def split_beta Let_def fiber_frame split: option.split)

lemma write_core: "same_core k (snd (writer_set key scope n cx v k))"
  by (auto simp: writer_set_def replace_mutable_if_current_def Let_def intro!: same_core_eq
      split: option.splits sum.splits value_slot.splits prod.splits if_splits)

lemma api_call_core:
  assumes "api_call k k' threads"
  shows "(\<exists>cx pm i. spawn_fiber (Some cx) pm k = Some (i, k', threads)) \<or>
    same_core k k' \<and> (\<forall>th \<in> set threads. \<forall>j. undriven j th)"
  using assms
proof cases
  case (call_dispose i ops)
  then show ?thesis using dispose_core [of k i] by (metis empty_iff empty_set fst_conv set_ConsD snd_conv)
next
  case (call_settle i ops)
  then show ?thesis using settle_core [of k i] by (metis empty_iff empty_set fst_conv set_ConsD snd_conv)
next
  case (call_effect_commit cx label origin eff r ops)
  then show ?thesis using effect_commit_core [of k cx label origin eff]
    by (metis empty_iff empty_set fst_conv set_ConsD snd_conv)
next
  case (call_read cx key r)
  then show ?thesis using read_core [of k cx key] by simp
next
  case (call_require cx ty key prov r)
  then show ?thesis using require_core [of k cx ty key prov] by simp
next
  case (call_write key scope n cx v r)
  then show ?thesis using write_core [of k key scope n cx v] by simp
next
  case (call_mount cx c ops ths)
  then show ?thesis using mount_fiber_core [of cx c k k' ops ths] by metis
next
  case (call_shutdown i ops ths)
  then show ?thesis using shutdown_fiber_core [of i k k' ops ths] by metis
qed (auto dest: dispose_self_core restart_core update_core set_config_core effect_begin_core
      provide_core)

section \<open>A new fiber\<close>

definition born :: "core \<Rightarrow> bool" where
  "born c \<longleftrightarrow> co_queue c = [] \<and> co_seq c = 0 \<and> co_generation c = 0 \<and> co_state c \<in> resting \<and>
     first_state (co_state c) (co_root c) \<and> co_live c = live_of (co_state c) 0"

lemma born_new_fiber: "born (core_of (new_fiber closed i inst pm parent t))" if "closed \<longrightarrow> parent \<noteq> None"
  using that
  by (auto simp: born_def core_of_def new_fiber_def Let_def resting_def first_state_def live_of_def)

lemma index_injects_core: "same_core k (index_injects i keys k)"
proof (induction keys arbitrary: k)
  case (Cons key keys)
  have "same_core k (register_inject key i k)"
    by (rule same_core_eq) (simp_all add: register_inject_def)
  then show ?case using Cons.IH same_core_trans
    by (auto simp: index_injects_def split: if_splits)
qed (simp add: index_injects_def)

lemma spawn_core:
  assumes "spawn_fiber parent pm k = Some (i, k', threads)"
  shows "\<exists>c. born c \<and> i = k_next_plugin_id k \<and> cores k' = (cores k)(i \<mapsto> c) \<and>
    k_emitted k' = k_emitted k \<and> k_next_plugin_id k' = Suc i \<and>
    (threads = [] \<or> threads = [[DriveOp i Recv]])"
proof -
  have set: "cores (set_fiber i f k1) = (cores k)(i \<mapsto> core_of f) \<and>
      k_emitted (set_fiber i f k1) = k_emitted k \<and>
      k_next_plugin_id (set_fiber i f k1) = k_next_plugin_id k1"
    if "k_fibers k1 = k_fibers k" "k_emitted k1 = k_emitted k" for f k1 i
    using that by (auto simp: cores_def fun_eq_iff set_fiber_def)
  show ?thesis
  proof (cases "\<exists>cx. parent = Some cx \<and> (k_closing k \<or> subtree_closing k (cx_fiber cx) \<or>
      k_fibers k (cx_fiber cx) = None)")
    case True
    then obtain cx inst nxt where cx: "parent = Some cx"
      and a: "allocate_from (k_next_instance k) = Some (inst, nxt)"
      and i: "i = k_next_plugin_id k" and th: "threads = []"
      using assms by (auto simp: spawn_fiber_def Let_def split_beta split: option.splits if_splits)
    let ?k1 = "k\<lparr>k_next_plugin_id := Suc i, k_next_instance := nxt\<rparr>"
    let ?k3 = "complete (k_next_task k) (Some Closed) (snd (new_task ?k1))"
    let ?f = "new_fiber True i inst pm parent (Some (k_next_task k))"
    have k': "k' = set_fiber i ?f ?k3"
      using assms True cx a i by (auto simp: spawn_fiber_def Let_def split_beta)
    have b: "born (core_of ?f)" by (rule born_new_fiber) (simp add: cx)
    have nx: "k_next_plugin_id ?k3 = Suc i" by (simp add: new_task_def complete_def)
    have "k_fibers ?k3 = k_fibers k" "k_emitted ?k3 = k_emitted k" by simp_all
    from set [OF this, of i ?f] show ?thesis
      unfolding k' nx using b i th by blast
  next
    case False
    then obtain inst nxt where a: "allocate_from (k_next_instance k) = Some (inst, nxt)"
      and i: "i = k_next_plugin_id k" and th: "threads = [[DriveOp i Recv]]"
      using assms by (auto simp: spawn_fiber_def Let_def split: option.splits if_splits)
    let ?k1 = "k\<lparr>k_next_plugin_id := Suc i, k_next_instance := nxt\<rparr>"
    let ?f = "new_fiber False i inst pm parent None"
    let ?k2 = "set_fiber i ?f ?k1"
    let ?k3 = "case parent of None \<Rightarrow> ?k2
        | Some cx \<Rightarrow> mod_fiber (cx_fiber cx) (\<lambda>p. p\<lparr>f_children := f_children p @ [i]\<rparr>) ?k2"
    have k': "k' = index_injects i (pm_injects pm) ?k3"
      using assms False a i by (cases parent) (auto simp: spawn_fiber_def Let_def)
    have "same_core ?k2 ?k3"
      by (auto simp: core_of_def intro!: same_core_mod split: option.split)
    then have "same_core ?k2 k'" using k' index_injects_core same_core_trans by blast
    then show ?thesis
      using set [of ?k1 i ?f] born_new_fiber [of False parent i inst pm None] i th
      by (auto simp: same_core_def)
  qed
qed

section \<open>The invariant of the running kernel\<close>

definition sys_inv :: "sys \<Rightarrow> bool" where
  "sys_inv s \<longleftrightarrow>
     (\<forall>i. k_next_plugin_id (sy_kernel s) \<le> i \<longrightarrow>
        cores (sy_kernel s) i = None \<and> events_of (sy_kernel s) i = [] \<and>
        (\<forall>th \<in> set (sy_threads s). undriven i th)) \<and>
     (\<forall>i. life_at (sy_kernel s) i) \<and>
     (\<forall>i n m. n < length (sy_threads s) \<longrightarrow> m < length (sy_threads s) \<longrightarrow> n \<noteq> m \<longrightarrow>
        undriven i (sy_threads s ! n) \<or> undriven i (sy_threads s ! m)) \<and>
     (\<forall>i c. cores (sy_kernel s) i = Some c \<longrightarrow>
        (\<forall>th \<in> set (sy_threads s). flow i (co_state c) th))"

lemma sys_invD:
  assumes "sys_inv s"
  shows "k_next_plugin_id (sy_kernel s) \<le> i \<Longrightarrow> cores (sy_kernel s) i = None"
    and "k_next_plugin_id (sy_kernel s) \<le> i \<Longrightarrow> events_of (sy_kernel s) i = []"
    and "k_next_plugin_id (sy_kernel s) \<le> i \<Longrightarrow> th \<in> set (sy_threads s) \<Longrightarrow> undriven i th"
    and "life_at (sy_kernel s) i"
    and "n < length (sy_threads s) \<Longrightarrow> m < length (sy_threads s) \<Longrightarrow> n \<noteq> m \<Longrightarrow>
        undriven i (sy_threads s ! n) \<or> undriven i (sy_threads s ! m)"
    and "cores (sy_kernel s) i = Some c \<Longrightarrow> th \<in> set (sy_threads s) \<Longrightarrow> flow i (co_state c) th"
  using assms unfolding sys_inv_def by blast+

lemma life_at_born:
  "cores k i = Some c \<Longrightarrow> born c \<Longrightarrow> events_of k i = [] \<Longrightarrow> life_at k i"
  by (auto simp: life_at_def life_core_def born_def)

lemma sys_inv_same_core:
  assumes inv: "sys_inv \<lparr>sy_kernel = k, sy_threads = ths\<rparr>" and k': "same_core k k'"
    and ths: "\<And>th j. th \<in> set new \<Longrightarrow> undriven j th"
  shows "sys_inv \<lparr>sy_kernel = k', sy_threads = ths @ new\<rparr>"
proof -
  have ev: "events_of k' i = events_of k i" for i using k' by (simp add: same_core_def events_of_def)
  have c: "cores k' = cores k" "k_next_plugin_id k' = k_next_plugin_id k"
    using k' by (simp_all add: same_core_def)
  note I = sys_invD [OF inv, simplified]
  have "undriven i ((ths @ new) ! n) \<or> undriven i ((ths @ new) ! m)"
    if "n < length (ths @ new)" "m < length (ths @ new)" "n \<noteq> m" for i n m
  proof (cases "n < length ths \<and> m < length ths")
    case True
    then show ?thesis using I(5) [of n m i] that by (simp add: nth_append)
  next
    case False
    then have "(ths @ new) ! n \<in> set new \<or> (ths @ new) ! m \<in> set new"
      using that by (auto simp: nth_append)
    then show ?thesis using ths by blast
  qed
  then show ?thesis
    unfolding sys_inv_def using I(1,2,3,4,6) ths ev c life_at_same_core [OF k']
    by (auto simp: flow_undriven)
qed

lemma sys_inv_spawn:
  assumes inv: "sys_inv \<lparr>sy_kernel = k, sy_threads = ths\<rparr>"
    and sp: "spawn_fiber parent pm k = Some (i, k', new)"
  shows "sys_inv \<lparr>sy_kernel = k', sy_threads = ths @ new\<rparr>"
proof -
  obtain c where c: "born c" "i = k_next_plugin_id k" "cores k' = (cores k)(i \<mapsto> c)"
    "k_emitted k' = k_emitted k" "k_next_plugin_id k' = Suc i"
    and th: "new = [] \<or> new = [[DriveOp i Recv]]"
    using spawn_core [OF sp] by blast
  note I = sys_invD [OF inv, simplified]
  have ev: "events_of k' j = events_of k j" for j using c by (simp add: events_of_def)
  have life: "life_at k' j" for j
    using life_at_born [of k' i c] c I(2) [of i] I(4) [of j] ev
    by (cases "j = i") (auto simp: life_at_def)
  have und: "undriven j th" if "th \<in> set new" "j \<noteq> i" for th j
    using th that by auto
  have old: "undriven i th" if "th \<in> set ths" for th using I(3) [of i th] that c by simp
  have "undriven j ((ths @ new) ! n) \<or> undriven j ((ths @ new) ! m)"
    if "n < length (ths @ new)" "m < length (ths @ new)" "n \<noteq> m" for j n m
  proof (cases "n < length ths \<and> m < length ths")
    case True
    then show ?thesis using I(5) [of n m j] that by (simp add: nth_append)
  next
    case False
    have one: "length new \<le> 1" using th by auto
    have "n < length ths \<or> m < length ths" using that one by auto
    moreover have "(ths @ new) ! n \<in> set new \<or> (ths @ new) ! m \<in> set new"
      using that False by (auto simp: nth_append)
    ultimately show ?thesis using und old by (cases "j = i") (auto simp: nth_append)
  qed
  moreover have "flow j (co_state d) th" if "cores k' j = Some d" "th \<in> set (ths @ new)" for j d th
  proof (cases "j = i")
    case True
    then show ?thesis using that old th c by (auto simp: flow_undriven born_def)
  next
    case False
    then show ?thesis using that und I(6) [of j d th] c by (auto simp: flow_undriven)
  qed
  ultimately show ?thesis
    unfolding sys_inv_def using life I(1,2,3) c ev und by auto
qed

lemma exec_absent:
  "drives i op \<Longrightarrow> k_fibers k i = None \<Longrightarrow> exec en op k = Some (k', new) \<Longrightarrow> k' = k \<and> new = []"
  by (cases op) (auto simp: exec_def)

lemma drives_unique: "drives i op \<Longrightarrow> drives j op \<Longrightarrow> i = j"
  by (cases op) auto

text \<open>What a section does, whether it belongs to a driver or not.\<close>

lemma exec_cases:
  assumes ex: "exec en op k = Some (k', new)"
    and flow: "\<forall>i c. cores k i = Some c \<longrightarrow> flow i (co_state c) (op # ops)"
  obtains (free) "same_core k k'" "\<And>j. undriven j new" "\<And>j. \<not> drives j op"
  | (absent) i where "drives i op" "cores k i = None" "k' = k" "new = []"
  | (driver) i c where "drives i op" "driven i k k'" "\<And>j. j \<noteq> i \<Longrightarrow> undriven j new"
      "cores k i = Some c" "\<And>c. cores k' i = Some c \<Longrightarrow> flow i (co_state c) (new @ ops)"
proof (cases "\<exists>i. drives i op")
  case False
  then have "same_core k k' \<and> undriven j new" for j by (intro exec_undriven [OF ex]) blast
  with False show ?thesis using free by blast
next
  case True
  then obtain i where i: "drives i op" by blast
  show ?thesis
  proof (cases "k_fibers k i")
    case None
    then show ?thesis using exec_absent [OF i None ex] absent [OF i] by (simp add: cores_def)
  next
    case (Some f)
    have co: "cores k i = Some (core_of f)" by (simp add: cores_def Some)
    have fl: "pre_op op (f_state f)" "\<forall>t \<in> post_op op (f_state f). flow i t ops"
      using flow [rule_format, OF co] i by (auto simp: core_of_def)
    have p: "promise i (post_op op (f_state f)) k (k', new)"
      by (rule exec_promise [OF ex i Some fl(1)])
    have "flow i (co_state c) (new @ ops)" if "cores k' i = Some c" for c
      using p fl(2) that by (auto simp: promise_def keeps_def flow_append cores_def core_of_def)
    then show ?thesis
      using p driver [OF i _ _ co] by (simp add: promise_def keeps_def)
  qed
qed

text \<open>The threads after a section of thread \<open>n\<close>.\<close>

lemma updated_thread:
  "t \<in> set (ths[n := x]) \<Longrightarrow> t = x \<or> (\<exists>m. m < length ths \<and> m \<noteq> n \<and> t = ths ! m)"
proof -
  assume "t \<in> set (ths[n := x])"
  then obtain m where "m < length ths" "t = ths[n := x] ! m" by (auto simp: in_set_conv_nth)
  then show ?thesis by (cases "m = n") auto
qed

lemma updated_exclusive:
  assumes "\<And>a b. a < length ths \<Longrightarrow> b < length ths \<Longrightarrow> a \<noteq> b \<Longrightarrow>
      undriven j (ths ! a) \<or> undriven j (ths ! b)"
    and "n < length ths" and "undriven j (ths ! n) \<Longrightarrow> undriven j x"
    and "a < length ths" "b < length ths" "a \<noteq> b"
  shows "undriven j (ths[n := x] ! a) \<or> undriven j (ths[n := x] ! b)"
proof (cases "a = n \<or> b = n")
  case True
  then show ?thesis
    using assms(1) [of a b] assms(2-6) by (auto simp: nth_list_update)
next
  case False
  then show ?thesis using assms(1) [OF assms(4-6)] by simp
qed

lemma sys_inv_thread:
  assumes inv: "sys_inv \<lparr>sy_kernel = k, sy_threads = ths\<rparr>"
    and n: "n < length ths" and th: "ths ! n = op # ops"
    and ex: "exec en op k = Some (k', new)"
  shows "sys_inv \<lparr>sy_kernel = k', sy_threads = ths[n := new @ ops]\<rparr>"
proof -
  note I = sys_invD [OF inv, simplified]
  have mem: "op # ops \<in> set ths" using n th by (metis nth_mem)
  have fl: "flow i (co_state c) (op # ops)" if "cores k i = Some c" for i c
    using I(6) [OF that mem] .
  have keep: "sys_inv \<lparr>sy_kernel = k', sy_threads = ths[n := new @ ops]\<rparr>"
    if nx: "k_next_plugin_id k' = k_next_plugin_id k"
      and absent: "\<And>j. k_next_plugin_id k \<le> j \<Longrightarrow> cores k' j = None \<and> events_of k' j = []"
      and life: "\<And>j. life_at k' j"
      and und: "\<And>j. undriven j (op # ops) \<Longrightarrow> undriven j (new @ ops)"
      and own: "\<And>j c. cores k' j = Some c \<Longrightarrow> flow j (co_state c) (new @ ops)"
      and oth: "\<And>j c m. cores k' j = Some c \<Longrightarrow> m < length ths \<Longrightarrow> m \<noteq> n \<Longrightarrow>
        flow j (co_state c) (ths ! m)"
  proof -
    have "undriven j (ths[n := new @ ops] ! a) \<or> undriven j (ths[n := new @ ops] ! b)"
      if "a < length ths" "b < length ths" "a \<noteq> b" for j a b
      by (rule updated_exclusive [OF I(5) n _ that]) (use und th in auto)
    moreover have "undriven j t" if "k_next_plugin_id k \<le> j" "t \<in> set (ths[n := new @ ops])" for j t
      using updated_thread [OF that(2)] I(3) [OF that(1)] und [of j] mem nth_mem by blast
    moreover have "flow j (co_state c) t"
      if "cores k' j = Some c" "t \<in> set (ths[n := new @ ops])" for j c t
      using updated_thread [OF that(2)] own [OF that(1)] oth [OF that(1)] by blast
    ultimately show ?thesis unfolding sys_inv_def using nx absent life by auto
  qed
  have fl': "\<forall>i c. cores k i = Some c \<longrightarrow> flow i (co_state c) (op # ops)" using fl by blast
  from ex fl' show ?thesis
  proof (cases rule: exec_cases)
    case free
    have co: "cores k' = cores k" "k_next_plugin_id k' = k_next_plugin_id k"
      and ev: "\<And>j. events_of k' j = events_of k j"
      using free(1) by (simp_all add: same_core_def events_of_def)
    show ?thesis
    proof (rule keep)
      show "flow j (co_state c) (new @ ops)" if "cores k' j = Some c" for j c
        using fl [of j c] that co free(2,3) by (simp add: flow_append)
      show "flow j (co_state c) (ths ! m)" if "cores k' j = Some c" "m < length ths" for j c m
        using I(6) [of j c] that co by simp
    qed (use I(1,2,4) co ev free(2) life_at_same_core [OF free(1)] in auto)
  next
    case (absent i)
    show ?thesis
    proof (rule keep)
      show "flow j (co_state c) (new @ ops)" if "cores k' j = Some c" for j c
      proof -
        have "j \<noteq> i" using that absent by auto
        then have "\<not> drives j op" using drives_unique [OF absent(1)] by blast
        then show ?thesis using fl [of j c] that absent by simp
      qed
      show "flow j (co_state c) (ths ! m)" if "cores k' j = Some c" "m < length ths" for j c m
        using I(6) [of j c] that absent by simp
    qed (use I(1,2,4) absent in auto)
  next
    case (driver i c0)
    have lt: "i < k_next_plugin_id k"
      using I(1) [of i] driver(4) by (metis linorder_not_less option.distinct(1))
    have nx: "k_next_plugin_id k' = k_next_plugin_id k"
      and oc: "\<And>j. j \<noteq> i \<Longrightarrow> cores k' j = cores k j"
      and life: "life_at k' i" and ev: "\<And>j. j \<noteq> i \<Longrightarrow> events_of k' j = events_of k j"
      using driver(2) I(4) [of i] by (auto simp: driven_def)
    show ?thesis
    proof (rule keep)
      show "life_at k' j" for j
        using life I(4) [of j] oc ev by (cases "j = i") (auto simp: life_at_def)
      show "cores k' j = None \<and> events_of k' j = []" if "k_next_plugin_id k \<le> j" for j
      proof -
        have "j \<noteq> i" using that lt by simp
        then show ?thesis using I(1,2) [OF that] oc ev by simp
      qed
      show "undriven j (new @ ops)" if "undriven j (op # ops)" for j
      proof -
        have "j \<noteq> i" using that driver(1) by auto
        then show ?thesis using that driver(3) by simp
      qed
      show "flow j (co_state c) (new @ ops)" if c: "cores k' j = Some c" for j c
      proof (cases "j = i")
        case True
        then show ?thesis using driver(5) c by simp
      next
        case False
        then have "\<not> drives j op" using drives_unique [OF driver(1)] by blast
        then show ?thesis
          using fl [of j c] c oc [OF False] driver(3) [OF False] by (simp add: flow_append)
      qed
      show "flow j (co_state c) (ths ! m)"
        if c: "cores k' j = Some c" and m: "m < length ths" "m \<noteq> n" for j c m
      proof (cases "j = i")
        case True
        have "undriven i (ths ! m)" using I(5) [OF m(1) n m(2), of i] driver(1) th by simp
        then show ?thesis using True by (simp add: flow_undriven)
      next
        case False
        then show ?thesis using I(6) [of j c] c oc m nth_mem by simp
      qed
    qed (rule nx)
  qed
qed

lemma sys_inv_step: "sys_step s t \<Longrightarrow> sys_inv s \<Longrightarrow> sys_inv t"
proof (induction rule: sys_step.induct)
  case (step_thread n ths op ops en k k' new)
  then show ?case by (blast intro: sys_inv_thread)
next
  case (step_call k k' threads ths)
  then show ?case
    using api_call_core [OF step_call.hyps] sys_inv_spawn sys_inv_same_core by blast
qed

lemma sys_inv_init: "sys_init inst = Some s \<Longrightarrow> sys_inv s"
  by (auto simp: sys_init_root sys_inv_def cores_def life_at_def events_of_def life_core_def
      empty_kernel_def new_fiber_def root_meta_def core_of_def live_of_def first_state_def resting_def
      ROOT_def Let_def set_fiber_def split: if_splits)

lemma reachable_inv: "sys_reachable inst s \<Longrightarrow> sys_inv s"
  by (induction rule: sys_reachable.induct) (auto intro: sys_inv_init sys_inv_step)

end
