(* ===== verification/Scenarios.thy ===== *)
theory Scenarios
  imports System "HOL-Library.Code_Target_Nat"
begin

text \<open>
  Runs of the kernel on concrete input: a script of moves, each one step of
  the system, evaluated.  They show that states the theorems speak of are
  reached, with the definitions as they are.
\<close>

datatype move =
    MThread nat env
  | MSpawn ctx plugin_meta
  | MMount ctx nat
  | MProvide ctx type_key nat
  | MDispose nat
  | MRestart nat
  | MSettle nat
  | MShutdown nat

definition thread_move :: "nat \<Rightarrow> env \<Rightarrow> sys \<Rightarrow> sys option" where
  "thread_move n en s =
     (if n < length (sy_threads s) then
        (case sy_threads s ! n of
           [] \<Rightarrow> None
         | op # ops \<Rightarrow>
             (case exec en op (sy_kernel s) of
                None \<Rightarrow> None
              | Some (k, new) \<Rightarrow>
                  Some \<lparr>sy_kernel = k, sy_threads = (sy_threads s)[n := new @ ops]\<rparr>))
      else None)"

definition called :: "sys \<Rightarrow> kernel \<Rightarrow> kop list list \<Rightarrow> sys" where
  "called s k threads = \<lparr>sy_kernel = k, sy_threads = sy_threads s @ threads\<rparr>"

definition do_move :: "move \<Rightarrow> sys \<Rightarrow> sys option" where
  "do_move m s = (case m of
     MThread n en \<Rightarrow> thread_move n en s
   | MSpawn cx pm \<Rightarrow>
       (case spawn_fiber (Some cx) pm (sy_kernel s) of
          None \<Rightarrow> None | Some (_, k, threads) \<Rightarrow> Some (called s k threads))
   | MMount cx c \<Rightarrow>
       (case mount_fiber cx c (sy_kernel s) of (k, ops, threads) \<Rightarrow> Some (called s k (ops # threads)))
   | MProvide cx key v \<Rightarrow>
       (case provide_native cx show_nat key (Fixed v) ''service'' (sy_kernel s) of
          Inl _ \<Rightarrow> None | Inr (_, k, ops) \<Rightarrow> Some (called s k [ops]))
   | MDispose i \<Rightarrow> (case dispose i (sy_kernel s) of (k, ops) \<Rightarrow> Some (called s k [ops]))
   | MRestart i \<Rightarrow>
       (case restart i (sy_kernel s) of Inl _ \<Rightarrow> None | Inr (k, ops) \<Rightarrow> Some (called s k [ops]))
   | MSettle i \<Rightarrow> (case settle i (sy_kernel s) of (k, ops) \<Rightarrow> Some (called s k [ops]))
   | MShutdown i \<Rightarrow>
       (case shutdown_fiber i (sy_kernel s) of
          (k, ops, threads) \<Rightarrow> Some (called s k (ops # threads))))"

fun play :: "move list \<Rightarrow> sys \<Rightarrow> sys option" where
  "play [] s = Some s"
| "play (m # ms) s = (case do_move m s of None \<Rightarrow> None | Some t \<Rightarrow> play ms t)"

lemma thread_move_step: "thread_move n en s = Some t \<Longrightarrow> sys_step s t"
  by (cases s) (auto simp: thread_move_def intro: step_thread split: if_splits list.splits option.splits)

lemma called_step: "api_call (sy_kernel s) k threads \<Longrightarrow> sys_step s (called s k threads)"
  by (cases s) (auto simp: called_def intro: step_call)

lemma do_move_step: "do_move m s = Some t \<Longrightarrow> sys_step s t"
  by (cases m)
    (auto simp: do_move_def intro!: thread_move_step called_step intro: api_call.intros
      split: option.splits prod.splits sum.splits)

lemma play_reachable: "sys_reachable inst s \<Longrightarrow> play ms s = Some t \<Longrightarrow> sys_reachable inst t"
proof (induction ms arbitrary: s)
  case (Cons m ms)
  then show ?case using sr_step do_move_step by (auto split: option.splits) blast
qed simp

section \<open>A plugin that loads\<close>

definition quiet :: env where
  "quiet = \<lparr>en_build = Returns (), en_validate = Returns (), en_apply = Returns (EffDisposer 1),
     en_cleanups = \<lparr>cb_sync = (\<lambda>_. SyncReturns None), cb_async = (\<lambda>_. TaskEnds None)\<rparr>,
     en_deadline = None\<rparr>"

definition root_ctx :: ctx where
  "root_ctx = \<lparr>cx_fiber = ROOT, cx_isolates = [], cx_generation = None\<rparr>"

definition demo_meta :: "string \<Rightarrow> type_key list \<Rightarrow> plugin_meta" where
  "demo_meta name injects = \<lparr>pm_source = StaticPlugin, pm_name = name, pm_platform = False,
     pm_injects = injects, pm_config = None\<rparr>"

definition demo_init :: sys where
  "demo_init = (case sys_init 7 of Some s \<Rightarrow> s | None \<Rightarrow> \<lparr>sy_kernel = empty_kernel 0, sy_threads = []\<rparr>)"

lemma demo_init_reachable: "sys_reachable 7 demo_init"
proof -
  have "sys_init 7 \<noteq> None" by code_simp
  then show ?thesis by (auto simp: demo_init_def intro: sr_init)
qed

text \<open>Spawned and mounted (fiber 2, threads 1 and 2), posted, and driven to rest.\<close>

definition load_script :: "move list" where
  "load_script = [MSpawn root_ctx (demo_meta ''demo'' []), MMount root_ctx 2,
     MThread 2 quiet, MThread 2 quiet] @ replicate 13 (MThread 1 quiet)"

definition demo_loaded :: sys where
  "demo_loaded = (case play load_script demo_init of Some s \<Rightarrow> s | None \<Rightarrow> demo_init)"

lemma demo_loaded_reachable: "sys_reachable 7 demo_loaded"
  using play_reachable [OF demo_init_reachable, of load_script] demo_init_reachable
  by (simp add: demo_loaded_def split: option.split)

definition fiber_of :: "sys \<Rightarrow> nat \<Rightarrow> fiber option" where
  "fiber_of s i = k_fibers (sy_kernel s) i"

lemma demo_loaded_active:
  "map_option f_state (fiber_of demo_loaded 2) = Some Active \<and>
   map sc_to (k_emitted (sy_kernel demo_loaded)) = [Loading, Active]"
  by code_simp

end
