(* ===== verification/Kernel_Properties.thy ===== *)
theory Kernel_Properties
  imports Kernel_Safety Scenarios
begin

text \<open>
  What the kernel promises, over its reachable states and for each operation:
  the life of a fiber, the exclusive driver, admission and the dependency
  gate, services in the registry, strict reads and writes, closing.
\<close>

section \<open>The life of a fiber\<close>

text \<open>
  C1. In every reachable state, the status events of a fiber, those emitted
  and those still queued, are a path from its first state to its present one
  through legal changes only; their sequence numbers are 1, 2, 3, ... with no
  gap, each start of a load opens the next generation and no other change
  does, and the path ends in the fiber's state, generation and sequence
  number.
\<close>

theorem status_log_is_a_life:
  assumes "sys_reachable inst s" and "k_fibers (sy_kernel s) i = Some f"
  shows "\<exists>s0. first_state s0 (f_is_root f) \<and>
    life i s0 0 0 (events_of (sy_kernel s) i @ f_status_queue f)
      = Some (f_state f, f_generation f, f_seq f)"
  using sys_invD(4) [OF reachable_inv [OF assms(1)], of i] assms(2)
  by (auto simp: life_at_def life_core_def cores_def core_of_def)

theorem status_log_is_a_life_witness:
  "\<exists>f. fiber_of demo_loaded 2 = Some f \<and> f_state f = Active \<and>
     length (events_of (sy_kernel demo_loaded) 2) = 2 \<and>
     (\<exists>s0. first_state s0 (f_is_root f) \<and>
        life 2 s0 0 0 (events_of (sy_kernel demo_loaded) 2 @ f_status_queue f)
          = Some (f_state f, f_generation f, f_seq f))"
proof -
  obtain f where f: "fiber_of demo_loaded 2 = Some f" "f_state f = Active"
    using demo_loaded_active by auto
  have "length (events_of (sy_kernel demo_loaded) 2) = 2" by code_simp
  then show ?thesis
    using f status_log_is_a_life [OF demo_loaded_reachable, of 2 f] by (auto simp: fiber_of_def)
qed

text \<open>
  C3. What another thread reads without a lock is never stale: in every
  reachable state a fiber's published live generation is its generation
  exactly while it is Loading or Active, and the mark of no live generation
  otherwise.
\<close>

theorem live_generation_is_published:
  assumes "sys_reachable inst s" and "k_fibers (sy_kernel s) i = Some f"
  shows "f_live_generation f = live_of (f_state f) (f_generation f)"
  using sys_invD(4) [OF reachable_inv [OF assms(1)], of i] assms(2)
  by (auto simp: life_at_def life_core_def cores_def core_of_def)

theorem live_generation_is_published_witness:
  "\<exists>f. fiber_of demo_loaded 2 = Some f \<and> f_generation f = 1 \<and> f_live_generation f = 1"
proof -
  have "map_option (\<lambda>f. (f_state f, f_generation f)) (fiber_of demo_loaded 2) = Some (Active, 1)"
    by code_simp
  then show ?thesis
    using live_generation_is_published [OF demo_loaded_reachable, of 2]
    by (auto simp: fiber_of_def live_of_def)
qed

text \<open>
  C2. Loads and unloads of a fiber never overlap: in every reachable state
  one thread at most has driver sections of a fiber to run, and the section
  it runs next starts in a state that section is meant for (plugin code is
  applied only while Loading, cleanups are taken only while Unloading, an
  intent is taken up only at rest).
\<close>

theorem driver_is_exclusive:
  assumes "sys_reachable inst s" and "n < length (sy_threads s)"
    and "sy_threads s ! n = op # ops" and "drives i op"
    and "k_fibers (sy_kernel s) i = Some f"
  shows "pre_op op (f_state f) \<and>
    (\<forall>m < length (sy_threads s). m \<noteq> n \<longrightarrow> undriven i (sy_threads s ! m))"
proof -
  note I = sys_invD [OF reachable_inv [OF assms(1)]]
  have "flow i (co_state (core_of f)) (op # ops)"
    using I(6) [of i "core_of f" "op # ops"] assms by (metis cores_Some nth_mem)
  then have "pre_op op (f_state f)" using assms(4) by (simp add: core_of_def)
  moreover have "undriven i (sy_threads s ! m)" if "m < length (sy_threads s)" "m \<noteq> n" for m
    using I(5) [OF assms(2) that(1), of i] that(2) assms(3,4) by auto
  ultimately show ?thesis by blast
qed

theorem driver_is_exclusive_witness:
  "\<exists>op ops f. sy_threads demo_loaded ! 1 = op # ops \<and> fiber_of demo_loaded 2 = Some f \<and>
     pre_op op (f_state f) \<and> undriven 2 (sy_threads demo_loaded ! 0)"
proof -
  have t: "length (sy_threads demo_loaded) = 3" by code_simp
  have "hd (sy_threads demo_loaded ! 1) = DriveOp 2 Recv \<and> sy_threads demo_loaded ! 1 \<noteq> []"
    by code_simp
  then obtain ops where o: "sy_threads demo_loaded ! 1 = DriveOp 2 Recv # ops"
    by (metis list.exhaust_sel)
  obtain f where f: "fiber_of demo_loaded 2 = Some f" using demo_loaded_active by auto
  show ?thesis
    using driver_is_exclusive [OF demo_loaded_reachable _ o, of 2 f] t f o
    by (auto simp: fiber_of_def)
qed

section \<open>Loads\<close>


lemma resolve_keys_sound:
  "resolve_keys k i isos keys = (sat, mis) \<Longrightarrow> (p, g, key, scope) \<in> sat \<Longrightarrow>
   key \<in> set keys \<and> scope = scope_for isos key \<and> resolve_dep (key, scope) k = Some (p, g)"
proof (induction keys arbitrary: sat mis)
  case (Cons a keys)
  obtain sat' mis' where r: "resolve_keys k i isos keys = (sat', mis')" by fastforce
  show ?case
    using Cons.prems Cons.IH [OF r] by (auto simp: r Let_def split: sum.splits option.splits)
qed simp



text \<open>What a section does to generations.\<close>

lemma same_core_generation:
  "same_core k k' \<Longrightarrow> k_fibers k j = Some f \<Longrightarrow> k_fibers k' j = Some f' \<Longrightarrow>
   f_generation f' = f_generation f"
  using same_core_fiber [of k k' j f] by (auto simp: core_of_def)

lemma generation_flush:
  "map_option f_generation (k_fibers (flush_status i k) j) = map_option f_generation (k_fibers k j)"
  by (auto simp: flush_status_def split: option.split)

lemma generation_set_state [simp]: "f_generation (set_state i st f) = f_generation f"
  by (simp add: set_state_def publish_live_def Let_def)

lemma flush_set_fiber:
  "k_fibers (flush_status i (set_fiber i g k)) i = Some (g\<lparr>f_status_queue := []\<rparr>)"
  by (rule flush_fiber) simp

definition same_generations :: "kernel \<Rightarrow> kernel \<Rightarrow> bool" where
  "same_generations k k' \<longleftrightarrow>
     (\<forall>j f f'. k_fibers k j = Some f \<longrightarrow> k_fibers k' j = Some f' \<longrightarrow> f_generation f' = f_generation f)"

lemma same_generations_core: "same_core k k' \<Longrightarrow> same_generations k k'"
  using same_core_generation by (auto simp: same_generations_def)

lemma same_generations_map:
  "(\<And>j. map_option f_generation (k_fibers k' j) = map_option f_generation (k_fibers k j)) \<Longrightarrow>
   same_generations k k'"
  unfolding same_generations_def by (metis option.map(2) option.inject)

lemma generations_unload_start:
  "k_fibers k i = Some f \<Longrightarrow> same_generations k (fst (unload_start i f next k))"
  by (rule same_generations_map)
    (auto simp: unload_start_def generation_flush cancel_current_def option.map_comp comp_def)

lemma generations_unload_end:
  "k_fibers k i = Some f \<Longrightarrow> same_generations k (unload_end i f next errors k)"
  by (cases "next"; intro same_generations_map)
    (auto simp: unload_end_next generation_flush split: option.split)

lemma generations_fail_end:
  "k_fibers k i = Some f \<Longrightarrow> same_generations k (fail_end i f e deps st errors k)"
  by (intro same_generations_map)
    (auto simp: fail_end_def generation_flush flush_set_fiber Let_def split: option.split)

lemma generations_fail_load:
  "k_fibers k i = Some f \<Longrightarrow> same_generations k (fst (fail_load i f e deps k))"
  by (intro same_generations_map) (auto simp: fail_load_def generation_flush)

lemma generations_restart_op:
  "k_fibers k i = Some f \<Longrightarrow> same_generations k (fst (restart_op i t f k))"
  by (intro same_generations_map)
    (auto simp: restart_op_def restart_root_def generation_flush flush_set_fiber Let_def)

lemma generations_exec:
  assumes f: "k_fibers k i = Some f" and d: "drives i op" and l: "\<And>deps. op \<noteq> LoadOp i (Load deps)"
    and ex: "exec en op k = Some (k', new)"
  shows "same_generations k k'"
proof (cases op)
  case (LoadOp j lo)
  have j: "j = i" using d LoadOp by simp
  have r: "(k', new) = exec_load en i lo f k" using ex LoadOp f j by (simp add: exec_def)
  show ?thesis
  proof (cases lo)
    case (Load deps)
    then show ?thesis using l [of deps] LoadOp j by simp
  next
    case (FailLoad e deps)
    then show ?thesis using r generations_fail_load [OF f, of e deps]
      by (simp add: exec_load_def) (metis fst_conv)
  next
    case Activate
    then show ?thesis using r f
      by (intro same_generations_map) (auto simp: exec_load_def activate_def)
  next
    case (Apply deps)
    then show ?thesis using r
      by (auto simp: exec_load_def apply_returned_def intro!: same_generations_core
          simp: fiber_frame split: call.splits)
  next
    case NotifyProvided
    then show ?thesis using r same_generations_core [OF same_core_notify_keys]
      by (simp add: exec_load_def) (metis fst_conv)
  next
    case RepostIfReady
    then show ?thesis using r same_generations_core [OF same_core_post, of k i RefreshDeps]
      by (cases "snd (resolve_deps k i f) = []")
        (auto simp: exec_load_def same_generations_core, metis fst_conv)
  qed (use r f in \<open>auto simp: exec_load_def adopt_deps_def fail_stop_def watch_waiting_def
         cancel_current_def Let_def split_beta intro!: same_generations_map\<close>)
next
  case (UnloadOp j uo)
  have j: "j = i" using d UnloadOp by simp
  have r: "exec_unload en i uo f k = Some (k', new)" using ex UnloadOp f j by (simp add: exec_def)
  show ?thesis
  proof (cases uo)
    case (Unload nx)
    then show ?thesis using r generations_unload_start [OF f, of nx]
      by (simp add: exec_unload_def)
  next
    case (DrainEnd errors why)
    then show ?thesis using r generations_unload_end [OF f] generations_fail_end [OF f]
      by (cases why) (auto simp: exec_unload_def)
  qed (use r f in \<open>auto simp: exec_unload_def wait_events_def drain_records_def
         intro!: same_generations_map split: if_splits option.splits list.splits prod.splits sum.splits\<close>)
next
  case (DriveOp j dr)
  have j: "j = i" using d DriveOp by simp
  have r: "exec_drive i dr f k = Some (k', new)" using ex DriveOp f j by (simp add: exec_def)
  show ?thesis
  proof (cases dr)
    case (RestartOp t)
    then show ?thesis using r generations_restart_op [OF f, of t]
      by (simp add: exec_drive_def)
  qed (use r f in \<open>auto simp: exec_drive_def recv_def restart_end_def generation_flush add_prior_def
         finish_event_def intro!: same_generations_map split: list.splits if_splits option.splits\<close>)
next
  case (ExitOp j e)
  then show ?thesis
    using ex d f exec_exit_core [OF f, of e] by (auto simp: exec_def same_generations_core)
qed (use d in auto)

lemma exec_other_driver:
  assumes ex: "exec en op k = Some (k', new)" and j: "drives j op" "j \<noteq> i"
    and g: "k_fibers k j = Some g" and f: "k_fibers k i = Some f" "k_fibers k' i = Some f'"
  shows "f_generation f' = f_generation f"
proof (cases "\<exists>deps. op = LoadOp j (Load deps)")
  case True
  then obtain deps where "op = LoadOp j (Load deps)" by blast
  then have "(k', new) = load_start j g deps k" using ex g by (simp add: exec_def exec_load_def)
  then show ?thesis
    using j f by (auto simp: load_start_def flush_status_def split: if_splits)
next
  case False
  then show ?thesis
    using generations_exec [OF g j(1) _ ex] f by (auto simp: same_generations_def)
qed

text \<open>
  C5. A generation only ever moves on by one, and only where a load starts:
  whatever section runs, a fiber whose generation changed was Pending-bound
  to load, with neither the fiber nor the instance closing and no dispose or
  shutdown registered; the new generation starts Loading, with a cancelled
  token exactly when a restart is still waiting to be taken up.
\<close>

theorem new_generation_admission:
  assumes "exec en op k = Some (k', new)" and "k_fibers k i = Some f"
    and "k_fibers k' i = Some f'" and "f_generation f' \<noteq> f_generation f"
  shows "\<exists>deps. op = LoadOp i (Load deps) \<and> \<not> f_closing f \<and> \<not> k_closing k \<and>
    f_terminal_task f = None \<and> f_generation f' = Suc (f_generation f) \<and> f_state f' = Loading \<and>
    f_token f' = (0 < f_pending_restarts f) \<and> f_pre_cancelled f' = (0 < f_pending_restarts f) \<and>
    f_error f' = None \<and> f_accesses f' = []"
proof -
  have "\<exists>deps. op = LoadOp i (Load deps)"
  proof (rule ccontr)
    assume no: "\<nexists>deps. op = LoadOp i (Load deps)"
    have "f_generation f' = f_generation f"
    proof (cases "drives i op")
      case True
      then show ?thesis
        using generations_exec [OF assms(2) True _ assms(1)] no assms(2,3)
        by (auto simp: same_generations_def)
    next
      case False
      show ?thesis
      proof (cases "\<exists>j. drives j op")
        case True
        then obtain j where j: "drives j op" "j \<noteq> i" using False by blast
        show ?thesis
        proof (cases "k_fibers k j")
          case None
          then show ?thesis using exec_absent [OF j(1) None assms(1)] assms by simp
        next
          case (Some g)
          show ?thesis
            using exec_other_driver [OF assms(1) j Some assms(2,3)] .
        qed
      next
        case False
        then show ?thesis using exec_undriven [OF assms(1)] same_core_generation assms by blast
      qed
    qed
    then show False using assms by simp
  qed
  then obtain deps where op: "op = LoadOp i (Load deps)" by blast
  have r: "(k', new) = load_start i f deps k"
    using assms(1,2) op by (simp add: exec_def exec_load_def)
  have open_: "\<not> f_closing f \<and> \<not> k_closing k \<and> f_terminal_task f = None"
    using r assms by (auto simp: load_start_def split: if_splits)
  have "f' = ((start_generation i f)\<lparr>f_accesses := []\<rparr>)\<lparr>f_status_queue := []\<rparr>"
    using r open_ assms(3) by (simp add: load_start_def flush_set_fiber)
  then show ?thesis
    using op open_
    by (auto simp: start_generation_def Let_def set_state_def publish_live_def)
qed

theorem new_generation_admission_witness:
  "let k = sy_kernel demo_loaded; k0 = mod_fiber 2 (\<lambda>f. f\<lparr>f_state := Pending\<rparr>) k in
   \<exists>k' new f f'. exec quiet (LoadOp 2 (Load {})) k0 = Some (k', new) \<and>
     k_fibers k0 2 = Some f \<and> k_fibers k' 2 = Some f' \<and> f_state f' = Loading \<and>
     f_generation f' = Suc (f_generation f) \<and> \<not> f_closing f"
proof -
  let ?k0 = "mod_fiber 2 (\<lambda>f. f\<lparr>f_state := Pending\<rparr>) (sy_kernel demo_loaded)"
  have "case k_fibers ?k0 2 of None \<Rightarrow> False | Some f \<Rightarrow>
     (case exec quiet (LoadOp 2 (Load {})) ?k0 of None \<Rightarrow> False
      | Some (k', new) \<Rightarrow>
          (case k_fibers k' 2 of None \<Rightarrow> False | Some f' \<Rightarrow> f_generation f' \<noteq> f_generation f))"
    by code_simp
  then obtain f k' new f' where "k_fibers ?k0 2 = Some f"
    "exec quiet (LoadOp 2 (Load {})) ?k0 = Some (k', new)" "k_fibers k' 2 = Some f'"
    "f_generation f' \<noteq> f_generation f"
    by (auto split: option.splits)
  then show ?thesis
    using new_generation_admission [of quiet "LoadOp 2 (Load {})" ?k0 k' new 2 f f'] by auto
qed




end
