(* ===== verification/Service_Properties.thy ===== *)
theory Service_Properties
  imports Kernel_Properties
begin

text \<open>
  What the kernel promises about services: provides, withdrawals, strict
  reads and rewrites.  The facts about the table come from the contract
  \<open>binding_table\<close> as interpreted on the registry (\<open>reg\<close>).
\<close>

section \<open>Provides\<close>

lemma post_bindings [simp]: "k_bindings (fst (post i it k)) = k_bindings k"
  "k_binding_heap (fst (post i it k)) = k_binding_heap k"
  by (auto simp: post_def split: option.split)

lemma post_records [simp]: "k_records (fst (post i it k)) = k_records k"
  "k_next_record (fst (post i it k)) = k_next_record k"
  "k_fibers (fst (post i it k)) = k_fibers k"
  by (auto simp: post_def complete_intent_def complete_def split: option.split)

lemma post_all_frame [simp]:
  "k_bindings (fst (post_all is it k)) = k_bindings k"
  "k_binding_heap (fst (post_all is it k)) = k_binding_heap k"
  "k_records (fst (post_all is it k)) = k_records k"
  "k_next_record (fst (post_all is it k)) = k_next_record k"
  "k_fibers (fst (post_all is it k)) = k_fibers k"
  by (induction "is" arbitrary: k) (simp_all add: split_beta Let_def)

lemma notify_frame [simp]:
  "k_bindings (fst (notify_key_changed key k)) = k_bindings k"
  "k_binding_heap (fst (notify_key_changed key k)) = k_binding_heap k"
  "k_records (fst (notify_key_changed key k)) = k_records k"
  "k_next_record (fst (notify_key_changed key k)) = k_next_record k"
  "k_fibers (fst (notify_key_changed key k)) = k_fibers k"
  by (auto simp: notify_key_changed_def split: option.split)

definition provided_binding :: "nat \<Rightarrow> fiber \<Rightarrow> value_slot \<Rightarrow> binding" where
  "provided_binding i f v =
     \<lparr>b_value = v, b_provider = i, b_provider_gen = f_generation f, b_removing = False\<rparr>"

lemma insert_binding_result:
  assumes "insert_binding sl b nm k = Inr (n, k')"
  shows "n = k_next_binding k" "k_bindings k' = (k_bindings k)(sl \<mapsto> n)"
    "k_binding_heap k' = (k_binding_heap k)(n := b)" "k_fibers k' = k_fibers k"
    "k_records k' = k_records k" "k_next_record k' = k_next_record k"
    "insert_opt sl (b, nm) k = Some (n, k')"
  using assms by (auto simp: insert_binding_def insert_opt_def Let_def split: option.splits if_splits)

lemma provide_native_cases:
  assumes "provide_native cx tn key v named k = Inr (r, k', ops)"
  obtains f n k1 where "registration_open cx k = Inr ()" "k_fibers k (cx_fiber cx) = Some f"
    "check_generation cx (f_generation f) (f_state f) = Inr ()" "\<not> ending_state (f_state f)"
    "insert_binding (key, scope_for (cx_isolates cx) key) (provided_binding (cx_fiber cx) f v) named k
       = Inr (n, k1)"
    "r = k_next_record k" "k_bindings k' = k_bindings k1" "k_binding_heap k' = k_binding_heap k1"
    "k_fibers k' = (k_fibers k)(cx_fiber cx \<mapsto>
       f\<lparr>f_provided := f_provided f @ [(key, scope_for (cx_isolates cx) key)],
         f_effects := f_effects f @ [r]\<rparr>)"
    "k_records k' r = record_from (EffAsyncDisposer
       (Withdraw (cx_fiber cx) (f_generation f) key (scope_for (cx_isolates cx) key)))
       (''service provide: '' @ describe tn key) (OProvide key) (cx_fiber cx)"
proof -
  let ?i = "cx_fiber cx" and ?scope = "scope_for (cx_isolates cx) key"
  have o: "registration_open cx k = Inr ()"
    using assms by (auto simp: provide_native_def register_internal_effect_def split: sum.splits)
  obtain f where f: "k_fibers k ?i = Some f"
    using assms o by (auto simp: provide_native_def register_internal_effect_def split: option.splits)
  have g: "check_generation cx (f_generation f) (f_state f) = Inr ()" "\<not> ending_state (f_state f)"
    using assms o f
    by (auto simp: provide_native_def register_internal_effect_def split: sum.splits if_splits)
  obtain n k1 where ins: "insert_binding (key, ?scope) (provided_binding ?i f v) named k = Inr (n, k1)"
    using assms o f g
    by (auto simp: provide_native_def register_internal_effect_def provide_act_def provided_binding_def
        split: sum.splits)
  note R = insert_binding_result [OF ins]
  let ?k2 = "mod_fiber ?i (\<lambda>g. g\<lparr>f_provided := f_provided g @ [(key, ?scope)]\<rparr>) k1"
  let ?p = "if f_state f = Active then notify_key_changed key ?k2 else (?k2, [])"
  let ?rec = "record_from (EffAsyncDisposer (Withdraw ?i (f_generation f) key ?scope))
      (''service provide: '' @ describe tn key) (OProvide key) ?i"
  have eq: "(r, k') = push_effect ?i ?rec (fst ?p)"
    using assms o f g ins
    by (auto simp: provide_native_def register_internal_effect_def provide_act_def
        provided_binding_def split_beta Let_def)
  have fr: "k_fibers (fst ?p) = (k_fibers k)(?i \<mapsto> f\<lparr>f_provided := f_provided f @ [(key, ?scope)]\<rparr>)"
    "k_bindings (fst ?p) = k_bindings k1" "k_binding_heap (fst ?p) = k_binding_heap k1"
    "k_next_record (fst ?p) = k_next_record k"
    using R f by (auto simp: mod_fiber_def)
  show ?thesis
    by (rule that [OF o f g ins])
      (use eq fr in \<open>auto simp: push_effect_def Let_def mod_fiber_def set_fiber_def\<close>)
qed

text \<open>
  C7. A provide that is admitted commits the service and its cleanup in one
  step: the slot of the key, in the isolation scope of the context, holds a
  new binding with the value, the provider and the provider's generation; the
  provider lists the slot and owns a live record whose cleanup withdraws
  exactly that binding.  No other slot changes, and the slot was free or its
  binding was already being removed: a provide never displaces a live one.
\<close>

theorem provide_commits:
  assumes "provide_native cx tn key v named k = Inr (r, k', ops)"
  shows "let i = cx_fiber cx; scope = scope_for (cx_isolates cx) key; sl = (key, scope) in
    \<exists>f f' n. k_fibers k i = Some f \<and> k_fibers k' i = Some f' \<and>
      lookup_binding sl k' = Some n \<and> k_binding_heap k' n = provided_binding i f v \<and>
      (\<forall>sl'. sl' \<noteq> sl \<longrightarrow> lookup_binding sl' k' = lookup_binding sl' k) \<and>
      (\<forall>o'. lookup_binding sl k = Some o' \<longrightarrow> b_removing (k_binding_heap k o')) \<and>
      f_provided f' = f_provided f @ [sl] \<and> f_effects f' = f_effects f @ [r] \<and>
      er_state (k_records k' r) = Live [CAsync (Withdraw i (f_generation f) key scope)] \<and>
      er_owner (k_records k' r) = i"
  using assms
proof (cases rule: provide_native_cases)
  case (1 f n k1)
  let ?sl = "(key, scope_for (cx_isolates cx) key)"
  note R = insert_binding_result [OF 1(5)]
  have "b_removing (k_binding_heap k o')" if "lookup_binding ?sl k = Some o'" for o'
    using reg.insert_refused [OF that] R(7) by fastforce
  moreover have "lookup_binding sl' k' = (if sl' = ?sl then Some n else lookup_binding sl' k)" for sl'
    using reg.lookup_insert [OF R(7), of sl'] 1(7) by (simp add: lookup_binding_def)
  ultimately show ?thesis
    using 1 R by (auto simp: Let_def record_from_def)
qed

theorem provide_commits_witness:
  "\<exists>r k' ops n. provide_native root_ctx show_nat (key_of 5) (Fixed 9) ''db'' (sy_kernel demo_loaded)
     = Inr (r, k', ops) \<and> lookup_binding (key_of 5, None) k' = Some n \<and>
     b_value (k_binding_heap k' n) = Fixed 9"
proof -
  have "case provide_native root_ctx show_nat (key_of 5) (Fixed 9) ''db'' (sy_kernel demo_loaded) of
      Inl _ \<Rightarrow> False | Inr _ \<Rightarrow> True" by code_simp
  then obtain r k' ops where p: "provide_native root_ctx show_nat (key_of 5) (Fixed 9) ''db''
      (sy_kernel demo_loaded) = Inr (r, k', ops)"
    by (auto split: sum.splits)
  show ?thesis
    using provide_commits [OF p] p by (auto simp: Let_def root_ctx_def scope_for_def provided_binding_def)
qed

text \<open>
  A context that is admitted gets \<open>ServiceExists\<close>, with the holder named,
  exactly when the slot holds a binding that is not being removed; nothing
  changes then.
\<close>

theorem provide_refused_when_taken:
  assumes "registration_preflight cx k = Inr ()"
  shows "slot_taken cx key k \<longleftrightarrow>
    (\<exists>msg. provide_native cx tn key v named k = Inl (ServiceExists msg))"
proof -
  obtain f where f: "k_fibers k (cx_fiber cx) = Some f" "registration_open cx k = Inr ()"
    "check_generation cx (f_generation f) (f_state f) = Inr ()" "\<not> ending_state (f_state f)"
    using assms by (auto simp: registration_preflight_def split: sum.splits option.splits if_splits)
  then show ?thesis
    by (auto simp: provide_native_def register_internal_effect_def slot_taken_def lookup_binding_def
        provide_act_def insert_binding_def split_beta Let_def split: option.split)
qed

theorem provide_refused_when_taken_witness:
  "\<exists>r k' ops msg. provide_native root_ctx show_nat (key_of 5) (Fixed 9) ''db'' (sy_kernel demo_loaded)
     = Inr (r, k', ops) \<and>
     provide_native root_ctx show_nat (key_of 5) (Fixed 1) ''db'' k' = Inl (ServiceExists msg)"
proof -
  have "case provide_native root_ctx show_nat (key_of 5) (Fixed 9) ''db'' (sy_kernel demo_loaded) of
      Inl _ \<Rightarrow> False
    | Inr (r, k', ops) \<Rightarrow> slot_taken root_ctx (key_of 5) k' \<and>
        (case registration_preflight root_ctx k' of Inr _ \<Rightarrow> True | Inl _ \<Rightarrow> False)" by code_simp
  then obtain r k' ops where p: "provide_native root_ctx show_nat (key_of 5) (Fixed 9) ''db''
      (sy_kernel demo_loaded) = Inr (r, k', ops)" "slot_taken root_ctx (key_of 5) k'"
      "registration_preflight root_ctx k' = Inr ()"
    by (auto split: sum.splits)
  show ?thesis
    using provide_refused_when_taken [OF p(3), of "key_of 5" show_nat "Fixed 1" "''db''"] p by blast
qed

section \<open>Withdrawals\<close>





section \<open>Strict reads\<close>

lemma binding_status_Ready:
  "binding_status k b = Ready \<longleftrightarrow> \<not> b_removing b \<and>
     (\<exists>p. k_fibers k (b_provider b) = Some p \<and> f_state p = Active)"
  by (auto simp: binding_status_def split: option.splits)





section \<open>Rewrites\<close>

lemma rewrite_guard:
  "fst (writer_set key scope n cx w k) = Inr () \<Longrightarrow> registration_preflight cx k = Inr ()"
  by (auto simp: writer_set_def Let_def split: option.splits if_splits sum.splits)

text \<open>
  Only the provider can rewrite a service, in the generation that
  provided it, while it is Loading or Active, not closing, and while the slot
  still holds this binding, not being removed; then the binding's value is
  the new one and nothing else of the kernel changes.  A refused rewrite
  changes nothing.
\<close>

theorem rewrite_is_the_providers:
  assumes "writer_set key scope n cx v k = (res, k')"
  shows "(res = Inr () \<longrightarrow>
      cx_fiber cx = b_provider (k_binding_heap k n) \<and> lookup_binding (key, scope) k = Some n \<and>
      \<not> b_removing (k_binding_heap k n) \<and> registration_preflight cx k = Inr () \<and>
      (\<exists>f. k_fibers k (cx_fiber cx) = Some f \<and> f_generation f = b_provider_gen (k_binding_heap k n) \<and>
         (f_state f = Loading \<or> f_state f = Active)) \<and>
      (\<exists>old. b_value (k_binding_heap k n) = Mutable old) \<and>
      k' = k\<lparr>k_binding_heap := (k_binding_heap k)
              (n := (k_binding_heap k n)\<lparr>b_value := Mutable v\<rparr>)\<rparr>) \<and>
    (\<forall>e. res = Inl e \<longrightarrow> k' = k)"
  using assms
  by (auto simp: writer_set_def replace_mutable_if_current_def lookup_binding_def Let_def
      split: option.splits if_splits sum.splits prod.splits value_slot.splits)

theorem rewrite_is_the_providers_witness:
  "\<exists>k n k'. writer_set (key_of 5) None n root_ctx 4 k = (Inr (), k') \<and>
     b_value (k_binding_heap k' n) = Mutable 4"
proof -
  have "case provide_native root_ctx show_nat (key_of 5) (Mutable 9) ''db'' (sy_kernel demo_loaded) of
      Inl _ \<Rightarrow> False
    | Inr (r, k, ops) \<Rightarrow> (case fst (writer_set (key_of 5) None 0 root_ctx 4 k) of
        Inr _ \<Rightarrow> True | Inl _ \<Rightarrow> False)"
    by code_simp
  then obtain k where "fst (writer_set (key_of 5) None 0 root_ctx 4 k) = Inr ()"
    by (auto split: sum.splits)
  then obtain k' where r: "writer_set (key_of 5) None 0 root_ctx 4 k = (Inr (), k')"
    by (metis prod.collapse)
  then have "b_value (k_binding_heap k' 0) = Mutable 4"
    using rewrite_is_the_providers [OF r] by simp
  with r show ?thesis by blast
qed

end
