(* ===== verification/Closing_Properties.thy ===== *)
theory Closing_Properties
  imports Service_Properties
begin

text \<open>
  What the kernel promises about ends: closing admits nothing new, a
  registered dispose is final and shared, a context of an old generation can
  do nothing, an unload runs every cleanup, and a driver that stops leaves no
  queued task waiting.
\<close>

section \<open>Closing\<close>

text \<open>
  Once the instance is closing, every way in is shut: no service and no
  effect is registered, no restart or new config is taken, no load starts, no
  dependency check loads or unloads, and a plugin mounted now is a fiber that
  is already Disposed, with its task done and no driver.
\<close>

theorem closing_admits_nothing:
  assumes "k_closing k"
  shows "provide_native cx tn key v named k = Inl Closed \<and> effect_begin cx k = Inl Closed \<and>
    (\<forall>f. k_fibers k i = Some f \<longrightarrow> restart i k = Inl Closed \<and> update_commit i config k = Inl Closed \<and>
       load_start i f deps k = (k, []) \<and> refresh_deps i f k = ([], [], [])) \<and>
    (\<forall>c k' ths. spawn_fiber (Some cx) pm k = Some (c, k', ths) \<longrightarrow> ths = [] \<and>
       (\<exists>f t. k_fibers k' c = Some f \<and> f_state f = Disposed \<and> \<not> f_alive f \<and> f_error f = Some Closed \<and>
          f_terminal_task f = Some t \<and> k_tasks k' t = TaskDone (Some Closed)))"
  using assms
  by (auto simp: provide_native_def register_internal_effect_def registration_open_def effect_begin_def
      restart_def update_commit_def accepts_def load_start_def refresh_deps_def spawn_fiber_def
      new_fiber_def new_task_def Let_def split: option.splits)

theorem closing_admits_nothing_witness:
  "\<exists>k. k_closing k \<and> sys_reachable 7 \<lparr>sy_kernel = k, sy_threads = sy_threads demo_loaded @
       [snd (shutdown_root (sy_kernel demo_loaded))]\<rparr> \<and>
     provide_native root_ctx show_nat (key_of 5) (Fixed 1) ''db'' k = Inl Closed"
proof -
  obtain k ops where s: "shutdown_root (sy_kernel demo_loaded) = (k, ops)" by fastforce
  have "k_closing (fst (shutdown_root (sy_kernel demo_loaded)))" by code_simp
  then have c: "k_closing k" by (simp add: s)
  have "api_call (sy_kernel demo_loaded) k [ops]"
    by (rule call_shutdown [of ROOT]) (simp add: shutdown_fiber_def s)
  then have "sys_step demo_loaded (called demo_loaded k [ops])" by (rule called_step)
  then have "sys_reachable 7 \<lparr>sy_kernel = k, sy_threads = sy_threads demo_loaded @ [ops]\<rparr>"
    using sr_step [OF demo_loaded_reachable] by (simp add: called_def)
  then show ?thesis
    using closing_admits_nothing [OF c, of root_ctx show_nat "key_of 5" "Fixed 1" "''db''"] c s by auto
qed

section \<open>Dispose\<close>

text \<open>
  A dispose is registered at the call and is final: the fiber's token is
  cancelled, a second dispose shares the task, a later restart or update is
  refused, no load starts, and the next dependency check only unloads for
  the dispose.
\<close>

theorem dispose_is_final:
  assumes "k_fibers k i = Some f" and "\<not> f_is_root f" and "f_terminal_task f = None"
    and "register_dispose i f k = (t, k1, ops)"
  shows "\<exists>g. k_fibers k1 i = Some g \<and> f_terminal_task g = Some t \<and> f_token g \<and> f_pre_cancelled g \<and>
    f_state g = f_state f \<and> k_tasks k1 t = Running \<and>
    register_dispose i g k1 = (t, k1, []) \<and>
    (\<exists>e. restart i k1 = Inl e \<and> update_commit i config k1 = Inl e \<and> (e = Closed \<or> e = InactiveEffect)) \<and>
    load_start i g deps k1 = (k1, []) \<and>
    (refresh_deps i g k1 = ([], [], []) \<or> refresh_deps i g k1 = ([UnloadForDispose], [], []))"
  using assms
  by (auto simp: register_dispose_def restart_def update_commit_def accepts_def load_start_def
      refresh_deps_def terminal_registered_def new_task_def Let_def)

theorem dispose_is_final_witness:
  "\<exists>f t k1 ops. fiber_of demo_loaded 2 = Some f \<and>
     register_dispose 2 f (sy_kernel demo_loaded) = (t, k1, ops) \<and>
     (restart 2 k1 = Inl InactiveEffect \<or> restart 2 k1 = Inl Closed)"
proof -
  obtain f where f: "fiber_of demo_loaded 2 = Some f" using demo_loaded_active by auto
  have "map_option (\<lambda>f. (f_is_root f, f_terminal_task f)) (fiber_of demo_loaded 2) = Some (False, None)"
    by code_simp
  then have p: "\<not> f_is_root f" "f_terminal_task f = None" using f by auto
  obtain t k1 ops where d: "register_dispose 2 f (sy_kernel demo_loaded) = (t, k1, ops)"
    by (metis prod_cases3)
  show ?thesis
    using dispose_is_final [OF f [unfolded fiber_of_def] p d] f d by auto
qed

section \<open>Old generations\<close>

text \<open>
  A context kept from an earlier generation of its fiber can register
  nothing: a provide, an effect and a rewrite are refused, and an effect
  whose factory was running when the generation ended is refused after it,
  its cleanups being drained on a thread of their own instead of joining the
  new generation's effects.
\<close>

theorem old_context_is_refused:
  assumes "k_fibers k (cx_fiber cx) = Some f" and "cx_generation cx = Some g"
    and "g \<noteq> f_generation f"
  shows "(\<exists>e. provide_native cx tn key v named k = Inl e \<and>
      (e = Closed \<or> e = StaleGeneration g (f_generation f))) \<and>
    (\<exists>e. effect_begin cx k = Inl e \<and> (e = Closed \<or> e = StaleGeneration g (f_generation f))) \<and>
    fst (writer_set key scope n cx w k) \<noteq> Inr () \<and>
    (\<exists>k'. effect_commit cx label origin eff k =
       (Inl (StaleGeneration g (f_generation f)), k',
        [CleanupOp (DrainRecord (k_next_record k)), ExitOp (cx_fiber cx) (ReportRecord (k_next_record k)),
         DriveOp (cx_fiber cx) FinishEvent]) \<and>
       k_fibers k' = k_fibers k \<and>
       er_state (k_records k' (k_next_record k)) = Live (into_cleanups (map_effect UserCleanup eff)))"
proof -
  have chk: "check_generation cx (f_generation f) (f_state f) = Inl (StaleGeneration g (f_generation f))"
    using assms by (simp add: check_generation_def)
  have pre: "registration_preflight cx k \<noteq> Inr ()"
    using assms chk by (simp add: registration_preflight_def split: sum.split)
  then have "fst (writer_set key scope n cx w k) \<noteq> Inr ()"
    using rewrite_guard [of key scope n cx w k] by blast
  then show ?thesis
    using assms chk
    by (auto simp: provide_native_def register_internal_effect_def registration_open_def
        effect_begin_def effect_commit_def Let_def record_from_def)
qed

theorem old_context_is_refused_witness:
  "let cx = \<lparr>cx_fiber = 2, cx_isolates = [], cx_generation = Some 0\<rparr> in
   \<exists>f. fiber_of demo_loaded 2 = Some f \<and> f_generation f = 1 \<and>
     (\<exists>k'. effect_commit cx ''late'' OApply (EffDisposer 4) (sy_kernel demo_loaded) =
       (Inl (StaleGeneration 0 1), k',
        [CleanupOp (DrainRecord (k_next_record (sy_kernel demo_loaded))),
         ExitOp 2 (ReportRecord (k_next_record (sy_kernel demo_loaded))),
         DriveOp 2 FinishEvent]))"
proof -
  let ?cx = "\<lparr>cx_fiber = 2, cx_isolates = [], cx_generation = Some 0\<rparr>"
  have "map_option f_generation (fiber_of demo_loaded 2) = Some 1" by code_simp
  then obtain f where f: "fiber_of demo_loaded 2 = Some f" "f_generation f = 1" by auto
  show ?thesis
    using old_context_is_refused [of "sy_kernel demo_loaded" ?cx f 0 show_nat "key_of 5" "Fixed 1" "[]"
        None 0 1 "''late''" OApply "EffDisposer 4"] f
    by (simp add: fiber_of_def Let_def) blast
qed

section \<open>One thread on its own\<close>

text \<open>The runs of one thread in which no other thread takes a turn.\<close>

inductive alone :: "env \<Rightarrow> kernel \<times> kop list \<Rightarrow> kernel \<times> kop list \<Rightarrow> bool" for en where
  alone_refl: "alone en c c"
| alone_step: "exec en op k = Some (k1, new) \<Longrightarrow> alone en (k1, new @ ops) c \<Longrightarrow>
     alone en (k, op # ops) c"



text \<open>It is part of the system's behaviour: each such run is one of the system.\<close>

lemma alone_reachable:
  "alone en c d \<Longrightarrow> c = (k, ops) \<Longrightarrow> d = (k', ops') \<Longrightarrow>
   sys_reachable inst \<lparr>sy_kernel = k, sy_threads = ths\<rparr> \<Longrightarrow> n < length ths \<Longrightarrow> ths ! n = ops \<Longrightarrow>
   sys_reachable inst \<lparr>sy_kernel = k', sy_threads = ths[n := ops']\<rparr>"
proof (induction arbitrary: k ops ths rule: alone.induct)
  case (alone_refl c)
  then show ?case by (auto simp: list_update_same_conv)
next
  case (alone_step op k0 k1 new ops0 c)
  have "sys_step \<lparr>sy_kernel = k0, sy_threads = ths\<rparr>
      \<lparr>sy_kernel = k1, sy_threads = ths[n := new @ ops0]\<rparr>"
    using alone_step.hyps(1) alone_step.prems by (intro step_thread) auto
  then have "sys_reachable inst \<lparr>sy_kernel = k1, sy_threads = ths[n := new @ ops0]\<rparr>"
    using alone_step.prems sr_step by auto
  then show ?case
    using alone_step.IH [of k1 "new @ ops0" "ths[n := new @ ops0]"] alone_step.prems by simp
qed

section \<open>A driver that stops\<close>





section \<open>Unloads run every cleanup\<close>











section \<open>A root that is restarted while it is Active\<close>

definition root_restart_script :: "move list" where
  "root_restart_script = [MRestart ROOT, MThread 1 quiet, MThread 1 quiet] @ replicate 10 (MThread 0 quiet)
     @ [MThread 1 quiet]"

definition restarted_root :: sys where
  "restarted_root = (case play root_restart_script demo_init of Some s \<Rightarrow> s | None \<Rightarrow> demo_init)"

lemma restarted_root_reachable: "sys_reachable 7 restarted_root"
  using play_reachable [OF demo_init_reachable, of root_restart_script] demo_init_reachable
  by (simp add: restarted_root_def split: option.split)

text \<open>
  A restart of a root that is Active succeeds and leaves the root
  Pending, with every section done but its driver's wait: the root has no
  plugin to load, and only a dispose followed by a restart makes it Active
  again.  A service the root provides is then no ready dependency.
\<close>

theorem active_root_restart_leaves_it_pending:
  "sys_reachable 7 demo_init \<and> map_option f_state (fiber_of demo_init ROOT) = Some Active \<and>
   sys_reachable 7 restarted_root \<and> map_option f_state (fiber_of restarted_root ROOT) = Some Pending \<and>
   k_tasks (sy_kernel restarted_root) 0 = TaskDone None \<and>
   sy_threads restarted_root = [[DriveOp ROOT Recv], []] \<and>
   map_option f_intents (fiber_of restarted_root ROOT) = Some [] \<and>
   (case provide_native root_ctx show_nat (key_of 5) (Fixed 9) ''db'' (sy_kernel restarted_root) of
      Inl _ \<Rightarrow> False
    | Inr (r, k, ops) \<Rightarrow> dependency_status (key_of 5, None) k = ProviderInactive Pending) \<and>
   (case provide_native root_ctx show_nat (key_of 5) (Fixed 9) ''db'' (sy_kernel demo_init) of
      Inl _ \<Rightarrow> False
    | Inr (r, k, ops) \<Rightarrow> dependency_status (key_of 5, None) k = Ready)"
  by (intro conjI demo_init_reachable restarted_root_reachable) code_simp+

section \<open>A shutdown task no one completes\<close>

text \<open>
  The plugin (fiber 2, generation 1) spawns fiber 3 and is restarted before it
  mounts it, so that the mount is refused and posts a dispose that has no
  task.  A shutdown of fiber 3 that registers its task between the end of
  that dispose and the stop of the driver reads that the driver still lives,
  and sends after the driver has emptied its mailbox.
\<close>

definition plugin_ctx :: ctx where
  "plugin_ctx = \<lparr>cx_fiber = 2, cx_isolates = [], cx_generation = Some 1\<rparr>"

definition lost_shutdown_script :: "move list" where
  "lost_shutdown_script =
     [MSpawn plugin_ctx (demo_meta ''child'' []), MRestart 2] @ replicate 2 (MThread 4 quiet)
     @ replicate 3 (MThread 1 quiet)
     @ [MMount plugin_ctx 3, MThread 5 quiet, MThread 5 quiet]
     @ replicate 9 (MThread 3 quiet)
     @ [MShutdown 3, MThread 6 quiet]
     @ replicate 4 (MThread 3 quiet) @ [MThread 6 quiet] @ replicate 3 (MThread 3 quiet)"

definition lost_shutdown :: sys where
  "lost_shutdown = (case play lost_shutdown_script demo_loaded of Some s \<Rightarrow> s | None \<Rightarrow> demo_init)"

lemma lost_shutdown_reachable: "sys_reachable 7 lost_shutdown"
  using play_reachable [OF demo_loaded_reachable, of lost_shutdown_script] demo_init_reachable
  by (simp add: lost_shutdown_def split: option.split)

text \<open>
  A shutdown of a fiber can register a task that is never completed:
  there is a reachable state in which the driver of fiber 3 has ended and its
  mailbox is gone, its shutdown task 2 is still running, and the only
  sections left that name it are the ones that wait for it (the task that
  ends the public shutdown, whose own task 1 the caller waits for).
\<close>

theorem shutdown_task_can_be_lost:
  "sys_reachable 7 lost_shutdown \<and>
   map_option (\<lambda>f. (f_state f, f_alive f, f_receiver f, f_intents f, f_terminal_task f))
     (fiber_of lost_shutdown 3) = Some (Disposed, False, False, [], Some 2) \<and>
   k_tasks (sy_kernel lost_shutdown) 2 = Running \<and>
   sy_threads lost_shutdown =
     [[DriveOp 1 Recv],
      [UnloadOp 2 WaitEvents, UnloadOp 2 (TakeEffects (ForUnload NextPending)),
       DriveOp 2 (RestartRefresh 0), DriveOp 2 Recv],
      [], [], [CleanupOp (JoinTask 0)], [], [CleanupOp (JoinTask 1)],
      [ShutOp (JoinInner 3 2 [] 1)]]"
  by (intro conjI lost_shutdown_reachable) code_simp+

end
