(* ===== verification/Waits.thy ===== *)
theory Waits
  imports Rutis_Prelude "HOL-Library.List_Lexorder" "HOL-Library.Char_ord" "HOL-Library.Product_Lexorder"
    "HOL-Library.Code_Target_Nat"
begin

text \<open>
  Synchronous waits across sessions,
  \<open>crates/rutis-bridge/src/session/rpc/waits.rs\<close>: the table of the calls in
  progress, the wait graph built from them before each forward, and the
  search for the cycle a forward would close.

  The hash maps are association lists with distinct keys.  The order in which
  Rust walks them is unspecified; \<open>cycle_among\<close> sorts the calls, and takes the
  runtimes in the order of their first call here (which of several cycles is
  returned may depend on it, whether there is one does not).  \<open>steps\<close> (a
  test's counter) is left out; the thread's \<open>unchained\<close> flag and calling rows
  are arguments.
\<close>

section \<open>The table\<close>

type_synonym global = "string \<times> string"

record profile =
  pr_stacked :: bool
  pr_reentrant :: bool

definition default_profile :: profile where
  "default_profile = \<lparr>pr_stacked = False, pr_reentrant = False\<rparr>"

record hop =
  h_src :: string
  h_sid :: string
  h_dst :: string
  h_did :: string
  h_seq :: nat
  h_chain :: "global list"
  h_entry :: bool
  h_rows :: "(string \<times> string) option"

definition gid :: "hop \<Rightarrow> global" where
  "gid h = (h_dst h, h_did h)"

record waits =
  w_hops :: "(global \<times> hop) list"
  w_marked :: "global list"
  w_profiles :: "(string \<times> profile) list"
  w_hop_count :: nat
  w_mark_count :: nat

definition counted :: "waits \<Rightarrow> waits" where
  "counted w = w\<lparr>w_hop_count := length (w_hops w), w_mark_count := length (w_marked w)\<rparr>"

definition set_profile :: "string \<Rightarrow> profile \<Rightarrow> waits \<Rightarrow> waits" where
  "set_profile session p w = w\<lparr>w_profiles := al_insert session p (w_profiles w)\<rparr>"

definition marked :: "string \<Rightarrow> string \<Rightarrow> waits \<Rightarrow> waits" where
  "marked session i w = counted (w\<lparr>w_marked := List.insert (session, i) (w_marked w)\<rparr>)"

definition answered :: "string \<Rightarrow> string \<Rightarrow> waits \<Rightarrow> waits" where
  "answered session i w =
     (if w_mark_count w = 0 then w
      else counted (w\<lparr>w_marked := filter (\<lambda>g. g \<noteq> (session, i)) (w_marked w)\<rparr>))"

definition returned :: "string \<Rightarrow> string \<Rightarrow> waits \<Rightarrow> waits" where
  "returned session i w =
     (if w_hop_count w = 0 then w
      else counted (w\<lparr>w_hops := al_remove (session, i) (w_hops w)\<rparr>))"

definition ended :: "string \<Rightarrow> waits \<Rightarrow> waits" where
  "ended session w = counted (w\<lparr>
     w_hops := filter (\<lambda>(_, h). h_src h \<noteq> session \<and> h_dst h \<noteq> session) (w_hops w),
     w_marked := filter (\<lambda>(tag, _). tag \<noteq> session) (w_marked w),
     w_profiles := al_remove session (w_profiles w)\<rparr>)"

text \<open>\<open>decode\<close>: untagged entries are the session's own.\<close>

definition decode :: "string list \<Rightarrow> string \<Rightarrow> global list" where
  "decode path dst = map (\<lambda>entry. case split_once (CHR ''/'') entry of
     Some (tag, i) \<Rightarrow> (tag, i)
   | None \<Rightarrow> (dst, entry)) path"

section \<open>The wait graph\<close>

definition hop_name :: "hop \<Rightarrow> string" where
  "hop_name h = h_dst h @ ''/'' @ h_did h"

text \<open>The calls in a stable order, the new one last.\<close>

definition in_order :: "hop list \<Rightarrow> hop \<Rightarrow> hop list" where
  "in_order hops new = sort_key (\<lambda>h. (h_dst h, h_seq h)) hops @ [new]"

definition index_of :: "hop list \<Rightarrow> global \<Rightarrow> nat option" where
  "index_of all g = map_of (rev (zip (map gid all) [0..<length all])) g"

definition is_entry :: "hop list \<Rightarrow> global \<Rightarrow> bool" where
  "is_entry all g = (case index_of all g of None \<Rightarrow> False | Some i \<Rightarrow> h_entry (all ! i))"

definition named :: "hop list \<Rightarrow> global set" where
  "named all = (\<Union>h \<in> set (filter (\<lambda>h. \<not> h_entry h) all).
     set (filter (\<lambda>g. fst g = h_src h) (h_chain h)))"

definition started :: "hop list \<Rightarrow> nat \<Rightarrow> bool" where
  "started all i \<longleftrightarrow> gid (all ! i) \<in> named all"

text \<open>The walk up one call's chain, as far as the first entry.\<close>

fun chain_up :: "hop list \<Rightarrow> nat \<Rightarrow> global list \<Rightarrow> (nat \<times> nat) list" where
  "chain_up all d [] = []"
| "chain_up all d (g # gs) =
     (case index_of all g of Some c \<Rightarrow> [(c, d)] | None \<Rightarrow> [])
     @ (if is_entry all g then [] else chain_up all d gs)"

definition chain_edges :: "hop list \<Rightarrow> (nat \<times> nat) list" where
  "chain_edges all = concat (map (\<lambda>d.
     if h_entry (all ! d) then [] else chain_up all d (rev (butlast (h_chain (all ! d)))))
     [0..<length all])"

text \<open>By runtime: the calls into it in order, and the hops out of it.\<close>

definition calls_into :: "hop list \<Rightarrow> string \<Rightarrow> nat list" where
  "calls_into all y = sort_key (\<lambda>i. h_seq (all ! i))
     (filter (\<lambda>i. h_dst (all ! i) = y) [0..<length all])"

definition hops_out :: "hop list \<Rightarrow> string \<Rightarrow> nat list" where
  "hops_out all y = filter (\<lambda>i. \<not> h_entry (all ! i) \<and> h_src (all ! i) = y) [0..<length all]"

definition related :: "hop list \<Rightarrow> string \<Rightarrow> nat \<Rightarrow> bool" where
  "related all y h \<longleftrightarrow> (\<exists>g \<in> set (h_chain (all ! h)). fst g = y \<and>
     snd g \<in> (\<lambda>o'. h_sid (all ! o')) ` set (hops_out all y))"

definition put_aside_edges :: "hop list \<Rightarrow> string \<Rightarrow> (nat \<times> nat) list" where
  "put_aside_edges all y = concat (map (\<lambda>h.
     if \<not> h_entry (all ! h) \<and> \<not> related all y h \<and> \<not> started all h
     then map (\<lambda>o'. (h, o')) (filter (\<lambda>o'. o' \<noteq> h) (hops_out all y))
     else []) (calls_into all y))"

text \<open>Stack order, from the last call down, through the next one that started.\<close>

fun stack_down :: "hop list \<Rightarrow> nat option \<Rightarrow> nat list \<Rightarrow> (nat \<times> nat) list" where
  "stack_down all nxt [] = []"
| "stack_down all nxt (c # cs) =
     (case nxt of Some d \<Rightarrow> [(c, d)] | None \<Rightarrow> [])
     @ stack_down all (if started all c then Some c else nxt) cs"

definition profile_of :: "(string \<times> profile) list \<Rightarrow> string \<Rightarrow> profile" where
  "profile_of ps y = (case map_of ps y of Some p \<Rightarrow> p | None \<Rightarrow> default_profile)"

definition runtime_edges :: "hop list \<Rightarrow> (string \<times> profile) list \<Rightarrow> string \<Rightarrow> (nat \<times> nat) list" where
  "runtime_edges all ps y =
     (let p = profile_of ps y in
      if \<not> pr_stacked p then []
      else (if pr_reentrant p then [] else put_aside_edges all y)
           @ stack_down all None (rev (calls_into all y)))"

definition wait_edges :: "hop list \<Rightarrow> (string \<times> profile) list \<Rightarrow> (nat \<times> nat) list" where
  "wait_edges all ps =
     chain_edges all @ concat (map (runtime_edges all ps) (remdups (map h_dst all)))"

definition successors :: "hop list \<Rightarrow> (string \<times> profile) list \<Rightarrow> nat \<Rightarrow> nat list" where
  "successors all ps h = map snd (filter (\<lambda>e. fst e = h) (wait_edges all ps))"

section \<open>The search\<close>

type_synonym search = "nat list \<times> bool list \<times> nat option list"

text \<open>The successors of \<open>h\<close>: \<open>None\<close> when the target is one of them.\<close>

fun scan :: "nat \<Rightarrow> nat \<Rightarrow> nat list \<Rightarrow> search \<Rightarrow> search option" where
  "scan target h [] st = Some st"
| "scan target h (x # xs) (stack, seen, from) =
     (if x = target then None
      else if x < length seen \<and> \<not> seen ! x
      then scan target h xs (x # stack, seen[x := True], from[x := Some h])
      else scan target h xs (stack, seen, from))"

definition unseen :: "bool list \<Rightarrow> nat" where
  "unseen seen = length (filter (\<lambda>b. \<not> b) seen)"

lemma unseen_set: "x < length seen \<Longrightarrow> \<not> seen ! x \<Longrightarrow> Suc (unseen (seen[x := True])) = unseen seen"
proof (induction seen arbitrary: x)
  case (Cons b seen)
  then show ?case by (cases x) (auto simp: unseen_def)
qed simp

lemma scan_measure:
  "scan target h xs (stack, seen, from) = Some (stack', seen', from') \<Longrightarrow>
   2 * unseen seen' + length stack' \<le> 2 * unseen seen + length stack"
proof (induction xs arbitrary: stack seen "from")
  case (Cons x xs)
  show ?case
  proof (cases "x < length seen \<and> \<not> seen ! x \<and> x \<noteq> target")
    case True
    then have "2 * unseen seen' + length stack' \<le> 2 * unseen (seen[x := True]) + length (x # stack)"
      using Cons.IH [of "x # stack" "seen[x := True]" "from[x := Some h]"] Cons.prems by simp
    then show ?thesis using unseen_set [of x seen] True by simp
  next
    case False
    then show ?thesis using Cons.IH [of stack seen "from"] Cons.prems by (auto split: if_splits)
  qed
qed simp

text \<open>Depth-first: the call whose successor is the target, and how each was reached.\<close>

function dfs :: "nat \<Rightarrow> (nat \<Rightarrow> nat list) \<Rightarrow> search \<Rightarrow> (nat \<times> nat option list) option" where
  "dfs target succs ([], seen, from) = None"
| "dfs target succs (h # stack, seen, from) =
     (case scan target h (succs h) (stack, seen, from) of
        None \<Rightarrow> Some (h, from)
      | Some st \<Rightarrow> dfs target succs st)"
  by pat_completeness auto
termination
proof (relation "measure (\<lambda>(_, _, stack, seen, _). 2 * unseen seen + length stack)", goal_cases)
  case (2 target succs h stack seen "from" st)
  obtain stack' seen' from' where st: "st = (stack', seen', from')" by (cases st) auto
  show ?case using scan_measure 2 st by fastforce
qed simp

text \<open>The walk back from a call to the target; \<open>None\<close>: a call that was not reached.\<close>

fun walk_back :: "nat \<Rightarrow> nat \<Rightarrow> nat option list \<Rightarrow> nat \<Rightarrow> nat list option" where
  "walk_back 0 target from at = (if at = target then Some [] else None)"
| "walk_back (Suc n) target from at =
     (if at = target then Some []
      else case from ! at of
             None \<Rightarrow> None
           | Some p \<Rightarrow> map_option (\<lambda>rest. at # rest) (walk_back n target from p))"

definition search_from :: "nat \<Rightarrow> nat \<Rightarrow> (nat \<Rightarrow> nat list) \<Rightarrow> nat list option" where
  "search_from n target succs =
     (case dfs target succs ([target], replicate n False, replicate n None) of
        None \<Rightarrow> None
      | Some (h, from) \<Rightarrow> map_option (\<lambda>back. target # rev back) (walk_back n target from h))"

definition cycle_among :: "hop list \<Rightarrow> hop \<Rightarrow> (string \<times> profile) list \<Rightarrow> string list option" where
  "cycle_among hops new ps =
     (let all = in_order hops new; n = length all in
      map_option (map (\<lambda>i. hop_name (all ! i)))
        (search_from n (n - 1) (successors all ps)))"

section \<open>Forwarding\<close>

record cycle =
  cy_calls :: "string list"
  cy_rows :: "string list option"

definition push_row :: "string list \<Rightarrow> string \<Rightarrow> string list" where
  "push_row rows row = (if rows \<noteq> [] \<and> last rows = row then rows else rows @ [row])"

fun rows_loop :: "(global \<times> hop) list \<Rightarrow> hop option \<Rightarrow> string list \<Rightarrow> string list \<Rightarrow> string list option" where
  "rows_loop hops first [] rows = Some rows"
| "rows_loop hops first (call # calls) rows =
     (case (case first of
              Some h \<Rightarrow> Some h
            | None \<Rightarrow> Option.bind (split_once (CHR ''/'') call) (\<lambda>g. map_of hops g)) of
        None \<Rightarrow> None
      | Some h \<Rightarrow>
          (case h_rows h of
             None \<Rightarrow> None
           | Some (a, b) \<Rightarrow> rows_loop hops None calls (push_row (push_row rows a) b)))"

definition rows_of :: "string list \<Rightarrow> (global \<times> hop) list \<Rightarrow> hop \<Rightarrow> string list option" where
  "rows_of calls hops new =
     (case rows_loop hops (Some new) calls [] of
        None \<Rightarrow> None
      | Some rows \<Rightarrow>
          (if rows \<noteq> [] \<and> last rows \<noteq> hd rows then Some (rows @ [hd rows]) else Some rows))"

text \<open>The hop or entry a forward makes; \<open>None\<close>: a call back into its caller's session.\<close>

definition make_hop ::
  "string \<Rightarrow> string \<Rightarrow> nat \<Rightarrow> string list \<Rightarrow> bool \<Rightarrow> (string \<times> string) option \<Rightarrow> waits \<Rightarrow> hop option" where
  "make_hop dst did seq path synchronous rows w =
     (let chain = decode path dst;
          caller = (if chain \<noteq> [] \<and> last chain \<in> set (w_marked w) then Some (last chain) else None);
          mk = (\<lambda>src sid entry. \<lparr>h_src = src, h_sid = sid, h_dst = dst, h_did = did, h_seq = seq,
             h_chain = chain @ [(dst, did)], h_entry = entry, h_rows = rows\<rparr>)
      in case caller of
           Some (src, sid) \<Rightarrow> if src = dst then None else Some (mk src sid False)
         | None \<Rightarrow> Some (mk [] [] (\<not> synchronous)))"

definition forward ::
  "bool \<Rightarrow> (string \<times> string) option \<Rightarrow> string \<Rightarrow> string \<Rightarrow> nat \<Rightarrow> string list \<Rightarrow> bool \<Rightarrow> waits \<Rightarrow>
   (cycle + bool) \<times> waits" where
  "forward unchained rows dst did seq path synchronous w =
     (if unchained \<or> w_mark_count w = 0 \<and> \<not> synchronous then (Inr False, w)
      else case make_hop dst did seq path synchronous rows w of
             None \<Rightarrow> (Inr False, w)
           | Some hop \<Rightarrow>
               (case (if h_entry hop then None
                      else cycle_among (map snd (w_hops w)) hop (w_profiles w)) of
                  Some calls \<Rightarrow>
                    (Inl \<lparr>cy_calls = calls, cy_rows = rows_of calls (w_hops w) hop\<rparr>, w)
                | None \<Rightarrow>
                    (Inr True, counted (w\<lparr>w_hops := al_insert (gid hop) hop (w_hops w)\<rparr>))))"

end
