(* ===== verification/Waits_Search.thy ===== *)
theory Waits_Search
  imports Waits
begin

text \<open>
  The search of \<open>cycle_among\<close> finds a cycle through the new call exactly
  when there is one, and what it returns is one.  The contract is the locale
  \<open>wait_search\<close>, a graph whose successors stay within its bound, interpreted
  on the wait graph (\<open>ws\<close>).
\<close>

section \<open>Paths\<close>

fun path_ok :: "(nat \<Rightarrow> nat list) \<Rightarrow> nat list \<Rightarrow> bool" where
  "path_ok succs [] = True"
| "path_ok succs [x] = True"
| "path_ok succs (x # y # r) = (y \<in> set (succs x) \<and> path_ok succs (y # r))"

lemma path_ok_snoc:
  "path_ok succs (p @ [x]) \<Longrightarrow> y \<in> set (succs x) \<Longrightarrow> path_ok succs (p @ [x, y])"
  by (induction succs p rule: path_ok.induct) (auto split: list.splits)

definition cycle_at :: "(nat \<Rightarrow> nat list) \<Rightarrow> nat \<Rightarrow> nat list \<Rightarrow> bool" where
  "cycle_at succs t p \<longleftrightarrow> p \<noteq> [] \<and> hd p = t \<and> path_ok succs p \<and> t \<in> set (succs (last p))"

definition edge_rel :: "(nat \<Rightarrow> nat list) \<Rightarrow> (nat \<times> nat) set" where
  "edge_rel succs = {(h, x). x \<in> set (succs h)}"

lemma path_trancl:
  "path_ok succs p \<Longrightarrow> p \<noteq> [] \<Longrightarrow> (hd p, last p) \<in> (edge_rel succs)\<^sup>*"
proof (induction succs p rule: path_ok.induct)
  case (3 succs x y r)
  then have "(x, y) \<in> edge_rel succs" "(y, last (y # r)) \<in> (edge_rel succs)\<^sup>*"
    by (auto simp: edge_rel_def)
  then show ?case by (simp add: converse_rtrancl_into_rtrancl)
qed auto

lemma cycle_at_trancl: "cycle_at succs t p \<Longrightarrow> (t, t) \<in> (edge_rel succs)\<^sup>+"
  using path_trancl [of succs p]
  by (auto simp: cycle_at_def edge_rel_def intro: rtrancl_into_trancl1)

section \<open>What the search keeps\<close>

text \<open>\<open>order\<close> lists the calls seen, each after the one it was reached from.\<close>

definition reached :: "(nat \<Rightarrow> nat list) \<Rightarrow> nat \<Rightarrow> nat list \<Rightarrow> bool list \<Rightarrow> nat option list \<Rightarrow> bool" where
  "reached succs t order seen from \<longleftrightarrow>
     length from = length seen \<and> distinct order \<and> t \<notin> set order \<and>
     set order = {x. x < length seen \<and> seen ! x} \<and>
     (\<forall>k < length order. \<exists>p. from ! (order ! k) = Some p \<and> order ! k \<in> set (succs p) \<and>
        (p = t \<or> p \<in> set (take k order)))"

definition closed_but :: "(nat \<Rightarrow> nat list) \<Rightarrow> nat \<Rightarrow> nat set \<Rightarrow> nat set \<Rightarrow> bool" where
  "closed_but succs t seen pending \<longleftrightarrow>
     (\<forall>y \<in> insert t seen - pending. \<forall>x \<in> set (succs y). x \<in> seen \<and> x \<noteq> t)"

definition seen_set :: "bool list \<Rightarrow> nat set" where
  "seen_set seen = {x. x < length seen \<and> seen ! x}"

lemma seen_set_update: "x < length seen \<Longrightarrow> seen_set (seen[x := True]) = insert x (seen_set seen)"
  by (auto simp: seen_set_def nth_list_update)

lemma reached_add:
  assumes r: "reached succs t order seen from" and x: "x < length seen" "\<not> seen ! x" "x \<noteq> t"
    and h: "h = t \<or> h \<in> seen_set seen" "x \<in> set (succs h)"
  shows "reached succs t (order @ [x]) (seen[x := True]) (from[x := Some h])"
proof -
  have so: "set order = seen_set seen" using r by (auto simp: reached_def seen_set_def)
  have new: "x \<notin> set order" using x so by (auto simp: seen_set_def)
  have s': "set (order @ [x]) = {y. y < length (seen[x := True]) \<and> seen[x := True] ! y}"
    using so seen_set_update [OF x(1)] by (auto simp: seen_set_def)
  have "\<exists>p. from[x := Some h] ! ((order @ [x]) ! k) = Some p \<and> (order @ [x]) ! k \<in> set (succs p) \<and>
      (p = t \<or> p \<in> set (take k (order @ [x])))" if k: "k < length (order @ [x])" for k
  proof (cases "k < length order")
    case True
    then have "order ! k \<noteq> x" using new nth_mem by metis
    then show ?thesis using r True by (auto simp: reached_def nth_append)
  next
    case False
    then have "k = length order" using k by simp
    then show ?thesis using h so x r by (auto simp: reached_def)
  qed
  then show ?thesis using r new s' x by (auto simp: reached_def)
qed

lemma walk_back_reached:
  assumes r: "reached succs t order seen from"
  shows "k < length order \<Longrightarrow> k < n \<Longrightarrow>
    \<exists>b. walk_back n t from (order ! k) = Some b \<and> path_ok succs (t # rev b) \<and>
      last (t # rev b) = order ! k"
proof (induction k arbitrary: n rule: less_induct)
  case (less k)
  obtain p where p: "from ! (order ! k) = Some p" "order ! k \<in> set (succs p)"
    "p = t \<or> p \<in> set (take k order)"
    using r less.prems by (auto simp: reached_def)
  obtain m where m: "n = Suc m" using less.prems by (cases n) auto
  have kt: "order ! k \<noteq> t" using r less.prems by (auto simp: reached_def)
  show ?case
  proof (cases "p = t")
    case True
    then have "walk_back m t from p = Some []" by (cases m) auto
    then show ?thesis using p kt m True by simp
  next
    case False
    then obtain j where j: "j < k" "order ! j = p"
      using p(3) less.prems by (auto simp: in_set_conv_nth)
    obtain b where b: "walk_back m t from p = Some b" "path_ok succs (t # rev b)"
      "last (t # rev b) = p"
      using less.IH [OF j(1), of m] j less.prems m by auto
    obtain q where q: "t # rev b = q @ [p]" using b(3) by (metis append_butlast_last_id list.distinct(1))
    have e: "t # rev (order ! k # b) = q @ [p, order ! k]"
      using q by (metis append.assoc append_Cons append_Nil rev.simps(2))
    have "path_ok succs (t # rev (order ! k # b))"
      unfolding e by (rule path_ok_snoc) (use b(2) q p(2) in simp_all)
    then show ?thesis using p kt m b(1) by simp
  qed
qed

lemma reached_length:
  assumes "reached succs t order seen from"
  shows "length order \<le> length seen"
proof -
  have "length order = card (set order)" using assms by (metis distinct_card reached_def)
  also have "\<dots> \<le> card {x. x < length seen}"
    using assms by (intro card_mono) (auto simp: reached_def)
  finally show ?thesis by simp
qed

text \<open>The successors of \<open>h\<close>, one after the other.\<close>

lemma scan_None:
  "scan t h xs (stack, seen, from) = None \<Longrightarrow> t \<in> set xs"
  by (induction xs arbitrary: stack seen "from") (auto split: if_splits)

lemma scan_Some:
  assumes "scan t h xs (stack, seen, from) = Some (stack', seen', from')"
    and "reached succs t order seen from" and "h = t \<or> h \<in> seen_set seen"
    and "set xs \<subseteq> set (succs h)" and "\<forall>x \<in> set xs. x < length seen"
    and "\<forall>y \<in> set stack. y = t \<or> y \<in> seen_set seen"
  shows "\<exists>order'. reached succs t order' seen' from' \<and> length seen' = length seen \<and>
    seen_set seen' = seen_set seen \<union> set xs \<and> t \<notin> set xs \<and>
    set stack' = set stack \<union> (seen_set seen' - seen_set seen) \<and>
    (\<forall>y \<in> set stack'. y = t \<or> y \<in> seen_set seen')"
  using assms
proof (induction xs arbitrary: stack seen "from" order)
  case Nil
  then show ?case by auto
next
  case (Cons x xs)
  have xt: "x \<noteq> t" and xl: "x < length seen" using Cons.prems by (auto split: if_splits)
  show ?case
  proof (cases "seen ! x")
    case True
    then have sc: "scan t h xs (stack, seen, from) = Some (stack', seen', from')"
      using Cons.prems(1) xt by simp
    have xs: "x \<in> seen_set seen" using True xl by (simp add: seen_set_def)
    from Cons.IH [OF sc Cons.prems(2,3)] Cons.prems(4-6) xs xt show ?thesis by auto
  next
    case False
    let ?seen = "seen[x := True]" and ?from = "from[x := Some h]"
    have ss: "seen_set ?seen = insert x (seen_set seen)" by (rule seen_set_update [OF xl])
    have sc: "scan t h xs (x # stack, ?seen, ?from) = Some (stack', seen', from')"
      using Cons.prems(1) xt xl False by simp
    have r: "reached succs t (order @ [x]) ?seen ?from"
      by (rule reached_add [OF Cons.prems(2) xl False xt Cons.prems(3)]) (use Cons.prems(4) in simp)
    have h: "h = t \<or> h \<in> seen_set ?seen" using Cons.prems(3) ss by auto
    have nx: "x \<notin> seen_set seen" using False by (simp add: seen_set_def)
    have st: "\<forall>y \<in> set (x # stack). y = t \<or> y \<in> seen_set ?seen" using Cons.prems(6) ss by auto
    obtain order' where "reached succs t order' seen' from'" "length seen' = length ?seen"
      "seen_set seen' = seen_set ?seen \<union> set xs" "t \<notin> set xs"
      "set stack' = set (x # stack) \<union> (seen_set seen' - seen_set ?seen)"
      "\<forall>y \<in> set stack'. y = t \<or> y \<in> seen_set seen'"
      using Cons.IH [OF sc r h _ _ st] Cons.prems(4,5) by auto
    then show ?thesis using ss xt nx by (intro exI [of _ order']) auto
  qed
qed

lemma dfs_invariant:
  assumes "dfs t succs (stack, seen, from) = res"
    and "reached succs t order seen from"
    and "\<forall>y \<in> set stack. y = t \<or> y \<in> seen_set seen"
    and "closed_but succs t (seen_set seen) (set stack)"
    and "\<And>h x. x \<in> set (succs h) \<Longrightarrow> x < length seen"
  shows "case res of
      None \<Rightarrow> \<exists>S. closed_but succs t S {}
    | Some (h, from') \<Rightarrow> t \<in> set (succs h) \<and>
        (\<exists>order' seen'. reached succs t order' seen' from' \<and> length seen' = length seen \<and>
           (h = t \<or> h \<in> set order'))"
  using assms
proof (induction "2 * unseen seen + length stack" arbitrary: stack seen "from" order rule: less_induct)
  case less
  show ?case
  proof (cases stack)
    case Nil
    then show ?thesis using less.prems(1,4) by auto
  next
    case (Cons h rest)
    have h: "h = t \<or> h \<in> seen_set seen" using less.prems(3) Cons by simp
    show ?thesis
    proof (cases "scan t h (succs h) (rest, seen, from)")
      case None
      then have "t \<in> set (succs h)" by (rule scan_None)
      moreover have "set order = seen_set seen"
        using less.prems(2) by (auto simp: reached_def seen_set_def)
      moreover have "res = Some (h, from)" using less.prems(1) None Cons by simp
      ultimately show ?thesis using less.prems(2) h by auto
    next
      case (Some st)
      obtain stack' seen' from' where st: "st = (stack', seen', from')" by (cases st) auto
      have rest: "\<forall>y \<in> set rest. y = t \<or> y \<in> seen_set seen" using less.prems(3) Cons by simp
      have bound: "\<forall>x \<in> set (succs h). x < length seen" using less.prems(5) by blast
      obtain order' where o: "reached succs t order' seen' from'" "length seen' = length seen"
        "seen_set seen' = seen_set seen \<union> set (succs h)" "t \<notin> set (succs h)"
        "set stack' = set rest \<union> (seen_set seen' - seen_set seen)"
        "\<forall>y \<in> set stack'. y = t \<or> y \<in> seen_set seen'"
        using scan_Some [OF Some [unfolded st] less.prems(2) h subset_refl bound rest] by blast
      have c: "closed_but succs t (seen_set seen') (set stack')"
        unfolding closed_but_def
      proof (intro ballI)
        fix y x
        assume y: "y \<in> insert t (seen_set seen') - set stack'" and x: "x \<in> set (succs y)"
        show "x \<in> seen_set seen' \<and> x \<noteq> t"
        proof (cases "y = h")
          case True
          then show ?thesis using x o(3,4) by blast
        next
          case False
          then have "y \<in> insert t (seen_set seen) - set stack" using y o(5) Cons by auto
          then show ?thesis using less.prems(4) x o(3) unfolding closed_but_def by blast
        qed
      qed
      have d: "dfs t succs (stack', seen', from') = res"
        using less.prems(1) Some st Cons by simp
      have m: "2 * unseen seen' + length stack' < 2 * unseen seen + length stack"
        using scan_measure [OF Some [unfolded st]] Cons by simp
      have b: "x < length seen'" if "x \<in> set (succs h)" for h x
        using less.prems(5) [OF that] o(2) by simp
      have "case res of
          None \<Rightarrow> \<exists>S. closed_but succs t S {}
        | Some (h, from') \<Rightarrow> t \<in> set (succs h) \<and>
            (\<exists>order' seen''. reached succs t order' seen'' from' \<and> length seen'' = length seen' \<and>
               (h = t \<or> h \<in> set order'))"
        by (rule less.hyps [OF m d o(1,6) c]) (rule b)
      then show ?thesis unfolding o(2) .
    qed
  qed
qed

section \<open>The contract\<close>

text \<open>A graph \<open>g\<close> with its successors, the number of its calls, and the call searched for.\<close>

locale wait_search =
  fixes succs :: "'g \<Rightarrow> nat \<Rightarrow> nat list"
    and size_of :: "'g \<Rightarrow> nat"
    and target :: "'g \<Rightarrow> nat"
  assumes succs_bound: "x \<in> set (succs g h) \<Longrightarrow> x < size_of g"
begin

definition found :: "'g \<Rightarrow> nat list option" where
  "found g = search_from (size_of g) (target g) (succs g)"

lemma start_reached:
  "reached (succs g) (target g) [] (replicate (size_of g) False) (replicate (size_of g) None)"
  by (auto simp: reached_def)

lemma dfs_start:
  "case dfs (target g) (succs g) ([target g], replicate (size_of g) False, replicate (size_of g) None) of
      None \<Rightarrow> \<exists>S. closed_but (succs g) (target g) S {}
    | Some (h, from') \<Rightarrow> target g \<in> set (succs g h) \<and>
        (\<exists>order' seen'. reached (succs g) (target g) order' seen' from' \<and>
           length seen' = size_of g \<and> (h = target g \<or> h \<in> set order'))"
proof -
  have c: "closed_but (succs g) (target g) (seen_set (replicate (size_of g) False)) (set [target g])"
    by (auto simp: closed_but_def seen_set_def)
  have st: "\<forall>y \<in> set [target g]. y = target g \<or> y \<in> seen_set (replicate (size_of g) False)"
    by simp
  show ?thesis
    by (rule dfs_invariant [OF refl start_reached st c, unfolded length_replicate]) (rule succs_bound)
qed

text \<open>What is returned is a cycle through the target.\<close>

lemma found_sound: "found g = Some p \<Longrightarrow> cycle_at (succs g) (target g) p"
proof -
  assume f: "found g = Some p"
  then obtain h fr where d: "dfs (target g) (succs g)
      ([target g], replicate (size_of g) False, replicate (size_of g) None) = Some (h, fr)"
    by (auto simp: found_def search_from_def split: option.splits)
  obtain order' seen' where h: "target g \<in> set (succs g h)"
    and r: "reached (succs g) (target g) order' seen' fr" and l: "length seen' = size_of g"
    and m: "h = target g \<or> h \<in> set order'"
    using dfs_start [of g] d by auto
  obtain b where b: "walk_back (size_of g) (target g) fr h = Some b" and p: "p = target g # rev b"
    using f d by (auto simp: found_def search_from_def)
  have "path_ok (succs g) p \<and> last p = h"
  proof (cases "h = target g")
    case True
    then have "b = []" using b by (cases "size_of g") auto
    then show ?thesis using p True by simp
  next
    case False
    then obtain k where k: "k < length order'" "order' ! k = h" using m by (auto simp: in_set_conv_nth)
    have "k < size_of g" using reached_length [OF r] k l by simp
    then show ?thesis using walk_back_reached [OF r k(1), of "size_of g"] k b p by auto
  qed
  then show ?thesis using p h by (auto simp: cycle_at_def)
qed

text \<open>Nothing is returned only when the target is on no cycle.\<close>

lemma found_complete: "found g = None \<Longrightarrow> (target g, target g) \<notin> (edge_rel (succs g))\<^sup>+"
proof
  assume f: "found g = None" and c: "(target g, target g) \<in> (edge_rel (succs g))\<^sup>+"
  have "dfs (target g) (succs g)
      ([target g], replicate (size_of g) False, replicate (size_of g) None) = None"
  proof (rule ccontr)
    assume "dfs (target g) (succs g)
      ([target g], replicate (size_of g) False, replicate (size_of g) None) \<noteq> None"
    then obtain h fr where d: "dfs (target g) (succs g)
      ([target g], replicate (size_of g) False, replicate (size_of g) None) = Some (h, fr)" by auto
    obtain order' seen' where r: "reached (succs g) (target g) order' seen' fr"
      and l: "length seen' = size_of g" and m: "h = target g \<or> h \<in> set order'"
      using dfs_start [of g] d by auto
    have "walk_back (size_of g) (target g) fr h \<noteq> None"
    proof (cases "h = target g")
      case True
      then show ?thesis by (cases "size_of g") auto
    next
      case False
      then obtain k where k: "k < length order'" "order' ! k = h"
        using m by (auto simp: in_set_conv_nth)
      have "k < size_of g" using reached_length [OF r] k l by simp
      then show ?thesis using walk_back_reached [OF r k(1), of "size_of g"] k by auto
    qed
    then show False using f d by (auto simp: found_def search_from_def)
  qed
  then obtain S where S: "closed_but (succs g) (target g) S {}" using dfs_start [of g] by auto
  have "x \<in> S \<and> x \<noteq> target g" if "(target g, x) \<in> (edge_rel (succs g))\<^sup>+" for x
    using that
    by (induction rule: trancl_induct) (use S in \<open>auto simp: closed_but_def edge_rel_def\<close>)
  then show False using c by blast
qed

end

section \<open>The wait graph is such a graph\<close>

lemma index_of_bound: "index_of all g = Some i \<Longrightarrow> i < length all"
  by (auto simp: index_of_def dest!: map_of_SomeD set_zip_rightD)

lemma chain_up_bound: "e \<in> set (chain_up all d gs) \<Longrightarrow> snd e = d \<and> fst e < length all"
  by (induction gs) (auto split: option.splits if_splits dest: index_of_bound index_of_bound [OF sym])

lemma calls_into_bound: "i \<in> set (calls_into all y) \<Longrightarrow> i < length all \<and> h_dst (all ! i) = y"
  by (auto simp: calls_into_def)

lemma hops_out_bound: "i \<in> set (hops_out all y) \<Longrightarrow> i < length all"
  by (auto simp: hops_out_def)

lemma stack_down_bound:
  "e \<in> set (stack_down all nxt cs) \<Longrightarrow> (\<forall>c \<in> set cs. c < length all) \<Longrightarrow>
   (\<forall>d. nxt = Some d \<longrightarrow> d < length all) \<Longrightarrow> fst e < length all \<and> snd e < length all"
  by (induction cs arbitrary: nxt) (auto split: option.splits if_splits)

lemma stack_into_bound:
  "e \<in> set (stack_down all None (rev (calls_into all y))) \<Longrightarrow> fst e < length all \<and> snd e < length all"
  by (rule stack_down_bound) (auto dest: calls_into_bound)

lemma wait_edges_bound: "e \<in> set (wait_edges all ps) \<Longrightarrow> fst e < length all \<and> snd e < length all"
  by (auto simp: wait_edges_def chain_edges_def runtime_edges_def put_aside_edges_def Let_def
      dest: chain_up_bound calls_into_bound hops_out_bound stack_into_bound split: if_splits)

type_synonym wait_graph = "hop list \<times> (string \<times> profile) list"

definition graph_succs :: "wait_graph \<Rightarrow> nat \<Rightarrow> nat list" where
  "graph_succs g = successors (fst g) (snd g)"

definition graph_size :: "wait_graph \<Rightarrow> nat" where
  "graph_size g = length (fst g)"

definition graph_target :: "wait_graph \<Rightarrow> nat" where
  "graph_target g = length (fst g) - 1"

interpretation ws: wait_search graph_succs graph_size graph_target
  by unfold_locales
    (auto simp: graph_succs_def graph_size_def successors_def dest!: wait_edges_bound)

end
