(* ===== verification/Waits_Properties.thy ===== *)
theory Waits_Properties
  imports Waits_Search
begin

text \<open>
  What the wait table promises: the graph that is searched waits for the same
  calls as the relation the module documents, a forward is refused exactly
  when it would close a cycle of it, and the table keeps its counters.
\<close>

section \<open>The documented relation\<close>

text \<open>Chain: \<open>d\<close> was made under \<open>c\<close>, with no entry between them.\<close>

definition made_under :: "hop list \<Rightarrow> nat \<Rightarrow> nat \<Rightarrow> bool" where
  "made_under all c d \<longleftrightarrow> d < length all \<and> \<not> h_entry (all ! d) \<and>
     (\<exists>before g between. butlast (h_chain (all ! d)) = before @ g # between \<and>
        index_of all g = Some c \<and> (\<forall>b \<in> set between. \<not> is_entry all b))"

text \<open>Put aside: \<open>c\<close> has not started in a runtime that has calls out, none on its chain.\<close>

definition put_aside :: "hop list \<Rightarrow> (string \<times> profile) list \<Rightarrow> nat \<Rightarrow> nat \<Rightarrow> bool" where
  "put_aside all ps c d \<longleftrightarrow> (let y = h_dst (all ! c) in
     c < length all \<and> \<not> h_entry (all ! c) \<and>
     pr_stacked (profile_of ps y) \<and> \<not> pr_reentrant (profile_of ps y) \<and>
     \<not> started all c \<and> \<not> related all y c \<and> d \<in> set (hops_out all y) \<and> d \<noteq> c)"

text \<open>Stack order: \<open>c\<close> and then \<open>d\<close> entered a runtime with one stack, and \<open>d\<close> started there.\<close>

definition stacked_before :: "hop list \<Rightarrow> (string \<times> profile) list \<Rightarrow> nat \<Rightarrow> nat \<Rightarrow> bool" where
  "stacked_before all ps c d \<longleftrightarrow>
     (\<exists>y xs ys. y \<in> h_dst ` set all \<and> pr_stacked (profile_of ps y) \<and>
        rev (calls_into all y) = xs @ c # ys \<and> d \<in> set xs \<and> started all d)"

definition waits_for :: "hop list \<Rightarrow> (string \<times> profile) list \<Rightarrow> (nat \<times> nat) set" where
  "waits_for all ps = {(c, d). made_under all c d \<or> put_aside all ps c d \<or> stacked_before all ps c d}"

section \<open>The graph that is searched has the same closure\<close>

lemma chain_up_iff:
  "(c, d') \<in> set (chain_up all d gs) \<longleftrightarrow> d' = d \<and>
     (\<exists>between g rest. gs = between @ g # rest \<and> index_of all g = Some c \<and>
        (\<forall>b \<in> set between. \<not> is_entry all b))"
proof (induction gs)
  case (Cons a gs)
  show ?case
  proof
    assume l: "(c, d') \<in> set (chain_up all d (a # gs))"
    show "d' = d \<and> (\<exists>between g rest. a # gs = between @ g # rest \<and> index_of all g = Some c \<and>
        (\<forall>b \<in> set between. \<not> is_entry all b))"
    proof (cases "index_of all a = Some c \<and> d' = d")
      case True
      then show ?thesis by (intro conjI exI [of _ "[]"] exI [of _ a] exI [of _ gs]) auto
    next
      case False
      then have "\<not> is_entry all a" "(c, d') \<in> set (chain_up all d gs)"
        using l by (auto split: option.splits if_splits)
      then obtain between g rest where "d' = d" "gs = between @ g # rest" "index_of all g = Some c"
        "\<forall>b \<in> set between. \<not> is_entry all b" using Cons.IH by blast
      then show ?thesis using \<open>\<not> is_entry all a\<close>
        by (intro conjI exI [of _ "a # between"] exI [of _ g] exI [of _ rest]) auto
    qed
  next
    assume "d' = d \<and> (\<exists>between g rest. a # gs = between @ g # rest \<and> index_of all g = Some c \<and>
        (\<forall>b \<in> set between. \<not> is_entry all b))"
    then obtain between g rest where r: "d' = d" "a # gs = between @ g # rest"
      "index_of all g = Some c" "\<forall>b \<in> set between. \<not> is_entry all b" by blast
    show "(c, d') \<in> set (chain_up all d (a # gs))"
    proof (cases between)
      case Nil
      then show ?thesis using r by auto
    next
      case between: (Cons b bs)
      then have "gs = bs @ g # rest" "\<forall>x \<in> set bs. \<not> is_entry all x" "a = b" using r by auto
      then have "(c, d') \<in> set (chain_up all d gs)" using Cons.IH r by blast
      then show ?thesis using between r by auto
    qed
  qed
qed simp

lemma chain_edges_iff: "(c, d) \<in> set (chain_edges all) \<longleftrightarrow> made_under all c d"
proof
  assume "(c, d) \<in> set (chain_edges all)"
  then have d: "d < length all" "\<not> h_entry (all ! d)"
    and "(c, d) \<in> set (chain_up all d (rev (butlast (h_chain (all ! d)))))"
    by (auto simp: chain_edges_def chain_up_iff split: if_splits)
  then obtain between g rest where r: "rev (butlast (h_chain (all ! d))) = between @ g # rest"
    "index_of all g = Some c" "\<forall>b \<in> set between. \<not> is_entry all b"
    by (auto simp: chain_up_iff)
  have "butlast (h_chain (all ! d)) = rev rest @ g # rev between"
    using r(1) by (metis rev_append rev_rev_ident rev.simps(2) append.assoc append_Cons append_Nil)
  then show "made_under all c d"
    unfolding made_under_def using d r
    by (intro conjI exI [of _ "rev rest"] exI [of _ g] exI [of _ "rev between"]) auto
next
  assume "made_under all c d"
  then obtain before g between where m: "d < length all" "\<not> h_entry (all ! d)"
    "butlast (h_chain (all ! d)) = before @ g # between" "index_of all g = Some c"
    "\<forall>b \<in> set between. \<not> is_entry all b" by (auto simp: made_under_def)
  have "(c, d) \<in> set (chain_up all d (rev (butlast (h_chain (all ! d)))))"
    unfolding chain_up_iff using m
    by (intro conjI exI [of _ "rev between"] exI [of _ g] exI [of _ "rev before"]) auto
  then show "(c, d) \<in> set (chain_edges all)"
    unfolding chain_edges_def using m(1,2) by (auto intro!: bexI [of _ d])
qed

lemma put_aside_iff:
  "(\<exists>y \<in> h_dst ` set all. pr_stacked (profile_of ps y) \<and> \<not> pr_reentrant (profile_of ps y) \<and>
      (c, d) \<in> set (put_aside_edges all y)) \<longleftrightarrow> put_aside all ps c d"
proof
  assume "put_aside all ps c d"
  then have p: "c < length all" "\<not> h_entry (all ! c)" "pr_stacked (profile_of ps (h_dst (all ! c)))"
    "\<not> pr_reentrant (profile_of ps (h_dst (all ! c)))" "\<not> started all c"
    "\<not> related all (h_dst (all ! c)) c" "d \<in> set (hops_out all (h_dst (all ! c)))" "d \<noteq> c"
    by (auto simp: put_aside_def Let_def)
  have "c \<in> set (calls_into all (h_dst (all ! c)))" using p(1) by (simp add: calls_into_def)
  then have "(c, d) \<in> set (put_aside_edges all (h_dst (all ! c)))"
    using p by (auto simp: put_aside_edges_def)
  moreover have "h_dst (all ! c) \<in> h_dst ` set all" using p(1) by simp
  ultimately show "\<exists>y \<in> h_dst ` set all. pr_stacked (profile_of ps y) \<and>
      \<not> pr_reentrant (profile_of ps y) \<and> (c, d) \<in> set (put_aside_edges all y)"
    using p by blast
qed (auto simp: put_aside_edges_def put_aside_def Let_def calls_into_def split: if_splits)

text \<open>All the pairs of a stack, and those of the walk down it.\<close>

definition pairs_down :: "hop list \<Rightarrow> nat option \<Rightarrow> nat list \<Rightarrow> (nat \<times> nat) set" where
  "pairs_down all nxt cs = {(c, d). nxt = Some d \<and> c \<in> set cs} \<union>
     {(c, d). \<exists>xs ys. cs = xs @ c # ys \<and> d \<in> set xs \<and> started all d}"

lemma pairs_down_Cons:
  "pairs_down all nxt (c # cs) = {(c, d) | d. nxt = Some d} \<union> {(x, d). nxt = Some d \<and> x \<in> set cs} \<union>
     {(x, c) | x. x \<in> set cs \<and> started all c} \<union> pairs_down all None cs"
proof -
  have "(\<exists>xs ys. c # cs = xs @ x # ys \<and> d \<in> set xs \<and> started all d) \<longleftrightarrow>
      d = c \<and> x \<in> set cs \<and> started all c \<or>
      (\<exists>xs ys. cs = xs @ x # ys \<and> d \<in> set xs \<and> started all d)" (is "?l \<longleftrightarrow> ?r") for x d
  proof
    assume ?l
    then obtain xs ys where l: "c # cs = xs @ x # ys" "d \<in> set xs" "started all d" by blast
    then obtain xs' where "xs = c # xs'" "cs = xs' @ x # ys" by (cases xs) auto
    then show ?r using l by auto
  next
    assume ?r
    then show ?l
    proof
      assume a: "d = c \<and> x \<in> set cs \<and> started all c"
      then obtain xs ys where "cs = xs @ x # ys" by (meson split_list)
      then show ?l using a by (intro exI [of _ "c # xs"] exI [of _ ys]) auto
    next
      assume "\<exists>xs ys. cs = xs @ x # ys \<and> d \<in> set xs \<and> started all d"
      then obtain xs ys where "cs = xs @ x # ys" "d \<in> set xs" "started all d" by blast
      then show ?l by (intro exI [of _ "c # xs"] exI [of _ ys]) auto
    qed
  qed
  then show ?thesis unfolding pairs_down_def by auto
qed

lemma pairs_down_some:
  "pairs_down all (Some d) cs = {(x, d) | x. x \<in> set cs} \<union> pairs_down all None cs"
  by (auto simp: pairs_down_def)

lemma stack_down_sound: "set (stack_down all nxt cs) \<subseteq> pairs_down all nxt cs"
proof (induction cs arbitrary: nxt)
  case (Cons c cs)
  have "set (stack_down all (if started all c then Some c else nxt) cs)
      \<subseteq> pairs_down all (if started all c then Some c else nxt) cs" by (rule Cons.IH)
  also have "\<dots> \<subseteq> pairs_down all nxt (c # cs)"
    by (cases nxt) (auto simp: pairs_down_Cons pairs_down_some)
  finally show ?case by (auto simp: pairs_down_Cons split: option.splits)
qed simp

lemma stack_down_complete: "pairs_down all nxt cs \<subseteq> (set (stack_down all nxt cs))\<^sup>+"
proof (induction cs arbitrary: nxt)
  case Nil
  then show ?case by (auto simp: pairs_down_def)
next
  case (Cons c cs)
  let ?n = "if started all c then Some c else nxt"
  let ?S = "set (stack_down all nxt (c # cs))"
  have sub: "set (stack_down all ?n cs) \<subseteq> ?S" by auto
  have IH: "pairs_down all ?n cs \<subseteq> ?S\<^sup>+"
    using Cons.IH [of ?n] trancl_mono [OF _ sub] by blast
  have first: "(c, d) \<in> ?S\<^sup>+" if "nxt = Some d" for d using that by auto
  have none: "pairs_down all None cs \<subseteq> ?S\<^sup>+" using IH by (cases ?n) (auto simp: pairs_down_some)
  have mine: "(x, c) \<in> ?S\<^sup>+" if "x \<in> set cs" "started all c" for x
    using IH that by (auto simp: pairs_down_some)
  have far: "(x, d) \<in> ?S\<^sup>+" if "nxt = Some d" "x \<in> set cs" for x d
  proof (cases "started all c")
    case True
    then show ?thesis using mine [OF that(2)] first [OF that(1)] by (meson trancl_trans)
  next
    case False
    then show ?thesis using IH that by (auto simp: pairs_down_some)
  qed
  show ?case unfolding pairs_down_Cons using none mine far first by auto
qed

lemma stacked_before_iff:
  "stacked_before all ps c d \<longleftrightarrow>
     (\<exists>y \<in> h_dst ` set all. pr_stacked (profile_of ps y) \<and>
        (c, d) \<in> pairs_down all None (rev (calls_into all y)))"
  by (auto simp: stacked_before_def pairs_down_def)

lemma wait_edges_set:
  "set (wait_edges all ps) = set (chain_edges all) \<union>
     {(c, d). \<exists>y \<in> h_dst ` set all. pr_stacked (profile_of ps y) \<and> \<not> pr_reentrant (profile_of ps y) \<and>
        (c, d) \<in> set (put_aside_edges all y)} \<union>
     {(c, d). \<exists>y \<in> h_dst ` set all. pr_stacked (profile_of ps y) \<and>
        (c, d) \<in> set (stack_down all None (rev (calls_into all y)))}"
  by (auto simp: wait_edges_def runtime_edges_def Let_def split: if_splits)

lemma wait_edges_closure: "(set (wait_edges all ps))\<^sup>+ = (waits_for all ps)\<^sup>+"
proof
  have "set (wait_edges all ps) \<subseteq> waits_for all ps"
    unfolding wait_edges_set waits_for_def chain_edges_iff stacked_before_iff
    using put_aside_iff [of all ps] stack_down_sound by (auto simp: chain_edges_iff) blast+
  then show "(set (wait_edges all ps))\<^sup>+ \<subseteq> (waits_for all ps)\<^sup>+"
    using trancl_mono by blast
  have "(c, d) \<in> (set (wait_edges all ps))\<^sup>+" if w: "(c, d) \<in> waits_for all ps" for c d
  proof -
    consider "made_under all c d" | "put_aside all ps c d" | "stacked_before all ps c d"
      using w by (auto simp: waits_for_def)
    then show ?thesis
    proof cases
      case 1
      then show ?thesis by (intro r_into_trancl) (simp add: wait_edges_set chain_edges_iff)
    next
      case 2
      then show ?thesis using put_aside_iff [of all ps c d]
        by (intro r_into_trancl) (auto simp: wait_edges_set)
    next
      case 3
      then obtain y where y: "y \<in> h_dst ` set all" "pr_stacked (profile_of ps y)"
        "(c, d) \<in> (set (stack_down all None (rev (calls_into all y))))\<^sup>+"
        using stack_down_complete by (auto simp: stacked_before_iff) blast
      have "set (stack_down all None (rev (calls_into all y))) \<subseteq> set (wait_edges all ps)"
        using y(1,2) by (auto simp: wait_edges_set)
      then show ?thesis using y(3) trancl_mono by blast
    qed
  qed
  then have sub: "waits_for all ps \<subseteq> (set (wait_edges all ps))\<^sup>+" by auto
  show "(waits_for all ps)\<^sup>+ \<subseteq> (set (wait_edges all ps))\<^sup>+"
  proof (rule subrelI)
    fix c d assume "(c, d) \<in> (waits_for all ps)\<^sup>+"
    then show "(c, d) \<in> (set (wait_edges all ps))\<^sup>+"
      by (induction rule: trancl_induct) (use sub in \<open>auto intro: trancl_trans\<close>)
  qed
qed

section \<open>Forwards\<close>

lemma edge_rel_graph: "edge_rel (graph_succs (all, ps)) = set (wait_edges all ps)"
  by (auto simp: edge_rel_def graph_succs_def successors_def image_iff)

lemma cycle_among_found:
  "cycle_among hops new ps = map_option (map (\<lambda>i. hop_name (in_order hops new ! i)))
     (ws.found (in_order hops new, ps))"
  by (simp add: cycle_among_def ws.found_def graph_size_def graph_target_def graph_succs_def Let_def)

text \<open>The number of the new call.\<close>

definition new_call :: "hop list \<Rightarrow> hop \<Rightarrow> nat" where
  "new_call hops new = length hops"

lemma graph_target_new: "graph_target (in_order hops new, ps) = new_call hops new"
  by (simp add: graph_target_def in_order_def new_call_def)

lemma cycle_none:
  "cycle_among hops new ps = None \<longleftrightarrow>
     (new_call hops new, new_call hops new) \<notin> (waits_for (in_order hops new) ps)\<^sup>+"
proof -
  let ?g = "(in_order hops new, ps)"
  have closure: "(edge_rel (graph_succs ?g))\<^sup>+ = (waits_for (in_order hops new) ps)\<^sup>+"
    by (simp only: edge_rel_graph wait_edges_closure)
  show ?thesis
  proof (cases "ws.found ?g")
    case None
    then show ?thesis
      using ws.found_complete [OF None] closure graph_target_new by (simp add: cycle_among_found)
  next
    case (Some p)
    then show ?thesis
      using cycle_at_trancl [OF ws.found_sound [OF Some]] closure graph_target_new
      by (simp add: cycle_among_found)
  qed
qed

text \<open>
  C12. The cycle check is exact: among the calls in progress and the new one,
  a cycle is reported exactly when, in the documented relation (made under,
  put aside by a non-reentrant runtime, entered a stack before a call that
  started there), the new call would wait for itself; and the calls reported
  are then the names of a cycle of that graph that starts at the new call.
\<close>

theorem cycle_check_is_exact:
  "(cycle_among hops new ps = None \<longleftrightarrow>
      (new_call hops new, new_call hops new) \<notin> (waits_for (in_order hops new) ps)\<^sup>+) \<and>
   (\<forall>calls. cycle_among hops new ps = Some calls \<longrightarrow>
      (\<exists>p. cycle_at (successors (in_order hops new) ps) (new_call hops new) p \<and>
         calls = map (\<lambda>i. hop_name (in_order hops new ! i)) p \<and> hd calls = hop_name new))"
proof -
  let ?g = "(in_order hops new, ps)"
  have succs: "graph_succs ?g = successors (in_order hops new) ps" by (simp add: graph_succs_def)
  have sound: "cycle_at (successors (in_order hops new) ps) (new_call hops new) p"
    if "ws.found ?g = Some p" for p
    using ws.found_sound [OF that] succs graph_target_new by simp
  have "\<exists>p. cycle_at (successors (in_order hops new) ps) (new_call hops new) p \<and>
      calls = map (\<lambda>i. hop_name (in_order hops new ! i)) p \<and> hd calls = hop_name new"
    if f: "cycle_among hops new ps = Some calls" for calls
  proof -
    obtain p where p: "ws.found ?g = Some p" "calls = map (\<lambda>i. hop_name (in_order hops new ! i)) p"
      using f unfolding cycle_among_found by auto
    have c: "cycle_at (successors (in_order hops new) ps) (new_call hops new) p"
      by (rule sound [OF p(1)])
    have "in_order hops new ! new_call hops new = new"
      by (simp add: in_order_def new_call_def nth_append)
    then have "hd calls = hop_name new" using c p(2) by (simp add: cycle_at_def hd_map)
    then show ?thesis using c p(2) by blast
  qed
  then show ?thesis using cycle_none by blast
qed

lemma forward_skips:
  "unchained \<or> w_mark_count w = 0 \<and> \<not> synchronous \<or>
     make_hop dst did seq path synchronous rows w = None \<Longrightarrow>
   forward unchained rows dst did seq path synchronous w = (Inr False, w)"
  by (auto simp: forward_def)

lemma forward_records:
  assumes "\<not> (unchained \<or> w_mark_count w = 0 \<and> \<not> synchronous)"
    and "make_hop dst did seq path synchronous rows w = Some h"
    and "(if h_entry h then None else cycle_among (map snd (w_hops w)) h (w_profiles w)) = None"
  shows "forward unchained rows dst did seq path synchronous w =
    (Inr True, counted (w\<lparr>w_hops := al_insert (gid h) h (w_hops w)\<rparr>))"
  unfolding forward_def assms(2) option.case if_not_P [OF assms(1)] assms(3) ..

lemma forward_refuses:
  assumes "\<not> (unchained \<or> w_mark_count w = 0 \<and> \<not> synchronous)"
    and "make_hop dst did seq path synchronous rows w = Some h"
    and "(if h_entry h then None else cycle_among (map snd (w_hops w)) h (w_profiles w)) = Some c"
  shows "forward unchained rows dst did seq path synchronous w =
    (Inl \<lparr>cy_calls = c, cy_rows = rows_of c (w_hops w) h\<rparr>, w)"
  unfolding forward_def assms(2) option.case if_not_P [OF assms(1)] assms(3) ..

text \<open>
  The host calls \<open>a\<close>, which calls back; the host calls \<open>b\<close> for it, which
  calls back; the host's next call into \<open>a\<close>, which runs one call at a time,
  would wait for itself.
\<close>

definition one_stack :: profile where
  "one_stack = \<lparr>pr_stacked = True, pr_reentrant = False\<rparr>"

definition no_waits :: waits where
  "no_waits = \<lparr>w_hops = [], w_marked = [], w_profiles = [], w_hop_count = 0, w_mark_count = 0\<rparr>"

definition call_a :: hop where
  "call_a = \<lparr>h_src = [], h_sid = [], h_dst = ''a'', h_did = ''rust:1'', h_seq = 1,
     h_chain = [(''a'', ''rust:1'')], h_entry = False, h_rows = None\<rparr>"

definition call_b :: hop where
  "call_b = \<lparr>h_src = ''a'', h_sid = ''node:1'', h_dst = ''b'', h_did = ''rust:2'', h_seq = 2,
     h_chain = [(''a'', ''node:1''), (''b'', ''rust:2'')], h_entry = False, h_rows = None\<rparr>"

definition call_again :: hop where
  "call_again = \<lparr>h_src = ''b'', h_sid = ''node:2'', h_dst = ''a'', h_did = ''rust:3'', h_seq = 3,
     h_chain = [(''b'', ''node:2''), (''a'', ''rust:3'')], h_entry = False, h_rows = None\<rparr>"

definition one_runtime :: waits where
  "one_runtime = \<lparr>w_hops = [((''a'', ''rust:1''), call_a)], w_marked = [(''a'', ''node:1'')],
     w_profiles = [(''a'', one_stack), (''b'', one_stack)], w_hop_count = 1, w_mark_count = 1\<rparr>"

definition two_runtimes :: waits where
  "two_runtimes = \<lparr>w_hops = [((''a'', ''rust:1''), call_a), ((''b'', ''rust:2''), call_b)],
     w_marked = [(''b'', ''node:2''), (''a'', ''node:1'')],
     w_profiles = [(''a'', one_stack), (''b'', one_stack)], w_hop_count = 2, w_mark_count = 2\<rparr>"

lemma one_runtime_made:
  "marked ''a'' ''node:1'' (snd (forward False None ''a'' ''rust:1'' 1 [] True
     (set_profile ''b'' one_stack (set_profile ''a'' one_stack no_waits)))) = one_runtime"
  by code_simp

lemma call_b_made:
  "make_hop ''b'' ''rust:2'' 2 [''a/node:1''] True None one_runtime = Some call_b"
  by code_simp

lemma call_b_free: "cycle_among (map snd (w_hops one_runtime)) call_b (w_profiles one_runtime) = None"
  by code_simp

lemma two_runtimes_made:
  "marked ''b'' ''node:2'' (snd (forward False None ''b'' ''rust:2'' 2 [''a/node:1''] True one_runtime)) =
     two_runtimes"
proof -
  have "w_mark_count one_runtime = 1" "\<not> h_entry call_b"
    by (simp_all add: one_runtime_def call_b_def)
  then have f: "forward False None ''b'' ''rust:2'' 2 [''a/node:1''] True one_runtime =
      (Inr True, counted (one_runtime\<lparr>w_hops := al_insert (gid call_b) call_b (w_hops one_runtime)\<rparr>))"
    using forward_records [OF _ call_b_made] call_b_free by simp
  have "al_insert (gid call_b) call_b (w_hops one_runtime) = w_hops two_runtimes" by code_simp
  then show ?thesis
    unfolding f by (simp add: marked_def counted_def one_runtime_def two_runtimes_def)
qed

lemma call_again_made:
  "make_hop ''a'' ''rust:3'' 3 [''b/node:2''] True None two_runtimes = Some call_again"
  by code_simp

lemma call_again_cycle:
  "cycle_among (map snd (w_hops two_runtimes)) call_again (w_profiles two_runtimes) =
     Some [''a/rust:3'', ''b/rust:2'']"
  by code_simp

lemma call_again_rows:
  "rows_of [''a/rust:3'', ''b/rust:2''] (w_hops two_runtimes) call_again = None"
  by code_simp

lemma two_runtimes_refuses:
  "forward False None ''a'' ''rust:3'' 3 [''b/node:2''] True two_runtimes =
     (Inl \<lparr>cy_calls = [''a/rust:3'', ''b/rust:2''], cy_rows = None\<rparr>, two_runtimes)"
proof -
  have "w_mark_count two_runtimes = 2" "\<not> h_entry call_again"
    by (simp_all add: two_runtimes_def call_again_def)
  then show ?thesis
    using forward_refuses [OF _ call_again_made] call_again_cycle call_again_rows by simp
qed

theorem cycle_check_is_exact_witness:
  "\<exists>p. cycle_at (successors (in_order (map snd (w_hops two_runtimes)) call_again)
       (w_profiles two_runtimes)) (new_call (map snd (w_hops two_runtimes)) call_again) p \<and> length p = 2"
proof -
  obtain p where p: "cycle_at (successors (in_order (map snd (w_hops two_runtimes)) call_again)
       (w_profiles two_runtimes)) (new_call (map snd (w_hops two_runtimes)) call_again) p"
    "[''a/rust:3'', ''b/rust:2''] =
       map (\<lambda>i. hop_name (in_order (map snd (w_hops two_runtimes)) call_again ! i)) p"
    using mp [OF spec [OF conjunct2 [OF cycle_check_is_exact]] call_again_cycle] by (elim exE conjE)
  have "length p = 2" using arg_cong [OF p(2), of length] by simp
  then show ?thesis using p(1) by blast
qed

text \<open>
  A forward is recorded or refused, never both.  A refused forward leaves
  the table as it was and names a cycle the new call is on; a recorded one
  adds exactly the hop (or entry) it makes, under the call's id, and a hop
  that is recorded closes no cycle; what neither waits synchronously nor has
  a synchronous caller, and a call back into its caller's session, is not
  recorded and changes nothing.
\<close>

theorem forward_outcome:
  assumes "forward unchained rows dst did seq path synchronous w = (res, w')"
  shows "case res of
      Inl c \<Rightarrow> w' = w \<and> (\<exists>h. make_hop dst did seq path synchronous rows w = Some h \<and> \<not> h_entry h \<and>
         cycle_among (map snd (w_hops w)) h (w_profiles w) = Some (cy_calls c) \<and>
         (new_call (map snd (w_hops w)) h, new_call (map snd (w_hops w)) h)
           \<in> (waits_for (in_order (map snd (w_hops w)) h) (w_profiles w))\<^sup>+)
    | Inr True \<Rightarrow> \<exists>h. make_hop dst did seq path synchronous rows w = Some h \<and> gid h = (dst, did) \<and>
         map_of (w_hops w') = (map_of (w_hops w))((dst, did) \<mapsto> h) \<and> w_marked w' = w_marked w \<and>
         w_profiles w' = w_profiles w \<and> w_hop_count w' = length (w_hops w') \<and>
         (\<not> h_entry h \<longrightarrow> (new_call (map snd (w_hops w)) h, new_call (map snd (w_hops w)) h)
            \<notin> (waits_for (in_order (map snd (w_hops w)) h) (w_profiles w))\<^sup>+)
    | Inr False \<Rightarrow> w' = w"
proof (cases "unchained \<or> w_mark_count w = 0 \<and> \<not> synchronous \<or>
    make_hop dst did seq path synchronous rows w = None")
  case True
  then have "res = Inr False" "w' = w" using assms forward_skips [OF True] by simp_all
  then show ?thesis by simp
next
  case False
  then have on: "\<not> (unchained \<or> w_mark_count w = 0 \<and> \<not> synchronous)" by blast
  obtain h where h: "make_hop dst did seq path synchronous rows w = Some h" using False by blast
  have g: "gid h = (dst, did)"
    using h by (auto simp: make_hop_def gid_def Let_def split: option.splits if_splits)
  have none: "cycle_among hops h ps = None \<Longrightarrow>
      (new_call hops h, new_call hops h) \<notin> (waits_for (in_order hops h) ps)\<^sup>+" for hops ps
    using cycle_none by blast
  have some: "cycle_among hops h ps = Some c \<Longrightarrow>
      (new_call hops h, new_call hops h) \<in> (waits_for (in_order hops h) ps)\<^sup>+" for hops ps c
    using cycle_none by (metis option.distinct(1))
  show ?thesis
  proof (cases "if h_entry h then None else cycle_among (map snd (w_hops w)) h (w_profiles w)")
    case None
    then have e: "res = Inr True" "w' = counted (w\<lparr>w_hops := al_insert (gid h) h (w_hops w)\<rparr>)"
      using assms forward_records [OF on h None] by simp_all
    have "\<not> h_entry h \<longrightarrow> (new_call (map snd (w_hops w)) h, new_call (map snd (w_hops w)) h)
        \<notin> (waits_for (in_order (map snd (w_hops w)) h) (w_profiles w))\<^sup>+"
      using None none by presburger
    then show ?thesis using e g h by (simp add: counted_def)
  next
    case (Some c)
    then have n: "\<not> h_entry h" "cycle_among (map snd (w_hops w)) h (w_profiles w) = Some c"
      by (simp_all split: if_splits)
    then have "res = Inl \<lparr>cy_calls = c, cy_rows = rows_of c (w_hops w) h\<rparr>" "w' = w"
      using assms forward_refuses [OF on h Some] by auto
    then show ?thesis using h n some [OF n(2)] by simp
  qed
qed

theorem forward_outcome_witness:
  "two_runtimes = two_runtimes \<and> (\<exists>h. make_hop ''a'' ''rust:3'' 3 [''b/node:2''] True None two_runtimes =
     Some h \<and> \<not> h_entry h)"
  using forward_outcome [OF two_runtimes_refuses] by auto

section \<open>The table\<close>

definition counters_ok :: "waits \<Rightarrow> bool" where
  "counters_ok w \<longleftrightarrow> w_hop_count w = length (w_hops w) \<and> w_mark_count w = length (w_marked w)"

lemma counted_ok [simp]: "counters_ok (counted w)"
  by (simp add: counters_ok_def counted_def)

lemma counted_fields [simp]:
  "w_hops (counted w) = w_hops w" "w_marked (counted w) = w_marked w"
  "w_profiles (counted w) = w_profiles w"
  by (simp_all add: counted_def)

text \<open>
  The counters read without the lock never hide an entry: every operation
  keeps them equal to the table's sizes, and with them so, an answer always
  unmarks its call and a reply always removes its hop, although both return
  early on a zero counter.  When a session ends, no hop, no mark and no
  profile names it any more, and what does not name it stays.
\<close>

theorem counters_never_hide:
  assumes "counters_ok w"
  shows "(s, i) \<notin> set (w_marked (answered s i w)) \<and>
    set (w_marked (answered s i w)) = set (w_marked w) - {(s, i)} \<and>
    map_of (w_hops (returned s i w)) = (map_of (w_hops w))((s, i) := None) \<and>
    counters_ok (marked s i w) \<and> counters_ok (answered s i w) \<and> counters_ok (returned s i w) \<and>
    counters_ok (ended s w) \<and> counters_ok (set_profile s p w) \<and>
    counters_ok (snd (forward unchained rows dst did seq path synchronous w)) \<and>
    (\<forall>g h. (g, h) \<in> set (w_hops (ended s w)) \<longleftrightarrow>
       (g, h) \<in> set (w_hops w) \<and> h_src h \<noteq> s \<and> h_dst h \<noteq> s) \<and>
    (\<forall>t j. (t, j) \<in> set (w_marked (ended s w)) \<longleftrightarrow> (t, j) \<in> set (w_marked w) \<and> t \<noteq> s) \<and>
    map_of (w_profiles (ended s w)) = (map_of (w_profiles w))(s := None)"
proof -
  have a: "answered s i w = w \<and> w_marked w = [] \<or>
      answered s i w = counted (w\<lparr>w_marked := filter (\<lambda>g. g \<noteq> (s, i)) (w_marked w)\<rparr>)"
    using assms by (auto simp: answered_def counters_ok_def)
  have r: "returned s i w = w \<and> w_hops w = [] \<or>
      returned s i w = counted (w\<lparr>w_hops := al_remove (s, i) (w_hops w)\<rparr>)"
    using assms by (auto simp: returned_def counters_ok_def)
  have f: "counters_ok (snd (forward unchained rows dst did seq path synchronous w))"
    using assms by (auto simp: forward_def split: option.split)
  have sp: "counters_ok (set_profile s p w)" using assms by (simp add: set_profile_def counters_ok_def)
  show ?thesis
    using a r f sp assms by (elim disjE conjE) (auto simp: marked_def ended_def fun_eq_iff)
qed

theorem counters_never_hide_witness:
  "(''b'', ''node:2'') \<in> set (w_marked two_runtimes) \<and>
   (''b'', ''node:2'') \<notin> set (w_marked (answered ''b'' ''node:2'' two_runtimes))"
proof -
  have "counters_ok two_runtimes" by (simp add: two_runtimes_def counters_ok_def)
  then show ?thesis
    using counters_never_hide [of two_runtimes "''b''" "''node:2''"]
    by (simp add: two_runtimes_def)
qed

end
