(* ===== verification/Event_Table.thy ===== *)
theory Event_Table
  imports Core_Types
begin

text \<open>
  The listener table of the event bus, \<open>crates/rutis/src/bus/table.rs\<close>: every
  listener with its name (or prefix) and position, selection by name, and the
  list the emits of a name share, which registrations extend and removals
  invalidate.

  A listener's dynamic flags (withdrawn, claimed, the life of its owner) are
  kept by the bus (\<open>Event_Bus\<close>); selection takes them as a predicate \<open>live\<close>.
  A shared list is held weakly: \<open>sh_held\<close> says that some emit still holds it.
  A chain of added entries is a list, its head first.  Positions are integers
  (the code's \<open>i64\<close> would take \<open>2^63\<close> registrations to wrap); capacities
  (\<open>shrink_to_fit\<close>) and the test counters are left out.
\<close>

section \<open>Listeners\<close>

datatype listener_kind = KAsync | KSync

datatype body = BodyAsync | BodySync | BodyRemote listener_kind

record entry =
  ev_id :: nat
  ev_position :: int
  ev_name :: string
  ev_prefix :: bool
  ev_once :: bool
  ev_prepend :: bool
  ev_global :: bool
  ev_listener :: string
  ev_body :: body

fun body_kind :: "body \<Rightarrow> listener_kind" where
  "body_kind BodyAsync = KAsync"
| "body_kind BodySync = KSync"
| "body_kind (BodyRemote k) = k"

text \<open>Which names an entry listens to.\<close>

definition listens :: "string \<Rightarrow> entry \<Rightarrow> bool" where
  "listens name e = (if ev_prefix e then starts_with (ev_name e) name else ev_name e = name)"

section \<open>Shared lists\<close>

record selected =
  se_base :: "entry list"
  se_before :: "entry list"
  se_after :: "entry list"

definition from_vec :: "entry list \<Rightarrow> selected" where
  "from_vec es = \<lparr>se_base = es, se_before = [], se_after = []\<rparr>"

definition chains :: "selected \<Rightarrow> entry list \<times> entry list" where
  "chains s = (se_before s, rev (se_after s))"

definition to_vec :: "selected \<Rightarrow> entry list" where
  "to_vec s = (let (before, after) = chains s in before @ se_base s @ after)"

definition sel_is_empty :: "selected \<Rightarrow> bool" where
  "sel_is_empty s \<longleftrightarrow> se_base s = [] \<and> se_before s = [] \<and> se_after s = []"

definition only_base :: "selected \<Rightarrow> bool" where
  "only_base s \<longleftrightarrow> se_before s = [] \<and> se_after s = []"

definition any_live :: "(entry \<Rightarrow> bool) \<Rightarrow> selected \<Rightarrow> bool" where
  "any_live live s \<longleftrightarrow> (\<exists>e \<in> set (se_base s). live e)"

record shared_r =
  sh_list :: "entry list"
  sh_held :: bool
  sh_len :: nat
  sh_removed :: nat
  sh_before :: "entry list"
  sh_after :: "entry list"

definition shared_add :: "entry \<Rightarrow> shared_r \<Rightarrow> shared_r" where
  "shared_add e s =
     (if ev_prepend e then s\<lparr>sh_before := e # sh_before s\<rparr>
      else s\<lparr>sh_after := e # sh_after s\<rparr>)"

definition stale :: "shared_r \<Rightarrow> bool" where
  "stale s \<longleftrightarrow> sh_removed s * 2 > sh_len s \<or> sh_before s \<noteq> [] \<or> sh_after s \<noteq> []"

section \<open>The table\<close>

record table =
  t_exact :: "string \<rightharpoonup> entry list"
  t_prefixes :: "entry list"
  t_shared :: "(string \<times> shared_r) list"
  t_shared_prune :: nat
  t_by_id :: "(nat \<times> entry) list"
  t_back :: int
  t_front :: int
  t_next_id :: nat

definition empty_table :: table where
  "empty_table = \<lparr>t_exact = Map.empty, t_prefixes = [], t_shared = [], t_shared_prune = 0,
     t_by_id = [], t_back = 0, t_front = 0, t_next_id = 0\<rparr>"

text \<open>\<open>next_id\<close>: the ids are checked; at the last \<open>u64\<close> it panics (\<open>None\<close>).\<close>

definition next_id :: "table \<Rightarrow> (nat \<times> table) option" where
  "next_id t =
     (if t_next_id t < u64_max
      then Some (Suc (t_next_id t), t\<lparr>t_next_id := Suc (t_next_id t)\<rparr>) else None)"

definition next_position :: "bool \<Rightarrow> table \<Rightarrow> int \<times> table" where
  "next_position prepend t =
     (if prepend then (t_front t - 1, t\<lparr>t_front := t_front t - 1\<rparr>)
      else (t_back t + 1, t\<lparr>t_back := t_back t + 1\<rparr>))"

definition exact_list :: "string \<Rightarrow> table \<Rightarrow> entry list" where
  "exact_list name t = (case t_exact t name of Some l \<Rightarrow> l | None \<Rightarrow> [])"

definition put_entry :: "entry \<Rightarrow> entry list \<Rightarrow> entry list" where
  "put_entry e l = (if ev_prepend e then e # l else l @ [e])"

definition insert_shared :: "entry \<Rightarrow> (string \<times> shared_r) list \<Rightarrow> (string \<times> shared_r) list" where
  "insert_shared e m =
     (if ev_prefix e then filter (\<lambda>(n, _). \<not> starts_with (ev_name e) n) m
      else case map_of m (ev_name e) of
             None \<Rightarrow> m
           | Some s \<Rightarrow> al_insert (ev_name e) (shared_add e s) m)"

definition insert_entry :: "entry \<Rightarrow> table \<Rightarrow> table" where
  "insert_entry e t =
     (let t1 = t\<lparr>t_shared := insert_shared e (t_shared t)\<rparr>;
          t2 = (if ev_prefix e then t1\<lparr>t_prefixes := put_entry e (t_prefixes t1)\<rparr>
                else t1\<lparr>t_exact := (t_exact t1)
                       (ev_name e \<mapsto> put_entry e (exact_list (ev_name e) t1))\<rparr>)
      in t2\<lparr>t_by_id := al_insert (ev_id e) e (t_by_id t2)\<rparr>)"

text \<open>
  One removal seen by a shared list: counted, and the list is let go of when
  nobody holds it or it is stale (\<open>None\<close>).
\<close>

definition count_removed :: "shared_r \<Rightarrow> shared_r option" where
  "count_removed s =
     (let s' = s\<lparr>sh_removed := Suc (sh_removed s)\<rparr>
      in if \<not> sh_held s' \<or> stale s' then None else Some s')"

fun retain_fresh :: "string \<Rightarrow> (string \<times> shared_r) list \<Rightarrow> (string \<times> shared_r) list" where
  "retain_fresh p [] = []"
| "retain_fresh p ((n, s) # m) =
     (if starts_with p n
      then (case count_removed s of None \<Rightarrow> retain_fresh p m | Some s' \<Rightarrow> (n, s') # retain_fresh p m)
      else (n, s) # retain_fresh p m)"

definition remove_shared :: "entry \<Rightarrow> (string \<times> shared_r) list \<Rightarrow> (string \<times> shared_r) list" where
  "remove_shared e m =
     (if ev_prefix e then retain_fresh (ev_name e) m
      else case map_of m (ev_name e) of
             None \<Rightarrow> m
           | Some s \<Rightarrow> (case count_removed s of
               None \<Rightarrow> al_remove (ev_name e) m
             | Some s' \<Rightarrow> al_insert (ev_name e) s' m))"

text \<open>Entries are compared by identity (\<open>ptr_eq\<close>): an id belongs to one entry.\<close>

definition drop_entry :: "entry \<Rightarrow> entry list \<Rightarrow> entry list" where
  "drop_entry e l = filter (\<lambda>x. ev_id x \<noteq> ev_id e) l"

definition remove_listed :: "entry \<Rightarrow> table \<Rightarrow> table" where
  "remove_listed e t =
     (if ev_prefix e then t\<lparr>t_prefixes := drop_entry e (t_prefixes t)\<rparr>
      else case t_exact t (ev_name e) of
             None \<Rightarrow> t
           | Some l \<Rightarrow>
               (let l' = drop_entry e l
                in t\<lparr>t_exact := (t_exact t)(ev_name e := (if l' = [] then None else Some l'))\<rparr>))"

definition remove_entry :: "entry \<Rightarrow> table \<Rightarrow> bool \<times> table" where
  "remove_entry e t =
     (if map_of (t_by_id t) (ev_id e) = None then (False, t)
      else (True, remove_listed e (t\<lparr>t_by_id := al_remove (ev_id e) (t_by_id t),
              t_shared := remove_shared e (t_shared t)\<rparr>)))"

definition get_entry :: "nat \<Rightarrow> table \<Rightarrow> entry option" where
  "get_entry i t = map_of (t_by_id t) i"

section \<open>Selection\<close>

definition live_prefixes :: "(entry \<Rightarrow> bool) \<Rightarrow> string \<Rightarrow> table \<Rightarrow> entry list" where
  "live_prefixes live name t =
     filter (\<lambda>e. starts_with (ev_name e) name \<and> live e) (t_prefixes t)"

definition select :: "(entry \<Rightarrow> bool) \<Rightarrow> string \<Rightarrow> table \<Rightarrow> entry list" where
  "select live name t =
     (let exact = filter live (exact_list name t);
          all = exact @ live_prefixes live name t
      in if exact \<noteq> [] \<and> length all > length exact then sort_key ev_position all else all)"

definition new_shared :: "entry list \<Rightarrow> shared_r" where
  "new_shared l = \<lparr>sh_list = l, sh_held = True, sh_len = length l, sh_removed = 0,
     sh_before = [], sh_after = []\<rparr>"

definition prune_shared :: "table \<Rightarrow> table" where
  "prune_shared t =
     (if length (t_shared t) \<ge> t_shared_prune t
      then (let m = filter (\<lambda>(_, s). sh_held s) (t_shared t)
            in t\<lparr>t_shared := m, t_shared_prune := max (length m * 2) 64\<rparr>)
      else t)"

text \<open>\<open>Table::shared\<close>: the list an \<open>emit\<close> without a filter dispatches over.\<close>

definition build_shared :: "(entry \<Rightarrow> bool) \<Rightarrow> string \<Rightarrow> table \<Rightarrow> selected option \<times> table" where
  "build_shared live name t =
     (let all = select live name t
      in if all = [] then (None, t\<lparr>t_shared := al_remove name (t_shared t)\<rparr>)
         else (let t1 = prune_shared t
               in (Some (from_vec all),
                   t1\<lparr>t_shared := al_insert name (new_shared all) (t_shared t1)\<rparr>)))"

definition cached :: "string \<Rightarrow> table \<Rightarrow> selected option" where
  "cached name t = (case map_of (t_shared t) name of
     None \<Rightarrow> None
   | Some s \<Rightarrow>
       if sh_held s
       then Some \<lparr>se_base = sh_list s, se_before = sh_before s, se_after = sh_after s\<rparr>
       else None)"

definition shared_list :: "(entry \<Rightarrow> bool) \<Rightarrow> string \<Rightarrow> table \<Rightarrow> selected option \<times> table" where
  "shared_list live name t = (case cached name t of
     None \<Rightarrow> build_shared live name t
   | Some s \<Rightarrow>
       (if sel_is_empty s \<or> \<not> any_live live s \<and> only_base s then None else Some s, t))"

definition all_entries :: "table \<Rightarrow> entry list" where
  "all_entries t = sort_key ev_position (map snd (t_by_id t))"

text \<open>The last emit that held the list of a name is done (the weak pointer is dead).\<close>

definition let_go :: "string \<Rightarrow> table \<Rightarrow> table" where
  "let_go name t = (case map_of (t_shared t) name of
     None \<Rightarrow> t
   | Some s \<Rightarrow> t\<lparr>t_shared := al_insert name (s\<lparr>sh_held := False\<rparr>) (t_shared t)\<rparr>)"

section \<open>The state every operation keeps\<close>

definition sorted_positions :: "entry list \<Rightarrow> bool" where
  "sorted_positions l \<longleftrightarrow> sorted_wrt (\<lambda>a b. ev_position a < ev_position b) l"

definition entry_set :: "table \<Rightarrow> entry set" where
  "entry_set t = snd ` set (t_by_id t)"

definition table_ok :: "table \<Rightarrow> bool" where
  "table_ok t \<longleftrightarrow>
     distinct (map fst (t_by_id t)) \<and>
     (\<forall>(i, e) \<in> set (t_by_id t). ev_id e = i) \<and>
     (\<forall>e \<in> entry_set t. ev_id e \<le> t_next_id t \<and>
        t_front t \<le> ev_position e \<and> ev_position e \<le> t_back t) \<and>
     t_front t \<le> 0 \<and> 0 \<le> t_back t \<and>
     inj_on ev_position (entry_set t) \<and>
     sorted_positions (t_prefixes t) \<and>
     set (t_prefixes t) = {e \<in> entry_set t. ev_prefix e} \<and>
     (\<forall>n. sorted_positions (exact_list n t)) \<and>
     (\<forall>n. set (exact_list n t) = {e \<in> entry_set t. \<not> ev_prefix e \<and> ev_name e = n})"

text \<open>Every list an emit may still be given selects the live entries of its name, in order.\<close>

definition shared_ok :: "(entry \<Rightarrow> bool) \<Rightarrow> table \<Rightarrow> bool" where
  "shared_ok live t \<longleftrightarrow>
     distinct (map fst (t_shared t)) \<and>
     (\<forall>name s. cached name t = Some s \<longrightarrow> filter live (to_vec s) = select live name t)"

section \<open>Ordered lists\<close>

lemma sorted_positions_map: "sorted_positions l \<longleftrightarrow> sorted_wrt (<) (map ev_position l)"
  by (simp add: sorted_positions_def sorted_wrt_map)

lemma sorted_positions_Nil [simp]: "sorted_positions []"
  by (simp add: sorted_positions_def)

lemma sorted_positions_distinct: "sorted_positions l \<Longrightarrow> distinct l"
  by (auto simp: sorted_positions_map strict_sorted_iff distinct_map)

lemma sorted_positions_filter [simp]: "sorted_positions l \<Longrightarrow> sorted_positions (filter P l)"
  by (simp add: sorted_positions_def sorted_wrt_filter)

lemma sorted_positions_unique:
  assumes "sorted_positions a" and "sorted_positions b" and "set a = set b"
  shows "a = b"
  using assms
proof (induction a arbitrary: b)
  case (Cons x a)
  then obtain y b' where b: "b = y # b'" by (cases b) auto
  have xy: "x = y"
  proof (rule ccontr)
    assume "x \<noteq> y"
    then have "x \<in> set b'" "y \<in> set a" using Cons.prems(3) b by auto
    then have "ev_position y < ev_position x" "ev_position x < ev_position y"
      using Cons.prems(1,2) b by (auto simp: sorted_positions_def)
    then show False by simp
  qed
  have "set a = set b'"
    using Cons.prems sorted_positions_distinct [OF Cons.prems(1)]
      sorted_positions_distinct [OF Cons.prems(2)] b xy by auto
  then show ?case using Cons.IH [of b'] Cons.prems(1,2) b xy by (simp add: sorted_positions_def)
qed simp

lemma sort_key_positions:
  assumes "distinct l" and "inj_on ev_position (set l)"
  shows "sorted_positions (sort_key ev_position l)"
  using assms by (simp add: sorted_positions_map strict_sorted_iff distinct_map)

lemma sorted_positions_put:
  assumes "sorted_positions l"
    and "\<And>x. x \<in> set l \<Longrightarrow> if ev_prepend e then ev_position e < ev_position x
           else ev_position x < ev_position e"
  shows "sorted_positions (put_entry e l)"
  using assms by (auto simp: sorted_positions_def put_entry_def sorted_wrt_append split: if_splits)

lemma set_put_entry [simp]: "set (put_entry e l) = insert e (set l)"
  by (auto simp: put_entry_def)

lemma filter_put_entry:
  "filter P (put_entry e l) = (if P e then put_entry e (filter P l) else filter P l)"
  by (simp add: put_entry_def)

lemma set_drop_entry: "set (drop_entry e l) = {x \<in> set l. ev_id x \<noteq> ev_id e}"
  by (simp add: drop_entry_def)

lemma sorted_positions_drop [simp]: "sorted_positions l \<Longrightarrow> sorted_positions (drop_entry e l)"
  by (simp add: drop_entry_def)

section \<open>Selection is registration order\<close>

lemma table_okD:
  assumes "table_ok t"
  shows "distinct (map fst (t_by_id t))"
    "\<And>i e. (i, e) \<in> set (t_by_id t) \<Longrightarrow> ev_id e = i"
    "\<And>e. e \<in> entry_set t \<Longrightarrow> ev_id e \<le> t_next_id t \<and> t_front t \<le> ev_position e \<and>
       ev_position e \<le> t_back t"
    "t_front t \<le> 0" "0 \<le> t_back t"
    "inj_on ev_position (entry_set t)" "sorted_positions (t_prefixes t)"
    "set (t_prefixes t) = {e \<in> entry_set t. ev_prefix e}"
    "\<And>n. sorted_positions (exact_list n t)"
    "\<And>n. set (exact_list n t) = {e \<in> entry_set t. \<not> ev_prefix e \<and> ev_name e = n}"
  using assms unfolding table_ok_def by auto

lemma entry_lookup:
  assumes "table_ok t" and "e \<in> entry_set t"
  shows "map_of (t_by_id t) (ev_id e) = Some e"
proof -
  from assms(2) obtain i where i: "(i, e) \<in> set (t_by_id t)" by (auto simp: entry_set_def)
  then show ?thesis using table_okD(1,2) [OF assms(1)] by (metis map_of_eq_Some_iff)
qed

lemma entry_id_unique:
  assumes "table_ok t" and "e \<in> entry_set t" and "x \<in> entry_set t" and "ev_id x = ev_id e"
  shows "x = e"
  using entry_lookup [OF assms(1,2)] entry_lookup [OF assms(1,3)] assms(4) by simp

lemma all_entries_ok:
  assumes "table_ok t"
  shows "sorted_positions (all_entries t)" "set (all_entries t) = entry_set t"
proof -
  have "map fst (t_by_id t) = map ev_id (map snd (t_by_id t))"
    using table_okD(2) [OF assms] by auto
  then have "distinct (map ev_id (map snd (t_by_id t)))" using table_okD(1) [OF assms] by metis
  then have "distinct (map snd (t_by_id t))" by (simp only: distinct_map)
  then show "sorted_positions (all_entries t)"
    unfolding all_entries_def
    by (rule sort_key_positions) (use table_okD(6) [OF assms] in \<open>simp add: entry_set_def\<close>)
qed (simp add: all_entries_def entry_set_def)

lemma select_spec:
  assumes "table_ok t"
  shows "select live name t = filter (\<lambda>e. listens name e \<and> live e) (all_entries t)"
proof (rule sorted_positions_unique)
  note D = table_okD [OF assms]
  let ?x = "filter live (exact_list name t)" and ?p = "live_prefixes live name t"
  have sets: "set ?x = {e \<in> entry_set t. \<not> ev_prefix e \<and> ev_name e = name \<and> live e}"
    "set ?p = {e \<in> entry_set t. ev_prefix e \<and> starts_with (ev_name e) name \<and> live e}"
    using D(8,10) by (auto simp: live_prefixes_def)
  have sx: "sorted_positions ?x" "sorted_positions ?p"
    using D(7,9) by (simp_all add: live_prefixes_def)
  have "distinct (?x @ ?p)"
    using sx sets by (auto dest: sorted_positions_distinct)
  moreover have "inj_on ev_position (set (?x @ ?p))"
    by (rule inj_on_subset [OF D(6)]) (use sets in auto)
  ultimately have "sorted_positions (sort_key ev_position (?x @ ?p))" by (rule sort_key_positions)
  then show "sorted_positions (select live name t)"
    using sx by (auto simp: select_def Let_def)
  show "sorted_positions (filter (\<lambda>e. listens name e \<and> live e) (all_entries t))"
    using all_entries_ok(1) [OF assms] by simp
  have "set (select live name t) = set ?x \<union> set ?p"
    by (auto simp: select_def Let_def)
  also have "\<dots> = set (filter (\<lambda>e. listens name e \<and> live e) (all_entries t))"
    using sets by (auto simp: all_entries_ok(2) [OF assms] listens_def)
  finally show "set (select live name t) = \<dots>" .
qed

section \<open>The operations on the table\<close>

lemma table_ok_empty: "table_ok empty_table"
  by (simp add: table_ok_def empty_table_def exact_list_def entry_set_def)

lemma shared_ok_empty: "shared_ok live empty_table"
  by (simp add: shared_ok_def empty_table_def cached_def)

text \<open>What does not touch the entries.\<close>

lemma table_ok_shared [simp]:
  "table_ok (t\<lparr>t_shared := m\<rparr>) = table_ok t"
  "table_ok (t\<lparr>t_shared := m, t_shared_prune := p\<rparr>) = table_ok t"
  by (simp_all add: table_ok_def exact_list_def entry_set_def)

lemma select_shared [simp]:
  "select live n (t\<lparr>t_shared := m\<rparr>) = select live n t"
  "select live n (t\<lparr>t_shared := m, t_shared_prune := p\<rparr>) = select live n t"
  by (simp_all add: select_def live_prefixes_def exact_list_def)

lemma table_ok_counters:
  assumes "table_ok t" and "t_front t' \<le> t_front t" and "t_back t \<le> t_back t'"
    and "t_next_id t \<le> t_next_id t'" and "t_by_id t' = t_by_id t" and "t_exact t' = t_exact t"
    and "t_prefixes t' = t_prefixes t"
  shows "table_ok t'"
proof -
  have e: "exact_list n t' = exact_list n t" "entry_set t' = entry_set t" for n
    using assms(5,6) by (simp_all add: exact_list_def entry_set_def)
  note D = table_okD [OF assms(1)]
  have "ev_id x \<le> t_next_id t' \<and> t_front t' \<le> ev_position x \<and> ev_position x \<le> t_back t'"
    if "x \<in> entry_set t" for x
    using D(3) [OF that] assms(2-4) by linarith
  then show ?thesis
    unfolding table_ok_def e assms(5,7) using D assms(2,3) by auto
qed

lemma insert_fields:
  "t_by_id (insert_entry e t) = al_insert (ev_id e) e (t_by_id t)"
  "t_front (insert_entry e t) = t_front t" "t_back (insert_entry e t) = t_back t"
  "t_next_id (insert_entry e t) = t_next_id t"
  "t_shared (insert_entry e t) = insert_shared e (t_shared t)"
  "t_prefixes (insert_entry e t) = (if ev_prefix e then put_entry e (t_prefixes t) else t_prefixes t)"
  "exact_list n (insert_entry e t) =
     (if \<not> ev_prefix e \<and> n = ev_name e then put_entry e (exact_list n t) else exact_list n t)"
  by (auto simp: insert_entry_def Let_def exact_list_def)

lemma set_al_insert_fresh: "k \<notin> fst ` set m \<Longrightarrow> set (al_insert k v m) = insert (k, v) (set m)"
proof (induction m)
  case (Cons p m)
  then show ?case by (cases p) auto
qed simp

text \<open>A new entry has a new id and lies beyond all others, on the side its option says.\<close>

definition fresh_entry :: "entry \<Rightarrow> table \<Rightarrow> bool" where
  "fresh_entry e t \<longleftrightarrow> ev_id e \<le> t_next_id t \<and> t_front t \<le> ev_position e \<and> ev_position e \<le> t_back t \<and>
     (\<forall>x \<in> entry_set t. ev_id x \<noteq> ev_id e \<and>
        (if ev_prepend e then ev_position e < ev_position x else ev_position x < ev_position e))"

lemma entry_set_insert:
  assumes "table_ok t" and "fresh_entry e t"
  shows "entry_set (insert_entry e t) = insert e (entry_set t)"
    "set (t_by_id (insert_entry e t)) = insert (ev_id e, e) (set (t_by_id t))"
proof -
  have "ev_id e \<notin> fst ` set (t_by_id t)"
  proof
    assume "ev_id e \<in> fst ` set (t_by_id t)"
    then obtain x where x: "(ev_id e, x) \<in> set (t_by_id t)" by force
    then have "x \<in> entry_set t" "ev_id x = ev_id e"
      using table_okD(2) [OF assms(1) x] by (force simp: entry_set_def)+
    then show False using assms(2) by (simp add: fresh_entry_def)
  qed
  then show *: "set (t_by_id (insert_entry e t)) = insert (ev_id e, e) (set (t_by_id t))"
    by (simp add: insert_fields set_al_insert_fresh)
  show "entry_set (insert_entry e t) = insert e (entry_set t)"
    unfolding entry_set_def * by simp
qed

lemma insert_table_ok:
  assumes "table_ok t" and "fresh_entry e t"
  shows "table_ok (insert_entry e t)"
proof -
  note D = table_okD [OF assms(1)] and S = entry_set_insert [OF assms]
  have new: "ev_id x \<noteq> ev_id e \<and>
      (if ev_prepend e then ev_position e < ev_position x else ev_position x < ev_position e)"
    if "x \<in> entry_set t" for x
    using assms(2) that by (simp add: fresh_entry_def)
  have "ev_position e \<notin> ev_position ` entry_set t" using new by (fastforce split: if_splits)
  then have inj: "inj_on ev_position (insert e (entry_set t))" using D(6) by (auto simp: inj_on_insert)
  have pre: "sorted_positions (put_entry e (t_prefixes t))"
    using sorted_positions_put [OF D(7), of e] new D(8) by blast
  have ex: "sorted_positions (put_entry e (exact_list n t))" for n
    using sorted_positions_put [OF D(9), of n e] new D(10) by blast
  have b: "\<forall>x \<in> insert e (entry_set t). ev_id x \<le> t_next_id t \<and> t_front t \<le> ev_position x \<and>
      ev_position x \<le> t_back t"
    using assms(2) D(3) by (auto simp: fresh_entry_def)
  have ids: "\<forall>(i, x) \<in> insert (ev_id e, e) (set (t_by_id t)). ev_id x = i" using D(2) by auto
  have sets: "set (t_prefixes (insert_entry e t)) = {x \<in> insert e (entry_set t). ev_prefix x}"
    "set (exact_list n (insert_entry e t)) =
       {x \<in> insert e (entry_set t). \<not> ev_prefix x \<and> ev_name x = n}" for n
    using D(8,10) by (auto simp: insert_fields)
  show ?thesis
    unfolding table_ok_def S sets
    using D(1,4,5,7,9) b inj pre ex ids by (simp add: insert_fields)
qed

lemma all_entries_insert:
  assumes "table_ok t" and "fresh_entry e t"
  shows "all_entries (insert_entry e t) = put_entry e (all_entries t)"
proof (rule sorted_positions_unique)
  show "sorted_positions (all_entries (insert_entry e t))"
    by (rule all_entries_ok(1) [OF insert_table_ok [OF assms]])
  show "sorted_positions (put_entry e (all_entries t))"
    by (rule sorted_positions_put [OF all_entries_ok(1) [OF assms(1)]])
      (use assms in \<open>simp add: all_entries_ok(2) fresh_entry_def\<close>)
  show "set (all_entries (insert_entry e t)) = set (put_entry e (all_entries t))"
    by (simp add: all_entries_ok(2) [OF insert_table_ok [OF assms]] all_entries_ok(2) [OF assms(1)]
        entry_set_insert(1) [OF assms])
qed

text \<open>A removal, of an entry of the table.\<close>

lemma remove_fields:
  assumes "map_of (t_by_id t) (ev_id e) \<noteq> None"
  shows "fst (remove_entry e t)"
    "t_by_id (snd (remove_entry e t)) = al_remove (ev_id e) (t_by_id t)"
    "t_front (snd (remove_entry e t)) = t_front t" "t_back (snd (remove_entry e t)) = t_back t"
    "t_next_id (snd (remove_entry e t)) = t_next_id t"
    "t_shared (snd (remove_entry e t)) = remove_shared e (t_shared t)"
    "t_prefixes (snd (remove_entry e t)) =
       (if ev_prefix e then drop_entry e (t_prefixes t) else t_prefixes t)"
    "exact_list n (snd (remove_entry e t)) =
       (if \<not> ev_prefix e \<and> n = ev_name e then drop_entry e (exact_list n t) else exact_list n t)"
  using assms
  by (auto simp: remove_entry_def remove_listed_def Let_def exact_list_def drop_entry_def
      split: option.splits)

lemma remove_absent [simp]:
  "map_of (t_by_id t) (ev_id e) = None \<Longrightarrow> remove_entry e t = (False, t)"
  by (simp add: remove_entry_def)

lemma set_al_remove: "set (al_remove k m) = {(i, v) \<in> set m. i \<noteq> k}"
  by (auto simp: al_remove_def)

lemma entry_set_remove:
  assumes "table_ok t" and "e \<in> entry_set t"
  shows "entry_set (snd (remove_entry e t)) = entry_set t - {e}"
    "map_of (t_by_id t) (ev_id e) \<noteq> None"
proof -
  show m: "map_of (t_by_id t) (ev_id e) \<noteq> None" using entry_lookup [OF assms] by simp
  have "entry_set (snd (remove_entry e t)) = {x \<in> entry_set t. ev_id x \<noteq> ev_id e}"
    unfolding entry_set_def remove_fields(2) [OF m] set_al_remove
    using table_okD(2) [OF assms(1)] by force
  also have "\<dots> = entry_set t - {e}" using entry_id_unique [OF assms] by auto
  finally show "entry_set (snd (remove_entry e t)) = entry_set t - {e}" .
qed

lemma remove_table_ok:
  assumes "table_ok t" and "e \<in> entry_set t"
  shows "table_ok (snd (remove_entry e t))"
proof -
  note D = table_okD [OF assms(1)] and S = entry_set_remove [OF assms]
  note R = remove_fields [OF S(2)]
  have ids: "\<forall>(i, x) \<in> set (al_remove (ev_id e) (t_by_id t)). ev_id x = i"
    using D(2) by (auto simp: set_al_remove)
  have drop: "set (drop_entry e l) = set l - {e}" if "set l \<subseteq> entry_set t" for l
    using that entry_id_unique [OF assms] by (auto simp: set_drop_entry)
  have sets: "set (t_prefixes (snd (remove_entry e t))) = {x \<in> entry_set t - {e}. ev_prefix x}"
    "set (exact_list n (snd (remove_entry e t))) =
       {x \<in> entry_set t - {e}. \<not> ev_prefix x \<and> ev_name x = n}" for n
    using D(8,10) drop [of "t_prefixes t"] drop [of "exact_list n t"] by (auto simp: R)
  have inj: "inj_on ev_position (entry_set t - {e})" using D(6) by (rule inj_on_diff)
  show ?thesis
    unfolding table_ok_def S(1) sets
    using D(1,3,4,5,7,9) ids inj by (simp add: R)
qed

lemma all_entries_remove:
  assumes "table_ok t" and "e \<in> entry_set t"
  shows "all_entries (snd (remove_entry e t)) = filter (\<lambda>x. x \<noteq> e) (all_entries t)"
proof (rule sorted_positions_unique)
  show "sorted_positions (all_entries (snd (remove_entry e t)))"
    by (rule all_entries_ok(1) [OF remove_table_ok [OF assms]])
  show "sorted_positions (filter (\<lambda>x. x \<noteq> e) (all_entries t))"
    using all_entries_ok(1) [OF assms(1)] by simp
  show "set (all_entries (snd (remove_entry e t))) = set (filter (\<lambda>x. x \<noteq> e) (all_entries t))"
    by (auto simp: all_entries_ok(2) [OF remove_table_ok [OF assms]] all_entries_ok(2) [OF assms(1)]
        entry_set_remove(1) [OF assms])
qed

section \<open>The table as the shared lists use it\<close>

text \<open>
  What the lists that emits share rely on: entries in an order, which grows at
  one end and shrinks anywhere, and a selection that follows it.
\<close>

locale name_table =
  fixes ok :: "'t \<Rightarrow> bool"
    and order :: "'t \<Rightarrow> entry list"
    and fresh :: "entry \<Rightarrow> 't \<Rightarrow> bool"
    and add :: "entry \<Rightarrow> 't \<Rightarrow> 't"
    and cut :: "entry \<Rightarrow> 't \<Rightarrow> 't"
    and pick :: "(entry \<Rightarrow> bool) \<Rightarrow> string \<Rightarrow> 't \<Rightarrow> entry list"
  assumes pick_order: "ok t \<Longrightarrow> pick live n t = filter (\<lambda>e. listens n e \<and> live e) (order t)"
    and add_ok: "ok t \<Longrightarrow> fresh e t \<Longrightarrow> ok (add e t)"
    and order_add: "ok t \<Longrightarrow> fresh e t \<Longrightarrow> order (add e t) = put_entry e (order t)"
    and cut_ok: "ok t \<Longrightarrow> e \<in> set (order t) \<Longrightarrow> ok (cut e t)"
    and order_cut: "ok t \<Longrightarrow> e \<in> set (order t) \<Longrightarrow> order (cut e t) = filter (\<lambda>x. x \<noteq> e) (order t)"
begin

lemma pick_fewer:
  assumes "ok t" and "\<And>e. live' e \<Longrightarrow> live e"
  shows "filter live' (pick live n t) = pick live' n t"
proof -
  have "(\<lambda>e. live' e \<and> listens n e \<and> live e) = (\<lambda>e. listens n e \<and> live' e)" using assms(2) by auto
  then show ?thesis by (simp add: pick_order [OF assms(1)] conj_commute)
qed

lemma pick_idem: "ok t \<Longrightarrow> filter live (pick live n t) = pick live n t"
  by (rule pick_fewer)

lemma pick_add:
  assumes "ok t" and "fresh e t"
  shows "pick live n (add e t) =
    (if listens n e \<and> live e then put_entry e (pick live n t) else pick live n t)"
  by (simp add: pick_order [OF add_ok [OF assms]] order_add [OF assms] pick_order [OF assms(1)]
      filter_put_entry)

lemma pick_cut:
  assumes "ok t" and "e \<in> set (order t)" and "\<not> live e"
  shows "pick live n (cut e t) = pick live n t"
  unfolding pick_order [OF cut_ok [OF assms(1,2)]] order_cut [OF assms(1,2)] filter_filter
    pick_order [OF assms(1)]
  by (rule filter_cong) (use assms(3) in auto)

end

interpretation tbl: name_table table_ok all_entries fresh_entry insert_entry
    "\<lambda>e t. snd (remove_entry e t)" select
  by unfold_locales
    (simp_all add: select_spec insert_table_ok all_entries_insert all_entries_ok remove_table_ok
      all_entries_remove)

section \<open>The lists emits share\<close>

lemma shared_okD:
  "shared_ok live t \<Longrightarrow> distinct (map fst (t_shared t))"
  "shared_ok live t \<Longrightarrow> cached n t = Some s \<Longrightarrow> filter live (to_vec s) = select live n t"
  by (auto simp: shared_ok_def)

lemma cached_cong: "t_shared t' = t_shared t \<Longrightarrow> cached n t' = cached n t"
  by (simp add: cached_def)

text \<open>Fewer live listeners: the same holds of them.\<close>

lemma shared_ok_fewer:
  assumes "table_ok t" and "shared_ok live t" and "\<And>e. live' e \<Longrightarrow> live e"
  shows "shared_ok live' t"
proof -
  have "filter live' (to_vec s) = select live' n t" if "cached n t = Some s" for n s
  proof -
    have "filter live' (to_vec s) = filter live' (filter live (to_vec s))"
      using assms(3) by (auto intro: filter_cong)
    then show ?thesis
      using shared_okD(2) [OF assms(2) that] tbl.pick_fewer [OF assms(1), of live' live] assms(3) by simp
  qed
  then show ?thesis using assms(2) by (simp add: shared_ok_def)
qed

lemma distinct_filter_fst: "distinct (map fst m) \<Longrightarrow> distinct (map fst (filter P m))"
  by (induction m) auto

lemma map_of_filter_keys: "map_of (filter (\<lambda>(k, _). P k) m) n = (if P n then map_of m n else None)"
  by (induction m) auto

lemma distinct_insert_shared:
  "distinct (map fst m) \<Longrightarrow> distinct (map fst (insert_shared e m))"
  by (simp add: insert_shared_def distinct_filter_fst split: option.split)

lemma map_of_insert_shared:
  "map_of (insert_shared e m) n =
     (if ev_prefix e then (if starts_with (ev_name e) n then None else map_of m n)
      else if n = ev_name e then map_option (shared_add e) (map_of m n) else map_of m n)"
  by (auto simp: insert_shared_def map_of_filter_keys split: option.split)

lemma to_vec_add:
  "to_vec \<lparr>se_base = sh_list (shared_add e s), se_before = sh_before (shared_add e s),
     se_after = sh_after (shared_add e s)\<rparr> =
   put_entry e (to_vec \<lparr>se_base = sh_list s, se_before = sh_before s, se_after = sh_after s\<rparr>)"
  by (simp add: to_vec_def chains_def shared_add_def put_entry_def)

lemma shared_add_held [simp]: "sh_held (shared_add e s) = sh_held s"
  by (simp add: shared_add_def)

lemma cached_insert:
  assumes "cached n (insert_entry e t) = Some s'"
  shows "\<exists>s. cached n t = Some s \<and> \<not> (ev_prefix e \<and> listens n e) \<and>
    to_vec s' = (if listens n e then put_entry e (to_vec s) else to_vec s)"
  using assms
  by (auto simp: cached_def insert_fields map_of_insert_shared listens_def to_vec_add
      split: option.splits if_splits)

lemma insert_shared_ok:
  assumes "table_ok t" and "fresh_entry e t" and "shared_ok live t"
  shows "shared_ok live (insert_entry e t)"
proof -
  have "filter live (to_vec s') = select live n (insert_entry e t)"
    if c: "cached n (insert_entry e t) = Some s'" for n s'
  proof -
    obtain s where s: "cached n t = Some s"
      "to_vec s' = (if listens n e then put_entry e (to_vec s) else to_vec s)"
      using cached_insert [OF c] by auto
    show ?thesis
      using s(2) shared_okD(2) [OF assms(3) s(1)]
      by (simp add: filter_put_entry tbl.pick_add [OF assms(1,2)])
  qed
  then show ?thesis
    using shared_okD(1) [OF assms(3)] by (simp add: shared_ok_def insert_fields distinct_insert_shared)
qed

lemma count_removed_Some:
  "count_removed s = Some s' \<Longrightarrow> sh_list s' = sh_list s \<and> sh_held s' = sh_held s \<and>
     sh_before s' = sh_before s \<and> sh_after s' = sh_after s"
  by (auto simp: count_removed_def Let_def split: if_splits)

lemma keys_retain_fresh: "fst ` set (retain_fresh p m) \<subseteq> fst ` set m"
  by (induction p m rule: retain_fresh.induct) (auto split: option.split)

lemma distinct_retain_fresh:
  "distinct (map fst m) \<Longrightarrow> distinct (map fst (retain_fresh p m))"
proof (induction p m rule: retain_fresh.induct)
  case (2 p n s m)
  then have "n \<notin> fst ` set (retain_fresh p m)" using keys_retain_fresh [of p m] by auto
  then show ?case using 2 by (simp split: option.split)
qed simp

lemma map_of_retain_fresh:
  "distinct (map fst m) \<Longrightarrow> map_of (retain_fresh p m) n =
     (if starts_with p n then Option.bind (map_of m n) count_removed else map_of m n)"
proof (induction p m rule: retain_fresh.induct)
  case (2 p k s m)
  have "map_of m k = None" using "2.prems" by (simp add: map_of_eq_None_iff)
  then show ?case using 2 by (auto split: option.split)
qed simp

lemma map_of_remove_shared:
  "distinct (map fst m) \<Longrightarrow> map_of (remove_shared e m) n =
     (if (if ev_prefix e then starts_with (ev_name e) n else n = ev_name e)
      then Option.bind (map_of m n) count_removed else map_of m n)"
  by (auto simp: remove_shared_def map_of_retain_fresh split: option.split)

lemma keys_remove_shared:
  "distinct (map fst m) \<Longrightarrow> distinct (map fst (remove_shared e m))"
  by (simp add: remove_shared_def distinct_retain_fresh split: option.split)

lemma cached_count_removed:
  "Option.bind x count_removed = Some s' \<Longrightarrow> \<exists>s. x = Some s \<and> sh_list s' = sh_list s \<and>
     sh_held s' = sh_held s \<and> sh_before s' = sh_before s \<and> sh_after s' = sh_after s"
  by (cases x) (auto dest: count_removed_Some)

lemma cached_SomeD:
  "cached n t = Some s \<Longrightarrow> \<exists>sh. map_of (t_shared t) n = Some sh \<and> sh_held sh \<and>
     s = \<lparr>se_base = sh_list sh, se_before = sh_before sh, se_after = sh_after sh\<rparr>"
  by (auto simp: cached_def split: option.splits if_splits)

lemma cached_remove:
  assumes "distinct (map fst (t_shared t))" and "map_of (t_by_id t) (ev_id e) \<noteq> None"
    and "cached n (snd (remove_entry e t)) = Some s"
  shows "cached n t = Some s"
proof -
  obtain sh where sh: "map_of (remove_shared e (t_shared t)) n = Some sh" "sh_held sh"
    "s = \<lparr>se_base = sh_list sh, se_before = sh_before sh, se_after = sh_after sh\<rparr>"
    using cached_SomeD [OF assms(3)] remove_fields(6) [OF assms(2)] by auto
  have "Option.bind (map_of (t_shared t) n) count_removed = Some sh \<or>
      map_of (t_shared t) n = Some sh"
    using sh(1) unfolding map_of_remove_shared [OF assms(1)] by presburger
  then show ?thesis
  proof
    assume "Option.bind (map_of (t_shared t) n) count_removed = Some sh"
    from cached_count_removed [OF this] obtain sh0 where
      "map_of (t_shared t) n = Some sh0" "sh_list sh = sh_list sh0"
      "sh_held sh = sh_held sh0" "sh_before sh = sh_before sh0" "sh_after sh = sh_after sh0"
      by blast
    then show ?thesis using sh(2,3) by (simp add: cached_def)
  next
    assume "map_of (t_shared t) n = Some sh"
    then show ?thesis using sh(2,3) by (simp add: cached_def)
  qed
qed

lemma remove_shared_ok:
  assumes "table_ok t" and "e \<in> entry_set t" and "shared_ok live t" and "\<not> live e"
  shows "shared_ok live (snd (remove_entry e t))"
proof -
  note S = entry_set_remove [OF assms(1,2)]
  have "filter live (to_vec s) = select live n (snd (remove_entry e t))"
    if "cached n (snd (remove_entry e t)) = Some s" for n s
  proof -
    have "cached n t = Some s"
      by (rule cached_remove [OF shared_okD(1) [OF assms(3)] S(2) that])
    moreover have "select live n (snd (remove_entry e t)) = select live n t"
      using tbl.pick_cut [OF assms(1), of e live n] assms(2,4) by (simp add: all_entries_ok(2) [OF assms(1)])
    ultimately show ?thesis using shared_okD(2) [OF assms(3)] by simp
  qed
  then show ?thesis
    using keys_remove_shared [OF shared_okD(1) [OF assms(3)]] remove_fields(6) [OF S(2)]
    by (simp add: shared_ok_def)
qed

lemma map_of_filter_Some:
  assumes "distinct (map fst m)" and "map_of (filter P m) n = Some x"
  shows "map_of m n = Some x"
  using assms map_of_SomeD [OF assms(2)] by simp

lemma cached_prune:
  assumes "cached n (prune_shared t) = Some s" and "distinct (map fst (t_shared t))"
  shows "cached n t = Some s"
proof -
  obtain sh where sh: "map_of (t_shared (prune_shared t)) n = Some sh" "sh_held sh"
    "s = \<lparr>se_base = sh_list sh, se_before = sh_before sh, se_after = sh_after sh\<rparr>"
    using cached_SomeD [OF assms(1)] by blast
  have "map_of (t_shared t) n = Some sh"
    using sh(1) map_of_filter_Some [OF assms(2)]
    unfolding prune_shared_def Let_def by (cases "t_shared_prune t \<le> length (t_shared t)") auto
  then show ?thesis using sh(2,3) by (simp add: cached_def)
qed

lemma prune_fields [simp]:
  "t_by_id (prune_shared t) = t_by_id t" "t_exact (prune_shared t) = t_exact t"
  "t_prefixes (prune_shared t) = t_prefixes t" "t_front (prune_shared t) = t_front t"
  "t_back (prune_shared t) = t_back t" "t_next_id (prune_shared t) = t_next_id t"
  "entry_set (prune_shared t) = entry_set t"
  "table_ok (prune_shared t) = table_ok t" "select live n (prune_shared t) = select live n t"
  by (simp_all add: prune_shared_def Let_def entry_set_def)

lemma distinct_prune [simp]:
  "distinct (map fst (t_shared t)) \<Longrightarrow> distinct (map fst (t_shared (prune_shared t)))"
  by (simp add: prune_shared_def Let_def distinct_filter_fst)

lemma shared_list_table_ok [simp]: "table_ok (snd (shared_list live n t)) = table_ok t"
  by (simp add: shared_list_def build_shared_def Let_def split: option.split)

lemma shared_list_select [simp]:
  "select live' m (snd (shared_list live n t)) = select live' m t"
  by (simp add: shared_list_def build_shared_def Let_def split: option.split)

lemma to_vec_from_vec [simp]: "to_vec (from_vec l) = l"
  by (simp add: to_vec_def chains_def from_vec_def)

lemma shared_list_ok:
  assumes "table_ok t" and "shared_ok live t"
  shows "shared_ok live (snd (shared_list live name t))"
    "(case fst (shared_list live name t) of None \<Rightarrow> [] | Some s \<Rightarrow> filter live (to_vec s)) =
       select live name t"
proof -
  note sh = shared_okD [OF assms(2)]
  have idem: "filter live (select live name t) = select live name t"
    by (rule tbl.pick_idem [OF assms(1)])
  have "shared_ok live (snd (shared_list live name t)) \<and>
    (case fst (shared_list live name t) of None \<Rightarrow> [] | Some s \<Rightarrow> filter live (to_vec s)) =
       select live name t"
  proof (cases "cached name t")
    case None
    show ?thesis
    proof (cases "select live name t = []")
      case True
      have c: "cached n (t\<lparr>t_shared := al_remove name (t_shared t)\<rparr>) = Some s \<Longrightarrow>
          cached n t = Some s" for n s
        by (auto simp: cached_def split: option.splits if_splits)
      then show ?thesis
        using None True sh by (auto simp: shared_list_def build_shared_def Let_def shared_ok_def)
    next
      case False
      let ?t1 = "prune_shared t" and ?all = "select live name t"
      let ?t2 = "?t1\<lparr>t_shared := al_insert name (new_shared ?all) (t_shared ?t1)\<rparr>"
      have c: "filter live (to_vec s) = select live n t" if "cached n ?t2 = Some s" for n s
      proof (cases "n = name")
        case True
        then have "to_vec s = ?all"
          using that by (auto simp: cached_def new_shared_def to_vec_def chains_def)
        then show ?thesis using True idem by simp
      next
        case False
        then have "cached n ?t1 = Some s" using that by (simp add: cached_def)
        then show ?thesis using sh(2) cached_prune sh(1) by blast
      qed
      have "shared_ok live ?t2" using c sh(1) by (simp add: shared_ok_def)
      then show ?thesis
        using None False idem by (simp add: shared_list_def build_shared_def Let_def)
    qed
  next
    case (Some s)
    have "select live name t = []" if "sel_is_empty s \<or> \<not> any_live live s \<and> only_base s"
    proof -
      have "filter live (to_vec s) = []"
        using that by (auto simp: sel_is_empty_def only_base_def any_live_def to_vec_def chains_def
            filter_empty_conv)
      then show ?thesis using sh(2) [OF Some] by simp
    qed
    then show ?thesis using Some assms(2) sh(2) [OF Some] by (simp add: shared_list_def)
  qed
  then show "shared_ok live (snd (shared_list live name t))"
    "(case fst (shared_list live name t) of None \<Rightarrow> [] | Some s \<Rightarrow> filter live (to_vec s)) =
       select live name t" by blast+
qed

lemma let_go_fields [simp]:
  "table_ok (let_go n t) = table_ok t" "select live m (let_go n t) = select live m t"
  by (simp_all add: let_go_def split: option.split)

lemma let_go_ok: "shared_ok live t \<Longrightarrow> shared_ok live (let_go n t)"
  by (auto simp: shared_ok_def let_go_def cached_def split: option.splits if_splits)

end
