(* ===== verification/Event_Bus.thy ===== *)
theory Event_Bus
  imports Event_Table
begin

text \<open>
  The event bus, \<open>crates/rutis/src/bus.rs\<close> and \<open>crates/rutis/src/bus/run.rs\<close>:
  registering and withdrawing listeners, starting a call, the filters and the
  loops of the dispatch modes.

  A listener is user code: the result of its call, and what it does to the
  bus meanwhile, is a parameter of each loop.  That an owner's generation has
  ended is one set of listeners (\<open>bu_ended\<close>), which only grows: a fiber's
  generation that is over stays over, and a root that starts again has had
  its listeners withdrawn by its unload.  Not modelled: the order in which
  the emits of one name follow each other (\<open>tails\<close>), their backlog, watchers'
  threads, and the encoding of events and values (\<open>events/wire.rs\<close>).
\<close>

section \<open>The bus\<close>

datatype table_change = ChAdded entry | ChRemoved entry

record listen_opts =
  lo_name :: string
  lo_prefix :: bool
  lo_once :: bool
  lo_prepend :: bool
  lo_global :: bool
  lo_listener :: string
  lo_body :: body

record bus =
  bu_table :: table
  bu_withdrawn :: "nat set"
  bu_claimed :: "nat set"
  bu_ended :: "nat set"
  bu_calls :: "nat \<Rightarrow> nat"
  bu_changes :: "table_change list"
  bu_sink :: "error_kind list"

definition empty_bus :: bus where
  "empty_bus = \<lparr>bu_table = empty_table, bu_withdrawn = {}, bu_claimed = {}, bu_ended = {},
     bu_calls = (\<lambda>_. 0), bu_changes = [], bu_sink = []\<rparr>"

text \<open>\<open>Entry::live\<close>.\<close>

definition entry_live :: "bus \<Rightarrow> entry \<Rightarrow> bool" where
  "entry_live b e \<longleftrightarrow> ev_id e \<notin> bu_withdrawn b \<and> ev_id e \<notin> bu_ended b"

text \<open>\<open>register\<close>, its commit: a new entry with a new id and position.\<close>

definition register_listener :: "listen_opts \<Rightarrow> bus \<Rightarrow> (entry \<times> bus) option" where
  "register_listener lo b = (case next_id (bu_table b) of
     None \<Rightarrow> None
   | Some (i, t1) \<Rightarrow>
       (let (p, t2) = next_position (lo_prepend lo) t1;
            e = \<lparr>ev_id = i, ev_position = p, ev_name = lo_name lo, ev_prefix = lo_prefix lo,
                 ev_once = lo_once lo, ev_prepend = lo_prepend lo, ev_global = lo_global lo,
                 ev_listener = lo_listener lo, ev_body = lo_body lo\<rparr>
        in Some (e, b\<lparr>bu_table := insert_entry e t2, bu_changes := bu_changes b @ [ChAdded e]\<rparr>)))"

text \<open>A withdrawal: the flag, then the removal under the lock.\<close>

definition flag_withdrawn :: "entry \<Rightarrow> bus \<Rightarrow> bus" where
  "flag_withdrawn e b = b\<lparr>bu_withdrawn := insert (ev_id e) (bu_withdrawn b)\<rparr>"

definition remove_listener :: "entry \<Rightarrow> bus \<Rightarrow> bus" where
  "remove_listener e b =
     (let (removed, t) = remove_entry e (bu_table b)
      in b\<lparr>bu_table := t,
           bu_changes := bu_changes b @ (if removed then [ChRemoved e] else [])\<rparr>)"

definition withdraw :: "entry \<Rightarrow> bus \<Rightarrow> bus" where
  "withdraw e b = remove_listener e (flag_withdrawn e b)"

section \<open>Starting a call\<close>

definition count_call :: "entry \<Rightarrow> bus \<Rightarrow> bus" where
  "count_call e b = b\<lparr>bu_calls := (bu_calls b)(ev_id e := Suc (bu_calls b (ev_id e)))\<rparr>"

definition claim_entry :: "entry \<Rightarrow> bus \<Rightarrow> bus" where
  "claim_entry e b = b\<lparr>bu_claimed := insert (ev_id e) (bu_claimed b)\<rparr>"

text \<open>\<open>EventBus::start\<close>: whether the call starts; a \<open>once\<close> entry is claimed by it.\<close>

definition start :: "entry \<Rightarrow> bus \<Rightarrow> bool \<times> bus" where
  "start e b =
     (if \<not> entry_live b e then (False, b)
      else if \<not> ev_once e then (True, count_call e b)
      else if ev_id e \<in> bu_claimed b then (False, b)
      else (True, count_call e (withdraw e (claim_entry e b))))"

text \<open>The same, one atomic section at a time.\<close>

datatype start_pc = SCheck | SClaim | SWithdraw | SRemove | SCount | SDone bool

fun start_step :: "entry \<Rightarrow> start_pc \<Rightarrow> bus \<Rightarrow> start_pc \<times> bus" where
  "start_step e SCheck b =
     (if entry_live b e then (if ev_once e then SClaim else SCount, b) else (SDone False, b))"
| "start_step e SClaim b =
     (if ev_id e \<in> bu_claimed b then (SDone False, b) else (SWithdraw, claim_entry e b))"
| "start_step e SWithdraw b = (SRemove, flag_withdrawn e b)"
| "start_step e SRemove b = (SCount, remove_listener e b)"
| "start_step e SCount b = (SDone True, count_call e b)"
| "start_step e (SDone r) b = (SDone r, b)"

lemma start_steps:
  "((\<lambda>(pc, b). start_step e pc b) ^^ 5) (SCheck, b) =
     (SDone (fst (start e b)), snd (start e b))"
  by (simp add: start_def withdraw_def eval_nat_numeral)

section \<open>Filters\<close>

text \<open>\<open>filter_each\<close>: the predicate's answer, or its error, for each listener that is not global.\<close>

fun filter_each :: "(entry \<Rightarrow> error + bool) \<Rightarrow> entry list \<Rightarrow> error + entry list" where
  "filter_each keep [] = Inr []"
| "filter_each keep (e # es) =
     (if ev_global e then map_sum id (\<lambda>r. e # r) (filter_each keep es)
      else case keep e of
             Inl err \<Rightarrow> Inl err
           | Inr k \<Rightarrow> map_sum id (\<lambda>r. if k then e # r else r) (filter_each keep es))"

definition candidates :: "entry list \<Rightarrow> entry list" where
  "candidates es = filter (\<lambda>e. \<not> ev_global e) es"

fun keep_answered :: "entry list \<Rightarrow> bool list \<Rightarrow> entry list" where
  "keep_answered [] as = []"
| "keep_answered (e # es) as =
     (if ev_global e then e # keep_answered es as
      else case as of
             [] \<Rightarrow> keep_answered es []
           | a # as' \<Rightarrow> if a then e # keep_answered es as' else keep_answered es as')"

definition apply_answers :: "string \<Rightarrow> entry list \<Rightarrow> bool list \<Rightarrow> error + entry list" where
  "apply_answers name es as =
     (if length as \<noteq> length (candidates es)
      then Inl (error_new (Validation [''filter of '' @ name @ '' returned '' @ show_nat (length as)
             @ '' answers for '' @ show_nat (length (candidates es)) @ '' listeners'']) False)
      else Inr (keep_answered es as))"

text \<open>What a batch filter answers; a synchronous dispatch cannot wait for it.\<close>

datatype answer = Ready "error + bool list" | Pending "error + bool list" | FilterPanics "string option"

datatype filter_spec = Each "entry \<Rightarrow> error + bool" | Batch "entry list \<Rightarrow> answer"

definition answered_by :: "string \<Rightarrow> entry list \<Rightarrow> error + bool list \<Rightarrow> error + entry list" where
  "answered_by name es r = (case r of Inl e \<Rightarrow> Inl e | Inr as \<Rightarrow> apply_answers name es as)"

definition filter_any :: "string \<Rightarrow> entry list \<Rightarrow> filter_spec option \<Rightarrow> error + entry list" where
  "filter_any name es f = (case f of
     None \<Rightarrow> Inr es
   | Some (Each keep) \<Rightarrow> filter_each keep es
   | Some (Batch batch) \<Rightarrow>
       (case batch (candidates es) of
          Ready r \<Rightarrow> answered_by name es r
        | Pending r \<Rightarrow> answered_by name es r
        | FilterPanics p \<Rightarrow> Inl (panic_error p)))"

definition filter_sync :: "string \<Rightarrow> entry list \<Rightarrow> filter_spec option \<Rightarrow> error + entry list" where
  "filter_sync name es f = (case f of
     None \<Rightarrow> Inr es
   | Some (Each keep) \<Rightarrow> filter_each keep es
   | Some (Batch batch) \<Rightarrow>
       (case batch (candidates es) of
          Ready r \<Rightarrow> answered_by name es r
        | Pending r \<Rightarrow> Inl (error_new (Validation [''the filter of the synchronous dispatch of ''
            @ name @ '' must answer synchronously'']) False)
        | FilterPanics p \<Rightarrow> Inl (panic_error p)))"

section \<open>The loops of the modes\<close>

type_synonym 'v outcome = "error + 'v option"

text \<open>A listener's call: its outcome, and the bus after it.\<close>

type_synonym 'v call_fun = "entry \<Rightarrow> bus \<Rightarrow> 'v outcome \<times> bus"

text \<open>
  \<open>run_serial\<close> and \<open>run_bail\<close>: the first result ends the dispatch, and so does
  the first error; \<open>no_result\<close> is \<open>Value::is_no_result\<close>.
\<close>

fun run_serial :: "('v \<Rightarrow> bool) \<Rightarrow> 'v call_fun \<Rightarrow> entry list \<Rightarrow> bus \<Rightarrow> 'v outcome \<times> bus" where
  "run_serial no_result call [] b = (Inr None, b)"
| "run_serial no_result call (e # es) b =
     (case start e b of
        (False, b1) \<Rightarrow> run_serial no_result call es b1
      | (True, b1) \<Rightarrow>
          (case call e b1 of
             (Inl err, b2) \<Rightarrow> (Inl err, b2)
           | (Inr (Some v), b2) \<Rightarrow>
               if no_result v then run_serial no_result call es b2 else (Inr (Some v), b2)
           | (Inr None, b2) \<Rightarrow> run_serial no_result call es b2))"

text \<open>\<open>run_from\<close> and \<open>SyncNext::invoke\<close>: each listener is handed the rest of its chain.\<close>

type_synonym 'v rest = "bus \<Rightarrow> 'v outcome \<times> bus"

fun run_waterfall :: "(entry \<Rightarrow> 'v rest \<Rightarrow> bus \<Rightarrow> 'v outcome \<times> bus) \<Rightarrow> 'v rest \<Rightarrow> entry list \<Rightarrow> 'v rest"
where
  "run_waterfall call terminal [] = terminal"
| "run_waterfall call terminal (e # es) =
     (\<lambda>b. case start e b of
        (False, b1) \<Rightarrow> run_waterfall call terminal es b1
      | (True, b1) \<Rightarrow> call e (run_waterfall call terminal es) b1)"

text \<open>\<open>call_sync\<close>: who may be called synchronously; \<open>m\<close> is the number of the mode.\<close>

definition async_listener :: "nat \<Rightarrow> string \<Rightarrow> string \<Rightarrow> error" where
  "async_listener m name listener = error_new (AsyncListener name listener m) False"

definition call_sync ::
  "nat \<Rightarrow> string \<Rightarrow> bool \<Rightarrow> (entry \<Rightarrow> bus \<Rightarrow> 'v outcome \<times> bus) \<Rightarrow> 'v call_fun" where
  "call_sync m name has_next user e b = (case ev_body e of
     BodySync \<Rightarrow> user e b
   | BodyAsync \<Rightarrow> (Inl (async_listener m name (ev_listener e)), b)
   | BodyRemote k \<Rightarrow>
       if k = KAsync then (Inl (async_listener m name (ev_listener e)), b)
       else if has_next
       then (Inl (async_listener m name (ev_listener e @ '', in another process,'')), b)
       else user e b)"

text \<open>
  \<open>run_parallel\<close>: the calls that start, by index; then the results, in the
  order they came in, sorted by index.
\<close>

fun parallel_starts :: "nat \<Rightarrow> entry list \<Rightarrow> bus \<Rightarrow> (nat \<times> entry) list \<times> bus" where
  "parallel_starts i [] b = ([], b)"
| "parallel_starts i (e # es) b =
     (case start e b of
        (False, b1) \<Rightarrow> parallel_starts (Suc i) es b1
      | (True, b1) \<Rightarrow> (let (r, b2) = parallel_starts (Suc i) es b1 in ((i, e) # r, b2)))"

definition parallel_result :: "string \<Rightarrow> (nat \<times> 'v outcome) list \<Rightarrow> error + unit" where
  "parallel_result name results =
     (let errors = List.map_filter (\<lambda>(_, r). case r of Inl e \<Rightarrow> Some (Core_Types.shared e) | Inr _ \<Rightarrow> None)
            (sort_key fst results)
      in if errors = [] then Inr () else Inl (error_new (ListenersFailed name errors) False))"

text \<open>
  The task of an \<open>emit\<close>: every call starts in order, and its failure is
  reported.  The calls end at their first poll here; of a call that goes on in
  a task of its own only the time of the report differs.
\<close>

definition report_listener :: "string \<Rightarrow> entry \<Rightarrow> error \<Rightarrow> bus \<Rightarrow> bus" where
  "report_listener name e err b =
     b\<lparr>bu_sink := bu_sink b @ [ListenerFailed name (ev_listener e) (Core_Types.shared err)]\<rparr>"

fun run_emit :: "string \<Rightarrow> 'v call_fun \<Rightarrow> entry list \<Rightarrow> bus \<Rightarrow> bus" where
  "run_emit name call [] b = b"
| "run_emit name call (e # es) b =
     (case start e b of
        (False, b1) \<Rightarrow> run_emit name call es b1
      | (True, b1) \<Rightarrow>
          (case call e b1 of
             (Inl err, b2) \<Rightarrow> run_emit name call es (report_listener name e err b2)
           | (Inr _, b2) \<Rightarrow> run_emit name call es b2))"

text \<open>\<open>emit_erased\<close> without a filter: over the list the emits of the name share.\<close>

definition emit :: "string \<Rightarrow> 'v call_fun \<Rightarrow> bus \<Rightarrow> bus" where
  "emit name call b =
     (let (sel, t) = shared_list (entry_live b) name (bu_table b); b1 = b\<lparr>bu_table := t\<rparr>
      in case sel of None \<Rightarrow> b1 | Some s \<Rightarrow> run_emit name call (to_vec s) b1)"

text \<open>\<open>live_entry\<close>: an entry the other node names, for a call outside a dispatch.\<close>

definition live_entry :: "nat \<Rightarrow> string \<Rightarrow> bus \<Rightarrow> error + entry" where
  "live_entry i name b = (case get_entry i (bu_table b) of
     Some e \<Rightarrow> if listens name e \<and> entry_live b e then Inr e
       else Inl (error_new (ListenerWithdrawn i name) False)
   | None \<Rightarrow> Inl (error_new (ListenerWithdrawn i name) False))"

section \<open>Threads on one bus\<close>

datatype bus_thread = Starting entry start_pc | Withdrawing entry

record bus_sys =
  bs_bus :: bus
  bs_threads :: "nat \<Rightarrow> bus_thread option"

definition registered :: "bus \<Rightarrow> entry set" where
  "registered b = {e. ChAdded e \<in> set (bu_changes b)}"

inductive bus_step :: "bus_sys \<Rightarrow> bus_sys \<Rightarrow> bool" where
  registers:
    "register_listener lo (bs_bus s) = Some (e, b) \<Longrightarrow> bus_step s (s\<lparr>bs_bus := b\<rparr>)"
| generation_ends:
    "bus_step s (s\<lparr>bs_bus := (bs_bus s)\<lparr>bu_ended := bu_ended (bs_bus s) \<union> ids\<rparr>\<rparr>)"
| selects:
    "bus_step s (s\<lparr>bs_bus := (bs_bus s)\<lparr>bu_table :=
       snd (shared_list (entry_live (bs_bus s)) name (bu_table (bs_bus s)))\<rparr>\<rparr>)"
| lets_go:
    "bus_step s (s\<lparr>bs_bus := (bs_bus s)\<lparr>bu_table := let_go name (bu_table (bs_bus s))\<rparr>\<rparr>)"
| start_begins:
    "e \<in> registered (bs_bus s) \<Longrightarrow> bs_threads s i = None \<Longrightarrow>
     bus_step s (s\<lparr>bs_threads := (bs_threads s)(i \<mapsto> Starting e SCheck)\<rparr>)"
| start_goes:
    "bs_threads s i = Some (Starting e pc) \<Longrightarrow> start_step e pc (bs_bus s) = (pc', b) \<Longrightarrow>
     bus_step s (s\<lparr>bs_bus := b, bs_threads := (bs_threads s)(i \<mapsto> Starting e pc')\<rparr>)"
| start_ends:
    "bs_threads s i = Some (Starting e (SDone r)) \<Longrightarrow>
     bus_step s (s\<lparr>bs_threads := (bs_threads s)(i := None)\<rparr>)"
| withdraw_begins:
    "e \<in> registered (bs_bus s) \<Longrightarrow> bs_threads s i = None \<Longrightarrow>
     bus_step s (s\<lparr>bs_bus := flag_withdrawn e (bs_bus s),
       bs_threads := (bs_threads s)(i \<mapsto> Withdrawing e)\<rparr>)"
| withdraw_ends:
    "bs_threads s i = Some (Withdrawing e) \<Longrightarrow>
     bus_step s (s\<lparr>bs_bus := remove_listener e (bs_bus s),
       bs_threads := (bs_threads s)(i := None)\<rparr>)"

definition bus_init :: bus_sys where
  "bus_init = \<lparr>bs_bus = empty_bus, bs_threads = (\<lambda>_. None)\<rparr>"

inductive bus_reachable :: "bus_sys \<Rightarrow> bool" where
  br_init: "bus_reachable bus_init"
| br_step: "bus_reachable s \<Longrightarrow> bus_step s t \<Longrightarrow> bus_reachable t"

end
