(* ===== verification/Event_Properties.thy ===== *)
theory Event_Properties
  imports Event_Bus
begin

text \<open>
  What the event bus promises: selection in registration order, the shared
  lists of emits give the same listeners, watchers can follow the table, a
  \<open>once\<close> listener is called once however calls interleave, and what each
  dispatch mode computes.
\<close>

section \<open>The invariant of the bus\<close>

fun replay :: "table_change list \<Rightarrow> entry set" where
  "replay [] = {}"
| "replay (ChAdded e # cs) = insert e (replay cs)"
| "replay (ChRemoved e # cs) = replay cs - {e}"

text \<open>The table as a watcher that heard the changes, oldest first, has it.\<close>

definition heard :: "table_change list \<Rightarrow> entry set" where
  "heard cs = replay (rev cs)"

lemma heard_simps [simp]:
  "heard [] = {}" "heard (cs @ [ChAdded e]) = insert e (heard cs)"
  "heard (cs @ [ChRemoved e]) = heard cs - {e}"
  by (simp_all add: heard_def)

text \<open>The threads that claimed a call and have not counted it yet.\<close>

definition claimers :: "bus_sys \<Rightarrow> nat \<Rightarrow> nat set" where
  "claimers s i = {n. \<exists>e pc. bs_threads s n = Some (Starting e pc) \<and> ev_id e = i \<and>
     pc \<in> {SWithdraw, SRemove, SCount}}"

definition bus_ok :: "bus \<Rightarrow> bool" where
  "bus_ok b \<longleftrightarrow> table_ok (bu_table b) \<and> shared_ok (entry_live b) (bu_table b) \<and>
     heard (bu_changes b) = entry_set (bu_table b) \<and>
     inj_on ev_id (registered b) \<and> entry_set (bu_table b) \<subseteq> registered b \<and>
     (\<forall>e \<in> registered b. ev_id e \<le> t_next_id (bu_table b)) \<and>
     (\<forall>e \<in> registered b. e \<notin> entry_set (bu_table b) \<longrightarrow> ev_id e \<in> bu_withdrawn b) \<and>
     bu_claimed b \<subseteq> ev_id ` registered b \<and>
     (\<forall>i. bu_calls b i \<noteq> 0 \<longrightarrow> i \<in> ev_id ` registered b)"

definition thread_ok :: "bus \<Rightarrow> bus_thread \<Rightarrow> bool" where
  "thread_ok b th \<longleftrightarrow> (case th of
     Starting e pc \<Rightarrow> e \<in> registered b \<and> (pc = SRemove \<longrightarrow> ev_id e \<in> bu_withdrawn b) \<and>
       (pc \<in> {SClaim, SWithdraw, SRemove} \<longrightarrow> ev_once e)
   | Withdrawing e \<Rightarrow> e \<in> registered b \<and> ev_id e \<in> bu_withdrawn b)"

text \<open>A \<open>once\<close> entry: whether it is claimed, its calls, the threads about to count one.\<close>

definition once_counts :: "bool \<Rightarrow> nat \<Rightarrow> nat set \<Rightarrow> bool" where
  "once_counts claimed calls threads \<longleftrightarrow>
     (if claimed then calls = 0 \<and> (\<exists>n. threads \<subseteq> {n}) \<or> calls = 1 \<and> threads = {}
      else calls = 0 \<and> threads = {})"

definition once_ok :: "bus_sys \<Rightarrow> bool" where
  "once_ok s \<longleftrightarrow> (\<forall>e \<in> registered (bs_bus s). ev_once e \<longrightarrow>
     once_counts (ev_id e \<in> bu_claimed (bs_bus s)) (bu_calls (bs_bus s) (ev_id e))
       (claimers s (ev_id e)))"

definition bus_inv :: "bus_sys \<Rightarrow> bool" where
  "bus_inv s \<longleftrightarrow> bus_ok (bs_bus s) \<and> (\<forall>n th. bs_threads s n = Some th \<longrightarrow> thread_ok (bs_bus s) th) \<and>
     once_ok s"

section \<open>What an operation does to the bus\<close>

lemma register_result:
  assumes "register_listener lo b = Some (e, b')" and "bus_ok b"
  shows "bus_ok b'" "registered b' = insert e (registered b)" "e \<notin> registered b"
    "ev_id e \<notin> ev_id ` registered b"
    "bu_withdrawn b' = bu_withdrawn b" "bu_claimed b' = bu_claimed b" "bu_calls b' = bu_calls b"
    "bu_ended b' = bu_ended b"
proof -
  let ?t = "bu_table b"
  define t2 where "t2 = snd (next_position (lo_prepend lo) (?t\<lparr>t_next_id := Suc (t_next_id ?t)\<rparr>))"
  have e: "ev_id e = Suc (t_next_id ?t)" "ev_prepend e = lo_prepend lo"
    "ev_position e = fst (next_position (lo_prepend lo) (?t\<lparr>t_next_id := Suc (t_next_id ?t)\<rparr>))"
    and b': "b' = b\<lparr>bu_table := insert_entry e t2, bu_changes := bu_changes b @ [ChAdded e]\<rparr>"
    using assms(1)
    by (auto simp: register_listener_def next_id_def Let_def t2_def split_beta
        split: option.splits if_splits)
  have ok: "table_ok ?t" "shared_ok (entry_live b) ?t" "inj_on ev_id (registered b)"
    and heard: "heard (bu_changes b) = entry_set ?t" "entry_set ?t \<subseteq> registered b"
    and reg: "\<And>x. x \<in> registered b \<Longrightarrow> ev_id x \<le> t_next_id ?t"
    and gone: "\<And>x. x \<in> registered b \<Longrightarrow> x \<notin> entry_set ?t \<Longrightarrow> ev_id x \<in> bu_withdrawn b"
    and cl: "bu_claimed b \<subseteq> ev_id ` registered b"
      "\<And>i. bu_calls b i \<noteq> 0 \<Longrightarrow> i \<in> ev_id ` registered b"
    using assms(2) unfolding bus_ok_def by blast+
  note D = table_okD [OF ok(1)]
  have t2: "t_by_id t2 = t_by_id ?t" "t_exact t2 = t_exact ?t" "t_prefixes t2 = t_prefixes ?t"
    "t_shared t2 = t_shared ?t" "t_next_id t2 = Suc (t_next_id ?t)"
    "t_front t2 = (if lo_prepend lo then t_front ?t - 1 else t_front ?t)"
    "t_back t2 = (if lo_prepend lo then t_back ?t else t_back ?t + 1)"
    by (auto simp: t2_def next_position_def)
  have es: "entry_set t2 = entry_set ?t" by (simp add: entry_set_def t2)
  have ok2: "table_ok t2" by (rule table_ok_counters [OF ok(1)]) (use t2 in auto)
  have sel: "select live n t2 = select live n ?t" for live n
    by (simp add: select_def live_prefixes_def exact_list_def t2)
  have sh2: "shared_ok (entry_live b) t2"
    using ok(2) by (simp add: shared_ok_def cached_def t2 sel)
  have pos: "ev_position e = (if lo_prepend lo then t_front ?t - 1 else t_back ?t + 1)"
    using e(3) by (simp add: next_position_def)
  have fr: "fresh_entry e t2"
    unfolding fresh_entry_def es t2 e(1,2) pos
    using D(3,4,5) by (fastforce dest: D(3))
  show nid: "ev_id e \<notin> ev_id ` registered b" using reg e(1) by fastforce
  then show new: "e \<notin> registered b" by blast
  show r': "registered b' = insert e (registered b)" by (auto simp: registered_def b')
  have live: "entry_live b' = entry_live b" by (simp add: b' entry_live_def fun_eq_iff)
  have S: "entry_set (insert_entry e t2) = insert e (entry_set ?t)"
    using entry_set_insert(1) [OF ok2 fr] es by simp
  show "bus_ok b'"
    unfolding bus_ok_def live r'
    using insert_table_ok [OF ok2 fr] insert_shared_ok [OF ok2 fr sh2] S heard reg gone cl ok(3) new nid e(1)
    by (auto simp: b' insert_fields t2 inj_on_insert le_SucI)
qed (use assms(1) in \<open>auto simp: register_listener_def Let_def split_beta split: option.splits\<close>)

lemma bus_ok_fewer:
  assumes "bus_ok b" and "bu_table b' = bu_table b" and "bu_changes b' = bu_changes b"
    and "bu_withdrawn b \<subseteq> bu_withdrawn b'" and "bu_ended b \<subseteq> bu_ended b'"
    and "bu_claimed b' \<subseteq> ev_id ` registered b" and "\<And>i. bu_calls b' i \<noteq> 0 \<Longrightarrow> i \<in> ev_id ` registered b"
  shows "bus_ok b'"
proof -
  have r: "registered b' = registered b" using assms(3) by (simp add: registered_def)
  have "shared_ok (entry_live b') (bu_table b)"
    by (rule shared_ok_fewer [of _ "entry_live b"])
      (use assms(1,4,5) in \<open>auto simp: bus_ok_def entry_live_def\<close>)
  then show ?thesis
    using assms unfolding bus_ok_def r by (metis (no_types, lifting) subsetD)
qed

lemma remove_result:
  assumes "bus_ok b" and "e \<in> registered b" and "ev_id e \<in> bu_withdrawn b"
  shows "bus_ok (remove_listener e b)" "registered (remove_listener e b) = registered b"
    "bu_withdrawn (remove_listener e b) = bu_withdrawn b" "bu_claimed (remove_listener e b) = bu_claimed b"
    "bu_calls (remove_listener e b) = bu_calls b" "bu_ended (remove_listener e b) = bu_ended b"
proof -
  let ?t = "bu_table b" and ?b = "remove_listener e b"
  have ok: "table_ok ?t" "shared_ok (entry_live b) ?t" "entry_set ?t \<subseteq> registered b"
    "inj_on ev_id (registered b)"
    using assms(1) unfolding bus_ok_def by blast+
  show fields: "bu_withdrawn ?b = bu_withdrawn b" "bu_claimed ?b = bu_claimed b"
    "bu_calls ?b = bu_calls b" "bu_ended ?b = bu_ended b"
    by (simp_all add: remove_listener_def split_beta)
  show r: "registered ?b = registered b"
    by (auto simp: registered_def remove_listener_def split_beta)
  have live: "entry_live ?b = entry_live b" by (simp add: entry_live_def fields fun_eq_iff)
  show "bus_ok ?b"
  proof (cases "e \<in> entry_set ?t")
    case True
    note S = entry_set_remove [OF ok(1) True]
    have t: "bu_table ?b = snd (remove_entry e ?t)" "bu_changes ?b = bu_changes b @ [ChRemoved e]"
      using remove_fields(1) [OF S(2)] by (simp_all add: remove_listener_def split_beta)
    show ?thesis
      unfolding bus_ok_def live r fields t S(1)
      using remove_table_ok [OF ok(1) True] remove_shared_ok [OF ok(1) True ok(2)] assms
        remove_fields(5) [OF S(2)]
      by (auto simp: bus_ok_def entry_live_def)
  next
    case False
    have "map_of (t_by_id ?t) (ev_id e) = None"
    proof (rule ccontr)
      assume "map_of (t_by_id ?t) (ev_id e) \<noteq> None"
      then obtain x where x: "(ev_id e, x) \<in> set (t_by_id ?t)" by (auto dest: map_of_SomeD)
      then have "x \<in> entry_set ?t" "ev_id x = ev_id e"
        using table_okD(2) [OF ok(1) x] by (force simp: entry_set_def)+
      then have "x = e" using ok(3,4) assms(2) by (meson inj_onD subsetD)
      then show False using False \<open>x \<in> entry_set ?t\<close> by simp
    qed
    then have "?b = b" by (simp add: remove_listener_def)
    then show ?thesis using assms(1) by simp
  qed
qed

section \<open>Every reachable state\<close>

lemma bus_invD:
  assumes "bus_inv s"
  shows "bus_ok (bs_bus s)" "\<And>n th. bs_threads s n = Some th \<Longrightarrow> thread_ok (bs_bus s) th" "once_ok s"
  using assms by (auto simp: bus_inv_def)

lemma thread_ok_more:
  "thread_ok b th \<Longrightarrow> registered b \<subseteq> registered b' \<Longrightarrow> bu_withdrawn b \<subseteq> bu_withdrawn b' \<Longrightarrow>
   thread_ok b' th"
  by (auto simp: thread_ok_def split: bus_thread.splits)

text \<open>Steps of threads that neither claim nor count leave the calls of \<open>once\<close> entries alone.\<close>

lemma once_ok_same:
  assumes "once_ok s" and "registered (bs_bus s') = registered (bs_bus s)"
    and "bu_claimed (bs_bus s') = bu_claimed (bs_bus s)" and "bu_calls (bs_bus s') = bu_calls (bs_bus s)"
    and "\<And>i. claimers s' i = claimers s i"
  shows "once_ok s'"
  using assms by (simp add: once_ok_def)

lemma claimers_upd:
  "claimers (s\<lparr>bs_bus := b, bs_threads := (bs_threads s)(n := th)\<rparr>) i =
     (if \<exists>e pc. th = Some (Starting e pc) \<and> ev_id e = i \<and> pc \<in> {SWithdraw, SRemove, SCount}
      then insert n (claimers s i) else claimers s i - {n})"
  "claimers (s\<lparr>bs_threads := (bs_threads s)(n := th)\<rparr>) i =
     (if \<exists>e pc. th = Some (Starting e pc) \<and> ev_id e = i \<and> pc \<in> {SWithdraw, SRemove, SCount}
      then insert n (claimers s i) else claimers s i - {n})"
  "claimers (s\<lparr>bs_bus := b\<rparr>) i = claimers s i"
  by (auto simp: claimers_def)

lemma not_claimer:
  "bs_threads s n = None \<Longrightarrow> n \<notin> claimers s i"
  "bs_threads s n = Some (Withdrawing e) \<Longrightarrow> n \<notin> claimers s i"
  "bs_threads s n = Some (Starting e pc) \<Longrightarrow>
     n \<in> claimers s i \<longleftrightarrow> ev_id e = i \<and> pc \<in> {SWithdraw, SRemove, SCount}"
  by (auto simp: claimers_def)

lemma threads_kept:
  assumes "\<forall>m th. bs_threads s m = Some th \<longrightarrow> thread_ok (bs_bus s) th"
    and "registered (bs_bus s) \<subseteq> registered b" and "bu_withdrawn (bs_bus s) \<subseteq> bu_withdrawn b"
    and "\<forall>th. new = Some th \<longrightarrow> thread_ok b th"
  shows "\<forall>m th. ((bs_threads s)(n := new)) m = Some th \<longrightarrow> thread_ok b th"
  using assms thread_ok_more by (metis fun_upd_apply)

lemma once_unclaimed:
  assumes "once_ok s" and "e \<in> registered (bs_bus s)" and "ev_once e"
    and "ev_id e \<notin> bu_claimed (bs_bus s)"
  shows "bu_calls (bs_bus s) (ev_id e) = 0" "claimers s (ev_id e) = {}"
  using assms by (auto simp: once_ok_def once_counts_def)

lemma once_claimer:
  assumes "once_ok s" and "e \<in> registered (bs_bus s)" and "ev_once e" and "n \<in> claimers s (ev_id e)"
  shows "bu_calls (bs_bus s) (ev_id e) = 0" "claimers s (ev_id e) = {n}"
    "ev_id e \<in> bu_claimed (bs_bus s)"
proof -
  have "once_counts (ev_id e \<in> bu_claimed (bs_bus s)) (bu_calls (bs_bus s) (ev_id e))
      (claimers s (ev_id e))"
    using assms by (simp add: once_ok_def)
  then show "bu_calls (bs_bus s) (ev_id e) = 0" "claimers s (ev_id e) = {n}"
    "ev_id e \<in> bu_claimed (bs_bus s)"
    using assms(4) by (auto simp: once_counts_def split: if_splits)
qed

lemma start_step_inv:
  assumes inv: "bus_inv s" and th: "bs_threads s n = Some (Starting e pc)"
    and st: "start_step e pc (bs_bus s) = (pc', b)"
  shows "bus_inv (s\<lparr>bs_bus := b, bs_threads := (bs_threads s)(n \<mapsto> Starting e pc')\<rparr>)"
    (is "bus_inv ?s")
proof -
  let ?b = "bs_bus s"
  note I = bus_invD [OF inv]
  note T = I(2) [OF th, unfolded thread_ok_def bus_thread.case]
  have e: "e \<in> registered ?b" using T by blast
  have inj: "inj_on ev_id (registered ?b)" using I(1) by (simp add: bus_ok_def)
  have same: "x = e" if "x \<in> registered ?b" "ev_id x = ev_id e" for x
    using inj that e by (meson inj_onD)
  have ids: "bu_claimed ?b \<subseteq> ev_id ` registered ?b" "\<And>i. bu_calls ?b i \<noteq> 0 \<Longrightarrow> i \<in> ev_id ` registered ?b"
    using I(1) unfolding bus_ok_def by blast+
  have conclude: "bus_inv ?s"
    if "bus_ok b" and "registered b = registered ?b" and "bu_withdrawn ?b \<subseteq> bu_withdrawn b"
      and "thread_ok b (Starting e pc')" and "once_ok ?s"
  proof -
    have "\<forall>m th. ((bs_threads s)(n \<mapsto> Starting e pc')) m = Some th \<longrightarrow> thread_ok b th"
      by (rule threads_kept) (use that(2-4) I(2) in blast)+
    then show ?thesis unfolding bus_inv_def using that(1,5) by simp
  qed
  show ?thesis
  proof (cases pc)
    case SCheck
    then have "b = ?b" "pc' \<in> {SClaim, SCount, SDone False}" "pc' = SClaim \<longrightarrow> ev_once e"
      "pc' = SCount \<longrightarrow> \<not> ev_once e"
      using st by (auto split: if_splits)
    moreover have "once_ok ?s"
      using I(3) \<open>b = ?b\<close> \<open>pc' = SCount \<longrightarrow> \<not> ev_once e\<close> \<open>pc' \<in> _\<close> th SCheck same
      by (auto simp: once_ok_def claimers_upd not_claimer)
    ultimately show ?thesis using conclude I(1) e by (auto simp: thread_ok_def)
  next
    case SClaim
    show ?thesis
    proof (cases "ev_id e \<in> bu_claimed ?b")
      case True
      then have eq: "b = ?b" "pc' = SDone False" using st SClaim by auto
      have "once_ok ?s"
        by (rule once_ok_same [OF I(3)]) (use eq th SClaim in \<open>auto simp: claimers_upd not_claimer\<close>)
      then show ?thesis using conclude I(1) e eq by (simp add: thread_ok_def)
    next
      case False
      then have eq: "b = claim_entry e ?b" "pc' = SWithdraw" using st SClaim by auto
      have once: "ev_once e" using T SClaim by simp
      note U = once_unclaimed [OF I(3) e once False]
      have "once_ok ?s"
        unfolding once_ok_def
      proof (intro ballI impI)
        fix x assume x: "x \<in> registered (bs_bus ?s)" "ev_once x"
        then have xr: "x \<in> registered ?b" by (simp add: eq claim_entry_def registered_def)
        show "once_counts (ev_id x \<in> bu_claimed (bs_bus ?s)) (bu_calls (bs_bus ?s) (ev_id x))
            (claimers ?s (ev_id x))"
        proof (cases "x = e")
          case True
          then show ?thesis using U by (auto simp: eq claim_entry_def claimers_upd once_counts_def)
        next
          case False
          then have "ev_id x \<noteq> ev_id e" using same xr by blast
          then show ?thesis
            using I(3) xr x(2) th SClaim
            by (auto simp: once_ok_def eq claim_entry_def claimers_upd not_claimer)
        qed
      qed
      moreover have "bus_ok b"
        by (rule bus_ok_fewer [OF I(1)]) (use ids e in \<open>auto simp: eq claim_entry_def\<close>)
      ultimately show ?thesis
        using conclude e once by (simp add: eq claim_entry_def thread_ok_def registered_def)
    qed
  next
    case SWithdraw
    then have eq: "b = flag_withdrawn e ?b" "pc' = SRemove" using st by auto
    have "bus_ok b"
      by (rule bus_ok_fewer [OF I(1)]) (use ids in \<open>auto simp: eq flag_withdrawn_def\<close>)
    moreover have "once_ok ?s"
      by (rule once_ok_same [OF I(3)])
        (use eq th SWithdraw in \<open>auto simp: claimers_upd not_claimer flag_withdrawn_def registered_def\<close>)
    ultimately show ?thesis
      using conclude e T SWithdraw by (auto simp: eq flag_withdrawn_def thread_ok_def registered_def)
  next
    case SRemove
    then have eq: "b = remove_listener e ?b" "pc' = SCount" using st by auto
    have w: "ev_id e \<in> bu_withdrawn ?b" using T SRemove by simp
    note R = remove_result [OF I(1) e w]
    have "once_ok ?s"
      by (rule once_ok_same [OF I(3)])
        (use eq th SRemove R in \<open>auto simp: claimers_upd not_claimer\<close>)
    then show ?thesis using conclude e R by (simp add: eq thread_ok_def)
  next
    case SCount
    then have eq: "b = count_call e ?b" "pc' = SDone True" using st by auto
    have r: "registered b = registered ?b" by (simp add: eq count_call_def registered_def)
    have "i \<in> ev_id ` registered ?b" if "bu_calls b i \<noteq> 0" for i
      using that ids(2) [of i] imageI [OF e, of ev_id]
      by (cases "i = ev_id e") (simp_all add: eq count_call_def)
    then have "bus_ok b"
      by (intro bus_ok_fewer [OF I(1)]) (use ids(1) in \<open>simp_all add: eq count_call_def\<close>)
    moreover have "once_ok ?s"
      unfolding once_ok_def
    proof (intro ballI impI)
      fix x assume x: "x \<in> registered (bs_bus ?s)" "ev_once x"
      then have xr: "x \<in> registered ?b" using r by simp
      show "once_counts (ev_id x \<in> bu_claimed (bs_bus ?s)) (bu_calls (bs_bus ?s) (ev_id x))
          (claimers ?s (ev_id x))"
      proof (cases "x = e")
        case True
        have "n \<in> claimers s (ev_id e)" using th SCount by (simp add: not_claimer)
        note C = once_claimer [OF I(3) e _ this]
        show ?thesis using True C x(2) by (auto simp: eq count_call_def claimers_upd once_counts_def)
      next
        case False
        then have "ev_id x \<noteq> ev_id e" using same xr by blast
        then show ?thesis
          using I(3) xr x(2) th SCount
          by (auto simp: once_ok_def eq count_call_def claimers_upd not_claimer)
      qed
    qed
    ultimately show ?thesis
      using conclude e r by (simp add: eq count_call_def thread_ok_def)
  next
    case (SDone r)
    then have eq: "b = ?b" "pc' = SDone r" using st by auto
    have "once_ok ?s"
      by (rule once_ok_same [OF I(3)]) (use eq th SDone in \<open>auto simp: claimers_upd not_claimer\<close>)
    then show ?thesis using conclude I(1) e eq by (simp add: thread_ok_def)
  qed
qed

lemma table_step_ok:
  assumes "bus_ok b" and "table_ok t" and "shared_ok (entry_live b) t"
    and "entry_set t = entry_set (bu_table b)" and "t_next_id t = t_next_id (bu_table b)"
  shows "bus_ok (b\<lparr>bu_table := t\<rparr>)"
proof -
  have "entry_live (b\<lparr>bu_table := t\<rparr>) = entry_live b" "registered (b\<lparr>bu_table := t\<rparr>) = registered b"
    by (simp_all add: entry_live_def registered_def fun_eq_iff)
  then show ?thesis using assms by (simp add: bus_ok_def)
qed

lemma shared_list_fields [simp]:
  "entry_set (snd (shared_list live n t)) = entry_set t"
  "t_next_id (snd (shared_list live n t)) = t_next_id t"
  "entry_set (let_go n t) = entry_set t" "t_next_id (let_go n t) = t_next_id t"
  by (simp_all add: shared_list_def build_shared_def Let_def let_go_def entry_set_def split: option.split)

lemma bus_step_inv: "bus_step s t \<Longrightarrow> bus_inv s \<Longrightarrow> bus_inv t"
proof (induction rule: bus_step.induct)
  case (registers lo s e b)
  note I = bus_invD [OF registers.prems] and R = register_result [OF registers.hyps]
  note R = R [OF I(1)]
  have calls: "bu_calls (bs_bus s) (ev_id e) = 0" "ev_id e \<notin> bu_claimed (bs_bus s)"
    using I(1) R(4) unfolding bus_ok_def by blast+
  have cl: "claimers s (ev_id e) = {}"
  proof (rule ccontr)
    assume "claimers s (ev_id e) \<noteq> {}"
    then obtain n x pc where x: "bs_threads s n = Some (Starting x pc)" "ev_id x = ev_id e"
      by (auto simp: claimers_def)
    then have "x \<in> registered (bs_bus s)" using I(2) [OF x(1)] by (simp add: thread_ok_def)
    then show False using R(4) x(2) by (metis image_eqI)
  qed
  have "thread_ok b th" if "bs_threads s n = Some th" for n th
    using thread_ok_more [OF I(2) [OF that]] R by blast
  then show ?case
    using R I(3) calls cl by (simp add: bus_inv_def once_ok_def claimers_upd) (simp add: once_counts_def)
next
  case (generation_ends s ids)
  note I = bus_invD [OF generation_ends.prems]
  let ?b = "(bs_bus s)\<lparr>bu_ended := bu_ended (bs_bus s) \<union> ids\<rparr>"
  have r: "registered ?b = registered (bs_bus s)" by (simp add: registered_def)
  have "bus_ok ?b"
    by (rule bus_ok_fewer [OF I(1)]) (use I(1) in \<open>auto simp: bus_ok_def\<close>)
  moreover have "thread_ok ?b th" if "bs_threads s n = Some th" for n th
    using thread_ok_more [OF I(2) [OF that]] r by simp
  ultimately show ?case using I(3) r by (simp add: bus_inv_def once_ok_def claimers_upd)
next
  case (selects s name)
  note I = bus_invD [OF selects.prems]
  let ?b = "(bs_bus s)\<lparr>bu_table := snd (shared_list (entry_live (bs_bus s)) name (bu_table (bs_bus s)))\<rparr>"
  have r: "registered ?b = registered (bs_bus s)" by (simp add: registered_def)
  have "bus_ok ?b"
    by (rule table_step_ok [OF I(1)])
      (use I(1) in \<open>auto simp: bus_ok_def intro: shared_list_ok(1)\<close>)
  moreover have "thread_ok ?b th" if "bs_threads s n = Some th" for n th
    using thread_ok_more [OF I(2) [OF that]] r by simp
  ultimately show ?case using I(3) r by (simp add: bus_inv_def once_ok_def claimers_upd)
next
  case (lets_go s name)
  note I = bus_invD [OF lets_go.prems]
  let ?b = "(bs_bus s)\<lparr>bu_table := let_go name (bu_table (bs_bus s))\<rparr>"
  have r: "registered ?b = registered (bs_bus s)" by (simp add: registered_def)
  have "bus_ok ?b"
    by (rule table_step_ok [OF I(1)]) (use I(1) in \<open>auto simp: bus_ok_def intro: let_go_ok\<close>)
  moreover have "thread_ok ?b th" if "bs_threads s n = Some th" for n th
    using thread_ok_more [OF I(2) [OF that]] r by simp
  ultimately show ?case using I(3) r by (simp add: bus_inv_def once_ok_def claimers_upd)
next
  case (start_begins e s i)
  note I = bus_invD [OF start_begins.prems]
  have "once_ok (s\<lparr>bs_threads := (bs_threads s)(i \<mapsto> Starting e SCheck)\<rparr>)"
    by (rule once_ok_same [OF I(3)]) (use start_begins in \<open>auto simp: claimers_upd not_claimer\<close>)
  then show ?case
    using I start_begins.hyps by (auto simp: bus_inv_def thread_ok_def)
next
  case (start_goes s i e pc pc' b)
  then show ?case using start_step_inv by blast
next
  case (start_ends s i e r)
  note I = bus_invD [OF start_ends.prems]
  have "once_ok (s\<lparr>bs_threads := (bs_threads s)(i := None)\<rparr>)"
    by (rule once_ok_same [OF I(3)]) (use start_ends in \<open>auto simp: claimers_upd not_claimer\<close>)
  then show ?case using I by (auto simp: bus_inv_def)
next
  case (withdraw_begins e s i)
  note I = bus_invD [OF withdraw_begins.prems]
  let ?b = "flag_withdrawn e (bs_bus s)"
  have r: "registered ?b = registered (bs_bus s)" by (simp add: registered_def flag_withdrawn_def)
  have "bus_ok ?b"
    by (rule bus_ok_fewer [OF I(1)]) (use I(1) in \<open>auto simp: bus_ok_def flag_withdrawn_def\<close>)
  moreover have "once_ok (s\<lparr>bs_bus := ?b, bs_threads := (bs_threads s)(i \<mapsto> Withdrawing e)\<rparr>)"
    by (rule once_ok_same [OF I(3)])
      (use withdraw_begins r in \<open>auto simp: claimers_upd not_claimer flag_withdrawn_def\<close>)
  moreover have "thread_ok ?b (Withdrawing e)"
    using withdraw_begins.hyps r by (simp add: thread_ok_def flag_withdrawn_def)
  ultimately show ?case
    using threads_kept [of s ?b "Some (Withdrawing e)" i] I(2) r
    by (simp add: bus_inv_def flag_withdrawn_def subset_insertI)
next
  case (withdraw_ends s i e)
  note I = bus_invD [OF withdraw_ends.prems]
  have e: "e \<in> registered (bs_bus s)" "ev_id e \<in> bu_withdrawn (bs_bus s)"
    using I(2) [OF withdraw_ends.hyps] by (simp_all add: thread_ok_def)
  note R = remove_result [OF I(1) e]
  have "once_ok (s\<lparr>bs_bus := remove_listener e (bs_bus s), bs_threads := (bs_threads s)(i := None)\<rparr>)"
    by (rule once_ok_same [OF I(3)])
      (use withdraw_ends R in \<open>auto simp: claimers_upd not_claimer\<close>)
  then show ?case
    using threads_kept [of s "remove_listener e (bs_bus s)" None i] I(2) R
    by (simp add: bus_inv_def)
qed

lemma bus_inv_init: "bus_inv bus_init"
  by (simp add: bus_inv_def bus_ok_def once_ok_def bus_init_def empty_bus_def table_ok_empty
      shared_ok_empty registered_def entry_set_def) (simp add: empty_table_def)

lemma bus_reachable_inv: "bus_reachable s \<Longrightarrow> bus_inv s"
  by (induction rule: bus_reachable.induct) (auto intro: bus_inv_init bus_step_inv)

end
