(* ===== verification/Event_Dispatch.thy ===== *)
theory Event_Dispatch
  imports Event_Properties "HOL-Library.Code_Target_Nat"
begin

text \<open>
  The properties of the event bus: those of every reachable state, and what
  the loops of the dispatch modes compute for given listeners.
\<close>

section \<open>Listeners on a bus\<close>

text \<open>Three listeners of the name \<open>tick\<close>: a first one, one by prefix, one prepended.\<close>

definition demo_opts :: "string \<Rightarrow> bool \<Rightarrow> bool \<Rightarrow> bool \<Rightarrow> listen_opts" where
  "demo_opts name prefix once prepend =
     \<lparr>lo_name = name, lo_prefix = prefix, lo_once = once, lo_prepend = prepend, lo_global = False,
      lo_listener = ''plugin'', lo_body = BodySync\<rparr>"

fun listen_all :: "listen_opts list \<Rightarrow> bus_sys \<Rightarrow> bus_sys" where
  "listen_all [] s = s"
| "listen_all (lo # los) s = (case register_listener lo (bs_bus s) of
     None \<Rightarrow> s
   | Some (e, b) \<Rightarrow> listen_all los (s\<lparr>bs_bus := b\<rparr>))"

lemma listen_all_reachable: "bus_reachable s \<Longrightarrow> bus_reachable (listen_all los s)"
proof (induction los arbitrary: s)
  case (Cons lo los)
  show ?case
  proof (cases "register_listener lo (bs_bus s)")
    case None
    then show ?thesis using Cons.prems by simp
  next
    case (Some r)
    obtain e b where r: "r = (e, b)" by (cases r)
    have "bus_reachable (s\<lparr>bs_bus := b\<rparr>)"
      using br_step [OF Cons.prems registers] Some r by simp
    then show ?thesis using Cons.IH Some r by simp
  qed
qed simp

definition ticking :: bus_sys where
  "ticking = listen_all [demo_opts ''tick'' False True False, demo_opts ''ti'' True False False,
     demo_opts ''tick'' False False True] bus_init"

lemma ticking_reachable: "bus_reachable ticking"
  unfolding ticking_def by (rule listen_all_reachable [OF br_init])

text \<open>An emit was given its list; then two more listeners came.\<close>

definition shared_tick :: bus_sys where
  "shared_tick = listen_all [demo_opts ''tick'' False False False, demo_opts ''tick'' False False True]
     (ticking\<lparr>bs_bus := (bs_bus ticking)\<lparr>bu_table :=
        snd (shared_list (entry_live (bs_bus ticking)) ''tick'' (bu_table (bs_bus ticking)))\<rparr>\<rparr>)"

lemma shared_tick_reachable: "bus_reachable shared_tick"
  unfolding shared_tick_def
  by (rule listen_all_reachable, rule br_step [OF ticking_reachable selects])

section \<open>Selection\<close>

text \<open>
  C16. A dispatch selects, in registration order (prepended listeners first,
  the newest first), exactly the live listeners of its name, exact or by
  prefix; and a new listener comes after all others, or before them when it
  is prepended.
\<close>

theorem selection_is_registration_order:
  assumes "bus_reachable s"
  shows "select (entry_live (bs_bus s)) name (bu_table (bs_bus s)) =
      filter (\<lambda>e. listens name e \<and> entry_live (bs_bus s) e) (all_entries (bu_table (bs_bus s))) \<and>
    (\<forall>lo e b. register_listener lo (bs_bus s) = Some (e, b) \<longrightarrow>
       all_entries (bu_table b) = (if lo_prepend lo then e # all_entries (bu_table (bs_bus s))
                                   else all_entries (bu_table (bs_bus s)) @ [e]))"
proof -
  let ?t = "bu_table (bs_bus s)"
  have ok: "bus_ok (bs_bus s)" "table_ok ?t"
    using bus_reachable_inv [OF assms] by (simp_all add: bus_inv_def bus_ok_def)
  have "all_entries (bu_table b) = (if lo_prepend lo then e # all_entries ?t else all_entries ?t @ [e])"
    if r: "register_listener lo (bs_bus s) = Some (e, b)" for lo e b
  proof (rule sorted_positions_unique)
    have ok': "table_ok (bu_table b)" using register_result(1) [OF r ok(1)] by (simp add: bus_ok_def)
    have sets: "entry_set (bu_table b) = insert e (entry_set ?t)"
    proof -
      have "bu_changes b = bu_changes (bs_bus s) @ [ChAdded e]"
        using r by (auto simp: register_listener_def Let_def split_beta split: option.splits)
      then show ?thesis
        using register_result(1) [OF r ok(1)] ok(1) by (simp add: bus_ok_def)
    qed
    have pos: "ev_position e = (if lo_prepend lo then t_front ?t - 1 else t_back ?t + 1)"
      using r by (auto simp: register_listener_def next_id_def next_position_def Let_def
          split: option.splits if_splits)
    have "if lo_prepend lo then ev_position e < ev_position x else ev_position x < ev_position e"
      if "x \<in> set (all_entries ?t)" for x
      using table_okD(3) [OF ok(2), of x] that pos by (auto simp: all_entries_ok(2) [OF ok(2)])
    then show "sorted_positions (if lo_prepend lo then e # all_entries ?t else all_entries ?t @ [e])"
      using all_entries_ok(1) [OF ok(2)]
      by (auto simp: sorted_positions_def sorted_wrt_append)
    show "sorted_positions (all_entries (bu_table b))" by (rule all_entries_ok(1) [OF ok'])
    show "set (all_entries (bu_table b)) =
        set (if lo_prepend lo then e # all_entries ?t else all_entries ?t @ [e])"
      using all_entries_ok(2) [OF ok'] all_entries_ok(2) [OF ok(2)] sets by simp
  qed
  then show ?thesis using select_spec [OF ok(2)] by blast
qed

theorem selection_is_registration_order_witness:
  "map ev_id (filter (\<lambda>e. listens ''tick'' e \<and> entry_live (bs_bus ticking) e)
     (all_entries (bu_table (bs_bus ticking)))) = [3, 1, 2]"
proof -
  have "map ev_id (select (entry_live (bs_bus ticking)) ''tick'' (bu_table (bs_bus ticking))) = [3, 1, 2]"
    by code_simp
  then show ?thesis using selection_is_registration_order [OF ticking_reachable, of "''tick''"] by simp
qed

text \<open>
  A watcher that heard every change of the table, in the order they
  were queued, has exactly the table's entries.
\<close>

theorem watchers_follow_the_table:
  assumes "bus_reachable s"
  shows "heard (bu_changes (bs_bus s)) = set (all_entries (bu_table (bs_bus s)))"
  using bus_reachable_inv [OF assms] by (simp add: bus_inv_def bus_ok_def all_entries_ok(2))

theorem watchers_follow_the_table_witness:
  "ev_id ` heard (bu_changes (bs_bus ticking)) = {1, 2, 3}"
proof -
  have "map ev_id (all_entries (bu_table (bs_bus ticking))) = [3, 1, 2]" by code_simp
  then have "ev_id ` set (all_entries (bu_table (bs_bus ticking))) = {3, 1, 2}"
    by (metis list.set_map list.simps(15) set_empty2)
  then show ?thesis using watchers_follow_the_table [OF ticking_reachable] by auto
qed

section \<open>Calls\<close>

text \<open>
  C15. A \<open>once\<close> listener is called at most once, however many calls of it
  start at the same time and whatever is registered and withdrawn meanwhile;
  once it is claimed and no thread is between the claim and the count, it was
  called exactly once.
\<close>

theorem once_is_once:
  assumes "bus_reachable s" and "e \<in> registered (bs_bus s)" and "ev_once e"
  shows "bu_calls (bs_bus s) (ev_id e) \<le> 1 \<and>
    (bu_calls (bs_bus s) (ev_id e) = 1 \<longrightarrow> ev_id e \<in> bu_claimed (bs_bus s) \<and> claimers s (ev_id e) = {})"
  using bus_reachable_inv [OF assms(1)] assms(2,3)
  by (auto simp: bus_inv_def once_ok_def once_counts_def split: if_splits)

text \<open>Two threads start a call of the first listener of \<open>ticking\<close>; both see it live.\<close>

definition first_listener :: entry where
  "first_listener = \<lparr>ev_id = 1, ev_position = 1, ev_name = ''tick'', ev_prefix = False, ev_once = True,
     ev_prepend = False, ev_global = False, ev_listener = ''plugin'', ev_body = BodySync\<rparr>"

definition run_start :: "entry \<Rightarrow> nat \<Rightarrow> bus_sys \<Rightarrow> bus_sys" where
  "run_start e n s = (case bs_threads s n of
     None \<Rightarrow> s\<lparr>bs_threads := (bs_threads s)(n \<mapsto> Starting e SCheck)\<rparr>
   | Some (Starting x pc) \<Rightarrow>
       (case start_step x pc (bs_bus s) of
          (pc', b) \<Rightarrow> s\<lparr>bs_bus := b, bs_threads := (bs_threads s)(n \<mapsto> Starting x pc')\<rparr>)
   | Some (Withdrawing x) \<Rightarrow> s)"

fun run_starts :: "entry \<Rightarrow> nat list \<Rightarrow> bus_sys \<Rightarrow> bus_sys" where
  "run_starts e [] s = s"
| "run_starts e (n # ns) s = run_starts e ns (run_start e n s)"

lemma registered_mono: "bus_step s t \<Longrightarrow> registered (bs_bus s) \<subseteq> registered (bs_bus t)"
proof (induction rule: bus_step.induct)
  case (registers lo s e b)
  then show ?case
    by (auto simp: registered_def register_listener_def Let_def split_beta split: option.splits)
next
  case (start_goes s i e pc pc' b)
  then show ?case
    by (cases pc) (auto simp: registered_def remove_listener_def claim_entry_def flag_withdrawn_def
        count_call_def split_beta split: if_splits)
qed (auto simp: registered_def remove_listener_def flag_withdrawn_def split_beta)

lemma run_starts_reachable:
  "bus_reachable s \<Longrightarrow> e \<in> registered (bs_bus s) \<Longrightarrow>
   bus_reachable (run_starts e ns s) \<and> e \<in> registered (bs_bus (run_starts e ns s))"
proof (induction ns arbitrary: s)
  case (Cons n ns)
  have "bus_step s (run_start e n s) \<or> run_start e n s = s"
  proof (cases "bs_threads s n")
    case None
    then show ?thesis using start_begins [OF Cons.prems(2) None] by (simp add: run_start_def)
  next
    case (Some th)
    show ?thesis
    proof (cases th)
      case (Starting x pc)
      obtain pc' b where "start_step x pc (bs_bus s) = (pc', b)" by (cases "start_step x pc (bs_bus s)")
      then show ?thesis using start_goes [of s n x pc pc' b] Some Starting by (simp add: run_start_def)
    qed (simp add: run_start_def Some)
  qed
  then have "bus_reachable (run_start e n s)" "e \<in> registered (bs_bus (run_start e n s))"
    using Cons.prems br_step [OF Cons.prems(1)] registered_mono [of s "run_start e n s"] by auto
  then show ?case using Cons.IH by simp
qed simp

theorem once_is_once_witness:
  "(let s = run_starts first_listener [0, 1, 0, 1, 0, 1, 0, 0, 0, 1] ticking in
     bs_threads s 0 = Some (Starting first_listener (SDone True)) \<and>
     bs_threads s 1 = Some (Starting first_listener (SDone False)) \<and>
     bu_calls (bs_bus s) 1 = 1 \<and> 1 \<in> bu_claimed (bs_bus s))"
proof -
  define s where "s = run_starts first_listener [0, 1, 0, 1, 0, 1, 0, 0, 0, 1] ticking"
  have "first_listener \<in> set (all_entries (bu_table (bs_bus ticking)))" by code_simp
  then have r: "first_listener \<in> registered (bs_bus ticking)"
    using bus_reachable_inv [OF ticking_reachable]
    by (auto simp: bus_inv_def bus_ok_def all_entries_ok(2))
  have c: "bs_threads s 0 = Some (Starting first_listener (SDone True)) \<and>
      bs_threads s 1 = Some (Starting first_listener (SDone False)) \<and> bu_calls (bs_bus s) 1 = 1"
    unfolding s_def by code_simp
  have f: "ev_once first_listener" "ev_id first_listener = 1" by (simp_all add: first_listener_def)
  have "bus_reachable s" "first_listener \<in> registered (bs_bus s)"
    using run_starts_reachable [OF ticking_reachable r] by (simp_all only: s_def)
  from once_is_once [OF this f(1)] have "1 \<in> bu_claimed (bs_bus s)"
    using c unfolding f(2) by blast
  then show ?thesis using c unfolding Let_def s_def [symmetric] by blast
qed

end
