(* ===== verification/Event_Modes.thy ===== *)
theory Event_Modes
  imports Event_Dispatch
begin

text \<open>
  What the loops of the dispatch modes compute: which listeners are called,
  with which result, for any user code or for user code that leaves the bus
  alone (\<open>quiet\<close>).
\<close>

section \<open>Starting a call\<close>

definition startable :: "bus \<Rightarrow> entry \<Rightarrow> bool" where
  "startable b e \<longleftrightarrow> entry_live b e \<and> (ev_once e \<longrightarrow> ev_id e \<notin> bu_claimed b)"

lemma fst_start [simp]: "fst (start e b) = startable b e"
  by (simp add: start_def startable_def)

lemma start_refused: "\<not> startable b e \<Longrightarrow> start e b = (False, b)"
  by (auto simp: start_def startable_def)

lemma start_cases: "start e b = (startable b e, snd (start e b))"
  by (rule prod_eqI) simp_all

lemma start_elsewhere: "ev_id x \<noteq> ev_id e \<Longrightarrow> startable (snd (start e b)) x = startable b x"
  by (auto simp: start_def startable_def entry_live_def count_call_def withdraw_def claim_entry_def
      flag_withdrawn_def remove_listener_def split_beta)

lemma start_keeps_rest:
  assumes "distinct (map ev_id (e # es))"
  shows "filter (startable (snd (start e b))) es = filter (startable b) es"
proof (rule filter_cong)
  fix x assume "x \<in> set es"
  then have "ev_id x \<noteq> ev_id e" using assms by (metis distinct.simps(2) image_eqI list.simps(9) set_map)
  then show "startable (snd (start e b)) x = startable b x" by (rule start_elsewhere)
qed simp

lemma start_sink [simp]: "bu_sink (snd (start e b)) = bu_sink b"
  by (auto simp: start_def count_call_def withdraw_def claim_entry_def flag_withdrawn_def
      remove_listener_def split_beta)

lemma start_withdrawn:
  "bu_withdrawn b \<subseteq> bu_withdrawn (snd (start e b))" "bu_ended (snd (start e b)) = bu_ended b"
  by (auto simp: start_def count_call_def withdraw_def claim_entry_def flag_withdrawn_def
      remove_listener_def split_beta)

text \<open>User code whose calls answer \<open>r e\<close> and leave the bus alone.\<close>

definition quiet :: "(entry \<Rightarrow> 'v outcome) \<Rightarrow> 'v call_fun" where
  "quiet r = (\<lambda>e b. (r e, b))"

section \<open>Serial and bail\<close>

lemma run_serial_append:
  "run_serial nr call (es @ fs) b = (case run_serial nr call es b of
     (Inr None, b1) \<Rightarrow> run_serial nr call fs b1 | r \<Rightarrow> r)"
  by (induction es arbitrary: b)
     (auto split: prod.split sum.split option.split bool.split)

definition decides :: "('v \<Rightarrow> bool) \<Rightarrow> 'v outcome \<Rightarrow> bool" where
  "decides nr r = (case r of Inl _ \<Rightarrow> True | Inr None \<Rightarrow> False | Inr (Some v) \<Rightarrow> \<not> nr v)"

lemma run_serial_step:
  "run_serial nr call (e # es) b =
     (if \<not> startable b e then run_serial nr call es b
      else if decides nr (fst (call e (snd (start e b)))) then call e (snd (start e b))
      else run_serial nr call es (snd (call e (snd (start e b)))))"
proof (cases "startable b e")
  case True
  then obtain b1 where st: "start e b = (True, b1)" using start_cases [of e b] by auto
  then have "run_serial nr call (e # es) b = (case call e (snd (start e b)) of
        (Inl err, b2) \<Rightarrow> (Inl err, b2)
      | (Inr (Some v), b2) \<Rightarrow> if nr v then run_serial nr call es b2 else (Inr (Some v), b2)
      | (Inr None, b2) \<Rightarrow> run_serial nr call es b2)"
    by simp
  then show ?thesis
    using True by (auto simp: decides_def split: prod.splits sum.splits option.splits)
qed (simp add: start_refused)

declare run_serial.simps(2) [simp del]

text \<open>
  A serial or bail dispatch without a result called every listener it
  could start; otherwise it ends with the first listener that answers with a
  value or an error: those before it were skipped or answered nothing, and
  result and bus are as that call left them, so no later listener was called.
\<close>

theorem first_answer_wins:
  "(let (r, b') = run_serial nr call es b in
     r = Inr None \<or>
     decides nr r \<and>
     (\<exists>pre e post b1. es = pre @ e # post \<and> run_serial nr call pre b = (Inr None, b1) \<and>
        startable b1 e \<and> call e (snd (start e b1)) = (r, b')))"
proof (induction es arbitrary: b)
  case (Cons e es)
  let ?c = "call e (snd (start e b))"
  show ?case
  proof (cases "startable b e \<and> decides nr (fst ?c)")
    case True
    then have "run_serial nr call (e # es) b = ?c" by (simp add: run_serial_step)
    then show ?thesis
      using True by (cases ?c) (auto simp: Let_def intro!: exI [of _ "[]"])
  next
    case False
    define b1 where "b1 = (if startable b e then snd ?c else b)"
    have s: "run_serial nr call (e # fs) b = run_serial nr call fs b1" for fs
      using False by (simp add: run_serial_step b1_def)
    obtain r b' where r: "run_serial nr call es b1 = (r, b')" by fastforce
    show ?thesis
    proof (cases "r = Inr None")
      case False
      then obtain pre x post b2 where "decides nr r" "es = pre @ x # post"
        "run_serial nr call (e # pre) b = (Inr None, b2)" "startable b2 x"
        "call x (snd (start x b2)) = (r, b')"
        using Cons.IH [of b1] r s by auto
      then show ?thesis
        using s r by (simp only: Let_def prod.case) (metis append_Cons)
    qed (simp add: s r)
  qed
qed simp

section \<open>Waterfall\<close>

text \<open>
  A listener of a waterfall answers itself, or hands on to the rest of its
  chain and makes its answer of the rest's; \<open>chain_value\<close> is what a chain of
  them answers.
\<close>

datatype 'v behaviour = Answers "'v outcome" | HandsOn "'v outcome \<Rightarrow> 'v outcome"

fun chain_value :: "(entry \<Rightarrow> 'v behaviour) \<Rightarrow> 'v outcome \<Rightarrow> entry list \<Rightarrow> 'v outcome" where
  "chain_value beh end_value [] = end_value"
| "chain_value beh end_value (e # es) = (case beh e of
     Answers r \<Rightarrow> r
   | HandsOn f \<Rightarrow> f (chain_value beh end_value es))"

definition behaves :: "(entry \<Rightarrow> 'v behaviour) \<Rightarrow> entry \<Rightarrow> 'v rest \<Rightarrow> bus \<Rightarrow> 'v outcome \<times> bus" where
  "behaves beh e rest b = (case beh e of
     Answers r \<Rightarrow> (r, b)
   | HandsOn f \<Rightarrow> (case rest b of (r, b1) \<Rightarrow> (f r, b1)))"

text \<open>The entries a chain reaches: up to the first that answers itself.\<close>

fun reached :: "(entry \<Rightarrow> 'v behaviour) \<Rightarrow> entry list \<Rightarrow> entry list" where
  "reached beh [] = []"
| "reached beh (e # es) = (case beh e of Answers _ \<Rightarrow> [e] | HandsOn _ \<Rightarrow> e # reached beh es)"

lemma start_calls: "startable b e \<Longrightarrow>
  bu_calls (snd (start e b)) = (bu_calls b)(ev_id e := Suc (bu_calls b (ev_id e)))"
  by (auto simp: start_def startable_def count_call_def withdraw_def claim_entry_def
      flag_withdrawn_def remove_listener_def split_beta)

text \<open>
  A waterfall answers what its chain of live listeners answers: each
  gets the rest as its \<open>next\<close>, withdrawn and claimed ones are skipped as if
  never selected, and exactly the listeners the chain reaches are called,
  each once.
\<close>

theorem waterfall_is_its_chain:
  assumes "distinct (map ev_id es)"
  shows "fst (run_waterfall (behaves beh) (\<lambda>b. (end_value, b)) es b) =
      chain_value beh end_value (filter (startable b) es) \<and>
    bu_calls (snd (run_waterfall (behaves beh) (\<lambda>b. (end_value, b)) es b)) =
      (\<lambda>i. bu_calls b i + (if i \<in> ev_id ` set (reached beh (filter (startable b) es)) then 1 else 0))"
  using assms
proof (induction es arbitrary: b)
  case (Cons e es)
  have d: "distinct (map ev_id es)" using Cons.prems by simp
  show ?case
  proof (cases "startable b e")
    case False
    then show ?thesis using Cons.IH [OF d] by (simp add: start_refused)
  next
    case True
    define b1 where "b1 = snd (start e b)"
    have st: "start e b = (True, b1)" using True start_cases [of e b] by (simp add: b1_def)
    have rest: "filter (startable b1) es = filter (startable b) es"
      unfolding b1_def by (rule start_keeps_rest [OF Cons.prems])
    have calls: "bu_calls b1 = (bu_calls b)(ev_id e := Suc (bu_calls b (ev_id e)))"
      unfolding b1_def by (rule start_calls [OF True])
    show ?thesis
    proof (cases "beh e")
      case (Answers r)
      then show ?thesis using True by (auto simp: st behaves_def calls fun_eq_iff)
    next
      case (HandsOn f)
      define ids where "ids = ev_id ` set (reached beh (filter (startable b) es))"
      have "set (reached beh xs) \<subseteq> set xs" for xs
        by (induction xs) (auto split: behaviour.split)
      then have "ids \<subseteq> ev_id ` set es" unfolding ids_def by fastforce
      then have fresh: "ev_id e \<notin> ids" using Cons.prems by auto
      obtain r b2 where rb: "run_waterfall (behaves beh) (\<lambda>b. (end_value, b)) es b1 = (r, b2)"
        by fastforce
      have "r = chain_value beh end_value (filter (startable b) es)"
        "bu_calls b2 = (\<lambda>i. bu_calls b1 i + (if i \<in> ids then 1 else 0))"
        using Cons.IH [OF d, of b1] rb unfolding rest ids_def by simp_all
      moreover have "run_waterfall (behaves beh) (\<lambda>b. (end_value, b)) (e # es) b = (f r, b2)"
        by (simp add: st) (simp add: behaves_def [of _ e] HandsOn rb)
      ultimately show ?thesis
        using fresh by (simp add: HandsOn True calls ids_def [symmetric] fun_eq_iff)
    qed
  qed
qed simp

section \<open>Parallel\<close>

text \<open>
  The result of a parallel dispatch does not depend on the order in
  which its calls end: it succeeds when every call did, and otherwise names
  the errors in registration order.
\<close>

theorem parallel_order_is_registration:
  assumes "distinct (map fst results)" and "mset results = mset arrived"
    and "sorted (map fst results)"
  shows "parallel_result name arrived =
    (if \<forall>(_, r) \<in> set results. \<not> isl r then Inr ()
     else Inl (error_new (ListenersFailed name
            (map (Core_Types.shared \<circ> projl \<circ> snd) (filter (isl \<circ> snd) results))) False))"
proof -
  have "inj_on fst (set results)" using assms(1) by (simp add: distinct_map)
  then have "sort_key fst arrived = results"
    using sort_key_inj_key_eq [of arrived results fst] assms
    by (metis set_mset_mset)
  moreover have "List.map_filter (\<lambda>(_, r). case r of Inl e \<Rightarrow> Some (Core_Types.shared e) | Inr _ \<Rightarrow> None) rs =
      map (Core_Types.shared \<circ> projl \<circ> snd) (filter (isl \<circ> snd) rs)" for rs :: "(nat \<times> 'a outcome) list"
    by (induction rs) (auto simp: map_filter_simps split: sum.split)
  moreover have "(filter (isl \<circ> snd) results = []) = (\<forall>(_, r) \<in> set results. \<not> isl r)"
    by (auto simp: filter_empty_conv)
  ultimately show ?thesis by (simp add: parallel_result_def)
qed

section \<open>Filters\<close>

lemma keep_answered_map:
  "keep_answered es (map keep (candidates es)) = filter (\<lambda>e. ev_global e \<or> keep e) es"
  by (induction es) (auto simp: candidates_def)

lemma filter_each_ok: "filter_each (Inr \<circ> keep) es = Inr (filter (\<lambda>e. ev_global e \<or> keep e) es)"
  by (induction es) auto

text \<open>
  A batch filter that answers for each candidate what a per-listener
  predicate says keeps the same listeners, in the same order, every global
  one among them; and one that answers another number of times is an error.
\<close>

theorem batch_filter_is_each_filter:
  "filter_any name es (Some (Batch (\<lambda>cs. Ready (Inr (map keep cs))))) =
     filter_any name es (Some (Each (Inr \<circ> keep))) \<and>
   filter_sync name es (Some (Batch (\<lambda>cs. Ready (Inr (map keep cs))))) =
     Inr (filter (\<lambda>e. ev_global e \<or> keep e) es) \<and>
   (isl (apply_answers name es as) \<longleftrightarrow> length as \<noteq> length (candidates es))"
  by (simp add: filter_any_def filter_sync_def answered_by_def apply_answers_def
      keep_answered_map filter_each_ok)

section \<open>Emits\<close>

text \<open>User code never brings a listener back: a withdrawal and an end are final.\<close>

definition never_revives :: "'v call_fun \<Rightarrow> bool" where
  "never_revives call \<longleftrightarrow> (\<forall>e b. bu_withdrawn b \<subseteq> bu_withdrawn (snd (call e b)) \<and>
     bu_ended b \<subseteq> bu_ended (snd (call e b)))"

lemma run_emit_skips:
  assumes "never_revives call" and "bu_withdrawn b0 \<subseteq> bu_withdrawn b" and "bu_ended b0 \<subseteq> bu_ended b"
  shows "run_emit name call (filter (entry_live b0) es) b = run_emit name call es b"
  using assms(2,3)
proof (induction es arbitrary: b)
  case (Cons e es)
  show ?case
  proof (cases "startable b e")
    case False
    then show ?thesis using Cons by (simp add: start_refused)
  next
    case True
    then have live: "entry_live b0 e" using Cons.prems by (auto simp: startable_def entry_live_def)
    obtain b1 where st: "start e b = (True, b1)" using True start_cases [of e b] by auto
    obtain r b2 where c: "call e b1 = (r, b2)" by fastforce
    define b3 where "b3 = (case r of Inl err \<Rightarrow> report_listener name e err b2 | Inr _ \<Rightarrow> b2)"
    have "bu_withdrawn b1 \<subseteq> bu_withdrawn b2" "bu_ended b1 \<subseteq> bu_ended b2"
      using assms(1) c unfolding never_revives_def by (metis snd_conv)+
    then have "bu_withdrawn b0 \<subseteq> bu_withdrawn b3" "bu_ended b0 \<subseteq> bu_ended b3"
      using Cons.prems start_withdrawn(1) [of b e] start_withdrawn(2) [of e b] st
      by (auto simp: b3_def report_listener_def split: sum.split)
    from Cons.IH [OF this] show ?thesis
      by (cases r) (simp_all add: live st c b3_def)
  qed
qed simp

lemma emit_selects:
  assumes "bus_reachable s" and "never_revives call"
  shows "emit name call (bs_bus s) =
    run_emit name call (select (entry_live (bs_bus s)) name (bu_table (bs_bus s)))
      ((bs_bus s)\<lparr>bu_table := snd (shared_list (entry_live (bs_bus s)) name (bu_table (bs_bus s)))\<rparr>)"
proof -
  let ?b = "bs_bus s"
  let ?sh = "shared_list (entry_live ?b) name (bu_table ?b)"
  let ?b1 = "?b\<lparr>bu_table := snd ?sh\<rparr>"
  have sel: "(case fst ?sh of None \<Rightarrow> [] | Some s \<Rightarrow> filter (entry_live ?b) (to_vec s)) =
      select (entry_live ?b) name (bu_table ?b)"
    using bus_reachable_inv [OF assms(1)] shared_list_ok(2) [of "bu_table ?b" "entry_live ?b" name]
    by (simp add: bus_inv_def bus_ok_def)
  have skip: "run_emit name call (filter (entry_live ?b) es) ?b1 = run_emit name call es ?b1" for es
    by (rule run_emit_skips [OF assms(2)]) simp_all
  show ?thesis
    unfolding emit_def Let_def split_beta sel [symmetric]
    by (cases "fst ?sh") (simp_all add: skip)
qed

text \<open>
  C17. An emit over the list its name shares does what it would do over a
  fresh selection, whatever the listeners do meanwhile (register, withdraw,
  end generations), so long as they do not revive one.
\<close>

theorem emit_over_shared_list:
  assumes "bus_reachable s" and "never_revives call"
  shows "emit name call (bs_bus s) =
    run_emit name call (select (entry_live (bs_bus s)) name (bu_table (bs_bus s)))
      ((bs_bus s)\<lparr>bu_table := snd (shared_list (entry_live (bs_bus s)) name (bu_table (bs_bus s)))\<rparr>)"
  by (rule emit_selects [OF assms])

lemma emit_quiet:
  assumes "distinct (map ev_id es)"
  shows "bu_sink (run_emit name (quiet r) es b) = bu_sink b @
      map (\<lambda>e. ListenerFailed name (ev_listener e) (Core_Types.shared (projl (r e))))
        (filter (isl \<circ> r) (filter (startable b) es)) \<and>
    bu_calls (run_emit name (quiet r) es b) =
      (\<lambda>i. bu_calls b i + (if i \<in> ev_id ` set (filter (startable b) es) then 1 else 0))"
  using assms
proof (induction es arbitrary: b)
  case (Cons e es)
  have d: "distinct (map ev_id es)" using Cons.prems by simp
  show ?case
  proof (cases "startable b e")
    case False
    then show ?thesis using Cons.IH [OF d] by (simp add: start_refused)
  next
    case True
    define b1 where "b1 = snd (start e b)"
    define b2 where "b2 = (case r e of Inl err \<Rightarrow> report_listener name e err b1 | Inr _ \<Rightarrow> b1)"
    have st: "start e b = (True, b1)" using True start_cases [of e b] by (simp add: b1_def)
    have "startable b2 x = startable b1 x" for x
      by (simp add: b2_def report_listener_def startable_def entry_live_def split: sum.split)
    then have rest: "filter (startable b2) es = filter (startable b) es"
      using start_keeps_rest [OF Cons.prems, of b] by (simp add: b1_def cong: filter_cong)
    have calls: "bu_calls b2 = (bu_calls b)(ev_id e := Suc (bu_calls b (ev_id e)))"
      using start_calls [OF True] by (simp add: b2_def b1_def report_listener_def split: sum.split)
    have sink: "bu_sink b2 = bu_sink b @ (if isl (r e)
        then [ListenerFailed name (ev_listener e) (Core_Types.shared (projl (r e)))] else [])"
      by (simp add: b2_def b1_def report_listener_def split: sum.split)
    have run: "run_emit name (quiet r) (e # es) b = run_emit name (quiet r) es b2"
      by (simp add: st quiet_def b2_def split: sum.split)
    have fresh: "ev_id e \<notin> ev_id ` set es" using Cons.prems by simp
    show ?thesis
      unfolding run using Cons.IH [OF d, of b2] fresh True
      by (auto simp: rest calls sink fun_eq_iff)
  qed
qed simp

text \<open>
  An emit calls every live listener of its name once, whatever the
  others answer, and reports exactly the failures; for calls that end at
  their first poll, in registration order.
\<close>

theorem emit_reaches_everyone:
  assumes "bus_reachable s"
  shows "let b = bs_bus s;
      called = filter (startable b) (select (entry_live b) name (bu_table b));
      b' = emit name (quiet r) b
    in bu_sink b' = bu_sink b @
         map (\<lambda>e. ListenerFailed name (ev_listener e) (Core_Types.shared (projl (r e))))
           (filter (isl \<circ> r) called) \<and>
       bu_calls b' = (\<lambda>i. bu_calls b i + (if i \<in> ev_id ` set called then 1 else 0))"
proof -
  let ?b = "bs_bus s"
  let ?es = "select (entry_live ?b) name (bu_table ?b)"
  let ?b1 = "?b\<lparr>bu_table := snd (shared_list (entry_live ?b) name (bu_table ?b))\<rparr>"
  have ok: "bus_ok ?b" using bus_reachable_inv [OF assms] by (simp add: bus_inv_def)
  then have t: "table_ok (bu_table ?b)" and inj: "inj_on ev_id (registered ?b)"
    and sub: "entry_set (bu_table ?b) \<subseteq> registered ?b" by (simp_all add: bus_ok_def)
  have "sorted_positions ?es" "set ?es \<subseteq> entry_set (bu_table ?b)"
    using select_spec [OF t, of "entry_live ?b" name] all_entries_ok [OF t] by auto
  then have "distinct (map ev_id ?es)"
    using sorted_positions_distinct inj_on_subset [OF inj] sub by (simp add: distinct_map)
  note Q = emit_quiet [OF this, of name r ?b1]
  have st: "startable ?b1 = startable ?b" by (simp add: startable_def entry_live_def fun_eq_iff)
  have "never_revives (quiet r)" by (simp add: never_revives_def quiet_def)
  from emit_selects [OF assms this, of name] show ?thesis
    using Q by (simp add: st Let_def)
qed

section \<open>Witnesses\<close>

text \<open>On \<open>ticking\<close>: the prepended listener 3, the \<open>once\<close> listener 1, the prefix listener 2.\<close>

definition told :: "entry \<Rightarrow> nat outcome" where
  "told e = (if ev_id e = 3 then Inr None
     else if ev_id e = 1 then Inl (error_new (Validation [''late'']) False) else Inr (Some 7))"

definition tick_beh :: "entry \<Rightarrow> nat behaviour" where
  "tick_beh e = (if ev_id e = 3 then HandsOn (map_sum id (map_option Suc))
     else if ev_id e = 1 then HandsOn id else Answers (Inr (Some 7)))"

definition tick_entries :: "entry list" where
  "tick_entries = select (entry_live (bs_bus ticking)) ''tick'' (bu_table (bs_bus ticking))"

lemma tick_entries: "map ev_id tick_entries = [3, 1, 2]"
  unfolding tick_entries_def by code_simp

lemma tick_entries_are: "\<exists>x y z. tick_entries = [x, y, z] \<and> ev_id x = 3 \<and> ev_id y = 1 \<and> ev_id z = 2"
  using tick_entries by auto

lemma tick_startable: "filter (startable (bs_bus ticking)) tick_entries = tick_entries"
proof -
  have "list_all (startable (bs_bus ticking)) tick_entries" unfolding tick_entries_def by code_simp
  then show ?thesis by (simp add: list_all_iff)
qed

theorem waterfall_is_its_chain_witness:
  "fst (run_waterfall (behaves tick_beh) (\<lambda>b. (Inr None, b)) tick_entries (bs_bus ticking)) = Inr (Some 8)"
proof -
  have "distinct (map ev_id tick_entries)" by (simp add: tick_entries)
  moreover obtain x y z where "tick_entries = [x, y, z]" "ev_id x = 3" "ev_id y = 1" "ev_id z = 2"
    using tick_entries_are by blast
  then have "chain_value tick_beh (Inr None) tick_entries = Inr (Some 8)"
    unfolding \<open>tick_entries = _\<close> by (simp add: tick_beh_def)
  ultimately show ?thesis
    using waterfall_is_its_chain [of tick_entries tick_beh "Inr None" "bs_bus ticking"]
    by (simp add: tick_startable)
qed

theorem parallel_order_is_registration_witness:
  "parallel_result ''tick'' [(2, Inl (error_new (Validation [''b'']) False)), (1, Inr (Some (0 :: nat))),
      (0, Inl (error_new (Validation [''a'']) False))] =
    Inl (error_new (ListenersFailed ''tick'' (map (\<lambda>m. Core_Types.shared (error_new (Validation [m]) False))
      [''a'', ''b''])) False)"
  using parallel_order_is_registration [of "[(0, Inl (error_new (Validation [''a'']) False)),
      (1, Inr (Some (0 :: nat))), (2, Inl (error_new (Validation [''b'']) False))]"]
  by simp

lemma listen_all_flags:
  "bu_withdrawn (bs_bus (listen_all los s)) = bu_withdrawn (bs_bus s)"
  "bu_ended (bs_bus (listen_all los s)) = bu_ended (bs_bus s)"
  "bu_claimed (bs_bus (listen_all los s)) = bu_claimed (bs_bus s)"
  "bu_calls (bs_bus (listen_all los s)) = bu_calls (bs_bus s)"
  by (induction los arbitrary: s)
     (auto simp: register_listener_def Let_def split_beta split: option.split prod.split)

theorem emit_over_shared_list_witness:
  "map (bu_calls (emit ''tick'' (quiet told) (bs_bus shared_tick))) [1, 2, 3, 4, 5] = [1, 1, 1, 1, 1] \<and>
   (case cached ''tick'' (bu_table (bs_bus shared_tick)) of None \<Rightarrow> ([], [], [])
     | Some sel \<Rightarrow> (map ev_id (se_before sel), map ev_id (se_base sel), map ev_id (se_after sel)))
     = ([5], [3, 1, 2], [4])"
proof -
  have "never_revives (quiet told)" by (simp add: never_revives_def quiet_def)
  note E = emit_over_shared_list [OF shared_tick_reachable this, of "''tick''"]
  let ?b = "bs_bus shared_tick"
  let ?es = "select (entry_live ?b) ''tick'' (bu_table ?b)"
  have c: "(case cached ''tick'' (bu_table ?b) of None \<Rightarrow> ([], [], [])
     | Some sel \<Rightarrow> (map ev_id (se_before sel), map ev_id (se_base sel), map ev_id (se_after sel)))
     = ([5], [3, 1, 2], [4])" by code_simp
  then obtain sel where sel: "cached ''tick'' (bu_table ?b) = Some sel" by (auto split: option.splits)
  have flags: "bu_withdrawn ?b = {}" "bu_ended ?b = {}" "bu_claimed ?b = {}" "bu_calls ?b = (\<lambda>_. 0)"
    by (simp_all add: shared_tick_def ticking_def listen_all_flags bus_init_def empty_bus_def
        del: listen_all.simps)
  then have live: "startable ?b e" "entry_live ?b e" for e by (simp_all add: startable_def entry_live_def)
  have "bus_ok ?b" using bus_reachable_inv [OF shared_tick_reachable] by (simp add: bus_inv_def)
  then have "filter (entry_live ?b) (to_vec sel) = ?es"
    using sel by (simp add: bus_ok_def shared_ok_def)
  then have "?es = to_vec sel" using live by (simp add: filter_True)
  then have ids: "map ev_id ?es = [5, 3, 1, 2, 4]"
    using c by (simp add: sel to_vec_def chains_def rev_map [symmetric])
  have st: "filter (startable (?b\<lparr>bu_table := t\<rparr>)) ?es = ?es" for t
    using live(1) by (simp add: startable_def entry_live_def flags filter_True)
  have "distinct (map ev_id ?es)" using ids by simp
  note Q = emit_quiet [OF this, of "''tick''" told]
  have "ev_id ` set ?es = {5, 3, 1, 2, 4}" using ids by (metis list.set(2) set_map list.set(1))
  then have "bu_calls (emit ''tick'' (quiet told) ?b) =
      (\<lambda>i. bu_calls ?b i + (if i \<in> {5, 3, 1, 2, 4} then 1 else 0))"
    unfolding E Q [THEN conjunct2] st by simp
  then have "map (bu_calls (emit ''tick'' (quiet told) ?b)) [1, 2, 3, 4, 5] = [1, 1, 1, 1, 1]"
    using flags by simp
  then show ?thesis using c by blast
qed

theorem emit_reaches_everyone_witness:
  "length (bu_sink (emit ''tick'' (quiet told) (bs_bus ticking))) =
     length (bu_sink (bs_bus ticking)) + 1"
proof -
  obtain x y z where "tick_entries = [x, y, z]" "ev_id x = 3" "ev_id y = 1" "ev_id z = 2"
    using tick_entries_are by blast
  then have "length (filter (isl \<circ> told) tick_entries) = 1"
    unfolding \<open>tick_entries = _\<close> by (simp add: told_def)
  then show ?thesis
    using emit_reaches_everyone [OF ticking_reachable, of "''tick''" told]
    by (simp add: Let_def tick_entries_def [symmetric] tick_startable del: filter_filter)
qed

end
