(* ===== verification/Line_Channel.thy ===== *)
theory Line_Channel
  imports Rutis_Prelude
begin

text \<open>
  Newline framing of byte streams, \<open>crates/rutis-bridge/src/pipe/lines.rs\<close>:
  sending and receiving a message, the size limit, and the release of the
  handle the sender writes with.

  The stream is the environment: \<open>write_step\<close> and \<open>read_step\<close> say what each
  call of it returned.  A list of them that runs out is a stream that blocks
  (when writing) or ended (when reading).  Bytes are characters.  A mutex's
  poisoning has no effect in the code, and none here.
\<close>

section \<open>The channel's state\<close>

datatype channel_error = Closed string | Rejected string

datatype close_why = CloseDone | CloseReplaced | CloseRejected string

text \<open>\<open>End\<close> and \<open>Writer\<close>: \<open>ln_stream\<close> holds what was written, while there is a handle.\<close>

record line_channel =
  ln_ended :: bool
  ln_max :: nat
  ln_stream :: "string option"
  ln_released :: bool
  ln_closes :: "close_why list"

definition newline :: char where
  "newline = CHR 0x0A"

definition MAX_MESSAGE :: nat where
  "MAX_MESSAGE = 16 * 1024 * 1024"

definition new_channel :: "nat \<Rightarrow> line_channel" where
  "new_channel max_message = \<lparr>ln_ended = False, ln_max = max_message, ln_stream = Some [],
     ln_released = False, ln_closes = []\<rparr>"

definition refuses :: "string \<Rightarrow> bool" where
  "refuses message \<longleftrightarrow> length message > MAX_MESSAGE \<or> newline \<in> set message"

text \<open>\<open>Releasing::close\<close> while no send holds the handle: the closer, then the release.\<close>

definition release_now :: "line_channel \<Rightarrow> line_channel" where
  "release_now c = c\<lparr>ln_released := True, ln_stream := None\<rparr>"

definition close_channel :: "close_why \<Rightarrow> line_channel \<Rightarrow> line_channel" where
  "close_channel why c = release_now (c\<lparr>ln_closes := ln_closes c @ [why]\<rparr>)"

definition too_big :: "string \<Rightarrow> line_channel \<Rightarrow> channel_error \<times> line_channel" where
  "too_big reason c = (Closed reason, close_channel CloseDone (c\<lparr>ln_ended := True\<rparr>))"

section \<open>Sending\<close>

datatype write_step = Wrote nat | WriteInterrupted | WriteFailed string

text \<open>
  The loop of \<open>write_line\<close> over the bytes left: \<open>None\<close> while the stream
  blocks; otherwise the outcome and the bytes the stream took.
\<close>

fun write_loop :: "string \<Rightarrow> write_step list \<Rightarrow> ((channel_error option) \<times> string) option" where
  "write_loop [] steps = Some (None, [])"
| "write_loop (b # bs) [] = None"
| "write_loop (b # bs) (Wrote n # steps) =
     (if n = 0 then Some (Some (Closed ''stream closed while sending''), [])
      else map_option (\<lambda>(r, taken). (r, take n (b # bs) @ taken)) (write_loop (drop n (b # bs)) steps))"
| "write_loop (b # bs) (WriteInterrupted # steps) = write_loop (b # bs) steps"
| "write_loop (b # bs) (WriteFailed e # steps) = Some (Some (Closed e), [])"

text \<open>\<open>write_line\<close>; \<open>flush\<close> is the stream's answer to the flush.\<close>

definition write_line ::
  "string \<Rightarrow> write_step list \<Rightarrow> string option \<Rightarrow> line_channel \<Rightarrow> ((channel_error + unit) \<times> line_channel) option"
where
  "write_line message steps flush c = (case ln_stream c of
     None \<Rightarrow> Some (Inl (Closed ''the channel ended''), c)
   | Some s \<Rightarrow>
       if ln_released c then Some (Inl (Closed ''the channel ended''), c)
       else map_option (\<lambda>(r, taken).
          (case r of Some e \<Rightarrow> Inl e
           | None \<Rightarrow> (case flush of Some e \<Rightarrow> Inl (Closed e) | None \<Rightarrow> Inr ()),
           c\<lparr>ln_stream := Some (s @ taken)\<rparr>))
          (write_loop (message @ [newline]) steps))"

definition released_meanwhile :: "line_channel \<Rightarrow> line_channel" where
  "released_meanwhile c = (if ln_released c then c\<lparr>ln_stream := None\<rparr> else c)"

text \<open>\<open>LineSender::send\<close>.\<close>

definition too_long_text :: "nat \<Rightarrow> nat \<Rightarrow> string" where
  "too_long_text n limit = ''message of '' @ show_nat n @ '' bytes exceeds the limit of '' @ show_nat limit"

definition send_line ::
  "string \<Rightarrow> write_step list \<Rightarrow> string option \<Rightarrow> line_channel \<Rightarrow> ((channel_error + unit) \<times> line_channel) option"
where
  "send_line message steps flush c =
     (if ln_ended c then Some (Inl (Closed ''the channel ended''), c)
      else if length message > ln_max c
      then (case too_big (too_long_text (length message) (ln_max c)) c of (e, c') \<Rightarrow> Some (Inl e, c'))
      else if newline \<in> set message then Some (Inl (Closed ''message contains a raw newline''), c)
      else map_option (map_prod id released_meanwhile) (write_line message steps flush c))"

section \<open>Receiving\<close>

text \<open>What a read of the stream returned; an empty part is the stream's end.\<close>

datatype read_step = Part string | ReadInterrupted | ReadFailed string

datatype line_result = Line string | StreamEnd | LineFailed channel_error | LineTooBig string

text \<open>
  The loop of \<open>LineReceiver::line\<close>: the line so far, the bytes \<open>fill_buf\<close>
  still holds, the reads to come.  The result comes with the bytes and reads
  left.
\<close>

definition ended_text :: string where
  "ended_text = ''stream ended inside a message''"

definition over_limit_text :: "nat \<Rightarrow> string" where
  "over_limit_text limit = ''received a message over the limit of '' @ show_nat limit @ '' bytes''"

function line_loop :: "nat \<Rightarrow> string \<Rightarrow> string \<Rightarrow> read_step list \<Rightarrow> line_result \<times> string \<times> read_step list" where
  "line_loop limit acc [] [] = (if acc = [] then StreamEnd else LineFailed (Closed ended_text), [], [])"
| "line_loop limit acc [] (ReadInterrupted # rs) = line_loop limit acc [] rs"
| "line_loop limit acc [] (ReadFailed e # rs) = (LineFailed (Closed e), [], rs)"
| "line_loop limit acc [] (Part bs # rs) =
     (if bs = [] then (if acc = [] then StreamEnd else LineFailed (Closed ended_text), [], rs)
      else line_loop limit acc bs rs)"
| "line_loop limit acc (b # bs) rs =
     (let available = b # bs;
          nl = position (\<lambda>x. x = newline) available;
          part = take (case nl of None \<Rightarrow> length available | Some i \<Rightarrow> i) available;
          used = length part + (if nl = None then 0 else 1)
      in if length acc + length part > limit then (LineTooBig (over_limit_text limit), available, rs)
         else if nl \<noteq> None then (Line (acc @ part), drop used available, rs)
         else line_loop limit (acc @ part) (drop used available) rs)"
  by pat_completeness auto

termination line_loop
  by (relation "measure (\<lambda>(_, _, buf, rs). 2 * length rs + (if buf = [] then 0 else 1))") auto

text \<open>
  The receiver: its stream, until it saw the end, and the reads to come.
\<close>

record receiver =
  rc_buffer :: "string option"
  rc_reads :: "read_step list"

definition new_receiver :: "read_step list \<Rightarrow> receiver" where
  "new_receiver rs = \<lparr>rc_buffer = Some [], rc_reads = rs\<rparr>"

text \<open>\<open>LineReceiver::recv\<close>.\<close>

definition recv_line ::
  "receiver \<Rightarrow> line_channel \<Rightarrow> (channel_error + string option) \<times> receiver \<times> line_channel"
where
  "recv_line r c = (case rc_buffer r of
     None \<Rightarrow> (Inr None, r, c\<lparr>ln_ended := True\<rparr>)
   | Some buf \<Rightarrow>
       (case line_loop (ln_max c) [] buf (rc_reads r) of
          (Line l, buf', rs) \<Rightarrow> (Inr (Some l), r\<lparr>rc_buffer := Some buf', rc_reads := rs\<rparr>, c)
        | (StreamEnd, _, rs) \<Rightarrow>
            (Inr None, r\<lparr>rc_buffer := None, rc_reads := rs\<rparr>, c\<lparr>ln_ended := True\<rparr>)
        | (LineFailed e, _, rs) \<Rightarrow>
            (Inl e, r\<lparr>rc_buffer := None, rc_reads := rs\<rparr>, c\<lparr>ln_ended := True\<rparr>)
        | (LineTooBig m, _, rs) \<Rightarrow>
            (case too_big m c of
               (e, c') \<Rightarrow> (Inl e, r\<lparr>rc_buffer := None, rc_reads := rs\<rparr>, c'\<lparr>ln_ended := True\<rparr>))))"

text \<open>A receiver's thread: until an end or an error.\<close>

fun recv_all :: "nat \<Rightarrow> receiver \<Rightarrow> line_channel \<Rightarrow> string list \<times> channel_error option" where
  "recv_all 0 r c = ([], None)"
| "recv_all (Suc n) r c = (case recv_line r c of
     (Inl e, _) \<Rightarrow> ([], Some e)
   | (Inr None, _) \<Rightarrow> ([], None)
   | (Inr (Some m), r', c') \<Rightarrow> (case recv_all n r' c' of (ms, e) \<Rightarrow> (m # ms, e)))"

section \<open>A send and releases at the same time\<close>

text \<open>
  The writer's lock is held by a send from its start to its end
  (\<open>WLocked\<close>), and by whoever takes the handle, for an instant.  A release
  sets the flag first and then tries the lock.
\<close>

datatype writer_pc = WIdle | WLocked | WUnlocked | WTaking

datatype releaser_pc = RStored | RGone

record writer_sys =
  ws_stream :: bool
  ws_released :: bool
  ws_writer :: writer_pc
  ws_releasers :: "nat \<Rightarrow> releaser_pc option"

inductive writer_step :: "writer_sys \<Rightarrow> writer_sys \<Rightarrow> bool" where
  send_locks: "ws_writer s = WIdle \<Longrightarrow> writer_step s (s\<lparr>ws_writer := WLocked\<rparr>)"
| send_unlocks: "ws_writer s = WLocked \<Longrightarrow> writer_step s (s\<lparr>ws_writer := WUnlocked\<rparr>)"
| send_looks: "ws_writer s = WUnlocked \<Longrightarrow>
     writer_step s (s\<lparr>ws_writer := if ws_released s then WTaking else WIdle\<rparr>)"
| send_takes: "ws_writer s = WTaking \<Longrightarrow>
     writer_step s (s\<lparr>ws_stream := False, ws_writer := WIdle\<rparr>)"
| release_stores: "ws_releasers s i = None \<Longrightarrow>
     writer_step s (s\<lparr>ws_released := True, ws_releasers := (ws_releasers s)(i \<mapsto> RStored)\<rparr>)"
| release_tries: "ws_releasers s i = Some RStored \<Longrightarrow>
     writer_step s (s\<lparr>ws_stream := ws_stream s \<and> ws_writer s = WLocked,
       ws_releasers := (ws_releasers s)(i \<mapsto> RGone)\<rparr>)"

definition writer_init :: writer_sys where
  "writer_init = \<lparr>ws_stream = True, ws_released = False, ws_writer = WIdle, ws_releasers = (\<lambda>_. None)\<rparr>"

inductive writer_reachable :: "writer_sys \<Rightarrow> bool" where
  wr_init: "writer_reachable writer_init"
| wr_step: "writer_reachable s \<Longrightarrow> writer_step s t \<Longrightarrow> writer_reachable t"

end
