(* ===== verification/Line_Properties.thy ===== *)
theory Line_Properties
  imports Line_Channel
begin

text \<open>
  The framing carries messages: what is sent is received, whatever the parts
  the stream delivers it in; a message that was not written whole is never
  received; the limit holds in both directions; and the writer's handle is let
  go of once the channel is closed.
\<close>

section \<open>Sending\<close>

lemma write_loop_takes:
  "write_loop bs steps = Some (r, taken) \<Longrightarrow>
     (case r of None \<Rightarrow> taken = bs | Some e \<Rightarrow> \<exists>left. left \<noteq> [] \<and> bs = taken @ left)"
proof (induction bs steps arbitrary: taken rule: write_loop.induct)
  case (3 b bs n steps)
  show ?case
  proof (cases "n = 0")
    case False
    then obtain taken' where "write_loop (drop n (b # bs)) steps = Some (r, taken')"
      "taken = take n (b # bs) @ taken'"
      using "3.prems" by auto
    moreover note "3.IH" [OF False this(1)]
    ultimately show ?thesis
      by (cases r) (simp_all, metis append_assoc append_take_drop_id)
  qed (use "3.prems" in auto)
qed auto

text \<open>One send: nothing, the whole line, or a part of it that is not whole.\<close>

definition frame :: "string \<Rightarrow> string" where
  "frame m = m @ [newline]"

definition frames :: "string list \<Rightarrow> string" where
  "frames ms = concat (map frame ms)"

lemma send_line_ok:
  assumes "send_line m steps flush c = Some (Inr (), c')" and "ln_stream c = Some s"
  shows "ln_stream c' = (if ln_released c then None else Some (s @ frame m))"
    "newline \<notin> set m" "length m \<le> ln_max c" "ln_max c' = ln_max c" "\<not> ln_ended c" "\<not> ln_released c"
    "ln_ended c' = ln_ended c" "ln_released c' = ln_released c"
proof -
  have ok: "\<not> ln_ended c" "\<not> length m > ln_max c" "newline \<notin> set m"
    using assms(1) by (auto simp: send_line_def too_big_def split: if_splits)
  then obtain c1 where c1: "write_line m steps flush c = Some (Inr (), c1)" "c' = released_meanwhile c1"
    using assms(1) by (auto simp: send_line_def)
  have rel: "\<not> ln_released c" using c1(1) assms(2) by (auto simp: write_line_def split: if_splits)
  then obtain taken where "write_loop (m @ [newline]) steps = Some (None, taken)"
    "c1 = c\<lparr>ln_stream := Some (s @ taken)\<rparr>"
    using c1(1) assms(2) by (auto simp: write_line_def split: option.splits)
  then have "c' = c\<lparr>ln_stream := Some (s @ frame m)\<rparr>"
    using write_loop_takes [of "m @ [newline]" steps None] c1(2) rel
    by (simp add: released_meanwhile_def frame_def)
  then show "ln_stream c' = (if ln_released c then None else Some (s @ frame m))"
    "newline \<notin> set m" "length m \<le> ln_max c" "ln_max c' = ln_max c" "\<not> ln_ended c" "\<not> ln_released c"
    "ln_ended c' = ln_ended c" "ln_released c' = ln_released c"
    using ok rel by simp_all
qed

fun send_all :: "(string \<times> write_step list) list \<Rightarrow> line_channel \<Rightarrow> line_channel option" where
  "send_all [] c = Some c"
| "send_all ((m, steps) # ms) c = (case send_line m steps None c of
     Some (Inr _, c') \<Rightarrow> send_all ms c' | _ \<Rightarrow> None)"

lemma send_all_stream:
  "send_all ms c = Some c' \<Longrightarrow> ln_stream c = Some s \<Longrightarrow>
   ln_stream c' = Some (s @ frames (map fst ms)) \<and>
   (\<forall>m \<in> set (map fst ms). newline \<notin> set m \<and> length m \<le> ln_max c)"
proof (induction ms arbitrary: c s)
  case (Cons a ms)
  obtain m steps where a: "a = (m, steps)" by (cases a)
  obtain c1 where c1: "send_line m steps None c = Some (Inr (), c1)" "send_all ms c1 = Some c'"
    using Cons.prems(1) a by (auto split: option.splits sum.splits)
  note S = send_line_ok [OF c1(1) Cons.prems(2)]
  have "ln_stream c1 = Some (s @ frame m)" using S(1,6) by simp
  from Cons.IH [OF c1(2) this] show ?case
    using S(2-4) by (simp add: a frames_def)
qed (simp add: frames_def)

section \<open>Receiving depends on the bytes alone\<close>

fun read_bytes :: "read_step list \<Rightarrow> string" where
  "read_bytes [] = []"
| "read_bytes (Part bs # rs) = bs @ read_bytes rs"
| "read_bytes (ReadInterrupted # rs) = read_bytes rs"
| "read_bytes (ReadFailed e # rs) = []"

text \<open>Reads that deliver bytes, until the stream ends.\<close>

definition calm :: "read_step list \<Rightarrow> bool" where
  "calm rs \<longleftrightarrow> (\<forall>r \<in> set rs. case r of Part bs \<Rightarrow> bs \<noteq> [] | ReadInterrupted \<Rightarrow> True | ReadFailed _ \<Rightarrow> False)"

definition line_spec :: "nat \<Rightarrow> string \<Rightarrow> line_result" where
  "line_spec limit s =
     (let l = takeWhile (\<lambda>x. x \<noteq> newline) s
      in if length l > limit then LineTooBig (over_limit_text limit)
         else if s = [] then StreamEnd
         else if l = s then LineFailed (Closed ended_text)
         else Line l)"

lemma take_position:
  "take (case position P xs of None \<Rightarrow> length xs | Some i \<Rightarrow> i) xs = takeWhile (\<lambda>x. \<not> P x) xs"
  by (induction xs) (auto split: option.splits)

lemma drop_position:
  "position P xs = Some i \<Longrightarrow> drop (length (takeWhile (\<lambda>x. \<not> P x) xs) + 1) xs = drop (Suc i) xs \<and>
     length (takeWhile (\<lambda>x. \<not> P x) xs) = i"
  by (induction xs arbitrary: i) (auto split: if_splits)

lemma takeWhile_found:
  "position P xs = Some i \<Longrightarrow> takeWhile (\<lambda>x. \<not> P x) (xs @ ys) = takeWhile (\<lambda>x. \<not> P x) xs"
  by (induction xs arbitrary: i) (auto split: if_splits)

lemma takeWhile_all: "newline \<notin> set xs \<Longrightarrow>
  takeWhile (\<lambda>x. x \<noteq> newline) (xs @ ys) = xs @ takeWhile (\<lambda>x. x \<noteq> newline) ys"
  by (induction xs) auto

lemma calm_simps [simp]:
  "calm []" "calm (ReadInterrupted # rs) = calm rs" "calm (ReadFailed e # rs) = False"
  "calm (Part bs # rs) \<longleftrightarrow> bs \<noteq> [] \<and> calm rs"
  by (auto simp: calm_def)

lemma line_loop_step:
  "line_loop limit acc (b # bs) rs =
     (let part = takeWhile (\<lambda>x. x \<noteq> newline) (b # bs); nl = position (\<lambda>x. x = newline) (b # bs)
      in if length acc + length part > limit then (LineTooBig (over_limit_text limit), b # bs, rs)
         else if nl \<noteq> None then (Line (acc @ part), drop (length part + 1) (b # bs), rs)
         else line_loop limit (acc @ part) (drop (length part) (b # bs)) rs)"
  using take_position [where P = "\<lambda>x. x = newline" and xs = "b # bs"]
  by (subst line_loop.simps(5)) (simp only: Let_def, simp)

lemma line_loop_spec:
  assumes "calm rs" and "newline \<notin> set acc" and "length acc \<le> limit"
  shows "fst (line_loop limit acc buf rs) = line_spec limit (acc @ buf @ read_bytes rs) \<and>
    (\<forall>l buf' rs'. line_loop limit acc buf rs = (Line l, buf', rs') \<longrightarrow>
       calm rs' \<and> buf' @ read_bytes rs' = drop (Suc (length l)) (acc @ buf @ read_bytes rs))"
  using assms
proof (induction limit acc buf rs rule: line_loop.induct)
  case (1 limit acc)
  then have tw: "takeWhile (\<lambda>x. x \<noteq> newline) acc = acc" by (auto simp: takeWhile_eq_all_conv)
  show ?case using 1 by (simp add: line_spec_def Let_def tw del: takeWhile_eq_all_conv)
next
  case (5 limit acc b bs rs)
  let ?av = "b # bs"
  let ?nl = "position (\<lambda>x. x = newline) ?av"
  define part where "part = takeWhile (\<lambda>x. x \<noteq> newline) ?av"
  have part: "take (case ?nl of None \<Rightarrow> length ?av | Some i \<Rightarrow> i) ?av = part"
    using take_position [where P = "\<lambda>x. x = newline" and xs = ?av] by (simp only: part_def)
  have clean: "newline \<notin> set part" unfolding part_def by (metis set_takeWhileD)
  have step: "line_loop limit acc ?av rs =
     (if length acc + length part > limit then (LineTooBig (over_limit_text limit), ?av, rs)
      else if ?nl \<noteq> None then (Line (acc @ part), drop (length part + 1) ?av, rs)
      else line_loop limit (acc @ part) (drop (length part) ?av) rs)"
    by (simp only: line_loop_step Let_def part_def)
  show ?case
  proof (cases ?nl)
    case None
    then have all: "part = ?av" unfolding part_def by (auto simp: position_None takeWhile_eq_all_conv)
    have "length (takeWhile (\<lambda>x. x \<noteq> newline) (acc @ ?av @ read_bytes rs)) \<ge> length acc + length part"
      using takeWhile_all [of "acc @ ?av" "read_bytes rs"] "5.prems"(2) clean all by simp
    moreover have "fst (line_loop limit (acc @ part) [] rs) =
          line_spec limit ((acc @ part) @ [] @ read_bytes rs) \<and>
        (\<forall>l buf' rs'. line_loop limit (acc @ part) [] rs = (Line l, buf', rs') \<longrightarrow>
           calm rs' \<and> buf' @ read_bytes rs' = drop (Suc (length l)) ((acc @ part) @ [] @ read_bytes rs))"
      if "\<not> limit < length acc + length part"
      using "5.IH" [OF refl, of ?nl part "length part"] that "5.prems" clean all part None
      by (simp del: line_loop.simps position.simps)
    ultimately show ?thesis using None all
      by (auto simp: step line_spec_def Let_def simp del: line_loop.simps position.simps)
  next
    case (Some i)
    define w where "w = acc @ ?av @ read_bytes rs"
    have i: "length part = i" "i < length ?av"
      using drop_position [OF Some] position_SomeD [OF Some] by (simp_all only: part_def)
    have tw: "takeWhile (\<lambda>x. x \<noteq> newline) w = acc @ part"
      using takeWhile_all [OF "5.prems"(2), of "?av @ read_bytes rs"]
        takeWhile_found [OF Some, of "read_bytes rs"] by (simp only: part_def w_def)
    have "length (acc @ part) < length w" using i by (simp add: w_def)
    then have ne: "acc @ part \<noteq> w" "w \<noteq> []" by auto
    have spec: "line_spec limit w = (if length acc + length part > limit
        then LineTooBig (over_limit_text limit) else Line (acc @ part))"
      unfolding line_spec_def tw Let_def using ne by simp
    have left: "drop (length part + 1) ?av @ read_bytes rs = drop (Suc (length (acc @ part))) w"
      unfolding w_def using i by simp
    show ?thesis
      unfolding w_def [symmetric] spec step using "5.prems"(1) Some left by auto
  qed
qed auto


section \<open>Round trip\<close>

lemma takeWhile_frame: "newline \<notin> set m \<Longrightarrow> takeWhile (\<lambda>x. x \<noteq> newline) (frame m @ rest) = m"
  by (induction m) (auto simp: frame_def)

lemma line_spec_frame:
  "newline \<notin> set m \<Longrightarrow> length m \<le> limit \<Longrightarrow> line_spec limit (frame m @ rest) = Line m"
  unfolding line_spec_def takeWhile_frame by (auto simp: frame_def)

definition recv_bytes :: "receiver \<Rightarrow> string" where
  "recv_bytes r = (case rc_buffer r of None \<Rightarrow> [] | Some buf \<Rightarrow> buf @ read_bytes (rc_reads r))"

lemma recv_line_spec:
  assumes "calm (rc_reads r)" and "rc_buffer r = Some buf"
  shows "line_spec (ln_max c) (recv_bytes r) = Line l \<Longrightarrow>
      \<exists>r' buf'. recv_line r c = (Inr (Some l), r', c) \<and> calm (rc_reads r') \<and> rc_buffer r' = Some buf' \<and>
        recv_bytes r' = drop (Suc (length l)) (recv_bytes r)"
    and "line_spec (ln_max c) (recv_bytes r) = StreamEnd \<Longrightarrow> fst (recv_line r c) = Inr None"
    and "line_spec (ln_max c) (recv_bytes r) = LineFailed e \<Longrightarrow> fst (recv_line r c) = Inl e"
proof -
  obtain res buf' rs where L: "line_loop (ln_max c) [] buf (rc_reads r) = (res, buf', rs)"
    by (metis surj_pair)
  note S = line_loop_spec [OF assms(1), of "[]" "ln_max c" buf, unfolded L]
  then have res: "res = line_spec (ln_max c) (recv_bytes r)" by (simp add: recv_bytes_def assms(2))
  show "line_spec (ln_max c) (recv_bytes r) = Line l \<Longrightarrow>
      \<exists>r' buf'. recv_line r c = (Inr (Some l), r', c) \<and> calm (rc_reads r') \<and> rc_buffer r' = Some buf' \<and>
        recv_bytes r' = drop (Suc (length l)) (recv_bytes r)"
    using S res by (auto simp: recv_line_def recv_bytes_def assms(2) L)
  show "line_spec (ln_max c) (recv_bytes r) = StreamEnd \<Longrightarrow> fst (recv_line r c) = Inr None"
    "line_spec (ln_max c) (recv_bytes r) = LineFailed e \<Longrightarrow> fst (recv_line r c) = Inl e"
    using res by (simp_all add: recv_line_def assms(2) L)
qed

text \<open>The messages of a stream: whole lines, then what is left of one.\<close>

lemma recv_all_frames:
  assumes "calm (rc_reads r)" and "rc_buffer r = Some buf"
    and "recv_bytes r = frames ms @ left"
    and "\<forall>m \<in> set ms. newline \<notin> set m \<and> length m \<le> ln_max c"
    and "newline \<notin> set left" and "length left \<le> ln_max c"
  shows "recv_all (Suc (length ms)) r c = (ms, if left = [] then None else Some (Closed ended_text))"
  using assms
proof (induction ms arbitrary: r buf)
  case Nil
  have tw: "takeWhile (\<lambda>x. x \<noteq> newline) left = left" using Nil(5) by (auto simp: takeWhile_eq_all_conv)
  have "line_spec (ln_max c) (recv_bytes r) = (if left = [] then StreamEnd else LineFailed (Closed ended_text))"
    using Nil(3,6) by (simp add: line_spec_def Let_def frames_def tw del: takeWhile_eq_all_conv)
  then show ?case
    using recv_line_spec(2,3) [OF Nil(1,2), of c] by (cases "recv_line r c") (auto split: if_splits)
next
  case (Cons m ms)
  have b: "recv_bytes r = frame m @ frames ms @ left" using Cons.prems(3) by (simp add: frames_def)
  then have "line_spec (ln_max c) (recv_bytes r) = Line m"
    using Cons.prems(4) by (simp add: line_spec_frame)
  from recv_line_spec(1) [OF Cons.prems(1,2) this] obtain r' buf' where
    r': "recv_line r c = (Inr (Some m), r', c)" "calm (rc_reads r')" "rc_buffer r' = Some buf'"
    "recv_bytes r' = frames ms @ left"
    using b by (auto simp: frame_def)
  then show ?case using Cons.IH [OF r'(2-4)] Cons.prems(4-6) by simp
qed

text \<open>
  C27. Whatever was sent is received, in order and whole, and then the end:
  for every way the stream takes the bytes in parts, interrupted or not, and
  every way it delivers them.
\<close>

theorem lines_round_trip:
  assumes "send_all sends (new_channel limit) = Some c"
    and "calm reads" and "Some (read_bytes reads) = ln_stream c"
  shows "recv_all (Suc (length sends)) (new_receiver reads) (new_channel limit) = (map fst sends, None)"
proof -
  note S = send_all_stream [OF assms(1), of "[]"]
  have "read_bytes reads = frames (map fst sends)" using S assms(3) by (simp add: new_channel_def)
  then show ?thesis
    using recv_all_frames [of "new_receiver reads" "[]" "map fst sends" "[]" "new_channel limit"] assms(2) S
    by (simp add: new_receiver_def recv_bytes_def new_channel_def)
qed

theorem lines_round_trip_witness:
  "recv_all 3 (new_receiver [Part ''{}'', ReadInterrupted, Part (newline # ''[1''), Part (CHR '']'' # [newline])])
     (new_channel 8) = ([''{}'', ''[1]''], None)"
proof -
  have s: "send_all [(''{}'', [Wrote 1, WriteInterrupted, Wrote 2]), (''[1]'', [Wrote 4])] (new_channel 8) =
      Some \<lparr>ln_ended = False, ln_max = 8, ln_stream = Some (''{}'' @ newline # ''[1]'' @ [newline]),
        ln_released = False, ln_closes = []\<rparr>"
    by code_simp
  show ?thesis
    using lines_round_trip [OF s, of "[Part ''{}'', ReadInterrupted, Part (newline # ''[1''), Part (CHR '']'' # [newline])]"]
    by (simp add: numeral_3_eq_3)
qed

section \<open>Errors and limits\<close>

lemma send_line_failed:
  assumes "send_line m steps None c = Some (Inl e, c')" and "ln_stream c = Some s" and "ln_stream c' = Some s'"
  shows "\<exists>left rest. s' = s @ left \<and> rest \<noteq> [] \<and> (left = [] \<or> left @ rest = frame m \<and>
      newline \<notin> set m \<and> length m \<le> ln_max c)"
proof (cases "ln_ended c \<or> length m > ln_max c \<or> newline \<in> set m")
  case True
  then have "c' = c \<or> ln_stream c' = None"
    using assms(1) by (auto simp: send_line_def too_big_def close_channel_def release_now_def split: if_splits)
  then show ?thesis using assms(2,3) by (auto intro: exI [of _ "[]"])
next
  case False
  then obtain c1 where c1: "write_line m steps None c = Some (Inl e, c1)" "c' = released_meanwhile c1"
    using assms(1) by (auto simp: send_line_def)
  show ?thesis
  proof (cases "ln_released c")
    case True
    then have "c1 = c" using c1(1) assms(2) by (simp add: write_line_def)
    then show ?thesis using c1(2) True assms(3) by (simp add: released_meanwhile_def)
  next
    case rel: False
    then obtain r taken where t: "write_loop (m @ [newline]) steps = Some (r, taken)"
      "c1 = c\<lparr>ln_stream := Some (s @ taken)\<rparr>" "r \<noteq> None"
      using c1(1) assms(2) by (auto simp: write_line_def split: option.splits)
    then obtain rest where "rest \<noteq> []" "m @ [newline] = taken @ rest"
      using write_loop_takes [OF t(1)] by auto
    moreover have "s' = s @ taken" using t(2) c1(2) rel assms(3) by (simp add: released_meanwhile_def)
    ultimately show ?thesis using False by (auto simp: frame_def intro!: exI [of _ taken] exI [of _ rest])
  qed
qed

text \<open>
  A message whose send failed is never received: what the stream took
  of it is a part without its newline, and the receiver reports a stream that
  ended inside a message, or the end when none of it was taken, after every
  message sent before.
\<close>

theorem failed_send_is_not_received:
  assumes "send_all sends (new_channel limit) = Some c"
    and "send_line m steps None c = Some (Inl e, c')" and "ln_stream c' = Some bytes"
    and "calm reads" and "read_bytes reads = bytes"
  shows "recv_all (Suc (length sends)) (new_receiver reads) (new_channel limit) =
      (map fst sends, if ln_stream c' = ln_stream c then None else Some (Closed ended_text))"
proof -
  note S = send_all_stream [OF assms(1), of "[]"]
  have c: "ln_stream c = Some (frames (map fst sends))" using S by (simp add: new_channel_def)
  have mx: "ln_max c = limit"
  proof -
    have "ln_max c = ln_max d" if "send_all xs d = Some c" "ln_stream d = Some t" for xs d t
      using that
    proof (induction xs arbitrary: d t)
      case (Cons a xs)
      obtain m steps where a: "a = (m, steps)" by (cases a)
      obtain d1 where d1: "send_line m steps None d = Some (Inr (), d1)" "send_all xs d1 = Some c"
        using Cons.prems(1) a by (auto split: option.splits sum.splits)
      note T = send_line_ok [OF d1(1) Cons.prems(2)]
      then have "ln_stream d1 = Some (t @ frame m)" by simp
      then show ?case using Cons.IH [OF d1(2)] T by simp
    qed simp
    then show ?thesis using assms(1) by (simp add: new_channel_def)
  qed
  obtain left rest where l: "bytes = frames (map fst sends) @ left" "rest \<noteq> []"
    "left = [] \<or> left @ rest = frame m \<and> newline \<notin> set m \<and> length m \<le> limit"
    using send_line_failed [OF assms(2) c assms(3)] mx by auto
  have "newline \<notin> set left \<and> length left \<le> limit"
  proof (cases "left = []")
    case False
    then have "left @ butlast rest = m" using l(2,3) by (metis butlast_append butlast_snoc frame_def)
    then show ?thesis using l(3) False by auto
  qed simp
  then show ?thesis
    using recv_all_frames [of "new_receiver reads" "[]" "map fst sends" left "new_channel limit"] assms(3-5) S l(1) c
    by (simp add: new_receiver_def recv_bytes_def new_channel_def)
qed

theorem failed_send_is_not_received_witness:
  "recv_all 2 (new_receiver [Part (''{}'' @ [newline]), Part ''[1'']) (new_channel 8) =
     ([''{}''], Some (Closed ended_text))"
proof -
  let ?c = "\<lparr>ln_ended = False, ln_max = 8, ln_stream = Some (''{}'' @ [newline]),
        ln_released = False, ln_closes = []\<rparr>"
  let ?c' = "?c\<lparr>ln_stream := Some (''{}'' @ newline # ''[1'')\<rparr>"
  have s: "send_all [(''{}'', [Wrote 3])] (new_channel 8) = Some ?c" by code_simp
  have f: "send_line ''[1]'' [Wrote 2, WriteFailed ''gone''] None ?c = Some (Inl (Closed ''gone''), ?c')"
    by code_simp
  show ?thesis
    using failed_send_is_not_received [OF s f, of _ "[Part (''{}'' @ [newline]), Part ''[1'']"]
    by (simp add: numeral_2_eq_2)
qed

lemma line_loop_Line:
  "line_loop limit acc buf rs = (Line l, buf', rs') \<Longrightarrow> newline \<notin> set acc \<Longrightarrow>
   length l \<le> limit \<and> newline \<notin> set l"
proof (induction limit acc buf rs rule: line_loop.induct)
  case (5 limit acc b bs rs)
  let ?nl = "position (\<lambda>x. x = newline) (b # bs)"
  define part where "part = takeWhile (\<lambda>x. x \<noteq> newline) (b # bs)"
  have part: "take (case ?nl of None \<Rightarrow> length (b # bs) | Some i \<Rightarrow> i) (b # bs) = part"
    using take_position [where P = "\<lambda>x. x = newline" and xs = "b # bs"] by (simp only: part_def)
  have clean: "newline \<notin> set part" unfolding part_def by (metis set_takeWhileD)
  have step: "line_loop limit acc (b # bs) rs =
     (if length acc + length part > limit then (LineTooBig (over_limit_text limit), b # bs, rs)
      else if ?nl \<noteq> None then (Line (acc @ part), drop (length part + 1) (b # bs), rs)
      else line_loop limit (acc @ part) (drop (length part) (b # bs)) rs)"
    by (simp only: line_loop_step Let_def part_def)
  show ?case
  proof (cases "length acc + length part > limit \<or> ?nl \<noteq> None")
    case True
    then show ?thesis
      using "5.prems" clean unfolding step by (simp only: if_True if_False split: if_splits) auto
  next
    case False
    then have "line_loop limit (acc @ part) (drop (length part) (b # bs)) rs = (Line l, buf', rs')"
      using "5.prems"(1) unfolding step by (simp only: de_Morgan_disj not_not if_False if_True simp_thms)
    then show ?thesis
      using "5.IH" [OF refl, of ?nl part "length part"] "5.prems"(2) clean part False
      by (simp del: line_loop.simps position.simps)
  qed
qed (auto split: if_splits)

text \<open>
  A received message is at most the limit and without a newline, for
  any stream; anything else a receive returns ends the channel: it lets go of
  its stream, and every later send is refused.
\<close>

theorem receive_ends_or_delivers:
  "(case recv_line r c of
      (Inr (Some m), r', c') \<Rightarrow> length m \<le> ln_max c \<and> newline \<notin> set m \<and> c' = c
    | (_, r', c') \<Rightarrow> rc_buffer r' = None \<and> ln_ended c' \<and>
        send_line m' steps flush c' = Some (Inl (Closed ''the channel ended''), c'))"
proof (cases "rc_buffer r")
  case None
  then show ?thesis by (simp add: recv_line_def send_line_def)
next
  case (Some buf)
  obtain res buf' rs where L: "line_loop (ln_max c) [] buf (rc_reads r) = (res, buf', rs)"
    by (metis surj_pair)
  show ?thesis
    using line_loop_Line [of "ln_max c" "[]" buf "rc_reads r"] L
    by (cases res) (auto simp: recv_line_def Some send_line_def too_big_def close_channel_def release_now_def)
qed

section \<open>The writer's handle\<close>

lemma writer_inv:
  assumes "writer_reachable s"
  shows "ws_released s \<Longrightarrow> ws_stream s \<Longrightarrow> ws_writer s = WIdle \<Longrightarrow> \<exists>i. ws_releasers s i = Some RStored"
    and "ws_releasers s i \<noteq> None \<Longrightarrow> ws_released s"
  using assms
proof (induction arbitrary: i rule: writer_reachable.induct)
  case wr_init
  { case 1 then show ?case by (simp add: writer_init_def) }
  { case 2 then show ?case by (simp add: writer_init_def) }
next
  case (wr_step s t)
  { case 1
    from wr_step.hyps(2) wr_step.IH 1 show ?case
      by (cases rule: writer_step.cases) (auto split: if_splits) }
  { case 2
    from wr_step.hyps(2) wr_step.IH 2 show ?case
      by (cases rule: writer_step.cases) (auto split: if_splits) }
qed

text \<open>
  A closed channel keeps no handle of its stream: once a release was
  made and none is under way, the handle is gone as soon as no send is, although
  a release never waits for a send; and a send that is writing keeps its handle.
\<close>

theorem closed_writer_lets_go:
  assumes "writer_reachable s"
  shows "((\<exists>i. ws_releasers s i = Some RGone) \<and> (\<forall>i. ws_releasers s i \<noteq> Some RStored) \<and>
      ws_writer s = WIdle \<longrightarrow> \<not> ws_stream s) \<and>
    (\<forall>t. writer_step s t \<and> ws_writer s = WLocked \<longrightarrow> ws_stream t = ws_stream s)"
proof
  show "(\<exists>i. ws_releasers s i = Some RGone) \<and> (\<forall>i. ws_releasers s i \<noteq> Some RStored) \<and>
      ws_writer s = WIdle \<longrightarrow> \<not> ws_stream s"
    using writer_inv [OF assms] by fastforce
  show "\<forall>t. writer_step s t \<and> ws_writer s = WLocked \<longrightarrow> ws_stream t = ws_stream s"
    by (auto elim: writer_step.cases)
qed

theorem closed_writer_lets_go_witness:
  "\<exists>s. writer_reachable s \<and> ws_releasers s 0 = Some RGone \<and> ws_writer s = WIdle \<and> \<not> ws_stream s"
proof -
  define s1 where "s1 = writer_init\<lparr>ws_writer := WLocked\<rparr>"
  define s2 where "s2 = s1\<lparr>ws_released := True, ws_releasers := (ws_releasers s1)(0 \<mapsto> RStored)\<rparr>"
  define s3 where "s3 = s2\<lparr>ws_stream := ws_stream s2 \<and> ws_writer s2 = WLocked,
    ws_releasers := (ws_releasers s2)(0 \<mapsto> RGone)\<rparr>"
  define s4 where "s4 = s3\<lparr>ws_writer := WUnlocked\<rparr>"
  define s5 where "s5 = s4\<lparr>ws_writer := if ws_released s4 then WTaking else WIdle\<rparr>"
  define s6 where "s6 = s5\<lparr>ws_stream := False, ws_writer := WIdle\<rparr>"
  note defs = s1_def s2_def s3_def s4_def s5_def s6_def writer_init_def
  have "writer_reachable s1"
    unfolding s1_def by (rule wr_step [OF wr_init send_locks]) (simp add: writer_init_def)
  then have "writer_reachable s2"
    unfolding s2_def by (rule wr_step [OF _ release_stores]) (simp add: defs)
  then have "writer_reachable s3"
    unfolding s3_def by (rule wr_step [OF _ release_tries]) (simp add: defs)
  then have "writer_reachable s4"
    unfolding s4_def by (rule wr_step [OF _ send_unlocks]) (simp add: defs)
  then have "writer_reachable s5"
    unfolding s5_def by (rule wr_step [OF _ send_looks]) (simp add: defs)
  then have r: "writer_reachable s6"
    unfolding s6_def by (rule wr_step [OF _ send_takes]) (simp add: defs)
  have "ws_releasers s6 0 = Some RGone" "ws_writer s6 = WIdle" "\<forall>i. ws_releasers s6 i \<noteq> Some RStored"
    by (simp_all add: defs)
  then show ?thesis using closed_writer_lets_go [OF r] r by blast
qed

end
