(* ===== verification/Restart_Policy.thy ===== *)
theory Restart_Policy
  imports Rutis_Prelude
begin

text \<open>
  When the host starts a runtime again after its process ended,
  \<open>crates/rutis-host/src/restart.rs\<close>: the backoff and its limit, and the loop
  that watches a runtime.

  An \<open>Instant\<close> and a \<open>Duration\<close> are natural numbers of nanoseconds
  (\<open>duration_since\<close> of a later instant is zero, as subtraction here); the
  durations in use are far from their bounds.  The runtime is the environment:
  each of its ends says when and why, and what the steps after it found.
\<close>

section \<open>The backoff\<close>

definition secs :: "nat \<Rightarrow> nat" where
  "secs n = n * 1000000000"

definition FIRST :: nat where "FIRST = secs 1"
definition LONGEST :: nat where "LONGEST = secs 30"
definition STABLE :: nat where "STABLE = secs 60"
definition WINDOW :: nat where "WINDOW = secs (5 * 60)"
definition LIMIT :: nat where "LIMIT = 5"

lemmas restart_numbers = FIRST_def LONGEST_def STABLE_def WINDOW_def LIMIT_def secs_def

record backoff =
  bo_wait :: nat
  bo_restarts :: "nat list"

definition default_backoff :: backoff where
  "default_backoff = \<lparr>bo_wait = FIRST, bo_restarts = []\<rparr>"

text \<open>\<open>Backoff::next\<close>: the runtime ended at \<open>now\<close>, having run for \<open>lasted\<close>.\<close>

definition backoff_next :: "nat \<Rightarrow> nat \<Rightarrow> backoff \<Rightarrow> nat option \<times> backoff" where
  "backoff_next now lasted b =
     (let wait = (if lasted \<ge> STABLE then FIRST else bo_wait b);
          restarts = dropWhile (\<lambda>restart. now - restart \<ge> WINDOW) (bo_restarts b)
      in if length restarts \<ge> LIMIT then (None, \<lparr>bo_wait = wait, bo_restarts = restarts\<rparr>)
         else (Some wait, \<lparr>bo_wait = min (wait * 2) LONGEST, bo_restarts = restarts @ [now + wait]\<rparr>))"

section \<open>Watching a runtime\<close>

datatype restart_mode = RestartNo | RestartExit | RestartOnFailure

datatype supervised = GaveUp | SupervisedExit string | SupervisedClosed

text \<open>
  An end of the process: when, why, whether it is still down after the wait,
  when it is started again and whether that was possible.
\<close>

record process_end =
  pe_at :: nat
  pe_why :: string
  pe_still :: bool
  pe_restart_at :: nat
  pe_again :: bool

text \<open>
  \<open>supervise\<close>: the result (\<open>None\<close> while it waits for the next end), the
  backoff, and the times of the starts it made.
\<close>

fun supervise :: "restart_mode \<Rightarrow> nat \<Rightarrow> backoff \<Rightarrow> process_end list \<Rightarrow> supervised option \<times> backoff \<times> nat list"
where
  "supervise restart started b [] = (None, b, [])"
| "supervise restart started b (e # es) = (case restart of
     RestartNo \<Rightarrow> (Some SupervisedClosed, b, [])
   | RestartExit \<Rightarrow> (Some (SupervisedExit (pe_why e)), b, [])
   | RestartOnFailure \<Rightarrow>
       (case backoff_next (pe_at e) (pe_at e - started) b of
          (None, b1) \<Rightarrow> (Some GaveUp, b1, [])
        | (Some wait, b1) \<Rightarrow>
            if \<not> pe_still e then supervise restart started b1 es
            else if \<not> pe_again e then (Some SupervisedClosed, b1, [pe_restart_at e])
            else (case supervise restart (pe_restart_at e) b1 es of
                    (r, b2, starts) \<Rightarrow> (r, b2, pe_restart_at e # starts))))"

section \<open>The history of a backoff\<close>

text \<open>
  The restarts a backoff granted, as the end's time and the wait; time only
  moves forward, and a runtime that is to be started again does not end
  before that.
\<close>

inductive backoff_history :: "nat \<Rightarrow> (nat \<times> nat) list \<Rightarrow> backoff \<Rightarrow> bool" where
  bh_new: "backoff_history t [] default_backoff"
| bh_granted: "backoff_history t h b \<Longrightarrow> t \<le> now \<Longrightarrow> backoff_next now lasted b = (Some wait, b') \<Longrightarrow>
    backoff_history (now + wait) (h @ [(now, wait)]) b'"
| bh_refused: "backoff_history t h b \<Longrightarrow> t \<le> now \<Longrightarrow> backoff_next now lasted b = (None, b') \<Longrightarrow>
    backoff_history now h b'"

definition planned :: "(nat \<times> nat) list \<Rightarrow> nat list" where
  "planned h = map (\<lambda>(now, wait). now + wait) h"

lemma planned_simps [simp]:
  "planned [] = []" "planned (h @ [(now, wait)]) = planned h @ [now + wait]"
  "length (planned h) = length h"
  by (simp_all add: planned_def)

text \<open>The queue holds the latest restarts, all that are in the window among them.\<close>

definition backoff_inv :: "nat \<Rightarrow> (nat \<times> nat) list \<Rightarrow> backoff \<Rightarrow> bool" where
  "backoff_inv t h b \<longleftrightarrow> FIRST \<le> bo_wait b \<and> bo_wait b \<le> LONGEST \<and>
     sorted (planned h) \<and> (\<forall>r \<in> set (planned h). r \<le> t) \<and> length (bo_restarts b) \<le> LIMIT \<and>
     (\<exists>k. bo_restarts b = drop k (planned h) \<and> (\<forall>r \<in> set (take k (planned h)). r + WINDOW \<le> t))"

lemma dropWhile_is_drop: "\<exists>j. dropWhile P xs = drop j xs \<and> (\<forall>x \<in> set (take j xs). P x)"
  by (metis dropWhile_eq_drop set_takeWhileD takeWhile_eq_take)

lemma window_drop:
  assumes "backoff_inv t h b" and "t \<le> now"
  shows "\<exists>k. dropWhile (\<lambda>r. now - r \<ge> WINDOW) (bo_restarts b) = drop k (planned h) \<and>
    (\<forall>r \<in> set (take k (planned h)). r + WINDOW \<le> now)"
proof -
  obtain k where k: "bo_restarts b = drop k (planned h)" "\<forall>r \<in> set (take k (planned h)). r + WINDOW \<le> t"
    using assms(1) by (auto simp: backoff_inv_def)
  obtain j where j: "dropWhile (\<lambda>r. now - r \<ge> WINDOW) (bo_restarts b) = drop j (bo_restarts b)"
    "\<forall>r \<in> set (take j (bo_restarts b)). now - r \<ge> WINDOW"
    using dropWhile_is_drop [of "\<lambda>r. now - r \<ge> WINDOW" "bo_restarts b"] by auto
  have "set (take (k + j) (planned h)) = set (take k (planned h)) \<union> set (take j (drop k (planned h)))"
    by (simp add: take_add)
  moreover have "r + WINDOW \<le> now" if "r \<in> set (take j (bo_restarts b))" for r
  proof -
    have "0 < WINDOW" by (simp add: restart_numbers)
    then show ?thesis using j(2) that by fastforce
  qed
  ultimately have "\<forall>r \<in> set (take (k + j) (planned h)). r + WINDOW \<le> now"
    using k assms(2) by (metis Un_iff le_trans)
  moreover have "drop j (drop k (planned h)) = drop (k + j) (planned h)" by (simp add: add.commute)
  ultimately show ?thesis using j(1) k(1) by metis
qed

lemma backoff_history_inv: "backoff_history t h b \<Longrightarrow> backoff_inv t h b"
proof (induction rule: backoff_history.induct)
  case (bh_new t)
  then show ?case by (simp add: backoff_inv_def default_backoff_def restart_numbers)
next
  case (bh_granted t h b now lasted wait b')
  note I = bh_granted.IH [unfolded backoff_inv_def]
  obtain k where k: "dropWhile (\<lambda>r. now - r \<ge> WINDOW) (bo_restarts b) = drop k (planned h)"
    "\<forall>r \<in> set (take k (planned h)). r + WINDOW \<le> now"
    using window_drop [OF bh_granted.IH bh_granted.hyps(2)] by blast
  define k' where "k' = min k (length h)"
  have k': "drop k (planned h) = drop k' (planned h)" "take k (planned h) = take k' (planned h)" "k' \<le> length h"
    by (auto simp: k'_def min_def)
  have b': "wait = (if lasted \<ge> STABLE then FIRST else bo_wait b)" "length (drop k' (planned h)) < LIMIT"
    "b' = \<lparr>bo_wait = min (wait * 2) LONGEST, bo_restarts = drop k' (planned h) @ [now + wait]\<rparr>"
    using bh_granted.hyps(3) by (auto simp: backoff_next_def Let_def k(1) k'(1) split: if_splits)
  have "FIRST \<le> wait" "wait \<le> LONGEST" using b'(1) I by (auto simp: restart_numbers)
  moreover have "sorted (planned h @ [now + wait])"
    using I bh_granted.hyps(2) by (fastforce simp: sorted_append)
  moreover have "\<forall>r \<in> set (planned h @ [now + wait]). r \<le> now + wait"
    using I bh_granted.hyps(2) by fastforce
  moreover have "bo_restarts b' = drop k' (planned (h @ [(now, wait)]))"
    "\<forall>r \<in> set (take k' (planned (h @ [(now, wait)]))). r + WINDOW \<le> now + wait"
    using k(2) k' b'(3) by (auto intro: trans_le_add1)
  moreover have "length (bo_restarts b') \<le> LIMIT" using b' by simp
  ultimately show ?case
    unfolding backoff_inv_def by (auto simp: b'(3) min_def)
next
  case (bh_refused t h b now lasted b')
  note I = bh_refused.IH [unfolded backoff_inv_def]
  obtain k where k: "dropWhile (\<lambda>r. now - r \<ge> WINDOW) (bo_restarts b) = drop k (planned h)"
    "\<forall>r \<in> set (take k (planned h)). r + WINDOW \<le> now"
    using window_drop [OF bh_refused.IH bh_refused.hyps(2)] by blast
  have b': "b' = \<lparr>bo_wait = if lasted \<ge> STABLE then FIRST else bo_wait b, bo_restarts = drop k (planned h)\<rparr>"
    using bh_refused.hyps(3) by (auto simp: backoff_next_def Let_def k(1) split: if_splits)
  have "length (dropWhile (\<lambda>r. now - r \<ge> WINDOW) (bo_restarts b)) \<le> LIMIT"
    using I length_dropWhile_le le_trans by blast
  then have "length (bo_restarts b') \<le> LIMIT" by (simp only: b' k backoff.select_convs)
  moreover have "FIRST \<le> bo_wait b'" "bo_wait b' \<le> LONGEST" using I by (auto simp: b' restart_numbers)
  moreover have "\<forall>r \<in> set (planned h). r \<le> now" using I bh_refused.hyps(2) by fastforce
  ultimately show ?case
    using I k(2) unfolding backoff_inv_def by (auto simp: b')
qed

end
