(* ===== verification/Restart_Properties.thy ===== *)
theory Restart_Properties
  imports Restart_Policy "HOL-Library.Code_Target_Nat"
begin

text \<open>
  The restart policy: what the backoff's limit means over a whole history,
  and what becomes of a runtime that keeps ending, at once or after a while.
\<close>

section \<open>The limit\<close>

lemma sorted_dropWhile_filter:
  "sorted xs \<Longrightarrow> (\<And>x y. x \<le> y \<Longrightarrow> P y \<Longrightarrow> P x) \<Longrightarrow> dropWhile P xs = filter (\<lambda>x. \<not> P x) xs"
proof (induction xs)
  case (Cons x xs)
  show ?case
  proof (cases "P x")
    case False
    then have "\<forall>y \<in> set xs. \<not> P y" using Cons.prems by (metis sorted_simps(2))
    then show ?thesis using False by (simp add: filter_True)
  qed (use Cons in simp)
qed simp

text \<open>The restarts of a history that lie within the window at \<open>now\<close>.\<close>

definition in_window :: "nat \<Rightarrow> (nat \<times> nat) list \<Rightarrow> nat list" where
  "in_window now h = filter (\<lambda>r. now < r + WINDOW) (planned h)"

lemma window_is_queue:
  assumes "backoff_inv t h b" and "t \<le> now"
  shows "dropWhile (\<lambda>r. now - r \<ge> WINDOW) (bo_restarts b) = in_window now h"
proof -
  have pos: "0 < WINDOW" by (simp add: restart_numbers)
  have eq: "(now - r \<ge> WINDOW) = (\<not> now < r + WINDOW)" for r using pos by linarith
  obtain k where k: "bo_restarts b = drop k (planned h)" "\<forall>r \<in> set (take k (planned h)). r + WINDOW \<le> t"
    and s: "sorted (planned h)"
    using assms(1) by (auto simp: backoff_inv_def)
  have "dropWhile (\<lambda>r. now - r \<ge> WINDOW) (bo_restarts b) =
      filter (\<lambda>r. \<not> now - r \<ge> WINDOW) (drop k (planned h))"
    unfolding k(1) by (rule sorted_dropWhile_filter) (use s sorted_wrt_drop in auto)
  also have "\<dots> = filter (\<lambda>r. now < r + WINDOW) (drop k (planned h))" by (simp only: eq not_not)
  also have "\<dots> = filter (\<lambda>r. now < r + WINDOW) (take k (planned h) @ drop k (planned h))"
  proof -
    have "filter (\<lambda>r. now < r + WINDOW) (take k (planned h)) = []"
      using k(2) assms(2) by (fastforce simp: filter_empty_conv)
    then show ?thesis by (simp only: filter_append append_Nil)
  qed
  finally show ?thesis by (simp add: in_window_def)
qed

text \<open>
  The backoff gives up exactly when five restarts it granted lie within
  the last five minutes; until then it grants one, after a wait between one
  and thirty seconds.
\<close>

theorem gives_up_at_the_limit:
  assumes "backoff_history t h b" and "t \<le> now"
  shows "(case fst (backoff_next now lasted b) of
      None \<Rightarrow> length (in_window now h) \<ge> LIMIT
    | Some wait \<Rightarrow> length (in_window now h) < LIMIT \<and> FIRST \<le> wait \<and> wait \<le> LONGEST)"
proof -
  have inv: "backoff_inv t h b" by (rule backoff_history_inv [OF assms(1)])
  then have "FIRST \<le> bo_wait b" "bo_wait b \<le> LONGEST" by (simp_all add: backoff_inv_def)
  moreover have "FIRST \<le> LONGEST" by (simp add: restart_numbers)
  ultimately show ?thesis by (simp add: backoff_next_def Let_def window_is_queue [OF inv assms(2)])
qed

text \<open>
  C28. The restarts are rate limited over the whole life of a backoff: a
  restart is granted only five minutes or more after the time planned for the
  fifth one before it, so no six lie within the window.
\<close>

theorem restarts_are_rate_limited:
  assumes "backoff_history t h b" and "i + LIMIT < length h"
  shows "planned h ! i + WINDOW \<le> fst (h ! (i + LIMIT))"
  using assms
proof (induction arbitrary: i rule: backoff_history.induct)
  case (bh_granted t h b now lasted wait b')
  show ?case
  proof (cases "i + LIMIT < length h")
    case True
    then show ?thesis using bh_granted.IH [OF True] by (simp add: nth_append planned_def)
  next
    case False
    then have i: "i + LIMIT = length h" using bh_granted.prems by simp
    have inv: "backoff_inv t h b" by (rule backoff_history_inv [OF bh_granted.hyps(1)])
    have len: "length (in_window now h) < LIMIT"
      using bh_granted.hyps(3)
      by (auto simp: backoff_next_def Let_def window_is_queue [OF inv bh_granted.hyps(2)] split: if_splits)
    have srt: "sorted (planned h)" using inv by (simp add: backoff_inv_def)
    have "\<not> now < planned h ! i + WINDOW"
    proof
      assume *: "now < planned h ! i + WINDOW"
      have "now < r + WINDOW" if "r \<in> set (drop i (planned h))" for r
      proof -
        have "\<exists>j < length (drop i (planned h)). drop i (planned h) ! j = r"
          using that by (simp only: in_set_conv_nth)
        then obtain j where j: "j < length (drop i (planned h))" "drop i (planned h) ! j = r"
          by (elim exE conjE)
        have il: "i \<le> length (planned h)" using i by simp
        then have "planned h ! i \<le> planned h ! (i + j)"
          by (intro sorted_nth_mono [OF srt]) (use j(1) in simp_all)
        then have "planned h ! i \<le> r" using j(2) nth_drop [OF il] by simp
        then show ?thesis using * by linarith
      qed
      then have "filter (\<lambda>r. now < r + WINDOW) (drop i (planned h)) = drop i (planned h)"
        by (simp add: filter_id_conv)
      moreover have "in_window now h = filter (\<lambda>r. now < r + WINDOW) (take i (planned h)) @
          filter (\<lambda>r. now < r + WINDOW) (drop i (planned h))"
        unfolding in_window_def by (metis append_take_drop_id filter_append)
      ultimately have "length (in_window now h) \<ge> length (drop i (planned h))" by simp
      then show False using len i by simp
    qed
    moreover have "i < length h" using i by (simp add: restart_numbers)
    ultimately show ?thesis using i by (simp add: nth_append planned_def)
  qed
qed simp_all

section \<open>A runtime that runs a minute each time\<close>

fun steady :: "nat \<Rightarrow> process_end list \<Rightarrow> bool" where
  "steady started [] = True"
| "steady started (e # es) \<longleftrightarrow> started + STABLE \<le> pe_at e \<and> pe_still e \<and> pe_again e \<and>
     pe_at e + FIRST \<le> pe_restart_at e \<and> steady (pe_restart_at e) es"

definition spaced :: "nat \<Rightarrow> nat list \<Rightarrow> bool" where
  "spaced s rs \<longleftrightarrow> length rs \<le> LIMIT \<and> (\<forall>j < length rs. rs ! (length rs - Suc j) + j * STABLE \<le> s)"

lemma spaced_next:
  assumes "spaced s (bo_restarts b)" and "s + STABLE \<le> now"
  shows "\<exists>b'. backoff_next now (now - s) b = (Some FIRST, b') \<and> spaced (now + FIRST) (bo_restarts b')"
proof -
  let ?rs = "bo_restarts b" and ?P = "\<lambda>r. now - r \<ge> WINDOW"
  obtain i where i: "dropWhile ?P ?rs = drop i ?rs"
    using dropWhile_is_drop [of ?P ?rs] by auto
  have short: "length (drop i ?rs) < LIMIT"
  proof (cases "length ?rs = LIMIT")
    case True
    have "\<forall>j < length ?rs. ?rs ! (length ?rs - Suc j) + j * STABLE \<le> s"
      using assms(1) by (simp add: spaced_def)
    from this [rule_format, of 4] have "?P (?rs ! 0)"
      using True assms(2) by (simp add: restart_numbers)
    then have "dropWhile ?P ?rs \<noteq> ?rs"
      using True length_dropWhile_le [of ?P "tl ?rs"] by (cases ?rs) (auto simp: LIMIT_def)
    then have "i \<noteq> 0" using i by (metis drop_0)
    then show ?thesis using True by (simp add: LIMIT_def)
  next
    case False
    then have "length ?rs < LIMIT" using assms(1) by (simp add: spaced_def)
    then show ?thesis by simp
  qed
  let ?new = "drop i ?rs @ [now + FIRST]"
  have "?new ! (length ?new - Suc j) + j * STABLE \<le> now + FIRST" if "j < length ?new" for j
  proof (cases j)
    case 0
    then show ?thesis by (simp add: nth_append)
  next
    case (Suc m)
    then have m: "m < length ?rs - i" using that by simp
    then have "?rs ! (length ?rs - Suc m) + m * STABLE \<le> s" using assms(1) by (simp add: spaced_def)
    moreover have "?new ! (length ?new - Suc j) = ?rs ! (length ?rs - Suc m)"
    proof -
      have "length ?rs - Suc (i + m) < length ?rs - i" "i + (length ?rs - Suc (i + m)) = length ?rs - Suc m"
        using m by linarith+
      then show ?thesis using m Suc by (simp add: nth_append)
    qed
    ultimately show ?thesis using Suc assms(2) by simp
  qed
  then have "spaced (now + FIRST) ?new" using short by (simp add: spaced_def)
  moreover have "now - s \<ge> STABLE" using assms(2) by linarith
  ultimately show ?thesis
    using short by (simp add: backoff_next_def Let_def i)
qed

text \<open>
  A runtime that runs for a minute each time before it ends is started
  again every time, however often it ends.
\<close>

theorem stable_runtime_is_always_restarted:
  assumes "steady started es"
  shows "\<exists>b. supervise RestartOnFailure started default_backoff es = (None, b, map pe_restart_at es)"
proof -
  have "\<exists>b'. supervise RestartOnFailure s b es = (None, b', map pe_restart_at es)"
    if "steady s es" "spaced s (bo_restarts b)" for s b es
    using that
  proof (induction es arbitrary: s b)
    case (Cons e es)
    obtain b1 where b1: "backoff_next (pe_at e) (pe_at e - s) b = (Some FIRST, b1)"
      "spaced (pe_at e + FIRST) (bo_restarts b1)"
      using spaced_next [OF Cons.prems(2)] Cons.prems(1) by auto
    have "spaced (pe_restart_at e) (bo_restarts b1)"
      using b1(2) Cons.prems(1) by (fastforce simp: spaced_def)
    then show ?case using Cons.IH [of "pe_restart_at e" b1] Cons.prems(1) b1(1) by auto
  qed simp
  then show ?thesis using assms by (simp add: default_backoff_def spaced_def)
qed

section \<open>A runtime that keeps ending\<close>

text \<open>Ends of a process that runs for \<open>ds\<close> in turn, started again right after each wait.\<close>

fun crashes :: "nat \<Rightarrow> (nat \<times> nat) list \<Rightarrow> process_end list" where
  "crashes started [] = []"
| "crashes started ((d, wait) # ds) =
     \<lparr>pe_at = started + d, pe_why = ''crashed'', pe_still = True, pe_restart_at = started + d + wait,
      pe_again = True\<rparr> # crashes (started + d + wait) ds"

lemma crash_step:
  assumes "d < STABLE" and "length rs < LIMIT" and "\<forall>r \<in> set rs. started + d < r + WINDOW"
  shows "supervise RestartOnFailure started \<lparr>bo_wait = wait, bo_restarts = rs\<rparr>
      (crashes started ((d, wait) # ds)) =
    (case supervise RestartOnFailure (started + d + wait)
        \<lparr>bo_wait = min (wait * 2) LONGEST, bo_restarts = rs @ [started + d + wait]\<rparr>
        (crashes (started + d + wait) ds) of
       (r, b, starts) \<Rightarrow> (r, b, (started + d + wait) # starts))"
proof -
  have "dropWhile (\<lambda>r. started + d - r \<ge> WINDOW) rs = rs"
    using assms(3) by (cases rs) (auto simp: restart_numbers)
  then show ?thesis using assms(1,2) by (simp add: backoff_next_def Let_def)
qed

lemma crash_end:
  assumes "length rs = LIMIT" and "\<forall>r \<in> set rs. started + d < r + WINDOW"
  shows "\<exists>b. supervise RestartOnFailure started \<lparr>bo_wait = wait, bo_restarts = rs\<rparr>
      (crashes started ((d, w) # ds)) = (Some GaveUp, b, [])"
proof -
  have "dropWhile (\<lambda>r. started + d - r \<ge> WINDOW) rs = rs"
    using assms(2) by (cases rs) (auto simp: restart_numbers)
  then show ?thesis using assms(1) by (simp add: backoff_next_def Let_def)
qed

text \<open>
  A runtime each of whose runs is shorter than 54 seconds is started
  again after 1, 2, 4, 8 and 16 seconds, and given up at its sixth end.
\<close>

theorem crash_loop_is_given_up:
  assumes "\<forall>d \<in> {d0, d1, d2, d3, d4, d5}. d < secs 54"
  shows "let es = crashes started
        [(d0, secs 1), (d1, secs 2), (d2, secs 4), (d3, secs 8), (d4, secs 16), (d5, w)]
    in \<exists>b. supervise RestartOnFailure started default_backoff es =
         (Some GaveUp, b, map pe_restart_at (take 5 es))"
proof -
  define r0 where "r0 = started + d0 + secs 1"
  define r1 where "r1 = r0 + d1 + secs 2"
  define r2 where "r2 = r1 + d2 + secs 4"
  define r3 where "r3 = r2 + d3 + secs 8"
  define r4 where "r4 = r3 + d4 + secs 16"
  note rs = r0_def r1_def r2_def r3_def r4_def
  have d: "d0 < secs 54" "d1 < secs 54" "d2 < secs 54" "d3 < secs 54" "d4 < secs 54" "d5 < secs 54"
    using assms by simp_all
  have waits: "FIRST = secs 1" "min (secs 1 * 2) LONGEST = secs 2" "min (secs 2 * 2) LONGEST = secs 4"
    "min (secs 4 * 2) LONGEST = secs 8" "min (secs 8 * 2) LONGEST = secs 16"
    by (simp_all add: restart_numbers)
  have short: "d < STABLE" if "d < secs 54" for d using that by (simp add: restart_numbers)
  obtain b where last: "supervise RestartOnFailure r4
      \<lparr>bo_wait = min (secs 16 * 2) LONGEST, bo_restarts = [r0, r1, r2, r3, r4]\<rparr>
      (crashes r4 [(d5, w)]) = (Some GaveUp, b, [])"
  proof -
    have "\<forall>r \<in> set [r0, r1, r2, r3, r4]. r4 + d5 < r + WINDOW"
      using d by (simp add: rs restart_numbers)
    moreover have "length [r0, r1, r2, r3, r4] = LIMIT" by (simp add: LIMIT_def)
    ultimately show ?thesis using that crash_end by blast
  qed
  have in_win: "r0 + d1 < r0 + WINDOW" "r1 + d2 < r0 + WINDOW" "r1 + d2 < r1 + WINDOW"
    "r2 + d3 < r0 + WINDOW" "r2 + d3 < r1 + WINDOW" "r2 + d3 < r2 + WINDOW"
    "r3 + d4 < r0 + WINDOW" "r3 + d4 < r1 + WINDOW" "r3 + d4 < r2 + WINDOW" "r3 + d4 < r3 + WINDOW"
    using d by (simp_all add: rs restart_numbers)
  have s4: "supervise RestartOnFailure r3 \<lparr>bo_wait = secs 16, bo_restarts = [r0, r1, r2, r3]\<rparr>
      (crashes r3 ((d4, secs 16) # [(d5, w)])) = (Some GaveUp, b, [r4])"
    by (subst crash_step) (use short d in_win in \<open>simp_all only: r4_def [symmetric] waits append.simps last prod.case list.size LIMIT_def, simp_all\<close>)
  have s3: "supervise RestartOnFailure r2 \<lparr>bo_wait = secs 8, bo_restarts = [r0, r1, r2]\<rparr>
      (crashes r2 ((d3, secs 8) # [(d4, secs 16), (d5, w)])) = (Some GaveUp, b, [r3, r4])"
    by (subst crash_step) (use short d in_win in \<open>simp_all only: r3_def [symmetric] waits append.simps s4 prod.case list.size LIMIT_def, simp_all\<close>)
  have s2: "supervise RestartOnFailure r1 \<lparr>bo_wait = secs 4, bo_restarts = [r0, r1]\<rparr>
      (crashes r1 ((d2, secs 4) # [(d3, secs 8), (d4, secs 16), (d5, w)])) = (Some GaveUp, b, [r2, r3, r4])"
    by (subst crash_step) (use short d in_win in \<open>simp_all only: r2_def [symmetric] waits append.simps s3 prod.case list.size LIMIT_def, simp_all\<close>)
  have s1: "supervise RestartOnFailure r0 \<lparr>bo_wait = secs 2, bo_restarts = [r0]\<rparr>
      (crashes r0 ((d1, secs 2) # [(d2, secs 4), (d3, secs 8), (d4, secs 16), (d5, w)])) = (Some GaveUp, b, [r1, r2, r3, r4])"
    by (subst crash_step) (use short d in_win in \<open>simp_all only: r1_def [symmetric] waits append.simps s2 prod.case list.size LIMIT_def, simp_all\<close>)
  have s0: "supervise RestartOnFailure started \<lparr>bo_wait = secs 1, bo_restarts = []\<rparr>
      (crashes started ((d0, secs 1) # [(d1, secs 2), (d2, secs 4), (d3, secs 8), (d4, secs 16), (d5, w)])) = (Some GaveUp, b, [r0, r1, r2, r3, r4])"
    by (subst crash_step) (use short d in_win in \<open>simp_all only: r0_def [symmetric] waits append.simps s1 prod.case list.size LIMIT_def, simp_all\<close>)
  then have "supervise RestartOnFailure started \<lparr>bo_wait = FIRST, bo_restarts = []\<rparr>
      (crashes started [(d0, secs 1), (d1, secs 2), (d2, secs 4), (d3, secs 8), (d4, secs 16), (d5, w)]) =
    (Some GaveUp, b, [r0, r1, r2, r3, r4])"
    by (simp only: waits(1))
  then show ?thesis
    by (simp add: default_backoff_def Let_def rs eval_nat_numeral)
qed

section \<open>Witnesses\<close>

text \<open>Five restarts at once, and a runtime that ran a minute each time.\<close>

lemma crashing_history:
  "backoff_history (secs 31) [(secs 0, secs 1), (secs 1, secs 2), (secs 3, secs 4), (secs 7, secs 8), (secs 15, secs 16)]
    \<lparr>bo_wait = secs 30, bo_restarts = [secs 1, secs 3, secs 7, secs 15, secs 31]\<rparr>"
proof -
  have h0: "backoff_history 0 [] \<lparr>bo_wait = secs 1, bo_restarts = []\<rparr>"
    using bh_new [of 0] by (simp add: default_backoff_def FIRST_def)
  have h1: "backoff_history (secs 1) [(secs 0, secs 1)]
      \<lparr>bo_wait = secs 2, bo_restarts = [secs 1]\<rparr>"
    using bh_granted [OF h0, of "secs 0" "secs 0"]
    by (simp add: backoff_next_def restart_numbers)
  have h2: "backoff_history (secs 3) [(secs 0, secs 1), (secs 1, secs 2)]
      \<lparr>bo_wait = secs 4, bo_restarts = [secs 1, secs 3]\<rparr>"
    using bh_granted [OF h1, of "secs 1" "secs 0"]
    by (simp add: backoff_next_def restart_numbers)
  have h3: "backoff_history (secs 7) [(secs 0, secs 1), (secs 1, secs 2), (secs 3, secs 4)]
      \<lparr>bo_wait = secs 8, bo_restarts = [secs 1, secs 3, secs 7]\<rparr>"
    using bh_granted [OF h2, of "secs 3" "secs 0"]
    by (simp add: backoff_next_def restart_numbers)
  have h4: "backoff_history (secs 15) [(secs 0, secs 1), (secs 1, secs 2), (secs 3, secs 4), (secs 7, secs 8)]
      \<lparr>bo_wait = secs 16, bo_restarts = [secs 1, secs 3, secs 7, secs 15]\<rparr>"
    using bh_granted [OF h3, of "secs 7" "secs 0"]
    by (simp add: backoff_next_def restart_numbers)
  have h5: "backoff_history (secs 31) [(secs 0, secs 1), (secs 1, secs 2), (secs 3, secs 4), (secs 7, secs 8), (secs 15, secs 16)]
      \<lparr>bo_wait = secs 30, bo_restarts = [secs 1, secs 3, secs 7, secs 15, secs 31]\<rparr>"
    using bh_granted [OF h4, of "secs 15" "secs 0"]
    by (simp add: backoff_next_def restart_numbers)
  then show ?thesis .
qed

lemma steady_history:
  "backoff_history (secs 306) [(secs 0, secs 1), (secs 61, secs 1), (secs 122, secs 1), (secs 183, secs 1), (secs 244, secs 1), (secs 305, secs 1)]
    \<lparr>bo_wait = secs 2, bo_restarts = [secs 62, secs 123, secs 184, secs 245, secs 306]\<rparr>"
proof -
  have h0: "backoff_history 0 [] \<lparr>bo_wait = secs 1, bo_restarts = []\<rparr>"
    using bh_new [of 0] by (simp add: default_backoff_def FIRST_def)
  have h1: "backoff_history (secs 1) [(secs 0, secs 1)]
      \<lparr>bo_wait = secs 2, bo_restarts = [secs 1]\<rparr>"
    using bh_granted [OF h0, of "secs 0" "secs 60"]
    by (simp add: backoff_next_def restart_numbers)
  have h2: "backoff_history (secs 62) [(secs 0, secs 1), (secs 61, secs 1)]
      \<lparr>bo_wait = secs 2, bo_restarts = [secs 1, secs 62]\<rparr>"
    using bh_granted [OF h1, of "secs 61" "secs 60"]
    by (simp add: backoff_next_def restart_numbers)
  have h3: "backoff_history (secs 123) [(secs 0, secs 1), (secs 61, secs 1), (secs 122, secs 1)]
      \<lparr>bo_wait = secs 2, bo_restarts = [secs 1, secs 62, secs 123]\<rparr>"
    using bh_granted [OF h2, of "secs 122" "secs 60"]
    by (simp add: backoff_next_def restart_numbers)
  have h4: "backoff_history (secs 184) [(secs 0, secs 1), (secs 61, secs 1), (secs 122, secs 1), (secs 183, secs 1)]
      \<lparr>bo_wait = secs 2, bo_restarts = [secs 1, secs 62, secs 123, secs 184]\<rparr>"
    using bh_granted [OF h3, of "secs 183" "secs 60"]
    by (simp add: backoff_next_def restart_numbers)
  have h5: "backoff_history (secs 245) [(secs 0, secs 1), (secs 61, secs 1), (secs 122, secs 1), (secs 183, secs 1), (secs 244, secs 1)]
      \<lparr>bo_wait = secs 2, bo_restarts = [secs 1, secs 62, secs 123, secs 184, secs 245]\<rparr>"
    using bh_granted [OF h4, of "secs 244" "secs 60"]
    by (simp add: backoff_next_def restart_numbers)
  have h6: "backoff_history (secs 306) [(secs 0, secs 1), (secs 61, secs 1), (secs 122, secs 1), (secs 183, secs 1), (secs 244, secs 1), (secs 305, secs 1)]
      \<lparr>bo_wait = secs 2, bo_restarts = [secs 62, secs 123, secs 184, secs 245, secs 306]\<rparr>"
    using bh_granted [OF h5, of "secs 305" "secs 60"]
    by (simp add: backoff_next_def restart_numbers)
  then show ?thesis .
qed

theorem gives_up_at_the_limit_witness:
  "fst (backoff_next (secs 31) 0
     \<lparr>bo_wait = secs 30, bo_restarts = [secs 1, secs 3, secs 7, secs 15, secs 31]\<rparr>) = None \<and>
   LIMIT \<le> length (in_window (secs 31)
     [(secs 0, secs 1), (secs 1, secs 2), (secs 3, secs 4), (secs 7, secs 8), (secs 15, secs 16)])"
proof -
  have "fst (backoff_next (secs 31) 0
     \<lparr>bo_wait = secs 30, bo_restarts = [secs 1, secs 3, secs 7, secs 15, secs 31]\<rparr>) = None"
    by (simp add: backoff_next_def restart_numbers)
  then show ?thesis
    using gives_up_at_the_limit [OF crashing_history, of "secs 31" 0] by simp
qed

theorem restarts_are_rate_limited_witness:
  "planned [(secs 0, secs 1), (secs 61, secs 1), (secs 122, secs 1), (secs 183, secs 1), (secs 244, secs 1),
     (secs 305, secs 1)] ! 0 + WINDOW \<le> secs 305"
  using restarts_are_rate_limited [OF steady_history, of 0] by (simp add: LIMIT_def)

theorem stable_runtime_is_always_restarted_witness:
  "\<exists>b. supervise RestartOnFailure 0 default_backoff
     [\<lparr>pe_at = secs 60, pe_why = ''killed'', pe_still = True, pe_restart_at = secs 61, pe_again = True\<rparr>,
      \<lparr>pe_at = secs 150, pe_why = ''killed'', pe_still = True, pe_restart_at = secs 151, pe_again = True\<rparr>] =
     (None, b, [secs 61, secs 151])"
  using stable_runtime_is_always_restarted [of 0 "[\<lparr>pe_at = secs 60, pe_why = ''killed'', pe_still = True,
      pe_restart_at = secs 61, pe_again = True\<rparr>, \<lparr>pe_at = secs 150, pe_why = ''killed'',
      pe_still = True, pe_restart_at = secs 151, pe_again = True\<rparr>]"]
  by (simp add: restart_numbers del: supervise.simps)

theorem crash_loop_is_given_up_witness:
  "\<exists>b. supervise RestartOnFailure 0 default_backoff
     (crashes 0 [(0, secs 1), (secs 53, secs 2), (0, secs 4), (0, secs 8), (0, secs 16), (0, 0)]) =
     (Some GaveUp, b, [secs 1, secs 56, secs 60, secs 68, secs 84])"
  using crash_loop_is_given_up [of 0 "secs 53" 0 0 0 0 0 0]
  by (simp add: secs_def Let_def del: supervise.simps)

end
