(* ===== verification/Json.thy ===== *)
theory Json
  imports Rutis_Prelude
begin

text \<open>
  JSON values as \<open>serde_json\<close> holds them with \<open>preserve_order\<close> (the feature
  the loader, the host and the profiles build with), and the operations on
  objects they use.  A number is one of serde's three kinds; a float is
  \<open>m * 2^e\<close>, as every finite \<open>f64\<close> is.
\<close>

datatype number = PosInt nat | NegInt int | Float int int

datatype json =
    JNull
  | JBool bool
  | JNumber number
  | JString string
  | JArray "json list"
  | JObject "(string \<times> json) list"

type_synonym object = "(string \<times> json) list"

text \<open>\<open>Map::remove\<close> with \<open>preserve_order\<close>: the last entry takes the removed one's place.\<close>

definition al_swap_remove :: "'k \<Rightarrow> ('k \<times> 'v) list \<Rightarrow> ('k \<times> 'v) list" where
  "al_swap_remove k m = (case position (\<lambda>(k', _). k' = k) m of None \<Rightarrow> m | Some i \<Rightarrow> swap_remove i m)"

text \<open>JavaScript truthiness of a JSON value, \<open>truthy\<close> of \<open>rutis-loader/src/patch.rs\<close>.\<close>

fun is_zero :: "number \<Rightarrow> bool" where
  "is_zero (PosInt n) = (n = 0)"
| "is_zero (NegInt i) = (i = 0)"
| "is_zero (Float m e) = (m = 0)"

fun truthy :: "json \<Rightarrow> bool" where
  "truthy JNull = False"
| "truthy (JBool b) = b"
| "truthy (JNumber n) = (\<not> is_zero n)"
| "truthy (JString s) = (s \<noteq> [])"
| "truthy (JArray _) = True"
| "truthy (JObject _) = True"

text \<open>A non-empty string id.\<close>

fun string_id :: "json option \<Rightarrow> string option" where
  "string_id (Some (JString s)) = (if s = [] then None else Some s)"
| "string_id _ = None"

definition is_group :: "object \<Rightarrow> bool" where
  "is_group fields = (case map_of fields ''group'' of Some v \<Rightarrow> truthy v | None \<Rightarrow> False)"

section \<open>Objects with distinct keys\<close>

lemma swap_remove_split:
  assumes "i < length xs"
  shows "set (swap_remove i xs) = set (take i xs) \<union> set (drop (Suc i) xs)"
    "distinct (map f xs) \<Longrightarrow> distinct (map f (swap_remove i xs))"
proof -
  have m: "mset (swap_remove i xs) = mset xs - {#xs ! i#}" by (rule mset_swap_remove [OF assms])
  have split: "mset xs = add_mset (xs ! i) (mset (take i xs @ drop (Suc i) xs))"
    by (subst id_take_nth_drop [OF assms]) simp
  then have eq: "mset (swap_remove i xs) = mset (take i xs @ drop (Suc i) xs)" using m by simp
  then show "set (swap_remove i xs) = set (take i xs) \<union> set (drop (Suc i) xs)"
    by (metis set_append set_mset_mset)
  assume "distinct (map f xs)"
  then have "distinct (map f (take i xs @ drop (Suc i) xs))"
    by (subst (asm) id_take_nth_drop [OF assms]) simp
  moreover have "mset (map f (swap_remove i xs)) = mset (map f (take i xs @ drop (Suc i) xs))"
    using eq by (metis mset_map)
  ultimately show "distinct (map f (swap_remove i xs))" by (metis mset_eq_imp_distinct_iff)
qed

lemma distinct_al_swap_remove [simp]:
  "distinct (map fst m) \<Longrightarrow> distinct (map fst (al_swap_remove k m))"
  by (auto simp: al_swap_remove_def swap_remove_split dest: position_SomeD split: option.split)

lemma map_of_al_swap_remove:
  assumes "distinct (map fst m)"
  shows "map_of (al_swap_remove k m) = (map_of m)(k := None)"
proof (cases "position (\<lambda>(k', _). k' = k) m")
  case None
  then have "k \<notin> fst ` set m" by (force simp: position_None)
  then have "map_of m k = None" by (simp add: map_of_eq_None_iff)
  then show ?thesis using None by (simp add: al_swap_remove_def fun_upd_idem)
next
  case (Some i)
  have i: "i < length m" "fst (m ! i) = k" using position_SomeD [OF Some] by (auto simp: split_beta)
  have m: "m = take i m @ m ! i # drop (Suc i) m" by (rule id_take_nth_drop [OF i(1)])
  have d: "distinct (map fst (al_swap_remove k m))" using assms by simp
  have "set (al_swap_remove k m) = set (take i m) \<union> set (drop (Suc i) m)"
    using Some by (simp add: al_swap_remove_def swap_remove_split(1) [OF i(1)])
  also have "\<dots> = {p \<in> set m. fst p \<noteq> k}"
  proof -
    have dd: "distinct (map fst (take i m @ m ! i # drop (Suc i) m))" using assms m by simp
    have "k \<notin> fst ` set (take i m)" "k \<notin> fst ` set (drop (Suc i) m)" using dd i(2) by auto
    moreover have "set m = insert (m ! i) (set (take i m) \<union> set (drop (Suc i) m))"
      by (subst m) auto
    ultimately show ?thesis using i(2) by (auto simp: image_iff)
  qed
  also have "\<dots> = set (al_remove k m)" by (auto simp: al_remove_def)
  finally have "map_of (al_swap_remove k m) = map_of (al_remove k m)"
    using map_of_inject_set [OF d distinct_al_remove [OF assms]] by blast
  then show ?thesis by simp
qed

end
