(* ===== verification/Patches.thy ===== *)
theory Patches
  imports Json
begin

text \<open>
  Composing patch layers into the desired tree of rows,
  \<open>crates/rutis-loader/src/patch.rs\<close>.

  Rows are nodes of an arena; a node's children are nodes or plain values.
  Writing a row out and listing the rows follow the children, with the number
  of nodes as fuel; that this is enough is a property.  A warning's text is
  represented by its kind and the values it shows; a layer's record of the
  overridden fields is a map.
\<close>

section \<open>Patches and rows\<close>

record patch =
  pt_id :: "string option"
  pt_insert :: "json list option"
  pt_name :: "string option"
  pt_overrides :: object

record layer =
  ly_name :: string
  ly_patches :: "patch list"

datatype patch_message =
    InsertNotFound string
  | InsertNotGroup string
  | IdRequired
  | EntryNotFound string
  | NameMismatch string json string

record patch_warning =
  pw_layer :: string
  pw_index :: nat
  pw_message :: patch_message

datatype owner = OwnLayer nat | OwnReplaced nat

record composed_row =
  cr_value :: json
  cr_id :: "string option"
  cr_parent :: "string option"
  cr_owner :: owner
  cr_overridden :: "string \<rightharpoonup> nat"

record composed =
  co_rows :: "json list"
  co_flat :: "composed_row list"
  co_warnings :: "patch_warning list"

section \<open>The arena\<close>

datatype child = CNode nat | CRaw json

datatype config = Absent | CValue json | Children "child list"

record node =
  nd_fields :: object
  nd_config :: config
  nd_owner :: owner
  nd_overridden :: "string \<rightharpoonup> nat"

record arena =
  ar_nodes :: "node list"
  ar_index :: "string \<rightharpoonup> nat"

text \<open>\<open>Arena::build\<close>: the end of it, once the config is known.\<close>

definition push_node :: "object \<Rightarrow> config \<Rightarrow> nat \<Rightarrow> arena \<Rightarrow> child \<times> arena" where
  "push_node fs config layer a =
     (let n = length (ar_nodes a)
      in (CNode n, \<lparr>ar_nodes = ar_nodes a @ [\<lparr>nd_fields = fs, nd_config = config,
              nd_owner = OwnLayer layer, nd_overridden = Map.empty\<rparr>],
            ar_index = (case string_id (map_of fs ''id'') of
                None \<Rightarrow> ar_index a | Some i \<Rightarrow> (ar_index a)(i \<mapsto> n))\<rparr>))"

text \<open>The values a freshly inserted row is built with: its array of children, if it is a group.\<close>

definition group_items :: "object \<Rightarrow> json list option" where
  "group_items fs = (case map_of fs ''config'' of
     Some (JArray items) \<Rightarrow> if is_group (al_swap_remove ''config'' fs) then Some items else None
   | _ \<Rightarrow> None)"

lemma group_items_size: "group_items fs = Some items \<Longrightarrow> size_list size items < size (JObject fs)"
proof -
  assume "group_items fs = Some items"
  then have "(''config'', JArray items) \<in> set fs"
    by (auto simp: group_items_def split: option.splits json.splits if_splits dest: map_of_SomeD)
  then have "size_prod (\<lambda>_. 0) size (''config'', JArray items) \<le> size_list (size_prod (\<lambda>_. 0) size) fs"
    by (rule size_list_estimation'[OF _ order_refl])
  then show ?thesis by simp
qed

function build :: "json \<Rightarrow> nat \<Rightarrow> arena \<Rightarrow> child \<times> arena"
  and build_list :: "json list \<Rightarrow> nat \<Rightarrow> arena \<Rightarrow> child list \<times> arena" where
  "build v layer a = (case v of
     JObject fs \<Rightarrow>
       (case group_items fs of
          Some items \<Rightarrow>
            (case build_list items layer a of
               (cs, a1) \<Rightarrow> push_node (al_swap_remove ''config'' fs) (Children cs) layer a1)
        | None \<Rightarrow> push_node (al_swap_remove ''config'' fs)
            (case map_of fs ''config'' of None \<Rightarrow> Absent | Some c \<Rightarrow> CValue c) layer a)
   | _ \<Rightarrow> (CRaw v, a))"
| "build_list [] layer a = ([], a)"
| "build_list (v # vs) layer a =
     (case build v layer a of
        (c, a1) \<Rightarrow> (case build_list vs layer a1 of (cs, a2) \<Rightarrow> (c # cs, a2)))"
  by pat_completeness auto

termination
  by (relation "measure (\<lambda>x. case x of Inl (v, _, _) \<Rightarrow> 2 * size v | Inr (vs, _, _) \<Rightarrow> 2 * size_list size vs + 1)")
     (auto dest!: group_items_size)

declare build.simps [simp del]

text \<open>\<open>Arena::to_value\<close>.\<close>

fun those_map :: "('a \<Rightarrow> 'b option) \<Rightarrow> 'a list \<Rightarrow> 'b list option" where
  "those_map f [] = Some []"
| "those_map f (x # xs) = (case f x of
     None \<Rightarrow> None
   | Some y \<Rightarrow> (case those_map f xs of None \<Rightarrow> None | Some ys \<Rightarrow> Some (y # ys)))"

fun to_value :: "nat \<Rightarrow> arena \<Rightarrow> child \<Rightarrow> json option" where
  "to_value n a (CRaw v) = Some v"
| "to_value 0 a (CNode i) = None"
| "to_value (Suc n) a (CNode i) =
     (let node = ar_nodes a ! i in
      case nd_config node of
        Absent \<Rightarrow> Some (JObject (nd_fields node))
      | CValue v \<Rightarrow> Some (JObject (al_insert ''config'' v (nd_fields node)))
      | Children cs \<Rightarrow>
          map_option (\<lambda>items. JObject (al_insert ''config'' (JArray items) (nd_fields node)))
            (those_map (to_value n a) cs))"

lemma config_size: "map_of fs ''config'' = Some (JArray items) \<Longrightarrow>
  size_list size items < size_list (size_prod (\<lambda>_. 0) size) fs"
proof -
  assume "map_of fs ''config'' = Some (JArray items)"
  then have "(''config'', JArray items) \<in> set fs" by (rule map_of_SomeD)
  then have "size_prod (\<lambda>_. 0) size (''config'', JArray items) \<le> size_list (size_prod (\<lambda>_. 0) size) fs"
    by (rule size_list_estimation'[OF _ order_refl])
  then show ?thesis by simp
qed

text \<open>\<open>flatten_raw\<close>: the rows of plain values.\<close>

function flatten_raw :: "json list \<Rightarrow> string option \<Rightarrow> nat \<Rightarrow> composed_row list" where
  "flatten_raw [] parent layer = []"
| "flatten_raw (v # vs) parent layer =
     (case v of
        JObject fs \<Rightarrow>
          (let i = string_id (map_of fs ''id'')
           in \<lparr>cr_value = v, cr_id = i, cr_parent = parent, cr_owner = OwnReplaced layer,
                cr_overridden = Map.empty\<rparr> #
              (if is_group fs
               then (case map_of fs ''config'' of
                       Some (JArray items) \<Rightarrow> flatten_raw items i layer | _ \<Rightarrow> [])
               else []))
      | _ \<Rightarrow> []) @ flatten_raw vs parent layer"
  by pat_completeness auto

termination
  by (relation "measure (\<lambda>(vs, _, _). size_list size vs)") (auto dest!: config_size)

declare flatten_raw.simps(2) [simp del]

text \<open>\<open>Arena::flatten\<close>, for one child; the rows of a list of children follow each other.\<close>

definition config_layer :: "node \<Rightarrow> nat" where
  "config_layer node = (case nd_overridden node ''config'' of None \<Rightarrow> 0 | Some l \<Rightarrow> l)"

fun flatten_child :: "nat \<Rightarrow> arena \<Rightarrow> string option \<Rightarrow> nat \<Rightarrow> child \<Rightarrow> composed_row list option" where
  "flatten_child n a parent raw_layer (CRaw v) = Some (flatten_raw [v] parent raw_layer)"
| "flatten_child 0 a parent raw_layer (CNode i) = None"
| "flatten_child (Suc n) a parent raw_layer (CNode i) =
     (let node = ar_nodes a ! i; row_id = string_id (map_of (nd_fields node) ''id'') in
      case to_value (Suc n) a (CNode i) of
        None \<Rightarrow> None
      | Some v \<Rightarrow>
          map_option (\<lambda>below. \<lparr>cr_value = v, cr_id = row_id, cr_parent = parent, cr_owner = nd_owner node,
              cr_overridden = nd_overridden node\<rparr> # below)
            (case nd_config node of
               Children cs \<Rightarrow>
                 map_option concat (those_map (flatten_child n a row_id (config_layer node)) cs)
             | CValue (JArray items) \<Rightarrow>
                 if is_group (nd_fields node)
                 then Some (flatten_raw items row_id (config_layer node)) else Some []
             | _ \<Rightarrow> Some []))"

definition flatten :: "nat \<Rightarrow> arena \<Rightarrow> child list \<Rightarrow> string option \<Rightarrow> nat \<Rightarrow> composed_row list option" where
  "flatten n a cs parent raw_layer = map_option concat (those_map (flatten_child n a parent raw_layer) cs)"

section \<open>Applying patches\<close>

record patching =
  pa_arena :: arena
  pa_root :: "child list"
  pa_warnings :: "patch_warning list"

definition nonempty :: "string option \<Rightarrow> string option" where
  "nonempty s = (case s of Some x \<Rightarrow> if x = [] then None else Some x | None \<Rightarrow> None)"

definition warn :: "string \<Rightarrow> nat \<Rightarrow> patch_message \<Rightarrow> patching \<Rightarrow> patching" where
  "warn layer index msg p =
     p\<lparr>pa_warnings := pa_warnings p @ [\<lparr>pw_layer = layer, pw_index = index, pw_message = msg\<rparr>]\<rparr>"

definition set_node :: "nat \<Rightarrow> node \<Rightarrow> patching \<Rightarrow> patching" where
  "set_node i node p =
     p\<lparr>pa_arena := (pa_arena p)\<lparr>ar_nodes := (ar_nodes (pa_arena p))[i := node]\<rparr>\<rparr>"

text \<open>The children an insert into a group starts from.\<close>

fun config_children :: "config \<Rightarrow> child list" where
  "config_children (Children cs) = cs"
| "config_children (CValue (JArray items)) = map CRaw items"
| "config_children _ = []"

definition apply_insert :: "nat \<Rightarrow> string \<Rightarrow> nat \<Rightarrow> string option \<Rightarrow> json list \<Rightarrow> patching \<Rightarrow> patching" where
  "apply_insert li layer index target rows p =
     (case build_list rows li (pa_arena p) of
        (built, a) \<Rightarrow>
          (let p1 = p\<lparr>pa_arena := a\<rparr> in
           case target of
             None \<Rightarrow> p1\<lparr>pa_root := pa_root p1 @ built\<rparr>
           | Some i \<Rightarrow>
               (case ar_index a i of
                  None \<Rightarrow> warn layer index (InsertNotFound i) p1
                | Some n \<Rightarrow>
                    (let node = ar_nodes a ! n in
                     if \<not> is_group (nd_fields node) then warn layer index (InsertNotGroup i) p1
                     else set_node n (node\<lparr>nd_config := Children (config_children (nd_config node) @ built)\<rparr>) p1))))"

text \<open>One field of an override.\<close>

definition apply_field :: "nat \<Rightarrow> node \<Rightarrow> string \<times> json \<Rightarrow> node" where
  "apply_field li node kv = (case kv of (key, v) \<Rightarrow>
     if key = ''id'' then node
     else (if key = ''config'' then node\<lparr>nd_config := CValue v\<rparr>
           else node\<lparr>nd_fields := al_insert key v (nd_fields node)\<rparr>)
          \<lparr>nd_overridden := (nd_overridden node)(key \<mapsto> li)\<rparr>)"

definition apply_override :: "nat \<Rightarrow> string \<Rightarrow> nat \<Rightarrow> patch \<Rightarrow> patching \<Rightarrow> patching" where
  "apply_override li layer index pt p =
     (case nonempty (pt_id pt) of
        None \<Rightarrow> warn layer index IdRequired p
      | Some i \<Rightarrow>
          (case ar_index (pa_arena p) i of
             None \<Rightarrow> warn layer index (EntryNotFound i) p
           | Some n \<Rightarrow>
               (let node = ar_nodes (pa_arena p) ! n;
                    current = map_of (nd_fields node) ''name''
                in case nonempty (pt_name pt) of
                     None \<Rightarrow> set_node n (foldl (apply_field li) node (pt_overrides pt)) p
                   | Some name \<Rightarrow>
                       if current \<noteq> Some (JString name)
                       then warn layer index (NameMismatch i (case current of None \<Rightarrow> JNull | Some v \<Rightarrow> v) name) p
                       else set_node n (foldl (apply_field li) node (pt_overrides pt)) p)))"

definition apply_patch :: "nat \<Rightarrow> string \<Rightarrow> nat \<times> patch \<Rightarrow> patching \<Rightarrow> patching" where
  "apply_patch li layer ip p = (case ip of (index, pt) \<Rightarrow>
     (case pt_insert pt of
        Some rows \<Rightarrow> apply_insert li layer index (nonempty (pt_id pt)) rows p
      | None \<Rightarrow> apply_override li layer index pt p))"

definition apply_layer :: "nat \<times> layer \<Rightarrow> patching \<Rightarrow> patching" where
  "apply_layer il p = (case il of (li, l) \<Rightarrow>
     fold (apply_patch li (ly_name l)) (List.enumerate 0 (ly_patches l)) p)"

definition no_patches :: patching where
  "no_patches = \<lparr>pa_arena = \<lparr>ar_nodes = [], ar_index = Map.empty\<rparr>, pa_root = [], pa_warnings = []\<rparr>"

definition run_layers :: "layer list \<Rightarrow> patching" where
  "run_layers layers = fold apply_layer (List.enumerate 0 layers) no_patches"

text \<open>\<open>apply_patches\<close>; \<open>None\<close> would be an endless walk.\<close>

definition compose :: "patching \<Rightarrow> composed option" where
  "compose p =
     (let a = pa_arena p; n = length (ar_nodes a)
      in case those_map (to_value n a) (pa_root p) of
           None \<Rightarrow> None
         | Some rows \<Rightarrow>
             map_option (\<lambda>flat. \<lparr>co_rows = rows, co_flat = flat, co_warnings = pa_warnings p\<rparr>)
               (flatten n a (pa_root p) None 0))"

definition apply_patches :: "layer list \<Rightarrow> composed option" where
  "apply_patches layers = compose (run_layers layers)"

end
