(* ===== verification/Edits.thy ===== *)
theory Edits
  imports Patches
begin

text \<open>
  Imperative edits of the editable patch layer, \<open>crates/rutis-loader/src/edit.rs\<close>.

  A \<open>&mut\<close> into the nested rows of an insert is a path: the patch, the
  places of the groups on the way and the place of the row.  The text of an
  error is represented by its kind and the values it shows.  The walks over
  the composed rows have their number as fuel and answer \<open>None\<close> when it runs
  out; that it never does is a property.
\<close>

section \<open>Edits and their errors\<close>

datatype edit =
    Create json "string option" "nat option"
  | Update string json
  | SetDisabled string bool
  | SetInject string "string list option"
  | SetIsolate string "object option"
  | Rename string string
  | Move string "string option" "nat option"
  | Remove string

datatype invalid_entry =
    NeedsId
  | EntryNotObject
  | NotObject string
  | IntoOwnSubtree string
  | NotGroup string
  | NoLayerNamed string

datatype not_owned_reason =
    AboveEditable string
  | InsideReplaced
  | CannotRename
  | CannotMove
  | CannotRemove

datatype unsupported =
    GroupConfig string
  | ForeignPosition nat
  | NoPersistLoad

text \<open>
  \<open>LoaderError\<close>.  The error of a row (\<open>Rejected\<close>) and the message of a
  storage are strings; why an edit was not persisted is a failed save or a
  failed load.
\<close>

record failure =
  fl_id :: string
  fl_error :: string

datatype loader_error =
    NotFound string
  | Resolve string string
  | Rejected string string
  | UnknownEntry string
  | RowExists string
  | InvalidEntry invalid_entry
  | NotOwned string not_owned_reason
  | OverriddenByLayer string string string
  | Unsupported unsupported
  | NoEditableLayer
  | ApplyFailed "failure list"
  | RollbackFailed "failure list" "failure list"
  | Conflict
  | SaveFailed string
  | LoadFailed loader_error
  | Expression string
  | UnknownService "string list"
  | OutsideInstance string string
  | NotReadable string
  | Closed

text \<open>Rust's \<open>?\<close>.\<close>

definition and_then :: "'e + 'a \<Rightarrow> ('a \<Rightarrow> 'e + 'b) \<Rightarrow> 'e + 'b" where
  "and_then r f = (case r of Inl e \<Rightarrow> Inl e | Inr x \<Rightarrow> f x)"

lemma and_then_simps [simp]: "and_then (Inl e) f = Inl e" "and_then (Inr x) f = f x"
  by (simp_all add: and_then_def)

lemma and_then_InrE:
  assumes "and_then r f = Inr y"
  obtains x where "r = Inr x" "f x = Inr y"
  using assms by (auto simp: and_then_def split: sum.splits)

text \<open>\<open>Option::ok_or\<close>.\<close>

definition ok_or :: "'e \<Rightarrow> 'a option \<Rightarrow> 'e + 'a" where
  "ok_or e x = (case x of None \<Rightarrow> Inl e | Some y \<Rightarrow> Inr y)"

section \<open>Rows as they are written\<close>

text \<open>\<open>Value::get\<close> at a key.\<close>

definition vget :: "string \<Rightarrow> json \<Rightarrow> json option" where
  "vget k v = (case v of JObject fs \<Rightarrow> map_of fs k | _ \<Rightarrow> None)"

fun value_str :: "json option \<Rightarrow> string option" where
  "value_str (Some (JString s)) = Some s"
| "value_str _ = None"

fun value_array :: "json option \<Rightarrow> json list option" where
  "value_array (Some (JArray vs)) = Some vs"
| "value_array _ = None"

definition item_id :: "json \<Rightarrow> string option" where
  "item_id v = value_str (vget ''id'' v)"

definition item_group :: "json \<Rightarrow> bool" where
  "item_group v = (case vget ''group'' v of Some g \<Rightarrow> truthy g | None \<Rightarrow> False)"

definition item_config :: "json \<Rightarrow> json list option" where
  "item_config v = value_array (vget ''config'' v)"

text \<open>The rows of a group.\<close>

definition item_children :: "json \<Rightarrow> json list option" where
  "item_children v = (if item_group v then item_config v else None)"

lemma value_array_Some: "value_array x = Some vs \<longleftrightarrow> x = Some (JArray vs)"
  by (cases x rule: value_array.cases) auto

lemma item_config_size: "item_config v = Some items \<Longrightarrow> size_list size items < size v"
  by (auto simp: item_config_def vget_def value_array_Some split: json.splits dest!: config_size)

lemma item_children_size: "item_children v = Some items \<Longrightarrow> size_list size items < size v"
  by (auto simp: item_children_def item_config_size split: if_splits)

function contains :: "json list \<Rightarrow> string \<Rightarrow> bool" where
  "contains [] i = False"
| "contains (v # vs) i =
     (item_id v = Some i \<or>
      (case item_children v of Some items \<Rightarrow> contains items i | None \<Rightarrow> False) \<or>
      contains vs i)"
  by pat_completeness auto

termination
  by (relation "measure (\<lambda>(vs, _). size_list size vs)") (auto dest!: item_children_size)

section \<open>Locating an owned row\<close>

definition has_below :: "string \<Rightarrow> json \<Rightarrow> bool" where
  "has_below i v = (case item_children v of Some items \<Rightarrow> contains items i | None \<Rightarrow> False)"

lemma nth_size: "n < length vs \<Longrightarrow> size (vs ! n :: json) \<le> size_list size vs"
  by (rule size_list_estimation' [of "vs ! n"]) simp_all

text \<open>\<open>search\<close> of \<open>locate_mut\<close>: the places on the way to the row.\<close>

function search_rows :: "json list \<Rightarrow> string \<Rightarrow> nat list option" where
  "search_rows vs i =
     (case position (\<lambda>v. item_id v = Some i) vs of
        Some n \<Rightarrow> Some [n]
      | None \<Rightarrow>
          (case position (has_below i) vs of
             None \<Rightarrow> None
           | Some n \<Rightarrow>
               (case item_config (vs ! n) of
                  None \<Rightarrow> None
                | Some items \<Rightarrow> map_option ((#) n) (search_rows items i))))"
  by pat_completeness auto

termination
proof (relation "measure (\<lambda>(vs, _). size_list size vs)", simp)
  fix vs i n items
  assume "position (has_below i) vs = Some n" "item_config (vs ! n) = Some items"
  then have "size_list size items < size (vs ! n)" "n < length vs"
    by (auto dest: item_config_size position_SomeD)
  then show "((items, i), vs, i) \<in> measure (\<lambda>(vs, _). size_list size vs)"
    using nth_size [of n vs] by simp
qed

declare search_rows.simps [simp del]

definition insert_rows :: "patch \<Rightarrow> json list" where
  "insert_rows p = (case pt_insert p of None \<Rightarrow> [] | Some rows \<Rightarrow> rows)"

definition patch_index_of :: "patch list \<Rightarrow> string \<Rightarrow> nat option" where
  "patch_index_of ps i =
     position (\<lambda>p. case pt_insert p of Some rows \<Rightarrow> contains rows i | None \<Rightarrow> False) ps"

definition locate_mut :: "patch list \<Rightarrow> string \<Rightarrow> (nat \<times> nat list) option" where
  "locate_mut ps i =
     (case patch_index_of ps i of
        None \<Rightarrow> None
      | Some n \<Rightarrow>
          (case pt_insert (ps ! n) of
             None \<Rightarrow> None
           | Some rows \<Rightarrow> map_option (Pair n) (search_rows rows i)))"

text \<open>The array and the index a path leads to: read, and changed in place.\<close>

fun read_at :: "nat list \<Rightarrow> json list \<Rightarrow> json" where
  "read_at [] vs = JNull"
| "read_at [n] vs = vs ! n"
| "read_at (n # m # path) vs =
     (case item_config (vs ! n) of None \<Rightarrow> JNull | Some items \<Rightarrow> read_at (m # path) items)"

definition put_config :: "json list \<Rightarrow> json \<Rightarrow> json" where
  "put_config items v = (case v of JObject fs \<Rightarrow> JObject (al_insert ''config'' (JArray items) fs) | _ \<Rightarrow> v)"

fun change_at :: "(json list \<Rightarrow> nat \<Rightarrow> json list) \<Rightarrow> nat list \<Rightarrow> json list \<Rightarrow> json list" where
  "change_at f [] vs = vs"
| "change_at f [n] vs = f vs n"
| "change_at f (n # m # path) vs =
     (case item_config (vs ! n) of
        None \<Rightarrow> vs
      | Some items \<Rightarrow> vs[n := put_config (change_at f (m # path) items) (vs ! n)])"

definition located :: "nat \<times> nat list \<Rightarrow> patch list \<Rightarrow> json" where
  "located loc ps = read_at (snd loc) (insert_rows (ps ! fst loc))"

definition change_located ::
  "(json list \<Rightarrow> nat \<Rightarrow> json list) \<Rightarrow> nat \<times> nat list \<Rightarrow> patch list \<Rightarrow> patch list" where
  "change_located f loc ps =
     ps[fst loc := (ps ! fst loc)\<lparr>pt_insert := Some (change_at f (snd loc) (insert_rows (ps ! fst loc)))\<rparr>]"

text \<open>\<open>owned_object\<close> with the change its caller makes to the object.\<close>

definition with_owned_object ::
  "patch list \<Rightarrow> string \<Rightarrow> (object \<Rightarrow> object) \<Rightarrow> loader_error + patch list" where
  "with_owned_object ps i f =
     (case locate_mut ps i of
        None \<Rightarrow> Inl (UnknownEntry i)
      | Some loc \<Rightarrow>
          (case located loc ps of
             JObject fs \<Rightarrow> Inr (change_located (\<lambda>vs n. vs[n := JObject (f fs)]) loc ps)
           | _ \<Rightarrow> Inl (InvalidEntry (NotObject i))))"

definition drop_empty_inserts :: "patch list \<Rightarrow> patch list" where
  "drop_empty_inserts ps = filter (\<lambda>p. pt_insert p \<noteq> Some []) ps"

definition take_owned :: "patch list \<Rightarrow> string \<Rightarrow> loader_error + (object \<times> patch list)" where
  "take_owned ps i =
     (case locate_mut ps i of
        None \<Rightarrow> Inl (UnknownEntry i)
      | Some loc \<Rightarrow>
          (case located loc ps of
             JObject fs \<Rightarrow> Inr (fs, drop_empty_inserts
               (change_located (\<lambda>vs n. take n vs @ drop (Suc n) vs) loc ps))
           | _ \<Rightarrow> Inl (InvalidEntry (NotObject i))))"

section \<open>The editable layer's own overrides\<close>

definition asserts :: "patch \<Rightarrow> string option \<Rightarrow> bool" where
  "asserts p name = (case nonempty (pt_name p) of None \<Rightarrow> True | Some asserted \<Rightarrow> Some asserted = name)"

definition overrides_row :: "string \<Rightarrow> string option \<Rightarrow> patch \<Rightarrow> bool" where
  "overrides_row i name p \<longleftrightarrow> pt_insert p = None \<and> pt_id p = Some i \<and> asserts p name"

definition put_fields :: "object \<Rightarrow> object \<Rightarrow> object" where
  "put_fields kvs fs = fold (\<lambda>(k, v). al_insert k v) kvs fs"

definition fold_overrides :: "patch list \<Rightarrow> string \<Rightarrow> string option \<Rightarrow> patch list" where
  "fold_overrides ps i name =
     (let fields = fold (\<lambda>p. put_fields (pt_overrides p)) (filter (overrides_row i name) ps) [];
          kept = filter (\<lambda>p. \<not> overrides_row i name p) ps
      in if fields = [] then kept
         else (case locate_mut kept i of
                 None \<Rightarrow> kept
               | Some loc \<Rightarrow>
                   (case located loc kept of
                      JObject fs \<Rightarrow> change_located
                        (\<lambda>vs n. vs[n := JObject (put_fields (filter (\<lambda>(k, _). k \<noteq> ''id'') fields) fs)]) loc kept
                    | _ \<Rightarrow> kept)))"

definition last_position :: "('a \<Rightarrow> bool) \<Rightarrow> 'a list \<Rightarrow> nat option" where
  "last_position P xs = map_option (\<lambda>n. length xs - Suc n) (position P (rev xs))"

definition empty_patch :: patch where
  "empty_patch = \<lparr>pt_id = None, pt_insert = None, pt_name = None, pt_overrides = []\<rparr>"

definition upsert_override ::
  "patch list \<Rightarrow> string \<Rightarrow> string option \<Rightarrow> string \<Rightarrow> json \<Rightarrow> patch list" where
  "upsert_override ps i name field v =
     (case last_position (overrides_row i name) ps of
        Some n \<Rightarrow> ps[n := (ps ! n)\<lparr>pt_overrides := al_insert field v (pt_overrides (ps ! n))\<rparr>]
      | None \<Rightarrow> ps @ [empty_patch\<lparr>pt_id := Some i, pt_overrides := [(field, v)]\<rparr>])"

section \<open>The composed rows an edit reads\<close>

record edit_ctx =
  ex_layers :: "layer list"
  ex_editable :: nat
  ex_rows :: "composed_row list"

definition find_row :: "composed_row list \<Rightarrow> string \<Rightarrow> composed_row option" where
  "find_row rows i = List.find (\<lambda>r. cr_id r = Some i) rows"

definition require_row :: "edit_ctx \<Rightarrow> string \<Rightarrow> loader_error + composed_row" where
  "require_row c i = ok_or (UnknownEntry i) (find_row (ex_rows c) i)"

definition row_id :: "composed_row \<Rightarrow> string" where
  "row_id r = (case cr_id r of None \<Rightarrow> [] | Some i \<Rightarrow> i)"

definition row_name :: "composed_row \<Rightarrow> string option" where
  "row_name r = value_str (vget ''name'' (cr_value r))"

definition layer_name :: "edit_ctx \<Rightarrow> nat \<Rightarrow> string" where
  "layer_name c l = ly_name (ex_layers c ! l)"

definition addressable :: "edit_ctx \<Rightarrow> composed_row \<Rightarrow> loader_error + unit" where
  "addressable c r =
     (case cr_owner r of
        OwnLayer l \<Rightarrow>
          if ex_editable c < l then Inl (NotOwned (row_id r) (AboveEditable (layer_name c l))) else Inr ()
      | OwnReplaced _ \<Rightarrow> Inl (NotOwned (row_id r) InsideReplaced))"

definition owned :: "edit_ctx \<Rightarrow> composed_row \<Rightarrow> not_owned_reason \<Rightarrow> loader_error + unit" where
  "owned c r reason = and_then (addressable c r) (\<lambda>_.
     if cr_owner r = OwnLayer (ex_editable c) then Inr () else Inl (NotOwned (row_id r) reason))"

definition check_above :: "edit_ctx \<Rightarrow> composed_row \<Rightarrow> string \<Rightarrow> loader_error + unit" where
  "check_above c r field =
     (case cr_overridden r field of
        Some l \<Rightarrow>
          if ex_editable c < l then Inl (OverriddenByLayer (row_id r) field (layer_name c l)) else Inr ()
      | None \<Rightarrow> Inr ())"

definition set_field ::
  "edit_ctx \<Rightarrow> patch list \<Rightarrow> composed_row \<Rightarrow> string \<Rightarrow> json \<Rightarrow> loader_error + patch list" where
  "set_field c ps r field v =
     and_then (addressable c r) (\<lambda>_. and_then (check_above c r field) (\<lambda>_.
       if cr_owner r = OwnLayer (ex_editable c)
       then with_owned_object (fold_overrides ps (row_id r) (row_name r)) (row_id r)
              (if v = JNull then al_swap_remove field else al_insert field v)
       else Inr (upsert_override ps (row_id r) (row_name r) field v)))"

text \<open>The loop of \<open>is_descendant\<close>.\<close>

fun up_walk :: "nat \<Rightarrow> composed_row list \<Rightarrow> string \<Rightarrow> string option \<Rightarrow> bool option" where
  "up_walk n rows ancestor None = Some False"
| "up_walk 0 rows ancestor (Some p) = None"
| "up_walk (Suc n) rows ancestor (Some p) =
     (if p = ancestor then Some True
      else up_walk n rows ancestor (Option.bind (find_row rows p) cr_parent))"

definition is_descendant :: "composed_row list \<Rightarrow> string \<Rightarrow> string \<Rightarrow> bool option" where
  "is_descendant rows candidate ancestor =
     up_walk (length rows) rows ancestor (Option.bind (find_row rows candidate) cr_parent)"

definition subtree_ids :: "composed_row list \<Rightarrow> string \<Rightarrow> string list option" where
  "subtree_ids rows i =
     map_option (\<lambda>marked. map fst (filter snd marked))
       (those_map (\<lambda>r. map_option (Pair r) (if r = i then Some True else is_descendant rows r i))
          (List.map_filter cr_id rows))"

definition place ::
  "edit_ctx \<Rightarrow> patch list \<Rightarrow> json \<Rightarrow> string option \<Rightarrow> nat option \<Rightarrow> loader_error + patch list" where
  "place c ps entry parent pos =
     and_then
       (case parent of
          None \<Rightarrow> Inr ()
        | Some i \<Rightarrow> and_then (require_row c i) (\<lambda>r.
            if \<not> item_group (cr_value r) then Inl (InvalidEntry (NotGroup i)) else addressable c r))
       (\<lambda>_. let siblings = filter (\<lambda>r. cr_parent r = parent) (ex_rows c);
                at_end = ps @ [empty_patch\<lparr>pt_id := parent, pt_insert := Some [entry]\<rparr>]
            in case pos of
                 None \<Rightarrow> Inr at_end
               | Some p \<Rightarrow>
                   if length siblings \<le> p then Inr at_end
                   else (let sibling = siblings ! p in
                     if cr_owner sibling \<noteq> OwnLayer (ex_editable c) then Inl (Unsupported (ForeignPosition p))
                     else (case locate_mut ps (row_id sibling) of
                             None \<Rightarrow> Inl (UnknownEntry (row_id sibling))
                           | Some loc \<Rightarrow> Inr (change_located (\<lambda>vs n. take n vs @ entry # drop n vs) loc ps))))"

section \<open>Patches of a moved subtree\<close>

definition addresses :: "string list \<Rightarrow> patch \<Rightarrow> bool" where
  "addresses subtree p = (case pt_id p of Some i \<Rightarrow> i \<in> set subtree | None \<Rightarrow> False)"

definition remove_nth :: "nat \<Rightarrow> 'a list \<Rightarrow> 'a list" where
  "remove_nth n xs = take n xs @ drop (Suc n) xs"

definition insert_nth :: "nat \<Rightarrow> 'a \<Rightarrow> 'a list \<Rightarrow> 'a list" where
  "insert_nth n x xs = take n xs @ x # drop n xs"

text \<open>The two loops of \<open>keep_dependents_after\<close>: out from the last index on, and in again.\<close>

definition pull_out :: "nat list \<Rightarrow> patch list \<Rightarrow> patch list \<times> patch list" where
  "pull_out early ps = (case fold (\<lambda>n (qs, moved). (remove_nth n qs, moved @ [qs ! n])) (rev early) (ps, [])
     of (qs, moved) \<Rightarrow> (qs, rev moved))"

definition push_in :: "nat \<Rightarrow> patch list \<Rightarrow> patch list \<Rightarrow> patch list" where
  "push_in at moved ps = fold (\<lambda>(offset, p). insert_nth (at + offset) p) (List.enumerate 0 moved) ps"

definition keep_dependents_after :: "patch list \<Rightarrow> string \<Rightarrow> string list \<Rightarrow> patch list" where
  "keep_dependents_after ps i subtree =
     (case patch_index_of ps i of
        None \<Rightarrow> ps
      | Some carrier \<Rightarrow>
          (let early = filter (\<lambda>n. addresses subtree (ps ! n)) [0..<carrier] in
           if early = [] then ps
           else (case pull_out early ps of
                   (qs, moved) \<Rightarrow> push_in (carrier - length early + 1) moved qs)))"

section \<open>Applying an edit\<close>

definition edit_id :: "edit \<Rightarrow> string option" where
  "edit_id e = (case e of
     Create entry _ _ \<Rightarrow> value_str (vget ''id'' entry)
   | Update i _ \<Rightarrow> Some i | SetDisabled i _ \<Rightarrow> Some i | SetInject i _ \<Rightarrow> Some i
   | SetIsolate i _ \<Rightarrow> Some i | Rename i _ \<Rightarrow> Some i | Move i _ _ \<Rightarrow> Some i | Remove i \<Rightarrow> Some i)"

definition replace_layer :: "layer list \<Rightarrow> nat \<Rightarrow> patch list \<Rightarrow> layer list" where
  "replace_layer layers n ps = layers[n := (layers ! n)\<lparr>ly_patches := ps\<rparr>]"

definition create_row :: "edit_ctx \<Rightarrow> patch list \<Rightarrow> json \<Rightarrow> string option \<Rightarrow> nat option \<Rightarrow> loader_error + patch list" where
  "create_row c ps entry parent pos =
     (case nonempty (value_str (vget ''id'' entry)) of
        None \<Rightarrow> Inl (InvalidEntry NeedsId)
      | Some i \<Rightarrow>
          if \<not> (case entry of JObject _ \<Rightarrow> True | _ \<Rightarrow> False) then Inl (InvalidEntry EntryNotObject)
          else if find_row (ex_rows c) i \<noteq> None then Inl (RowExists i)
          else place c ps entry parent pos)"

definition rename_row :: "edit_ctx \<Rightarrow> patch list \<Rightarrow> string \<Rightarrow> string \<Rightarrow> loader_error + patch list" where
  "rename_row c ps i name =
     and_then (require_row c i) (\<lambda>r. and_then (owned c r CannotRename) (\<lambda>_. and_then (check_above c r ''name'') (\<lambda>_.
       with_owned_object (fold_overrides ps i (row_name r)) i (al_insert ''name'' (JString name)))))"

text \<open>\<open>Edit::Move\<close>; the guards first, then the move with the rows composed anew.\<close>

definition may_move :: "edit_ctx \<Rightarrow> string \<Rightarrow> string option \<Rightarrow> (loader_error + composed_row) option" where
  "may_move c i parent =
     (case and_then (require_row c i) (\<lambda>r. and_then (owned c r CannotMove) (\<lambda>_. Inr r)) of
        Inl e \<Rightarrow> Some (Inl e)
      | Inr r \<Rightarrow>
          (case parent of
             None \<Rightarrow> Some (Inr r)
           | Some p \<Rightarrow>
               if p = i then Some (Inl (InvalidEntry (IntoOwnSubtree i)))
               else map_option (\<lambda>below. if below then Inl (InvalidEntry (IntoOwnSubtree i)) else Inr r)
                      (is_descendant (ex_rows c) p i)))"

definition move_row ::
  "edit_ctx \<Rightarrow> patch list \<Rightarrow> string \<Rightarrow> string option \<Rightarrow> nat option \<Rightarrow> (loader_error + patch list) option" where
  "move_row c ps i parent pos =
     Option.bind (may_move c i parent) (\<lambda>checked. case checked of
       Inl e \<Rightarrow> Some (Inl e)
     | Inr r \<Rightarrow>
         Option.bind (subtree_ids (ex_rows c) i) (\<lambda>subtree.
           case take_owned (fold_overrides ps i (row_name r)) i of
             Inl e \<Rightarrow> Some (Inl e)
           | Inr (fs, rest) \<Rightarrow>
               (let after = replace_layer (ex_layers c) (ex_editable c) rest in
                map_option (\<lambda>composed.
                    and_then (place (c\<lparr>ex_layers := after, ex_rows := co_flat composed\<rparr>) rest (JObject fs) parent pos)
                      (\<lambda>placed. Inr (keep_dependents_after placed i subtree)))
                  (apply_patches after))))"

definition remove_row :: "edit_ctx \<Rightarrow> patch list \<Rightarrow> string \<Rightarrow> (loader_error + patch list) option" where
  "remove_row c ps i =
     (case and_then (require_row c i) (\<lambda>r. owned c r CannotRemove) of
        Inl e \<Rightarrow> Some (Inl e)
      | Inr _ \<Rightarrow>
          map_option (\<lambda>removed. and_then (take_owned ps i) (\<lambda>(_, rest).
              Inr (drop_empty_inserts (filter (\<lambda>p. \<not> addresses removed p) rest))))
            (subtree_ids (ex_rows c) i))"

definition apply_edit :: "layer list \<Rightarrow> nat \<Rightarrow> edit \<Rightarrow> (loader_error + patch list) option" where
  "apply_edit layers editable e =
     Option.bind (apply_patches layers) (\<lambda>composed.
       let c = \<lparr>ex_layers = layers, ex_editable = editable, ex_rows = co_flat composed\<rparr>;
           ps = ly_patches (layers ! editable);
           set = (\<lambda>i field v. Some (and_then (require_row c i) (\<lambda>r. set_field c ps r field v)))
       in case e of
            Create entry parent pos \<Rightarrow> Some (create_row c ps entry parent pos)
          | Update i config \<Rightarrow> Some (and_then (require_row c i) (\<lambda>r.
              if item_group (cr_value r) then Inl (Unsupported (GroupConfig i))
              else set_field c ps r ''config'' config))
          | SetDisabled i disabled \<Rightarrow> set i ''disabled'' (JBool disabled)
          | SetInject i names \<Rightarrow> set i ''inject''
              (case names of None \<Rightarrow> JNull | Some ns \<Rightarrow> JArray (map JString ns))
          | SetIsolate i labels \<Rightarrow> set i ''isolate'' (case labels of None \<Rightarrow> JNull | Some fs \<Rightarrow> JObject fs)
          | Rename i name \<Rightarrow> Some (rename_row c ps i name)
          | Move i parent pos \<Rightarrow> move_row c ps i parent pos
          | Remove i \<Rightarrow> remove_row c ps i)"

end
