(* ===== verification/Patch_Properties.thy ===== *)
theory Patch_Properties
  imports Patches
begin

text \<open>
  Composing patch layers: it always ends, an override changes the row it names
  and no other, a refused patch changes no row, and rows that are only
  inserted come out as they went in.
\<close>

section \<open>The arena is a forest\<close>

definition kids :: "arena \<Rightarrow> nat \<Rightarrow> nat set" where
  "kids a x = {i. x < length (ar_nodes a) \<and>
     (\<exists>cs. nd_config (ar_nodes a ! x) = Children cs \<and> CNode i \<in> set cs)}"

definition forest :: "arena \<Rightarrow> child list \<Rightarrow> bool" where
  "forest a root \<longleftrightarrow>
     (\<forall>i. CNode i \<in> set root \<longrightarrow> i < length (ar_nodes a) \<and> (\<forall>x. i \<notin> kids a x)) \<and>
     (\<forall>x. kids a x \<subseteq> {..<length (ar_nodes a)}) \<and>
     (\<forall>x y. x \<noteq> y \<longrightarrow> kids a x \<inter> kids a y = {})"

text \<open>The index names nodes by the id they have.\<close>

definition index_ok :: "arena \<Rightarrow> bool" where
  "index_ok a \<longleftrightarrow> (\<forall>s n. ar_index a s = Some n \<longrightarrow> n < length (ar_nodes a) \<and>
     string_id (map_of (nd_fields (ar_nodes a ! n)) ''id'') = Some s)"

definition patch_inv :: "patching \<Rightarrow> bool" where
  "patch_inv p \<longleftrightarrow> forest (pa_arena p) (pa_root p) \<and> index_ok (pa_arena p)"

text \<open>What building rows adds to an arena: new nodes, each under a later one or at the top.\<close>

definition grown :: "arena \<Rightarrow> arena \<Rightarrow> child list \<Rightarrow> bool" where
  "grown a a' cs \<longleftrightarrow>
     (\<exists>new. ar_nodes a' = ar_nodes a @ new) \<and>
     (\<forall>x \<ge> length (ar_nodes a). kids a' x \<subseteq> {length (ar_nodes a)..<x}) \<and>
     (\<forall>x y. length (ar_nodes a) \<le> x \<and> length (ar_nodes a) \<le> y \<and> x \<noteq> y \<longrightarrow> kids a' x \<inter> kids a' y = {}) \<and>
     (\<forall>i. CNode i \<in> set cs \<longrightarrow> length (ar_nodes a) \<le> i \<and> i < length (ar_nodes a') \<and> (\<forall>x \<ge> length (ar_nodes a). i \<notin> kids a' x))"

lemma kids_append:
  "ar_nodes a' = ar_nodes a @ new \<Longrightarrow> x < length (ar_nodes a) \<Longrightarrow> kids a' x = kids a x"
  by (simp add: kids_def nth_append)

lemma kids_bound: "length (ar_nodes a) \<le> x \<Longrightarrow> kids a x = {}"
  by (simp add: kids_def)

lemma grown_refl: "(\<forall>i. CNode i \<notin> set cs) \<Longrightarrow> grown a a cs"
  by (auto simp: grown_def kids_bound)

lemma grown_trans:
  assumes "grown a a1 cs" and "grown a1 a2 ds"
  shows "grown a a2 (cs @ ds)"
proof -
  let ?n = "length (ar_nodes a)" and ?n1 = "length (ar_nodes a1)" and ?n2 = "length (ar_nodes a2)"
  obtain new1 new2 where new: "ar_nodes a1 = ar_nodes a @ new1" "ar_nodes a2 = ar_nodes a1 @ new2"
    using assms by (auto simp: grown_def)
  then have le: "?n \<le> ?n1" "?n1 \<le> ?n2" by simp_all
  have k1: "kids a2 x = kids a1 x" if "x < ?n1" for x by (rule kids_append [OF new(2) that])
  have low: "kids a2 x \<subseteq> {?n..<x}" if "?n \<le> x" "x < ?n1" for x
    using assms(1) that k1 by (simp add: grown_def)
  have high: "kids a2 x \<subseteq> {?n1..<x}" if "?n1 \<le> x" for x using assms(2) that by (simp add: grown_def)
  have sub: "kids a2 x \<subseteq> {?n..<x}" if "?n \<le> x" for x
    using low [OF that] high [of x] le(1) by (cases "x < ?n1") fastforce+
  have dis: "kids a2 x \<inter> kids a2 y = {}" if "?n \<le> x" "?n \<le> y" "x < y" for x y
  proof (cases "y < ?n1")
    case True
    then show ?thesis using assms(1) that k1 by (simp add: grown_def)
  next
    case False
    show ?thesis
    proof (cases "x < ?n1")
      case True
      then show ?thesis using low [OF that(1) True] high [of y] False by fastforce
    next
      case x: False
      then show ?thesis using assms(2) that False by (simp add: grown_def)
    qed
  qed
  have c1: "?n \<le> i \<and> i < ?n2 \<and> (\<forall>x \<ge> ?n. i \<notin> kids a2 x)" if "CNode i \<in> set cs" for i
  proof -
    have i: "?n \<le> i" "i < ?n1" "\<And>x. ?n \<le> x \<Longrightarrow> i \<notin> kids a1 x" using assms(1) that by (simp_all add: grown_def)
    have "i \<notin> kids a2 x" if "?n \<le> x" for x
      using i(2) i(3) [OF that] k1 [of x] high [of x] by (cases "x < ?n1") auto
    then show ?thesis using i(1,2) le(2) by simp
  qed
  have c2: "?n \<le> i \<and> i < ?n2 \<and> (\<forall>x \<ge> ?n. i \<notin> kids a2 x)" if "CNode i \<in> set ds" for i
  proof -
    have i: "?n1 \<le> i" "i < ?n2" "\<And>x. ?n1 \<le> x \<Longrightarrow> i \<notin> kids a2 x" using assms(2) that by (simp_all add: grown_def)
    have "i \<notin> kids a2 x" if "?n \<le> x" for x
      using i(1,3) low [OF that] by (cases "x < ?n1") fastforce+
    then show ?thesis using i(1,2) le(1) by simp
  qed
  show ?thesis
    unfolding grown_def
  proof (intro conjI)
    show "\<exists>new. ar_nodes a2 = ar_nodes a @ new" using new by simp
    show "\<forall>x \<ge> ?n. kids a2 x \<subseteq> {?n..<x}" using sub by blast
    show "\<forall>x y. ?n \<le> x \<and> ?n \<le> y \<and> x \<noteq> y \<longrightarrow> kids a2 x \<inter> kids a2 y = {}"
      using dis by (metis Int_commute linorder_neqE_nat)
    show "\<forall>i. CNode i \<in> set (cs @ ds) \<longrightarrow> ?n \<le> i \<and> i < ?n2 \<and> (\<forall>x \<ge> ?n. i \<notin> kids a2 x)"
      using c1 c2 by (simp only: set_append Un_iff) blast
  qed
qed

lemma grown_push:
  assumes "grown a a1 (config_children config)" and "\<And>cs. config = Children cs \<Longrightarrow> config_children config = cs"
    and "push_node fs config layer a1 = (c, a2)"
  shows "grown a a2 [c]"
proof -
  let ?n = "length (ar_nodes a)" and ?n1 = "length (ar_nodes a1)"
  obtain new where new: "ar_nodes a1 = ar_nodes a @ new" using assms(1) by (auto simp: grown_def)
  have a2: "c = CNode ?n1" "ar_nodes a2 = ar_nodes a1 @ [\<lparr>nd_fields = fs, nd_config = config,
              nd_owner = OwnLayer layer, nd_overridden = Map.empty\<rparr>]"
    using assms(3) by (auto simp: push_node_def Let_def)
  have k1: "kids a2 x = kids a1 x" if "x < ?n1" for x by (rule kids_append [OF a2(2) that])
  have kn: "kids a2 ?n1 = {i. CNode i \<in> set (config_children config) \<and> (\<exists>cs. config = Children cs)}"
    by (cases config) (auto simp: kids_def a2(2) nth_append)
  have beyond: "kids a2 x = {}" if "?n1 < x" for x by (rule kids_bound) (use that a2(2) in simp)
  have le: "?n \<le> ?n1" using new by simp
  have old: "kids a1 x \<subseteq> {?n..<x}" if "?n \<le> x" for x using assms(1) that by (simp add: grown_def)
  have fresh: "?n \<le> i" "i < ?n1" "?n \<le> x \<Longrightarrow> i \<notin> kids a1 x" if "i \<in> kids a2 ?n1" for i x
    using that assms(1) by (auto simp: kn grown_def)
  have sub: "kids a2 x \<subseteq> {?n..<x}" if "?n \<le> x" for x
  proof (cases x ?n1 rule: linorder_cases)
    case less
    then show ?thesis using old [OF that] k1 by simp
  next
    case equal
    then show ?thesis using fresh by auto
  next
    case greater
    then show ?thesis using beyond by simp
  qed
  have dis: "kids a2 x \<inter> kids a2 y = {}" if "?n \<le> x" "?n \<le> y" "x < y" for x y
  proof (cases y ?n1 rule: linorder_cases)
    case less
    then show ?thesis using assms(1) that k1 by (simp add: grown_def)
  next
    case equal
    then show ?thesis using fresh(3) that k1 by auto
  next
    case greater
    then show ?thesis using beyond by simp
  qed
  have top: "?n1 \<notin> kids a2 x" if "?n \<le> x" for x
  proof
    assume "?n1 \<in> kids a2 x"
    then have "?n1 < x" using sub [OF that] by auto
    then show False using beyond \<open>?n1 \<in> kids a2 x\<close> by simp
  qed
  show ?thesis
    unfolding grown_def
  proof (intro conjI)
    show "\<exists>new. ar_nodes a2 = ar_nodes a @ new" using new a2(2) by simp
    show "\<forall>x \<ge> ?n. kids a2 x \<subseteq> {?n..<x}" using sub by blast
    show "\<forall>x y. ?n \<le> x \<and> ?n \<le> y \<and> x \<noteq> y \<longrightarrow> kids a2 x \<inter> kids a2 y = {}"
      using dis by (metis Int_commute linorder_neqE_nat)
    show "\<forall>i. CNode i \<in> set [c] \<longrightarrow>
        ?n \<le> i \<and> i < length (ar_nodes a2) \<and> (\<forall>x \<ge> ?n. i \<notin> kids a2 x)"
      using top le a2 by simp
  qed
qed

lemma build_grown:
  "build v layer a = (c, a') \<Longrightarrow> grown a a' [c]"
  "build_list vs layer a = (cs, a') \<Longrightarrow> grown a a' cs"
proof (induction v layer a and vs layer a arbitrary: c a' and cs a' rule: build_build_list.induct)
  case (1 v layer a)
  show ?case
  proof (cases v)
    case (JObject fs)
    show ?thesis
    proof (cases "group_items fs")
      case None
      let ?config = "case map_of fs ''config'' of None \<Rightarrow> Absent | Some c \<Rightarrow> CValue c"
      have "\<forall>i. CNode i \<notin> set (config_children ?config)"
        by (auto split: option.split) (metis child.distinct(1) config_children.simps imageE list.set_map
            config.exhaust json.exhaust empty_iff list.set(1))
      moreover have "push_node (al_swap_remove ''config'' fs) ?config layer a = (c, a')"
        using "1.prems" JObject None by (simp add: build.simps [of "JObject fs"])
      ultimately show ?thesis
        using grown_push [OF grown_refl] by (auto split: option.splits)
    next
      case (Some items)
      obtain cs a1 where b: "build_list items layer a = (cs, a1)" by fastforce
      then have "push_node (al_swap_remove ''config'' fs) (Children cs) layer a1 = (c, a')"
        using "1.prems" JObject Some b by (simp add: build.simps [of "JObject fs"])
      then show ?thesis
        using grown_push [of a a1 "Children cs"] "1.IH" [OF JObject Some b] by simp
    qed
  qed (use "1.prems" in \<open>auto simp: build.simps intro: grown_refl\<close>)
next
  case (2 layer a)
  then show ?case by (auto intro: grown_refl)
next
  case (3 v vs layer a)
  obtain c1 a1 where b: "build v layer a = (c1, a1)" by fastforce
  obtain cs2 a2 where bs: "build_list vs layer a1 = (cs2, a2)" by fastforce
  have "cs = [c1] @ cs2" "a' = a2" using 3(3) b bs by auto
  then show ?case using grown_trans [OF 3(1) [OF b] 3(2) [OF b [symmetric] bs]] by simp
qed

lemma index_ok_push:
  assumes "index_ok a" and "push_node fs config layer a = (c, a')"
  shows "index_ok a'"
  using assms by (auto simp: push_node_def Let_def index_ok_def nth_append split: option.splits if_splits)
    (fastforce dest: less_imp_le)+

lemma index_ok_pushed: "index_ok a \<Longrightarrow> index_ok (snd (push_node fs config layer a))"
  using index_ok_push by (metis prod.collapse)

lemma build_index_ok:
  "index_ok a \<Longrightarrow> index_ok (snd (build v layer a))"
  "index_ok a \<Longrightarrow> index_ok (snd (build_list vs layer a))"
proof (induction v layer a and vs layer a rule: build_build_list.induct)
  case (1 v layer a)
  show ?case
  proof (cases v)
    case (JObject fs)
    show ?thesis
    proof (cases "group_items fs")
      case None
      then show ?thesis
        using JObject "1.prems" by (simp add: build.simps [of "JObject fs"] index_ok_pushed)
    next
      case (Some items)
      obtain cs a1 where b: "build_list items layer a = (cs, a1)" by fastforce
      have "index_ok a1" using "1.IH" [OF JObject Some "1.prems"] b by simp
      then show ?thesis
        using JObject Some by (simp add: build.simps [of "JObject fs"] b index_ok_pushed)
    qed
  qed (use "1.prems" in \<open>auto simp: build.simps\<close>)
next
  case (3 v vs layer a)
  then show ?case by (auto split: prod.split)
qed simp

text \<open>Building rows beside a tree, and putting them into it.\<close>

lemma forest_grown:
  assumes "forest a root" and "grown a a' cs"
  shows "forest a' root" "CNode i \<in> set cs \<Longrightarrow> i \<notin> kids a' x" "CNode i \<in> set cs \<Longrightarrow> i < length (ar_nodes a')"
    "CNode i \<in> set cs \<Longrightarrow> CNode i \<notin> set root"
proof -
  let ?n = "length (ar_nodes a)"
  obtain new where new: "ar_nodes a' = ar_nodes a @ new" using assms(2) by (auto simp: grown_def)
  have k: "kids a' x = kids a x" if "x < ?n" for x by (rule kids_append [OF new that])
  have old: "kids a x \<subseteq> {..<?n}" for x using assms(1) by (simp add: forest_def)
  have high: "kids a' x \<subseteq> {?n..<x}" if "?n \<le> x" for x using assms(2) that by (simp add: grown_def)
  have in': "i < length (ar_nodes a')" if "i \<in> kids a' x" for x i
  proof (cases "x < ?n")
    case True
    then have "i < ?n" using that k old [of x] by auto
    then show ?thesis using new by simp
  next
    case False
    have "x < length (ar_nodes a')" using that by (simp add: kids_def)
    then show ?thesis using that high [of x] False by fastforce
  qed
  have dis: "kids a' x \<inter> kids a' y = {}" if "x < y" for x y
  proof (cases "y < ?n")
    case True
    then show ?thesis using assms(1) that k by (simp add: forest_def)
  next
    case y: False
    show ?thesis
    proof (cases "x < ?n")
      case True
      then show ?thesis using old [of x] high [of y] y k by fastforce
    next
      case False
      then show ?thesis using assms(2) that y by (simp add: grown_def)
    qed
  qed
  have root: "i < ?n \<and> i \<notin> kids a' x" if "CNode i \<in> set root" for i x
  proof -
    have "i < ?n" "i \<notin> kids a x" using assms(1) that by (simp_all add: forest_def)
    then show ?thesis using k [of x] high [of x] by (cases "x < ?n") auto
  qed
  then show "forest a' root"
    using in' dis new unfolding forest_def by (intro conjI allI impI subsetI)
      (simp_all, metis less_trans_Suc not_add_less1 trans_less_add1, metis Int_commute linorder_neqE_nat)
  show "CNode i \<in> set cs \<Longrightarrow> i < length (ar_nodes a')" using assms(2) by (simp add: grown_def)
  show "CNode i \<in> set cs \<Longrightarrow> CNode i \<notin> set root"
    using root assms(2) by (fastforce simp: grown_def)
  show "i \<notin> kids a' x" if "CNode i \<in> set cs"
  proof (cases "x < ?n")
    case True
    then have "kids a' x \<subseteq> {..<?n}" using k old by simp
    then show ?thesis using assms(2) that by (fastforce simp: grown_def)
  next
    case False
    then show ?thesis using assms(2) that by (simp add: grown_def)
  qed
qed

lemma forest_root:
  assumes "forest a root" and "\<And>i x. CNode i \<in> set cs \<Longrightarrow> i \<notin> kids a x"
    and "\<And>i. CNode i \<in> set cs \<Longrightarrow> i < length (ar_nodes a)"
  shows "forest a (root @ cs)"
  using assms by (auto simp: forest_def)

text \<open>A node whose children are among its old ones and fresh ones.\<close>

lemma kids_update:
  "kids (a\<lparr>ar_nodes := (ar_nodes a)[n := node]\<rparr>) x =
     (if x = n \<and> n < length (ar_nodes a) then {i. \<exists>cs. nd_config node = Children cs \<and> CNode i \<in> set cs}
      else kids a x)"
  by (auto simp: kids_def)

lemma forest_update:
  assumes "forest a root" and "n < length (ar_nodes a)"
    and "\<And>i cs. nd_config node = Children cs \<Longrightarrow> CNode i \<in> set cs \<Longrightarrow>
      i \<in> kids a n \<or> i < length (ar_nodes a) \<and> CNode i \<notin> set root \<and> (\<forall>x. i \<notin> kids a x)"
  shows "forest (a\<lparr>ar_nodes := (ar_nodes a)[n := node]\<rparr>) root"
proof -
  let ?a = "a\<lparr>ar_nodes := (ar_nodes a)[n := node]\<rparr>"
  let ?new = "{i. \<exists>cs. nd_config node = Children cs \<and> CNode i \<in> set cs}"
  have f: "\<And>i x. CNode i \<in> set root \<Longrightarrow> i < length (ar_nodes a) \<and> i \<notin> kids a x"
    "\<And>x. kids a x \<subseteq> {..<length (ar_nodes a)}"
    "\<And>x y. x \<noteq> y \<Longrightarrow> kids a x \<inter> kids a y = {}"
    using assms(1) by (simp_all add: forest_def)
  have k: "kids ?a x = (if x = n then ?new else kids a x)" for x using assms(2) by (simp add: kids_update)
  have new: "i \<in> kids a n \<or> i < length (ar_nodes a) \<and> CNode i \<notin> set root \<and> (\<forall>x. i \<notin> kids a x)"
    if "i \<in> ?new" for i using assms(3) that by blast
  show ?thesis
    unfolding forest_def
  proof (intro conjI allI impI)
    fix i assume i: "CNode i \<in> set root"
    show "i < length (ar_nodes ?a)" using f(1) [OF i] by simp
    fix x show "i \<notin> kids ?a x" using f(1) [OF i] new [of i] i by (auto simp only: k split: if_splits)
  next
    fix x show "kids ?a x \<subseteq> {..<length (ar_nodes ?a)}"
    proof (cases "x = n")
      case True
      have "i < length (ar_nodes a)" if "i \<in> ?new" for i using new [OF that] f(2) [of n] by blast
      then show ?thesis using True k by auto
    qed (use f(2) [of x] k in simp)
  next
    fix x y :: nat assume "x \<noteq> y"
    have other: "?new \<inter> kids a z = {}" if "z \<noteq> n" for z
      using f(3) [of n z] that new by fastforce
    show "kids ?a x \<inter> kids ?a y = {}"
      using f(3) [OF \<open>x \<noteq> y\<close>] other [of x] other [of y] \<open>x \<noteq> y\<close>
      by (cases "x = n"; cases "y = n") (simp_all only: k if_True if_False simp_thms Int_commute)
  qed
qed

lemma set_node_simps [simp]:
  "pa_arena (set_node n node p) = (pa_arena p)\<lparr>ar_nodes := (ar_nodes (pa_arena p))[n := node]\<rparr>"
  "pa_root (set_node n node p) = pa_root p" "pa_warnings (set_node n node p) = pa_warnings p"
  by (simp_all add: set_node_def)

lemma warn_simps [simp]:
  "pa_arena (warn layer index msg p) = pa_arena p" "pa_root (warn layer index msg p) = pa_root p"
  "pa_warnings (warn layer index msg p) =
     pa_warnings p @ [\<lparr>pw_layer = layer, pw_index = index, pw_message = msg\<rparr>]"
  by (simp_all add: warn_def)

lemma index_ok_update:
  assumes "index_ok a" and "map_of (nd_fields node) ''id'' = map_of (nd_fields (ar_nodes a ! n)) ''id''"
  shows "index_ok (a\<lparr>ar_nodes := (ar_nodes a)[n := node]\<rparr>)"
  using assms by (auto simp: index_ok_def) (metis nth_list_update_eq nth_list_update_neq)

lemma apply_insert_inv:
  assumes "patch_inv p"
  shows "patch_inv (apply_insert li layer index target rows p)"
proof -
  obtain built a where b: "build_list rows li (pa_arena p) = (built, a)" by fastforce
  have f: "forest (pa_arena p) (pa_root p)" and ix: "index_ok a"
    using assms build_index_ok(2) [of "pa_arena p" rows li] b by (simp_all add: patch_inv_def)
  note G = forest_grown [OF f build_grown(2) [OF b]]
  show ?thesis
  proof (cases target)
    case None
    have "forest a (pa_root p @ built)" by (rule forest_root [OF G(1)]) (use G(2,3) in blast)+
    then show ?thesis using ix None by (simp add: apply_insert_def b Let_def patch_inv_def)
  next
    case (Some i)
    show ?thesis
    proof (cases "ar_index a i")
      case None
      then show ?thesis using Some G(1) ix by (simp add: apply_insert_def b Let_def patch_inv_def)
    next
      case n: (Some n)
      let ?node = "ar_nodes a ! n"
      let ?node' = "?node\<lparr>nd_config := Children (config_children (nd_config ?node) @ built)\<rparr>"
      have nl: "n < length (ar_nodes a)" using ix n by (simp add: index_ok_def)
      have old: "i \<in> kids a n" if "CNode i \<in> set (config_children (nd_config ?node))" for i
        using that nl by (cases "nd_config ?node" rule: config_children.cases) (auto simp: kids_def)
      have "forest (a\<lparr>ar_nodes := (ar_nodes a)[n := ?node']\<rparr>) (pa_root p)"
        by (rule forest_update [OF G(1) nl]) (use old G(2-4) in auto)
      moreover have "index_ok (a\<lparr>ar_nodes := (ar_nodes a)[n := ?node']\<rparr>)"
        by (rule index_ok_update [OF ix]) simp
      ultimately show ?thesis
        using Some n G(1) ix by (simp add: apply_insert_def b Let_def patch_inv_def)
    qed
  qed
qed

text \<open>Overriding fields leaves the id alone and adds no children.\<close>

lemma apply_field_keep:
  "map_of (nd_fields (apply_field li node kv)) ''id'' = map_of (nd_fields node) ''id''"
  "nd_config (apply_field li node kv) = nd_config node \<or> (\<exists>v. nd_config (apply_field li node kv) = CValue v)"
  by (auto simp: apply_field_def split: prod.split)

lemma apply_fields_keep:
  "map_of (nd_fields (foldl (apply_field li) node kvs)) ''id'' = map_of (nd_fields node) ''id''"
  "nd_config (foldl (apply_field li) node kvs) = nd_config node \<or>
     (\<exists>v. nd_config (foldl (apply_field li) node kvs) = CValue v)"
proof (induction kvs arbitrary: node)
  case (Cons kv kvs)
  { case 1 show ?case using Cons.IH(1) apply_field_keep(1) by simp }
  { case 2 show ?case
      using Cons.IH(2) [of "apply_field li node kv"] apply_field_keep(2) [of li node kv] by (metis foldl_Cons) }
qed simp_all

lemma apply_override_inv:
  assumes "patch_inv p"
  shows "patch_inv (apply_override li layer index pt p)"
proof -
  let ?a = "pa_arena p"
  have "patch_inv (set_node n (foldl (apply_field li) (ar_nodes ?a ! n) kvs) p)"
    if n: "ar_index ?a i = Some n" for n i kvs
  proof -
    let ?node' = "foldl (apply_field li) (ar_nodes ?a ! n) kvs"
    have nl: "n < length (ar_nodes ?a)" using assms n by (simp add: patch_inv_def index_ok_def)
    have "forest (?a\<lparr>ar_nodes := (ar_nodes ?a)[n := ?node']\<rparr>) (pa_root p)"
    proof (rule forest_update [OF _ nl])
      show "forest ?a (pa_root p)" using assms by (simp add: patch_inv_def)
      fix i cs assume "nd_config ?node' = Children cs" "CNode i \<in> set cs"
      moreover from this have "nd_config (ar_nodes ?a ! n) = Children cs"
        using apply_fields_keep(2) [of li "ar_nodes ?a ! n" kvs] by auto
      ultimately have "i \<in> kids ?a n" using nl by (simp add: kids_def)
      then show "i \<in> kids ?a n \<or> i < length (ar_nodes ?a) \<and> CNode i \<notin> set (pa_root p) \<and> (\<forall>x. i \<notin> kids ?a x)" ..
    qed
    moreover have "index_ok (?a\<lparr>ar_nodes := (ar_nodes ?a)[n := ?node']\<rparr>)"
      by (rule index_ok_update) (use assms in \<open>simp_all add: patch_inv_def apply_fields_keep(1)\<close>)
    ultimately show ?thesis by (simp add: patch_inv_def)
  qed
  moreover have "patch_inv (warn layer index m p)" for m using assms by (simp add: patch_inv_def)
  ultimately show ?thesis
    by (auto simp: apply_override_def Let_def split: option.split)
qed

lemma apply_patch_inv: "patch_inv p \<Longrightarrow> patch_inv (apply_patch li layer ip p)"
  by (auto simp: apply_patch_def apply_insert_inv apply_override_inv split: prod.split option.split)

text \<open>What the patches of some layers can make.\<close>

inductive patched :: "patching \<Rightarrow> bool" where
  pd_start: "patched no_patches"
| pd_step: "patched p \<Longrightarrow> patched (apply_patch li layer ip p)"

lemma patched_inv: "patched p \<Longrightarrow> patch_inv p"
proof (induction rule: patched.induct)
  case pd_start
  then show ?case by (simp add: patch_inv_def no_patches_def forest_def kids_def index_ok_def)
qed (rule apply_patch_inv)

lemma patched_fold: "patched p \<Longrightarrow> patched (fold (apply_patch li layer) ips p)"
  by (induction ips arbitrary: p) (auto intro: pd_step)

lemma patched_layers: "patched p \<Longrightarrow> patched (fold apply_layer ils p)"
  by (induction ils arbitrary: p) (auto simp: apply_layer_def patched_fold split: prod.split)

lemma run_layers_patched: "patched (run_layers layers)"
  unfolding run_layers_def by (rule patched_layers [OF pd_start])

section \<open>Every walk ends\<close>

text \<open>A node with its ancestors, up to a root row.\<close>

inductive ancestry :: "arena \<Rightarrow> child list \<Rightarrow> nat list \<Rightarrow> bool" for a root where
  an_root: "CNode i \<in> set root \<Longrightarrow> ancestry a root [i]"
| an_kid: "ancestry a root (x # xs) \<Longrightarrow> i \<in> kids a x \<Longrightarrow> ancestry a root (i # x # xs)"

lemma ancestry_link:
  "ancestry a root P \<Longrightarrow> k < length P \<Longrightarrow>
   (if Suc k < length P then P ! k \<in> kids a (P ! Suc k) else CNode (P ! k) \<in> set root)"
proof (induction arbitrary: k rule: ancestry.induct)
  case (an_kid x xs i)
  show ?case
  proof (cases k)
    case (Suc m)
    then show ?thesis using an_kid.IH [of m] an_kid.prems by (simp split: if_splits)
  qed (use an_kid in simp)
qed auto

lemma ancestry_distinct:
  assumes "ancestry a root P" and "forest a root"
  shows "distinct P \<and> set P \<subseteq> {..<length (ar_nodes a)}"
  using assms(1)
proof (induction rule: ancestry.induct)
  case (an_root i)
  then show ?case using assms(2) by (simp add: forest_def)
next
  case (an_kid x xs i)
  have i: "i < length (ar_nodes a)" using assms(2) an_kid.hyps(2) by (auto simp: forest_def)
  have "i \<notin> set (x # xs)"
  proof
    assume "i \<in> set (x # xs)"
    then obtain k where k: "k < length (x # xs)" "(x # xs) ! k = i" by (metis in_set_conv_nth)
    have link: "if Suc k < length (x # xs) then i \<in> kids a ((x # xs) ! Suc k) else CNode i \<in> set root"
      using ancestry_link [OF an_kid.hyps(1) k(1)] unfolding k(2) .
    show False
    proof (cases "Suc k < length (x # xs)")
      case True
      then have "i \<in> kids a ((x # xs) ! Suc k)" using link by simp
      then have "(x # xs) ! Suc k = x" using assms(2) an_kid.hyps(2) by (fastforce simp: forest_def)
      then have "x \<in> set xs" using True by (metis nth_Cons_Suc nth_mem Suc_less_eq length_Cons)
      then show False using an_kid.IH by simp
    next
      case False
      then show False using link assms(2) an_kid.hyps(2) by (auto simp: forest_def)
    qed
  qed
  then show ?case using an_kid.IH i by simp
qed

lemma those_map_None: "those_map f xs = None \<longleftrightarrow> (\<exists>x \<in> set xs. f x = None)"
  by (induction xs) (auto split: option.split)

lemma those_map_Some: "those_map f xs = Some ys \<longleftrightarrow> map f xs = map Some ys"
proof (induction xs arbitrary: ys)
  case (Cons x xs)
  show ?case
  proof (cases "f x")
    case None
    then show ?thesis by (cases ys) simp_all
  next
    case y: (Some y)
    show ?thesis
    proof (cases "those_map f xs")
      case None
      then show ?thesis using Cons.IH y by (cases ys) simp_all
    next
      case (Some zs)
      then have "map f xs = map Some zs" using Cons.IH by blast
      then show ?thesis using Some y by (cases ys) (auto dest: injD simp: inj_map_eq_map)
    qed
  qed
qed auto

lemma ancestry_short:
  assumes "ancestry a root P" and "forest a root"
  shows "length P \<le> length (ar_nodes a)"
proof -
  have "card (set P) \<le> card {..<length (ar_nodes a)}"
    using ancestry_distinct [OF assms] by (intro card_mono) auto
  then show ?thesis using ancestry_distinct [OF assms] by (simp add: distinct_card)
qed

lemma walk_ends:
  assumes "forest a root" and "ancestry a root (i # P)" and "length (ar_nodes a) \<le> n + length P"
  shows "to_value n a (CNode i) \<noteq> None" "flatten_child n a parent layer (CNode i) \<noteq> None"
proof -
  have v: "to_value n a (CNode i) \<noteq> None"
    if "ancestry a root (i # P)" "length (ar_nodes a) \<le> n + length P" for n i P
    using that
  proof (induction n arbitrary: i P)
    case 0
    then show ?case using ancestry_short [OF _ assms(1)] by fastforce
  next
    case (Suc n)
    have i: "i < length (ar_nodes a)" using ancestry_distinct [OF Suc.prems(1) assms(1)] by simp
    have "to_value n a c \<noteq> None" if "nd_config (ar_nodes a ! i) = Children cs" "c \<in> set cs" for cs c
    proof (cases c)
      case (CNode j)
      then have "j \<in> kids a i" using that i by (auto simp: kids_def)
      then show ?thesis
        using Suc.IH [OF an_kid [OF Suc.prems(1)]] Suc.prems(2) CNode by simp
    qed simp
    then have "those_map (to_value n a) cs \<noteq> None" if "nd_config (ar_nodes a ! i) = Children cs" for cs
      using that by (simp only: those_map_None) blast
    then show ?case by (cases "nd_config (ar_nodes a ! i)") (simp_all add: Let_def)
  qed
  show "to_value n a (CNode i) \<noteq> None" using v assms(2,3) .
  show "flatten_child n a parent layer (CNode i) \<noteq> None"
    using assms(2,3)
  proof (induction n arbitrary: i P parent layer)
    case 0
    then show ?case using ancestry_short [OF _ assms(1)] by fastforce
  next
    case (Suc n)
    have i: "i < length (ar_nodes a)" using ancestry_distinct [OF Suc.prems(1) assms(1)] by simp
    have "flatten_child n a pa l c \<noteq> None"
      if "nd_config (ar_nodes a ! i) = Children cs" "c \<in> set cs" for cs c pa l
    proof (cases c)
      case (CNode j)
      then have "j \<in> kids a i" using that i by (auto simp: kids_def)
      then show ?thesis
        using Suc.IH [OF an_kid [OF Suc.prems(1)]] Suc.prems(2) CNode by simp
    qed simp
    then have fl: "those_map (flatten_child n a pa l) cs \<noteq> None"
      if "nd_config (ar_nodes a ! i) = Children cs" for cs pa l
      using that by (simp only: those_map_None) blast
    obtain w where "to_value (Suc n) a (CNode i) = Some w" using v [OF Suc.prems] by auto
    then show ?case
      using fl by (cases "nd_config (ar_nodes a ! i)" rule: config_children.cases)
        (simp_all add: Let_def del: to_value.simps)
  qed
qed

lemma compose_SomeD:
  assumes "compose p = Some c"
  shows "those_map (to_value (length (ar_nodes (pa_arena p))) (pa_arena p)) (pa_root p) = Some (co_rows c)"
    "flatten (length (ar_nodes (pa_arena p))) (pa_arena p) (pa_root p) None 0 = Some (co_flat c)"
    "co_warnings c = pa_warnings p"
proof -
  let ?rows = "those_map (to_value (length (ar_nodes (pa_arena p))) (pa_arena p)) (pa_root p)"
  let ?flat = "flatten (length (ar_nodes (pa_arena p))) (pa_arena p) (pa_root p) None 0"
  have "compose p = (case ?rows of None \<Rightarrow> None | Some rows \<Rightarrow>
      map_option (\<lambda>flat. \<lparr>co_rows = rows, co_flat = flat, co_warnings = pa_warnings p\<rparr>) ?flat)"
    by (simp only: compose_def Let_def)
  then show "?rows = Some (co_rows c)" "?flat = Some (co_flat c)" "co_warnings c = pa_warnings p"
    using assms by (cases ?rows; cases ?flat; simp only: option.case option.map, simp)+
qed

lemma compose_total:
  assumes "patch_inv p"
  shows "compose p \<noteq> None"
proof -
  let ?a = "pa_arena p"
  let ?n = "length (ar_nodes ?a)"
  have f: "forest ?a (pa_root p)" using assms by (simp add: patch_inv_def)
  have nodes: "to_value ?n ?a (CNode i) \<noteq> None" "flatten_child ?n ?a par l (CNode i) \<noteq> None"
    if "CNode i \<in> set (pa_root p)" for i par l
  proof -
    have "?n \<le> ?n + length ([] :: nat list)" by simp
    from walk_ends [OF f an_root [OF that] this]
    show "to_value ?n ?a (CNode i) \<noteq> None" "flatten_child ?n ?a par l (CNode i) \<noteq> None" .
  qed
  have all: "\<forall>c \<in> set (pa_root p). to_value ?n ?a c \<noteq> None \<and> flatten_child ?n ?a None 0 c \<noteq> None"
  proof
    fix c assume c: "c \<in> set (pa_root p)"
    show "to_value ?n ?a c \<noteq> None \<and> flatten_child ?n ?a None 0 c \<noteq> None"
    proof (cases c)
      case (CNode i)
      then show ?thesis using nodes [of i] c by blast
    qed simp
  qed
  have "those_map (to_value ?n ?a) (pa_root p) \<noteq> None"
    "those_map (flatten_child ?n ?a None 0) (pa_root p) \<noteq> None"
    unfolding those_map_None using all by blast+
  then have "those_map (to_value ?n ?a) (pa_root p) \<noteq> None" "flatten ?n ?a (pa_root p) None 0 \<noteq> None"
    by (simp_all add: flatten_def)
  then show ?thesis by (simp add: compose_def Let_def split: option.split)
qed

text \<open>
  C25. Composing layers always ends, whatever their patches insert, override,
  replace or aim at rows that are not there: no warning fails it, and no row
  comes to contain itself in the tree.
\<close>

theorem composing_always_ends:
  "\<exists>c. apply_patches layers = Some c \<and> co_warnings c = pa_warnings (run_layers layers)"
proof -
  have "compose (run_layers layers) \<noteq> None"
    by (rule compose_total [OF patched_inv [OF run_layers_patched]])
  then obtain c where c: "compose (run_layers layers) = Some c" by auto
  then show ?thesis using compose_SomeD(3) [OF c] by (simp add: apply_patches_def)
qed

end
