(* ===== verification/Patch_Theorems.thy ===== *)
theory Patch_Theorems
  imports Patch_Properties
begin

text \<open>
  What composing patch layers gives: rows that are only inserted come out as
  they went in, an override changes the fields it names on the row it names,
  and a refused patch changes no row (though the rows of a refused insert
  take over the ids of others).
\<close>

section \<open>Fuel and growing arenas\<close>

lemma those_map_more:
  assumes "those_map f xs = Some ys" and "\<And>x y. x \<in> set xs \<Longrightarrow> f x = Some y \<Longrightarrow> g x = Some y"
  shows "those_map g xs = Some ys"
  using assms by (induction xs arbitrary: ys) (auto split: option.splits)

lemma those_map_cong [fundef_cong]:
  "xs = ys \<Longrightarrow> (\<And>x. x \<in> set ys \<Longrightarrow> f x = g x) \<Longrightarrow> those_map f xs = those_map g ys"
  by (induction ys arbitrary: xs) (auto split: option.splits)

lemma to_value_more:
  assumes "to_value n a c = Some v" and "n \<le> m"
  shows "to_value m a c = Some v"
  using assms
proof (induction n arbitrary: m c v)
  case 0
  then show ?case by (cases c) auto
next
  case (Suc n)
  then obtain k where m: "m = Suc k" "n \<le> k" by (metis Suc_le_D Suc_le_mono)
  show ?case
  proof (cases c)
    case (CNode i)
    show ?thesis
    proof (cases "nd_config (ar_nodes a ! i)")
      case (Children cs)
      then obtain items where items: "those_map (to_value n a) cs = Some items"
        "v = JObject (al_insert ''config'' (JArray items) (nd_fields (ar_nodes a ! i)))"
        using Suc.prems(1) CNode by (auto simp: Let_def)
      then have "those_map (to_value k a) cs = Some items"
        using those_map_more [OF items(1)] Suc.IH [OF _ m(2)] by blast
      then show ?thesis using items(2) Children CNode m(1) by (simp add: Let_def)
    qed (use Suc.prems(1) CNode m(1) in \<open>simp_all add: Let_def\<close>)
  qed (use Suc.prems(1) in simp)
qed

lemma flatten_more:
  assumes "flatten_child n a parent l c = Some rs" and "n \<le> m"
  shows "flatten_child m a parent l c = Some rs"
  using assms
proof (induction n arbitrary: m parent l c rs)
  case 0
  then show ?case by (cases c) auto
next
  case (Suc n)
  then obtain k where m: "m = Suc k" "n \<le> k" by (metis Suc_le_D Suc_le_mono)
  show ?case
  proof (cases c)
    case (CNode i)
    obtain w where w: "to_value (Suc n) a (CNode i) = Some w"
      using Suc.prems(1) CNode by (auto simp: Let_def simp del: to_value.simps split: option.splits)
    have w': "to_value (Suc k) a (CNode i) = Some w" by (rule to_value_more [OF w]) (use m(2) in simp)
    have kids: "those_map (flatten_child k a pa li) cs = Some xs"
      if "those_map (flatten_child n a pa li) cs = Some xs" for cs pa li xs
      by (rule those_map_more [OF that]) (use Suc.IH m(2) in blast)
    show ?thesis
    proof (cases "nd_config (ar_nodes a ! i)")
      case (Children cs)
      obtain xs where xs: "those_map (flatten_child n a (string_id (map_of (nd_fields (ar_nodes a ! i)) ''id''))
          (config_layer (ar_nodes a ! i))) cs = Some xs"
        using Suc.prems(1) CNode Children w
        by (auto simp: Let_def simp del: to_value.simps split: option.splits)
      show ?thesis
        using Suc.prems(1) CNode Children w w' xs kids [OF xs] m(1)
        by (simp add: Let_def del: to_value.simps)
    qed (use Suc.prems(1) CNode w w' m(1) in \<open>simp_all add: Let_def del: to_value.simps\<close>)
  qed (use Suc.prems(1) in simp)
qed

text \<open>Nodes added at the end change nothing below the old ones.\<close>

lemma grown_agrees:
  assumes "ar_nodes a' = ar_nodes a @ new" and "\<And>x. kids a x \<subseteq> {..<length (ar_nodes a)}"
    and "\<And>i. c = CNode i \<Longrightarrow> i < length (ar_nodes a)"
  shows "to_value n a' c = to_value n a c" "flatten_child n a' parent l c = flatten_child n a parent l c"
proof -
  have below: "j < length (ar_nodes a)" if "i < length (ar_nodes a)"
    "nd_config (ar_nodes a ! i) = Children cs" "CNode j \<in> set cs" for i j cs
    using assms(2) [of i] that by (auto simp: kids_def)
  have same: "ar_nodes a' ! i = ar_nodes a ! i" if "i < length (ar_nodes a)" for i
    using that by (simp add: assms(1) nth_append)
  have v: "to_value n a' c = to_value n a c"
    if "\<And>i. c = CNode i \<Longrightarrow> i < length (ar_nodes a)" for n c
    using that
  proof (induction n arbitrary: c)
    case (Suc n)
    show ?case
    proof (cases c)
      case (CNode i)
      then have i: "i < length (ar_nodes a)" using Suc.prems by simp
      show ?thesis
      proof (cases "nd_config (ar_nodes a ! i)")
        case (Children cs)
        have "those_map (to_value n a') cs = those_map (to_value n a) cs"
          by (rule those_map_cong [OF refl], rule Suc.IH) (use below [OF i Children] in blast)
        then show ?thesis using CNode Children same [OF i] by (simp add: Let_def)
      qed (use CNode same [OF i] in \<open>simp_all add: Let_def\<close>)
    qed simp
  qed (metis child.exhaust to_value.simps(1,2))
  then show "to_value n a' c = to_value n a c" using assms(3) by blast
  show "flatten_child n a' parent l c = flatten_child n a parent l c"
    using assms(3)
  proof (induction n arbitrary: c parent l)
    case (Suc n)
    show ?case
    proof (cases c)
      case (CNode i)
      then have i: "i < length (ar_nodes a)" using Suc.prems by simp
      have vi: "to_value (Suc n) a' (CNode i) = to_value (Suc n) a (CNode i)" by (rule v) (use i in simp)
      show ?thesis
      proof (cases "nd_config (ar_nodes a ! i)")
        case (Children cs)
        have "those_map (flatten_child n a' pa li) cs = those_map (flatten_child n a pa li) cs" for pa li
          by (rule those_map_cong [OF refl], rule Suc.IH) (use below [OF i Children] in blast)
        then show ?thesis
          using CNode Children same [OF i] vi
          by (cases "to_value (Suc n) a (CNode i)") (simp_all add: Let_def del: to_value.simps)
      qed (use CNode same [OF i] vi in \<open>cases "to_value (Suc n) a (CNode i)",
            simp_all add: Let_def del: to_value.simps\<close>)+
    qed simp
  qed (metis child.exhaust flatten_child.simps(1,2))
qed

section \<open>A refused patch\<close>

lemma refused_grows:
  assumes "patched p" and "pa_warnings (apply_patch li layer ip p) \<noteq> pa_warnings p"
  shows "\<exists>new w. ar_nodes (pa_arena (apply_patch li layer ip p)) = ar_nodes (pa_arena p) @ new \<and>
    pa_root (apply_patch li layer ip p) = pa_root p \<and>
    pa_warnings (apply_patch li layer ip p) = pa_warnings p @ [w]"
proof -
  obtain index pt where ip: "ip = (index, pt)" by (cases ip)
  show ?thesis
  proof (cases "pt_insert pt")
    case None
    then show ?thesis
      using assms(2) ip
      by (auto simp: apply_patch_def apply_override_def Let_def split: option.splits if_splits)
  next
    case (Some rows)
    obtain built a where b: "build_list rows li (pa_arena p) = (built, a)" by fastforce
    obtain new where "ar_nodes a = ar_nodes (pa_arena p) @ new"
      using build_grown(2) [OF b] by (auto simp: grown_def)
    then show ?thesis
      using assms(2) ip Some b
      by (auto simp: apply_patch_def apply_insert_def Let_def split: option.splits if_splits)
  qed
qed

text \<open>
  A patch that is refused is one warning and changes no row: the tree
  is composed as without it.
\<close>

theorem refused_patch_changes_no_row:
  assumes "patched p" and "pa_warnings (apply_patch li layer ip p) \<noteq> pa_warnings p"
  shows "\<exists>c c'. compose p = Some c \<and> compose (apply_patch li layer ip p) = Some c' \<and>
    co_rows c' = co_rows c \<and> co_flat c' = co_flat c \<and> length (co_warnings c') = Suc (length (co_warnings c))"
proof -
  let ?p' = "apply_patch li layer ip p"
  let ?a = "pa_arena p" and ?a' = "pa_arena ?p'"
  obtain new w where g: "ar_nodes ?a' = ar_nodes ?a @ new" "pa_root ?p' = pa_root p"
    "pa_warnings ?p' = pa_warnings p @ [w]"
    using refused_grows [OF assms] by blast
  have f: "forest ?a (pa_root p)" using patched_inv [OF assms(1)] by (simp add: patch_inv_def)
  have kids: "kids ?a x \<subseteq> {..<length (ar_nodes ?a)}" for x using f by (simp add: forest_def)
  have root: "i < length (ar_nodes ?a)" if "CNode i \<in> set (pa_root p)" for i
    using f that by (simp add: forest_def)
  obtain c where c: "compose p = Some c" using compose_total patched_inv [OF assms(1)] by blast
  obtain c' where c': "compose ?p' = Some c'"
    using compose_total patched_inv [OF pd_step [OF assms(1)]] by blast
  let ?n = "length (ar_nodes ?a)" and ?n' = "length (ar_nodes ?a')"
  have n: "?n \<le> ?n'" using g(1) by simp
  have "those_map (to_value ?n' ?a') (pa_root p) = Some (co_rows c)"
  proof (rule those_map_more [OF compose_SomeD(1) [OF c]])
    fix x y assume x: "x \<in> set (pa_root p)" "to_value ?n ?a x = Some y"
    have "to_value ?n' ?a' x = to_value ?n' ?a x"
      by (rule grown_agrees(1) [OF g(1) kids]) (use x(1) root in blast)
    then show "to_value ?n' ?a' x = Some y" using to_value_more [OF x(2) n] by simp
  qed
  then have "co_rows c' = co_rows c" using compose_SomeD(1) [OF c'] g(2) by simp
  moreover have "co_flat c' = co_flat c"
  proof -
    obtain xs where xs: "those_map (flatten_child ?n ?a None 0) (pa_root p) = Some xs" "co_flat c = concat xs"
      using compose_SomeD(2) [OF c] by (auto simp: flatten_def)
    have "those_map (flatten_child ?n' ?a' None 0) (pa_root p) = Some xs"
    proof (rule those_map_more [OF xs(1)])
      fix x y assume x: "x \<in> set (pa_root p)" "flatten_child ?n ?a None 0 x = Some y"
      have "flatten_child ?n' ?a' None 0 x = flatten_child ?n' ?a None 0 x"
        by (rule grown_agrees(2) [OF g(1) kids]) (use x(1) root in blast)
      then show "flatten_child ?n' ?a' None 0 x = Some y" using flatten_more [OF x(2) n] by simp
    qed
    then show ?thesis using compose_SomeD(2) [OF c'] xs(2) g(2) by (simp add: flatten_def)
  qed
  ultimately show ?thesis
    using c c' compose_SomeD(3) [OF c] compose_SomeD(3) [OF c'] g(3) by (intro exI [of _ c] exI [of _ c']) simp
qed

section \<open>An accepted override\<close>

lemma apply_field_parts:
  "nd_fields (apply_field li node (j, v)) =
     (if j = ''id'' \<or> j = ''config'' then nd_fields node else al_insert j v (nd_fields node))"
  "nd_config (apply_field li node (j, v)) = (if j = ''config'' then CValue v else nd_config node)"
  "nd_overridden (apply_field li node (j, v)) =
     (if j = ''id'' then nd_overridden node else (nd_overridden node)(j \<mapsto> li))"
  "nd_owner (apply_field li node (j, v)) = nd_owner node"
  by (simp_all add: apply_field_def)

lemma apply_fields_fields:
  "distinct (map fst kvs) \<Longrightarrow> k \<noteq> ''id'' \<Longrightarrow> k \<noteq> ''config'' \<Longrightarrow>
   map_of (nd_fields (foldl (apply_field li) node kvs)) k =
     (if map_of kvs k \<noteq> None then map_of kvs k else map_of (nd_fields node) k)"
proof (induction kvs arbitrary: node)
  case (Cons kv kvs)
  obtain j v where kv: "kv = (j, v)" by (cases kv)
  have "map_of kvs j = None" using Cons.prems(1) kv by (simp add: map_of_eq_None_iff)
  then show ?case
    using Cons.IH [of "apply_field li node (j, v)"] Cons.prems kv
    by (cases "k = j") (simp_all add: apply_field_parts(1))
qed simp

lemma apply_fields_config:
  "distinct (map fst kvs) \<Longrightarrow> nd_config (foldl (apply_field li) node kvs) =
     (case map_of kvs ''config'' of Some v \<Rightarrow> CValue v | None \<Rightarrow> nd_config node)"
proof (induction kvs arbitrary: node)
  case (Cons kv kvs)
  obtain j v where kv: "kv = (j, v)" by (cases kv)
  have "map_of kvs j = None" using Cons.prems(1) kv by (simp add: map_of_eq_None_iff)
  then show ?case
    using Cons.IH [of "apply_field li node (j, v)"] Cons.prems kv
    by (cases "j = ''config''") (simp_all add: apply_field_parts(2) split: option.split)
qed simp

lemma apply_fields_overridden:
  "nd_overridden (foldl (apply_field li) node kvs) =
     (\<lambda>k. if k \<noteq> ''id'' \<and> map_of kvs k \<noteq> None then Some li else nd_overridden node k)"
proof (induction kvs arbitrary: node)
  case (Cons kv kvs)
  obtain j v where kv: "kv = (j, v)" by (cases kv)
  then show ?case
    using Cons.IH [of "apply_field li node (j, v)"] by (auto simp: apply_field_parts(3) fun_eq_iff)
qed simp

lemma apply_fields_owner: "nd_owner (foldl (apply_field li) node kvs) = nd_owner node"
  by (induction kvs arbitrary: node) (auto simp: apply_field_def split: prod.split)

text \<open>
  C26. An override that is not refused changes exactly the row with its id:
  each field it has takes its value (the config as a whole), never the id,
  and is recorded as this layer's; every other field, node and root row is
  left as it was.
\<close>

theorem override_changes_its_row:
  assumes "patched p" and "nonempty (pt_id pt) = Some i" and "distinct (map fst (pt_overrides pt))"
    and "pa_warnings (apply_override li layer index pt p) = pa_warnings p"
  shows "\<exists>n < length (ar_nodes (pa_arena p)).
    let node = ar_nodes (pa_arena p) ! n; p' = apply_override li layer index pt p;
        node' = ar_nodes (pa_arena p') ! n; over = map_of (pt_overrides pt)
    in string_id (map_of (nd_fields node) ''id'') = Some i \<and>
       (\<forall>name. nonempty (pt_name pt) = Some name \<longrightarrow> map_of (nd_fields node) ''name'' = Some (JString name)) \<and>
       (\<forall>k. k \<noteq> ''config'' \<longrightarrow> map_of (nd_fields node') k =
          (if k \<noteq> ''id'' \<and> over k \<noteq> None then over k else map_of (nd_fields node) k)) \<and>
       nd_config node' = (case over ''config'' of Some v \<Rightarrow> CValue v | None \<Rightarrow> nd_config node) \<and>
       nd_overridden node' = (\<lambda>k. if k \<noteq> ''id'' \<and> over k \<noteq> None then Some li else nd_overridden node k) \<and>
       nd_owner node' = nd_owner node \<and>
       (\<forall>m. m \<noteq> n \<longrightarrow> ar_nodes (pa_arena p') ! m = ar_nodes (pa_arena p) ! m) \<and>
       ar_index (pa_arena p') = ar_index (pa_arena p) \<and> pa_root p' = pa_root p"
proof -
  let ?a = "pa_arena p"
  obtain n where n: "ar_index ?a i = Some n"
    using assms(2,4) by (cases "ar_index ?a i") (simp_all add: apply_override_def)
  have ok: "n < length (ar_nodes ?a)" "string_id (map_of (nd_fields (ar_nodes ?a ! n)) ''id'') = Some i"
    using patched_inv [OF assms(1)] n by (simp_all add: patch_inv_def index_ok_def)
  let ?node = "ar_nodes ?a ! n"
  let ?node' = "foldl (apply_field li) ?node (pt_overrides pt)"
  have name: "map_of (nd_fields ?node) ''name'' = Some (JString m)" if "nonempty (pt_name pt) = Some m" for m
    using assms(2,4) n that by (auto simp: apply_override_def Let_def split: if_splits)
  then have p': "apply_override li layer index pt p = set_node n ?node' p"
    using assms(2) n by (cases "nonempty (pt_name pt)") (simp_all add: apply_override_def Let_def)
  note S = apply_fields_fields [OF assms(3), where li = li and node = ?node]
    apply_fields_config [OF assms(3), where li = li and node = ?node] apply_fields_overridden apply_fields_owner
  have id: "map_of (nd_fields ?node') ''id'' = map_of (nd_fields ?node) ''id''"
    by (rule apply_fields_keep(1))
  have fields: "map_of (nd_fields ?node') k =
      (if k \<noteq> ''id'' \<and> map_of (pt_overrides pt) k \<noteq> None
       then map_of (pt_overrides pt) k else map_of (nd_fields ?node) k)" if "k \<noteq> ''config''" for k
    using S(1) [of k] id that by (cases "k = ''id''") simp_all
  show ?thesis
    unfolding p' by (intro exI [of _ n]) (use ok fields S(2-4) name in \<open>simp add: Let_def\<close>)
qed

section \<open>Inserts\<close>

text \<open>A row as it is written out: its config last, the rows of a group likewise.\<close>

function canon :: "json \<Rightarrow> json" where
  "canon v = (case v of
     JObject fs \<Rightarrow>
       (case group_items fs of
          Some items \<Rightarrow> JObject (al_insert ''config'' (JArray (map canon items)) (al_swap_remove ''config'' fs))
        | None \<Rightarrow> (case map_of fs ''config'' of
             None \<Rightarrow> JObject (al_swap_remove ''config'' fs)
           | Some c \<Rightarrow> JObject (al_insert ''config'' c (al_swap_remove ''config'' fs))))
   | _ \<Rightarrow> v)"
  by pat_completeness auto

termination
proof (relation "measure size", simp)
  fix v fs items x assume "v = JObject fs" "group_items fs = Some items" "x \<in> set items"
  moreover have "size x \<le> size_list size items" using \<open>x \<in> set items\<close> by (simp add: size_list_estimation')
  ultimately show "(x, v) \<in> measure size" using group_items_size by fastforce
qed

declare canon.simps [simp del]

text \<open>It is the same object: every field has its value.\<close>

lemma canon_same:
  assumes "distinct (map fst fs)"
  shows "\<exists>fs'. canon (JObject fs) = JObject fs' \<and> map_of fs' = (map_of fs)(''config'' :=
    (case group_items fs of Some items \<Rightarrow> Some (JArray (map canon items)) | None \<Rightarrow> map_of fs ''config''))"
  using assms
  by (auto simp: canon.simps [of "JObject fs"] map_of_al_swap_remove fun_eq_iff split: option.split)

lemma build_value:
  "build v layer a = (c, a') \<Longrightarrow> ar_nodes b = ar_nodes a' @ new \<Longrightarrow> \<exists>n. to_value n b c = Some (canon v)"
  "build_list vs layer a = (cs, a') \<Longrightarrow> ar_nodes b = ar_nodes a' @ new \<Longrightarrow>
     \<exists>n. those_map (to_value n b) cs = Some (map canon vs)"
proof (induction v layer a and vs layer a arbitrary: c a' new and cs a' new rule: build_build_list.induct)
  case (1 v layer a)
  show ?case
  proof (cases v)
    case (JObject fs)
    let ?fs = "al_swap_remove ''config'' fs"
    show ?thesis
    proof (cases "group_items fs")
      case None
      let ?config = "case map_of fs ''config'' of None \<Rightarrow> Absent | Some c \<Rightarrow> CValue c"
      have "push_node ?fs ?config layer a = (c, a')"
        using "1.prems"(1) JObject None by (simp add: build.simps [of "JObject fs"])
      then have "c = CNode (length (ar_nodes a))" "nd_config (ar_nodes b ! length (ar_nodes a)) = ?config"
        "nd_fields (ar_nodes b ! length (ar_nodes a)) = ?fs"
        using "1.prems"(2) by (auto simp: push_node_def Let_def nth_append)
      then have "to_value 1 b c = Some (canon v)"
        by (simp add: Let_def JObject canon.simps [of "JObject fs"] None split: option.split)
      then show ?thesis by blast
    next
      case (Some items)
      obtain cs a1 where b: "build_list items layer a = (cs, a1)" by fastforce
      then have push: "push_node ?fs (Children cs) layer a1 = (c, a')"
        using "1.prems"(1) JObject Some by (simp add: build.simps [of "JObject fs"])
      then obtain last where l: "ar_nodes a' = ar_nodes a1 @ [last]" "nd_config last = Children cs" "nd_fields last = ?fs"
        "c = CNode (length (ar_nodes a1))"
        by (auto simp: push_node_def Let_def)
      have "ar_nodes b = ar_nodes a1 @ (last # new)" using "1.prems"(2) l(1) by simp
      then obtain n where n: "those_map (to_value n b) cs = Some (map canon items)"
        using "1.IH" [OF JObject Some b] by blast
      have "ar_nodes b ! length (ar_nodes a1) = last" using "1.prems"(2) l(1) by (simp add: nth_append)
      then have "to_value (Suc n) b c = Some (canon v)"
        using l n by (simp add: Let_def JObject canon.simps [of "JObject fs"] Some)
      then show ?thesis by blast
    qed
  qed (use "1.prems" in \<open>auto simp: build.simps canon.simps\<close>)
next
  case (2 layer a)
  then show ?case by auto
next
  case (3 v vs layer a)
  obtain c1 a1 where b: "build v layer a = (c1, a1)" by fastforce
  obtain cs2 a2 where bs: "build_list vs layer a1 = (cs2, a2)" by fastforce
  have cs: "cs = c1 # cs2" "a' = a2" using 3(3) b bs by auto
  obtain more where more: "ar_nodes a2 = ar_nodes a1 @ more"
    using build_grown(2) [OF bs] by (auto simp: grown_def)
  then have "ar_nodes b = ar_nodes a1 @ (more @ new)" using 3(4) cs(2) by simp
  then obtain n where n: "to_value n b c1 = Some (canon v)" using 3(1) [OF b] by blast
  obtain m where m: "those_map (to_value m b) cs2 = Some (map canon vs)"
    using 3(2) [OF b [symmetric] bs] 3(4) cs(2) by blast
  have "to_value (max n m) b c1 = Some (canon v)" by (rule to_value_more [OF n]) simp
  moreover have "those_map (to_value (max n m) b) cs2 = Some (map canon vs)"
    by (rule those_map_more [OF m], erule to_value_more) simp
  ultimately show ?case using cs(1) by (intro exI [of _ "max n m"]) simp
qed

text \<open>Layers that only insert rows at the root.\<close>

definition inserts_only :: "layer \<Rightarrow> bool" where
  "inserts_only l \<longleftrightarrow> (\<forall>pt \<in> set (ly_patches l). pt_insert pt \<noteq> None \<and> nonempty (pt_id pt) = None)"

definition inserted :: "patch \<Rightarrow> json list" where
  "inserted pt = (case pt_insert pt of None \<Rightarrow> [] | Some rows \<Rightarrow> rows)"

definition layer_rows :: "layer \<Rightarrow> json list" where
  "layer_rows l = concat (map inserted (ly_patches l))"

definition composes_to :: "patching \<Rightarrow> json list \<Rightarrow> bool" where
  "composes_to p vs \<longleftrightarrow> patched p \<and> pa_warnings p = [] \<and>
     (\<exists>n. those_map (to_value n (pa_arena p)) (pa_root p) = Some (map canon vs))"

lemma those_map_append:
  "those_map f xs = Some ys \<Longrightarrow> those_map f zs = Some ws \<Longrightarrow> those_map f (xs @ zs) = Some (ys @ ws)"
  by (simp add: those_map_Some)

lemma insert_composes:
  assumes "composes_to p vs" and "pt_insert pt = Some rows" and "nonempty (pt_id pt) = None"
  shows "composes_to (apply_patch li layer (index, pt) p) (vs @ rows)"
proof -
  let ?a = "pa_arena p"
  obtain built a where b: "build_list rows li ?a = (built, a)" by fastforce
  obtain new where new: "ar_nodes a = ar_nodes ?a @ new" using build_grown(2) [OF b] by (auto simp: grown_def)
  have step: "apply_patch li layer (index, pt) p = p\<lparr>pa_arena := a, pa_root := pa_root p @ built\<rparr>"
    using assms(2,3) b by (simp add: apply_patch_def apply_insert_def)
  have f: "forest ?a (pa_root p)" using assms(1) patched_inv by (auto simp: composes_to_def patch_inv_def)
  obtain n where n: "those_map (to_value n ?a) (pa_root p) = Some (map canon vs)"
    using assms(1) by (auto simp: composes_to_def)
  obtain m where m: "those_map (to_value m a) built = Some (map canon rows)"
    using build_value(2) [OF b, of a "[]"] by auto
  have "those_map (to_value (max n m) a) (pa_root p) = Some (map canon vs)"
  proof (rule those_map_more [OF n])
    fix x y assume x: "x \<in> set (pa_root p)" "to_value n ?a x = Some y"
    have "to_value (max n m) a x = to_value (max n m) ?a x"
      by (rule grown_agrees(1) [OF new]) (use f x(1) in \<open>auto simp: forest_def\<close>)
    then show "to_value (max n m) a x = Some y" using to_value_more [OF x(2), of "max n m"] by simp
  qed
  moreover have "those_map (to_value (max n m) a) built = Some (map canon rows)"
    by (rule those_map_more [OF m], erule to_value_more) simp
  ultimately have "those_map (to_value (max n m) a) (pa_root p @ built) = Some (map canon (vs @ rows))"
    using those_map_append by fastforce
  moreover have "patched (apply_patch li layer (index, pt) p)"
    using assms(1) pd_step by (simp add: composes_to_def)
  ultimately show ?thesis using assms(1) unfolding step composes_to_def by auto
qed

lemma inserts_compose:
  "composes_to p vs \<Longrightarrow> \<forall>pt \<in> snd ` set ips. pt_insert pt \<noteq> None \<and> nonempty (pt_id pt) = None \<Longrightarrow>
   composes_to (fold (apply_patch li layer) ips p) (vs @ concat (map (inserted \<circ> snd) ips))"
proof (induction ips arbitrary: p vs)
  case (Cons ip ips)
  obtain index pt where ip: "ip = (index, pt)" by (cases ip)
  then obtain rows where rows: "pt_insert pt = Some rows" "nonempty (pt_id pt) = None"
    using Cons.prems(2) by auto
  show ?case
    using Cons.IH [OF insert_composes [OF Cons.prems(1) rows, of li layer index]] Cons.prems(2) ip rows(1)
    by (simp add: inserted_def)
qed simp

lemma layers_compose:
  "composes_to p vs \<Longrightarrow> \<forall>l \<in> snd ` set ils. inserts_only l \<Longrightarrow>
   composes_to (fold apply_layer ils p) (vs @ concat (map (layer_rows \<circ> snd) ils))"
proof (induction ils arbitrary: p vs)
  case (Cons il ils)
  obtain li l where il: "il = (li, l)" by (cases il)
  have pts: "snd ` set (List.enumerate 0 (ly_patches l)) = set (ly_patches l)"
    by (metis list.set_map map_snd_enumerate)
  have "map (inserted \<circ> snd) (List.enumerate 0 (ly_patches l)) = map inserted (ly_patches l)"
    by (metis map_map map_snd_enumerate)
  then have "composes_to (apply_layer il p) (vs @ layer_rows l)"
    using inserts_compose [OF Cons.prems(1), of "List.enumerate 0 (ly_patches l)" li "ly_name l"]
      Cons.prems(2) pts il
    by (simp add: apply_layer_def layer_rows_def inserts_only_def)
  then show ?case using Cons.IH [of "apply_layer il p" "vs @ layer_rows l"] Cons.prems(2) il by simp
qed simp

text \<open>
  Rows that layers only insert come out as they went in, layer after
  layer and in their order: each is the object it was, with its config
  (of a group, its rows likewise) as the last field.
\<close>

theorem inserted_rows_come_out:
  assumes "\<forall>l \<in> set layers. inserts_only l"
  shows "\<exists>c. apply_patches layers = Some c \<and> co_rows c = map canon (concat (map layer_rows layers)) \<and>
    co_warnings c = []"
proof -
  have ls: "snd ` set (List.enumerate 0 layers) = set layers"
    by (metis list.set_map map_snd_enumerate)
  have "map (layer_rows \<circ> snd) (List.enumerate 0 layers) = map layer_rows layers"
    by (metis map_map map_snd_enumerate)
  moreover have "composes_to no_patches []"
    using pd_start by (simp add: composes_to_def no_patches_def)
  ultimately have c: "composes_to (run_layers layers) (concat (map layer_rows layers))"
    using layers_compose [of no_patches "[]" "List.enumerate 0 layers"] assms ls
    by (simp add: run_layers_def)
  let ?a = "pa_arena (run_layers layers)"
  obtain n where n: "those_map (to_value n ?a) (pa_root (run_layers layers)) =
      Some (map canon (concat (map layer_rows layers)))"
    using c by (auto simp: composes_to_def)
  obtain d where d: "compose (run_layers layers) = Some d"
    using compose_total [OF patched_inv [OF run_layers_patched]] by blast
  have "those_map (to_value (max n (length (ar_nodes ?a))) ?a) (pa_root (run_layers layers)) = Some (co_rows d)"
    by (rule those_map_more [OF compose_SomeD(1) [OF d]], erule to_value_more) simp
  moreover have "those_map (to_value (max n (length (ar_nodes ?a))) ?a) (pa_root (run_layers layers)) =
      Some (map canon (concat (map layer_rows layers)))"
    by (rule those_map_more [OF n], erule to_value_more) simp
  ultimately have "co_rows d = map canon (concat (map layer_rows layers))" by simp
  then show ?thesis
    using d compose_SomeD(3) [OF d] c by (simp add: apply_patches_def composes_to_def)
qed

section \<open>Witnesses\<close>

definition row :: "string \<Rightarrow> object \<Rightarrow> json" where
  "row name rest = JObject ((''id'', JString name) # rest)"

definition demo_insert :: "string option \<Rightarrow> json list \<Rightarrow> patch" where
  "demo_insert target rows = \<lparr>pt_id = target, pt_insert = Some rows, pt_name = None, pt_overrides = []\<rparr>"

definition demo_override :: "string \<Rightarrow> object \<Rightarrow> patch" where
  "demo_override target kvs = \<lparr>pt_id = Some target, pt_insert = None, pt_name = None, pt_overrides = kvs\<rparr>"

definition demo_group :: json where
  "demo_group = row ''g'' [(''config'', JArray [row ''c'' []]), (''group'', JBool True)]"

definition demo_layer :: layer where
  "demo_layer = \<lparr>ly_name = ''base'', ly_patches = [demo_insert None [row ''a'' [], demo_group]]\<rparr>"

definition demo_patching :: patching where
  "demo_patching = apply_patch 0 ''base'' (0, demo_insert None [row ''a'' [], demo_group]) no_patches"

lemma demo_patched: "patched demo_patching"
  unfolding demo_patching_def by (rule pd_step [OF pd_start])

theorem inserted_rows_come_out_witness:
  "\<exists>c. apply_patches [demo_layer] = Some c \<and>
     co_rows c = [row ''a'' [], row ''g'' [(''group'', JBool True), (''config'', JArray [row ''c'' []])]] \<and>
     co_warnings c = []"
proof -
  have "\<forall>l \<in> set [demo_layer]. inserts_only l"
    by (simp add: inserts_only_def demo_layer_def demo_insert_def nonempty_def)
  moreover have "map canon (concat (map layer_rows [demo_layer])) =
      [row ''a'' [], row ''g'' [(''group'', JBool True), (''config'', JArray [row ''c'' []])]]"
    by (simp add: layer_rows_def demo_layer_def demo_insert_def inserted_def demo_group_def row_def
        canon.simps group_items_def al_swap_remove_def swap_remove_def is_group_def)
  ultimately show ?thesis using inserted_rows_come_out [of "[demo_layer]"] by simp
qed

theorem override_changes_its_row_witness:
  "\<exists>n < length (ar_nodes (pa_arena demo_patching)).
     map_of (nd_fields (ar_nodes (pa_arena (apply_override 1 ''user'' 0
       (demo_override ''c'' [(''disabled'', JBool True)]) demo_patching)) ! n)) ''disabled'' = Some (JBool True) \<and>
     string_id (map_of (nd_fields (ar_nodes (pa_arena demo_patching) ! n)) ''id'') = Some ''c''"
proof -
  let ?pt = "demo_override ''c'' [(''disabled'', JBool True)]"
  have h: "nonempty (pt_id ?pt) = Some ''c''" "distinct (map fst (pt_overrides ?pt))"
    "pa_warnings (apply_override 1 ''user'' 0 ?pt demo_patching) = pa_warnings demo_patching"
    by code_simp+
  show ?thesis
    using override_changes_its_row [OF demo_patched h]
    by (auto simp: Let_def demo_override_def split: if_splits)
qed

theorem refused_patch_changes_no_row_witness:
  "\<exists>c c'. compose demo_patching = Some c \<and>
     compose (apply_patch 1 ''user'' (0, demo_insert (Some ''a'') [row ''b'' []]) demo_patching) = Some c' \<and>
     co_rows c' = co_rows c \<and> length (co_warnings c') = Suc (length (co_warnings c))"
proof -
  have "pa_warnings (apply_patch 1 ''user'' (0, demo_insert (Some ''a'') [row ''b'' []]) demo_patching) \<noteq>
      pa_warnings demo_patching" by code_simp
  from refused_patch_changes_no_row [OF demo_patched this] show ?thesis by blast
qed

section \<open>What a refused insert leaves behind\<close>

lemma build_index:
  assumes "build (JObject fs) layer a = (c, a')" and "distinct (map fst fs)"
    and "string_id (map_of fs ''id'') = Some i"
  shows "\<exists>n. ar_index a' i = Some n \<and> length (ar_nodes a) \<le> n \<and> n < length (ar_nodes a')"
proof -
  have i: "string_id (map_of (al_swap_remove ''config'' fs) ''id'') = Some i"
    using assms(2,3) by (simp add: map_of_al_swap_remove)
  obtain config a1 where push: "push_node (al_swap_remove ''config'' fs) config layer a1 = (c, a')"
    using assms(1) by (auto simp: build.simps [of "JObject fs"] split: option.splits prod.splits)
  then have c: "c = CNode (length (ar_nodes a1))" "ar_index a' i = Some (length (ar_nodes a1))"
    "length (ar_nodes a') = Suc (length (ar_nodes a1))"
    using i by (auto simp: push_node_def Let_def)
  then show ?thesis using build_grown(1) [OF assms(1)] by (auto simp: grown_def)
qed

text \<open>
  The row of a refused insert still takes the id it has: a later
  override of this id is accepted without a warning and changes no row, even
  when a row of the tree has the id.
\<close>

theorem refused_insert_takes_the_id:
  assumes "patched p" and "pt_insert ins = Some [JObject fs]" and "distinct (map fst fs)"
    and "string_id (map_of fs ''id'') = Some i"
    and "p' = apply_patch li layer (index, ins) p" and "pa_warnings p' \<noteq> pa_warnings p"
    and "pt_insert over = None" and "pt_id over = Some i" and "pt_name over = None"
  shows "\<exists>c c'. compose p = Some c \<and> compose (apply_patch li2 layer2 (index2, over) p') = Some c' \<and>
    co_rows c' = co_rows c \<and> co_warnings c' = pa_warnings p'"
proof -
  let ?a = "pa_arena p"
  obtain new where g: "ar_nodes (pa_arena p') = ar_nodes ?a @ new" "pa_root p' = pa_root p"
    using refused_grows [OF assms(1)] assms(5,6) by blast
  obtain c1 a1 where b: "build (JObject fs) li ?a = (c1, a1)" by fastforce
  have "pa_arena p' = a1"
    using assms(2,5,6) b
    by (auto simp: apply_patch_def apply_insert_def Let_def split: option.splits if_splits)
  then obtain n where n: "ar_index (pa_arena p') i = Some n" "length (ar_nodes ?a) \<le> n"
    using build_index [OF b assms(3,4)] by blast
  have i: "nonempty (pt_id over) = Some i" "nonempty (pt_name over) = None"
    using assms(4,8,9) by (auto simp: nonempty_def elim!: string_id.elims split: if_splits)
  define q where "q = apply_patch li2 layer2 (index2, over) p'"
  obtain node where q: "q = set_node n node p'"
    using i n(1) assms(7) by (auto simp: q_def apply_patch_def apply_override_def Let_def)
  have qn: "ar_nodes (pa_arena q) = ar_nodes ?a @ new[n - length (ar_nodes ?a) := node]"
    using g(1) n(2) by (simp add: q list_update_append)
  have f: "forest ?a (pa_root p)" using patched_inv [OF assms(1)] by (simp add: patch_inv_def)
  obtain c where c: "compose p = Some c" using compose_total patched_inv [OF assms(1)] by blast
  have "patched q" using assms(1,5) pd_step unfolding q_def by blast
  then obtain c' where c': "compose q = Some c'" using compose_total patched_inv by blast
  have "those_map (to_value (length (ar_nodes (pa_arena q))) (pa_arena q)) (pa_root p) = Some (co_rows c)"
  proof (rule those_map_more [OF compose_SomeD(1) [OF c]])
    fix x y assume x: "x \<in> set (pa_root p)" "to_value (length (ar_nodes ?a)) ?a x = Some y"
    have "to_value (length (ar_nodes (pa_arena q))) (pa_arena q) x =
        to_value (length (ar_nodes (pa_arena q))) ?a x"
      by (rule grown_agrees(1) [OF qn]) (use f x(1) in \<open>auto simp: forest_def\<close>)
    then show "to_value (length (ar_nodes (pa_arena q))) (pa_arena q) x = Some y"
      using to_value_more [OF x(2), of "length (ar_nodes (pa_arena q))"] qn by simp
  qed
  then have "co_rows c' = co_rows c" using compose_SomeD(1) [OF c'] g(2) q by simp
  then show ?thesis using c c' compose_SomeD(3) [OF c'] q unfolding q_def by simp
qed

text \<open>Row \<open>a\<close> is in the tree; without the refused patch the override would change it.\<close>

theorem refused_insert_takes_the_id_witness:
  "(\<exists>c'. compose (apply_patch 1 ''user'' (1, demo_override ''a'' [(''disabled'', JBool True)])
      (apply_patch 1 ''user'' (0, demo_insert (Some ''nope'') [row ''a'' []]) demo_patching)) = Some c' \<and>
     co_rows c' = [row ''a'' [], row ''g'' [(''group'', JBool True), (''config'', JArray [row ''c'' []])]] \<and>
     map pw_message (co_warnings c') = [InsertNotFound ''nope'']) \<and>
   map_option co_rows (compose (apply_patch 1 ''user'' (1, demo_override ''a'' [(''disabled'', JBool True)])
      demo_patching)) =
     Some [row ''a'' [(''disabled'', JBool True)],
       row ''g'' [(''group'', JBool True), (''config'', JArray [row ''c'' []])]]"
proof -
  let ?ins = "demo_insert (Some ''nope'') [row ''a'' []]"
  let ?over = "demo_override ''a'' [(''disabled'', JBool True)]"
  let ?p' = "apply_patch 1 ''user'' (0, ?ins) demo_patching"
  have w: "pa_warnings ?p' \<noteq> pa_warnings demo_patching" "map pw_message (pa_warnings ?p') = [InsertNotFound ''nope'']"
    by code_simp+
  have r: "map_option co_rows (compose demo_patching) =
      Some [row ''a'' [], row ''g'' [(''group'', JBool True), (''config'', JArray [row ''c'' []])]]"
    by code_simp
  have "\<exists>c c'. compose demo_patching = Some c \<and>
      compose (apply_patch 1 ''user'' (1, ?over) ?p') = Some c' \<and>
      co_rows c' = co_rows c \<and> co_warnings c' = pa_warnings ?p'"
    by (rule refused_insert_takes_the_id [OF demo_patched _ _ _ refl w(1), of "[(''id'', JString ''a'')]" "''a''"])
      (simp_all add: demo_insert_def demo_override_def row_def)
  then obtain c' where c': "compose (apply_patch 1 ''user'' (1, ?over) ?p') = Some c'"
    "co_rows c' = [row ''a'' [], row ''g'' [(''group'', JBool True), (''config'', JArray [row ''c'' []])]]"
    "co_warnings c' = pa_warnings ?p'"
    using r by auto
  have "map_option co_rows (compose (apply_patch 1 ''user'' (1, ?over) demo_patching)) =
     Some [row ''a'' [(''disabled'', JBool True)],
       row ''g'' [(''group'', JBool True), (''config'', JArray [row ''c'' []])]]"
    by code_simp
  moreover have "map pw_message (co_warnings c') = [InsertNotFound ''nope'']" using c'(3) w(2) by (simp only:)
  ultimately show ?thesis
    by (intro conjI exI [of _ c'] c'(1,2))
qed

text \<open>
  A group that an override makes a plain row keeps its rows in the flat
  list, with it as their parent, although in the composed value they are its
  config.
\<close>

theorem plain_row_keeps_its_rows:
  "map_option (\<lambda>c. (co_rows c, map (\<lambda>r. (cr_id r, cr_parent r)) (co_flat c))) (apply_patches
     [demo_layer, \<lparr>ly_name = ''user'', ly_patches = [demo_override ''g'' [(''group'', JBool False)]]\<rparr>]) =
   Some ([row ''a'' [], row ''g'' [(''group'', JBool False), (''config'', JArray [row ''c'' []])]],
     [(Some ''a'', None), (Some ''g'', None), (Some ''c'', Some ''g'')])"
  by code_simp

end
