(* ===== verification/Edit_Sources.thy ===== *)
theory Edit_Sources
  imports Edit_Properties
begin

text \<open>
  Where composed rows come from: every layer index they carry names a layer,
  and a row that a layer owns is among the rows this layer inserts, where an
  edit locates it.
\<close>

section \<open>Values as serde reads them\<close>

text \<open>No object has a key twice.\<close>

fun distinct_keys :: "json \<Rightarrow> bool" where
  "distinct_keys (JArray vs) = (\<forall>v \<in> set vs. distinct_keys v)"
| "distinct_keys (JObject fs) = (distinct (map fst fs) \<and> (\<forall>p \<in> set fs. distinct_keys (snd p)))"
| "distinct_keys _ = True"

definition clean_layer :: "layer \<Rightarrow> bool" where
  "clean_layer l \<longleftrightarrow> (\<forall>pt \<in> set (ly_patches l). \<forall>v \<in> set (insert_rows pt). distinct_keys v)"

definition writes :: "layer list \<Rightarrow> nat \<Rightarrow> string \<Rightarrow> bool" where
  "writes layers l i \<longleftrightarrow> (\<exists>pt \<in> set (ly_patches (layers ! l)). contains (insert_rows pt) i)"

lemma contains_member:
  "contains vs i \<longleftrightarrow> (\<exists>v \<in> set vs. item_id v = Some i \<or> has_below i v)"
  by (induction vs) (auto simp: has_below_def)

lemma group_items_children:
  assumes "distinct (map fst fs)" and "group_items fs = Some items"
  shows "item_children (JObject fs) = Some items"
proof -
  have "is_group fs = item_group (JObject fs)" "is_group (al_swap_remove ''config'' fs) = is_group fs"
    using assms(1) by (simp_all add: is_group_def item_group_def vget_def map_of_al_swap_remove)
  then show ?thesis
    using assms(2) by (auto simp: group_items_def item_children_def item_config_def vget_def
        split: option.splits json.splits if_splits)
qed

lemma distinct_keys_children:
  "distinct_keys v \<Longrightarrow> item_config v = Some items \<Longrightarrow> u \<in> set items \<Longrightarrow> distinct_keys u"
  by (cases v) (fastforce simp: item_config_def vget_def value_array_Some dest: map_of_SomeD)+

section \<open>Nodes and the layers that made them\<close>

definition node_from :: "(nat \<Rightarrow> string \<Rightarrow> bool) \<Rightarrow> nat \<Rightarrow> node \<Rightarrow> bool" where
  "node_from src m nd \<longleftrightarrow>
     (\<exists>l < m. nd_owner nd = OwnLayer l \<and>
        (\<forall>i. string_id (map_of (nd_fields nd) ''id'') = Some i \<longrightarrow> src l i)) \<and>
     (\<forall>k l. nd_overridden nd k = Some l \<longrightarrow> l < m)"

definition nodes_from :: "(nat \<Rightarrow> string \<Rightarrow> bool) \<Rightarrow> nat \<Rightarrow> arena \<Rightarrow> bool" where
  "nodes_from src m a \<longleftrightarrow> (\<forall>nd \<in> set (ar_nodes a). node_from src m nd)"

lemma string_id_value_str: "string_id x = Some i \<Longrightarrow> value_str x = Some i"
  by (cases x rule: string_id.cases) (auto split: if_splits)

lemma nodes_from_push:
  assumes "nodes_from src m a" and "l < m"
    and "\<And>i. string_id (map_of fs ''id'') = Some i \<Longrightarrow> src l i"
  shows "nodes_from src m (snd (push_node fs config l a))"
  using assms by (auto simp: nodes_from_def node_from_def push_node_def Let_def)

lemma build_from:
  "build v l a = (c, a') \<Longrightarrow> distinct_keys v \<Longrightarrow> (\<And>i. contains [v] i \<Longrightarrow> src l i) \<Longrightarrow> l < m \<Longrightarrow>
     nodes_from src m a \<Longrightarrow> nodes_from src m a'"
  "build_list vs l a = (cs, a') \<Longrightarrow> (\<forall>v \<in> set vs. distinct_keys v) \<Longrightarrow> (\<And>i. contains vs i \<Longrightarrow> src l i) \<Longrightarrow>
     l < m \<Longrightarrow> nodes_from src m a \<Longrightarrow> nodes_from src m a'"
proof (induction v l a and vs l a arbitrary: c a' and cs a' rule: build_build_list.induct)
  case (1 v l a)
  show ?case
  proof (cases v)
    case (JObject fs)
    have d: "distinct (map fst fs)" using "1.prems"(2) JObject by simp
    have src: "src l i" if "string_id (map_of (al_swap_remove ''config'' fs) ''id'') = Some i" for i
      using that d "1.prems"(3) [of i] JObject
      by (simp add: map_of_al_swap_remove item_id_def vget_def string_id_value_str)
    show ?thesis
    proof (cases "group_items fs")
      case None
      have "a' = snd (push_node (al_swap_remove ''config'' fs)
          (case map_of fs ''config'' of None \<Rightarrow> Absent | Some c \<Rightarrow> CValue c) l a)"
        using "1.prems"(1) JObject None by (simp add: build.simps [of "JObject fs"])
      then show ?thesis using nodes_from_push [OF "1.prems"(5,4) src] by simp
    next
      case (Some items)
      obtain cs a1 where b: "build_list items l a = (cs, a1)" by fastforce
      have a': "a' = snd (push_node (al_swap_remove ''config'' fs) (Children cs) l a1)"
        using "1.prems"(1) JObject Some b by (simp add: build.simps [of "JObject fs"])
      have ch: "item_children (JObject fs) = Some items" by (rule group_items_children [OF d Some])
      have "nodes_from src m a1"
      proof (rule "1.IH" [OF JObject Some b])
        show "\<forall>v \<in> set items. distinct_keys v"
          using distinct_keys_children [OF "1.prems"(2)] ch JObject by (simp add: item_children_def split: if_splits)
        show "src l i" if "contains items i" for i
          using "1.prems"(3) [of i] that ch JObject by simp
      qed (use "1.prems"(4,5) in simp_all)
      then show ?thesis unfolding a' by (rule nodes_from_push) (use "1.prems"(4) src in auto)
    qed
  qed (use "1.prems" in \<open>auto simp: build.simps\<close>)
next
  case (2 l a)
  then show ?case by simp
next
  case (3 v vs l a)
  obtain c1 a1 where b: "build v l a = (c1, a1)" by fastforce
  obtain cs2 a2 where bs: "build_list vs l a1 = (cs2, a2)" by fastforce
  have a': "a' = a2" using 3(3) b bs by auto
  have "nodes_from src m a1"
    by (rule 3(1) [OF b]) (use 3(4-7) in \<open>auto simp: contains_member\<close>)
  then have "nodes_from src m a2"
    by (intro 3(2) [OF b [symmetric] bs]) (use 3(4-6) in auto)
  then show ?case using a' by simp
qed

lemma apply_fields_from:
  assumes "node_from src m nd" and "l < m"
  shows "node_from src m (foldl (apply_field l) nd kvs)"
proof -
  have "nd_owner (foldl (apply_field l) nd kvs) = nd_owner nd"
    "map_of (nd_fields (foldl (apply_field l) nd kvs)) ''id'' = map_of (nd_fields nd) ''id''"
    by (rule apply_fields_owner, rule apply_fields_keep(1))
  then show ?thesis using assms by (auto simp: node_from_def apply_fields_overridden split: if_splits)
qed

lemma nodes_from_update:
  "nodes_from src m a \<Longrightarrow> node_from src m nd \<Longrightarrow> nodes_from src m (a\<lparr>ar_nodes := (ar_nodes a)[n := nd]\<rparr>)"
  by (auto simp: nodes_from_def dest: set_update_subset_insert [THEN subsetD])

lemma apply_patch_from:
  assumes "nodes_from src m (pa_arena p)" and "index_ok (pa_arena p)" and "l < m"
    and "\<forall>v \<in> set (insert_rows pt). distinct_keys v" and "\<And>i. contains (insert_rows pt) i \<Longrightarrow> src l i"
  shows "nodes_from src m (pa_arena (apply_patch l name (index, pt) p))"
proof (cases "pt_insert pt")
  case None
  have upd: "nodes_from src m (pa_arena (set_node n (foldl (apply_field l) (ar_nodes (pa_arena p) ! n) kvs) p))"
    if "ar_index (pa_arena p) i = Some n" for i n kvs
  proof -
    have "n < length (ar_nodes (pa_arena p))" using assms(2) that by (simp add: index_ok_def)
    then have "node_from src m (ar_nodes (pa_arena p) ! n)" using assms(1) by (simp add: nodes_from_def)
    then show ?thesis
      using nodes_from_update [OF assms(1) apply_fields_from [OF _ assms(3)]] by (simp add: set_node_def)
  qed
  then show ?thesis
    using None assms(1) by (auto simp: apply_patch_def apply_override_def Let_def warn_def split: option.split)
next
  case (Some rows)
  obtain built a where b: "build_list rows l (pa_arena p) = (built, a)" by fastforce
  have a: "nodes_from src m a" "index_ok a"
    using build_from(2) [OF b] build_index_ok(2) [of "pa_arena p" rows l] b assms Some
    by (auto simp: insert_rows_def)
  have nd: "node_from src m ((ar_nodes a ! n)\<lparr>nd_config := config\<rparr>)" if "ar_index a i = Some n" for i n config
  proof -
    have "ar_nodes a ! n \<in> set (ar_nodes a)" using a(2) that by (simp add: index_ok_def)
    then have "node_from src m (ar_nodes a ! n)" using a(1) by (simp add: nodes_from_def)
    then show ?thesis by (simp add: node_from_def)
  qed
  show ?thesis
    using Some b a nd nodes_from_update [OF a(1) nd]
    by (auto simp: apply_patch_def apply_insert_def Let_def warn_def set_node_def split: option.split)
qed

lemma run_layers_from:
  assumes "\<forall>l \<in> set layers. clean_layer l"
  shows "nodes_from (writes layers) (length layers) (pa_arena (run_layers layers))"
proof -
  have patches: "nodes_from src m (pa_arena (fold (apply_patch l name) ips p)) \<and> patch_inv (fold (apply_patch l name) ips p)"
    if "nodes_from src m (pa_arena p)" "patch_inv p" "l < m"
      "\<forall>ip \<in> set ips. (\<forall>v \<in> set (insert_rows (snd ip)). distinct_keys v) \<and>
         (\<forall>i. contains (insert_rows (snd ip)) i \<longrightarrow> src l i)" for src m l name ips p
    using that
  proof (induction ips arbitrary: p)
    case (Cons ip ips)
    obtain index pt where ip: "ip = (index, pt)" by (cases ip)
    have "nodes_from src m (pa_arena (apply_patch l name ip p))"
      unfolding ip by (rule apply_patch_from) (use Cons.prems ip in \<open>auto simp: patch_inv_def\<close>)
    then show ?case using Cons.IH [of "apply_patch l name ip p"] Cons.prems apply_patch_inv by simp
  qed simp
  have layers: "nodes_from (writes layers) (length layers) (pa_arena (fold apply_layer ils p))"
    if "nodes_from (writes layers) (length layers) (pa_arena p)" "patch_inv p"
      "\<forall>(l, ly) \<in> set ils. l < length layers \<and> ly = layers ! l" for ils p
    using that
  proof (induction ils arbitrary: p)
    case (Cons il ils)
    obtain l ly where il: "il = (l, ly)" by (cases il)
    have l: "l < length layers" "ly = layers ! l" using Cons.prems(3) il by auto
    have c: "clean_layer ly" using assms l by simp
    have "\<forall>ip \<in> set (List.enumerate 0 (ly_patches ly)). snd ip \<in> set (ly_patches ly)"
      by (auto simp: in_set_enumerate_eq)
    then have "nodes_from (writes layers) (length layers) (pa_arena (apply_layer il p)) \<and> patch_inv (apply_layer il p)"
      using patches [OF Cons.prems(1,2) l(1), of "List.enumerate 0 (ly_patches ly)" "ly_name ly"] c l
      by (fastforce simp: apply_layer_def il clean_layer_def writes_def)
    then show ?case using Cons.IH [of "apply_layer il p"] Cons.prems(3) by simp
  qed simp
  have "\<forall>(l, ly) \<in> set (List.enumerate 0 layers). l < length layers \<and> ly = layers ! l"
    by (auto simp: in_set_enumerate_eq)
  moreover have "nodes_from (writes layers) (length layers) (pa_arena no_patches)" "patch_inv no_patches"
    using patched_inv [OF pd_start] by (simp_all add: nodes_from_def no_patches_def)
  ultimately show ?thesis using layers by (simp add: run_layers_def)
qed

section \<open>Rows and the layers they name\<close>

definition row_from :: "(nat \<Rightarrow> string \<Rightarrow> bool) \<Rightarrow> nat \<Rightarrow> composed_row \<Rightarrow> bool" where
  "row_from src m r \<longleftrightarrow>
     (case cr_owner r of
        OwnLayer l \<Rightarrow> l < m \<and> (\<forall>i. cr_id r = Some i \<longrightarrow> src l i)
      | OwnReplaced l \<Rightarrow> l < m) \<and>
     (\<forall>k l. cr_overridden r k = Some l \<longrightarrow> l < m)"

lemma flatten_raw_from: "l < m \<Longrightarrow> r \<in> set (flatten_raw vs parent l) \<Longrightarrow> row_from src m r"
proof (induction vs parent l rule: flatten_raw.induct)
  case (2 v vs parent l)
  show ?case
  proof (cases "r \<in> set (flatten_raw vs parent l)")
    case False
    then obtain fs where v: "v = JObject fs"
      using "2.prems"(2) by (cases v) (simp_all add: flatten_raw.simps(2))
    let ?i = "string_id (map_of fs ''id'')"
    define row where "row = \<lparr>cr_value = v, cr_id = ?i, cr_parent = parent, cr_owner = OwnReplaced l,
      cr_overridden = Map.empty\<rparr>"
    define below where "below = (if is_group fs then (case map_of fs ''config'' of
        Some (JArray items) \<Rightarrow> flatten_raw items ?i l | _ \<Rightarrow> []) else [])"
    have "flatten_raw (v # vs) parent l = (row # below) @ flatten_raw vs parent l"
      by (simp only: flatten_raw.simps(2) v row_def below_def json.case Let_def)
    then consider (row) "r = row" | (below) "r \<in> set below" using False "2.prems"(2) by auto
    then show ?thesis
    proof cases
      case below
      then have "is_group fs" by (cases "is_group fs") (simp_all add: below_def)
      moreover from this below obtain items where
        "map_of fs ''config'' = Some (JArray items)" "r \<in> set (flatten_raw items ?i l)"
        by (cases "map_of fs ''config''" rule: value_array.cases) (simp_all add: below_def)
      ultimately show ?thesis using 2(1) [OF v refl] "2.prems"(1) by blast
    qed (use "2.prems"(1) in \<open>simp add: row_def row_from_def\<close>)
  qed (use 2 in simp)
qed simp

lemma flatten_child_from:
  "flatten_child n a parent l c = Some rows \<Longrightarrow> nodes_from src m a \<Longrightarrow> l < m \<Longrightarrow>
   (\<And>x. kids a x \<subseteq> {..<length (ar_nodes a)}) \<Longrightarrow> (\<And>i. c = CNode i \<Longrightarrow> i < length (ar_nodes a)) \<Longrightarrow>
   r \<in> set rows \<Longrightarrow> row_from src m r"
proof (induction n a parent l c arbitrary: rows r rule: flatten_child.induct)
  case (1 n a parent l v)
  then show ?case using flatten_raw_from [of l m r "[v]" parent src] by auto
next
  case (3 n a parent l i)
  let ?node = "ar_nodes a ! i"
  let ?id = "string_id (map_of (nd_fields ?node) ''id'')"
  have i: "i < length (ar_nodes a)" using "3.prems"(5) by simp
  then have node: "node_from src m ?node" using "3.prems"(2) by (simp add: nodes_from_def)
  then have cl: "config_layer ?node < m" by (auto simp: node_from_def config_layer_def split: option.split)
  obtain v below where rows: "rows = \<lparr>cr_value = v, cr_id = ?id, cr_parent = parent, cr_owner = nd_owner ?node,
      cr_overridden = nd_overridden ?node\<rparr> # below"
    and v: "to_value (Suc n) a (CNode i) = Some v"
    and b: "(case nd_config ?node of
        Children cs \<Rightarrow> map_option concat (those_map (flatten_child n a ?id (config_layer ?node)) cs)
      | CValue (JArray items) \<Rightarrow>
          if is_group (nd_fields ?node) then Some (flatten_raw items ?id (config_layer ?node)) else Some []
      | _ \<Rightarrow> Some []) = Some below"
    using "3.prems"(1) by (auto simp: Let_def simp del: to_value.simps split: option.splits)
  show ?case
  proof (cases "r \<in> set below")
    case True
    show ?thesis
    proof (cases "nd_config ?node" rule: config_children.cases)
      case (1 cs)
      then obtain xss where xss: "those_map (flatten_child n a ?id (config_layer ?node)) cs = Some xss"
        "below = concat xss" using b by auto
      then obtain xs where xs: "xs \<in> set xss" "r \<in> set xs" using True by auto
      then have "Some xs \<in> set (map (flatten_child n a ?id (config_layer ?node)) cs)"
        using xss(1) by (simp add: those_map_Some)
      then obtain c where c: "c \<in> set cs" "flatten_child n a ?id (config_layer ?node) c = Some xs" by auto
      show ?thesis
      proof (rule "3.IH" [OF refl refl v 1 c(2) "3.prems"(2) cl "3.prems"(4) _ xs(2)])
        fix j assume "c = CNode j"
        then have "j \<in> kids a i" using c(1) 1 i by (auto simp: kids_def)
        then show "j < length (ar_nodes a)" using "3.prems"(4) by blast
      qed
    qed (use b True flatten_raw_from [OF cl] in \<open>auto split: if_splits\<close>)
  qed (use "3.prems"(6) rows node in \<open>auto simp: row_from_def node_from_def\<close>)
qed simp

lemma composed_from_any:
  assumes "apply_patches layers = Some c"
    and "nodes_from src (length layers) (pa_arena (run_layers layers))" and "r \<in> set (co_flat c)"
  shows "row_from src (length layers) r"
proof -
  let ?p = "run_layers layers"
  let ?a = "pa_arena ?p"
  have f: "forest ?a (pa_root ?p)" using patched_inv [OF run_layers_patched] by (simp add: patch_inv_def)
  have m: "0 < length layers"
  proof (rule ccontr)
    assume "\<not> 0 < length layers"
    then have "co_flat c = []" using assms(1)
      by (auto simp: apply_patches_def run_layers_def no_patches_def compose_def flatten_def)
    then show False using assms(3) by simp
  qed
  obtain xss where xss: "those_map (flatten_child (length (ar_nodes ?a)) ?a None 0) (pa_root ?p) = Some xss"
    "co_flat c = concat xss"
    using compose_SomeD(2) [of ?p c] assms(1) by (auto simp: apply_patches_def flatten_def)
  then obtain xs where xs: "xs \<in> set xss" "r \<in> set xs" using assms(3) by auto
  then have "Some xs \<in> set (map (flatten_child (length (ar_nodes ?a)) ?a None 0) (pa_root ?p))"
    using xss(1) by (simp add: those_map_Some)
  then obtain ch where ch: "ch \<in> set (pa_root ?p)" "flatten_child (length (ar_nodes ?a)) ?a None 0 ch = Some xs" by auto
  show ?thesis
    by (rule flatten_child_from [OF ch(2) assms(2) m _ _ xs(2)])
      (use f ch(1) in \<open>auto simp: forest_def\<close>)
qed

lemma composed_from:
  "apply_patches layers = Some c \<Longrightarrow> \<forall>l \<in> set layers. clean_layer l \<Longrightarrow> r \<in> set (co_flat c) \<Longrightarrow>
   row_from (writes layers) (length layers) r"
  by (rule composed_from_any [OF _ run_layers_from])

text \<open>
  C24. Every layer index a composed row carries names a layer: its owner, the
  layer that replaced its group's config, and the layer of each overridden
  field, so that an edit that shows a layer's name always has one.
\<close>

theorem rows_name_layers:
  assumes "apply_patches layers = Some c" and "\<forall>l \<in> set layers. clean_layer l" and "r \<in> set (co_flat c)"
  shows "(case cr_owner r of OwnLayer l \<Rightarrow> l < length layers | OwnReplaced l \<Rightarrow> l < length layers) \<and>
    (\<forall>field l. cr_overridden r field = Some l \<longrightarrow> l < length layers)"
  using composed_from [OF assms] by (auto simp: row_from_def split: owner.splits)

theorem rows_name_layers_witness:
  "\<exists>c. apply_patches [demo_layer, \<lparr>ly_name = ''user'', ly_patches = [demo_override ''c'' [(''disabled'', JBool True)]]\<rparr>] = Some c \<and>
     (\<forall>r \<in> set (co_flat c). (\<forall>l. cr_overridden r ''disabled'' = Some l \<longrightarrow> l < 2)) \<and> length (co_flat c) = 3"
proof -
  let ?layers = "[demo_layer, \<lparr>ly_name = ''user'', ly_patches = [demo_override ''c'' [(''disabled'', JBool True)]]\<rparr>]"
  have "map_option (\<lambda>c. length (co_flat c)) (apply_patches ?layers) = Some 3" by code_simp
  then obtain c where c: "apply_patches ?layers = Some c" "length (co_flat c) = 3" by auto
  have clean: "\<forall>l \<in> set ?layers. clean_layer l" by code_simp
  show ?thesis using c rows_name_layers [OF c(1) clean] by fastforce
qed

end
