(* ===== verification/Edit_Theorems.thy ===== *)
theory Edit_Theorems
  imports Edit_Sources
begin

text \<open>
  What edits do: an edit of a field is written into the insert of a row the
  layer owns, or is one more override of a row of another layer.
\<close>

section \<open>Located rows\<close>

lemma position_Some_iff:
  "position P xs = Some n \<longleftrightarrow> n < length xs \<and> P (xs ! n) \<and> (\<forall>m < n. \<not> P (xs ! m))"
proof (induction xs arbitrary: n)
  case (Cons x xs)
  then show ?case by (cases n) (auto simp: All_less_Suc2)
qed simp

lemma position_update:
  assumes "position P xs = Some n" and "P x"
  shows "position P (xs[n := x]) = Some n"
  using assms by (auto simp: position_Some_iff)

lemma position_update_None:
  assumes "position P xs = None" and "\<not> P x"
  shows "position P (xs[n := x]) = None"
  using assms by (auto simp: position_None dest: set_update_subset_insert [THEN subsetD])

lemma has_below_config: "has_below i v \<Longrightarrow> \<exists>items. item_config v = Some items \<and> contains items i"
  by (auto simp: has_below_def item_children_def split: option.splits if_splits)

lemma search_rows_iff: "search_rows vs i \<noteq> None \<longleftrightarrow> contains vs i"
proof (induction vs i rule: search_rows.induct)
  case (1 vs i)
  show ?case
  proof (cases "position (\<lambda>v. item_id v = Some i) vs")
    case (Some n)
    then show ?thesis
      by (auto simp: search_rows.simps [of vs i] contains_member dest!: position_SomeD intro!: bexI [of _ "vs ! n"])
  next
    case none: None
    show ?thesis
    proof (cases "position (has_below i) vs")
      case None
      then have "search_rows vs i = None" using none by (simp add: search_rows.simps [of vs i])
      then show ?thesis using none None by (auto simp: contains_member position_None)
    next
      case (Some n)
      then have n: "n < length vs" "has_below i (vs ! n)" by (auto dest: position_SomeD)
      obtain items where items: "item_config (vs ! n) = Some items" "contains items i"
        using has_below_config [OF n(2)] by blast
      have "search_rows items i \<noteq> None" using "1.IH" [OF none Some items(1)] items(2) by blast
      moreover have "contains vs i" using n by (auto simp: contains_member)
      ultimately show ?thesis using none Some items by (simp add: search_rows.simps [of vs i])
    qed
  qed
qed

lemma put_config_parts:
  assumes "item_config v = Some items"
  shows "item_id (put_config us v) = item_id v" "item_group (put_config us v) = item_group v"
    "item_config (put_config us v) = Some us"
  using assms
  by (cases v; simp add: item_config_def vget_def item_id_def item_group_def put_config_def value_array_Some)+

text \<open>What is found has the id, and a row put in its place under the same id is found there.\<close>

lemma search_rows_change:
  "search_rows vs i = Some path \<Longrightarrow> item_id (read_at path vs) = Some i \<and>
     (item_id v = Some i \<longrightarrow>
        search_rows (change_at (\<lambda>us n. us[n := v]) path vs) i = Some path \<and>
        read_at path (change_at (\<lambda>us n. us[n := v]) path vs) = v)"
proof (induction vs i arbitrary: path rule: search_rows.induct)
  case (1 vs i)
  let ?f = "\<lambda>us n. us[n := v]"
  show ?case
  proof (cases "position (\<lambda>v. item_id v = Some i) vs")
    case (Some n)
    then have path: "path = [n]" using "1.prems" by (simp add: search_rows.simps [of vs i])
    have n: "n < length vs" "item_id (vs ! n) = Some i" using position_SomeD [OF Some] by auto
    have "search_rows (vs[n := v]) i = Some [n]" if "item_id v = Some i"
      using position_update [OF Some, of v] that by (simp add: search_rows.simps [of "vs[n := v]" i])
    then show ?thesis using path n by simp
  next
    case none: None
    then obtain n where n: "position (has_below i) vs = Some n"
      using "1.prems" by (auto simp: search_rows.simps [of vs i] split: option.splits)
    then have nv: "n < length vs" "has_below i (vs ! n)" by (auto dest: position_SomeD)
    obtain items where items: "item_config (vs ! n) = Some items" "contains items i"
      using has_below_config [OF nv(2)] by blast
    obtain q where q: "search_rows items i = Some q" "path = n # q"
      using "1.prems" none n items by (auto simp: search_rows.simps [of vs i])
    obtain m rest where mr: "q = m # rest"
      using q(1) by (auto simp: search_rows.simps [of items i] split: option.splits)
    note IH = "1.IH" [OF none n items(1) q(1)]
    let ?us = "change_at ?f q items"
    let ?w = "put_config ?us (vs ! n)"
    have read: "read_at path vs = read_at q items" using q(2) mr items(1) by simp
    have change: "change_at ?f path vs = vs[n := ?w]" using q(2) mr items(1) by simp
    have "search_rows (vs[n := ?w]) i = Some path \<and> read_at path (vs[n := ?w]) = v" if v: "item_id v = Some i"
    proof -
      have us: "search_rows ?us i = Some q" "read_at q ?us = v" using IH v by auto
      note w = put_config_parts [OF items(1), of ?us]
      have "contains ?us i" using us(1) search_rows_iff [of ?us i] by simp
      then have "has_below i ?w"
        using w nv(2) by (auto simp: has_below_def item_children_def split: if_splits option.splits)
      then have p2: "position (has_below i) (vs[n := ?w]) = Some n" by (rule position_update [OF n])
      have "item_id (vs ! n) \<noteq> Some i" using none nv(1) by (auto simp: position_None)
      then have p1: "position (\<lambda>v. item_id v = Some i) (vs[n := ?w]) = None"
        by (intro position_update_None [OF none]) (simp add: w)
      have "search_rows (vs[n := ?w]) i = Some path"
        using p1 p2 w(3) us(1) q(2) nv(1) by (simp add: search_rows.simps [of "vs[n := ?w]" i])
      moreover have "read_at path (vs[n := ?w]) = v" using q(2) mr us(2) w(3) nv(1) by simp
      ultimately show ?thesis by blast
    qed
    then show ?thesis using IH read change by simp
  qed
qed

definition inserts :: "string \<Rightarrow> patch \<Rightarrow> bool" where
  "inserts i p \<longleftrightarrow> contains (insert_rows p) i"

lemma patch_index_of_inserts: "patch_index_of ps i = position (inserts i) ps"
proof -
  have "(\<lambda>p. case pt_insert p of Some rows \<Rightarrow> contains rows i | None \<Rightarrow> False) = inserts i"
    by (auto simp: fun_eq_iff inserts_def insert_rows_def split: option.split)
  then show ?thesis by (simp add: patch_index_of_def)
qed

lemma locate_mut_Some:
  "locate_mut ps i = Some (n, path) \<longleftrightarrow>
     position (inserts i) ps = Some n \<and> search_rows (insert_rows (ps ! n)) i = Some path"
proof -
  have "pt_insert (ps ! n) \<noteq> None" if "position (inserts i) ps = Some n" for n
    using position_SomeD [OF that] by (auto simp: inserts_def insert_rows_def split: option.splits)
  then show ?thesis
    by (auto simp: locate_mut_def patch_index_of_inserts insert_rows_def split: option.split)
qed

lemma locate_mut_iff: "locate_mut ps i \<noteq> None \<longleftrightarrow> (\<exists>p \<in> set ps. inserts i p)"
proof
  assume "locate_mut ps i \<noteq> None"
  then show "\<exists>p \<in> set ps. inserts i p"
    by (auto simp: locate_mut_Some dest!: position_SomeD intro: nth_mem)
next
  assume "\<exists>p \<in> set ps. inserts i p"
  then obtain n where n: "position (inserts i) ps = Some n"
    using position_None [of "inserts i" ps] by (cases "position (inserts i) ps") auto
  then have "search_rows (insert_rows (ps ! n)) i \<noteq> None"
    using position_SomeD [OF n] by (simp add: search_rows_iff inserts_def del: not_None_eq)
  then show "locate_mut ps i \<noteq> None" using n by (auto simp: locate_mut_Some)
qed

abbreviation put_row :: "json \<Rightarrow> nat \<times> nat list \<Rightarrow> patch list \<Rightarrow> patch list" where
  "put_row v \<equiv> change_located (\<lambda>us n. us[n := v])"

lemma locate_put:
  assumes "locate_mut ps i = Some loc" and "item_id v = Some i"
  shows "locate_mut (put_row v loc ps) i = Some loc" "located loc (put_row v loc ps) = v"
proof -
  obtain n path where loc: "loc = (n, path)" by (cases loc)
  have n: "position (inserts i) ps = Some n" and path: "search_rows (insert_rows (ps ! n)) i = Some path"
    using assms(1) loc by (auto simp: locate_mut_Some)
  note s = search_rows_change [OF path, of v]
  let ?rows = "change_at (\<lambda>us n. us[n := v]) path (insert_rows (ps ! n))"
  have "contains ?rows i" using s assms(2) search_rows_iff [of ?rows i] by simp
  then have "position (inserts i) (put_row v loc ps) = Some n"
    unfolding loc change_located_def fst_conv snd_conv
    by (intro position_update [OF n]) (simp add: inserts_def insert_rows_def)
  moreover have r: "insert_rows (put_row v loc ps ! n) = ?rows"
    using position_SomeD [OF n] by (simp add: loc change_located_def insert_rows_def)
  ultimately show "locate_mut (put_row v loc ps) i = Some loc" "located loc (put_row v loc ps) = v"
    using s assms(2) loc by (simp_all add: locate_mut_Some located_def)
qed

lemma located_id: "locate_mut ps i = Some loc \<Longrightarrow> item_id (located loc ps) = Some i"
  by (cases loc) (auto simp: locate_mut_Some located_def search_rows_change)

lemma item_id_object: "item_id v = Some i \<Longrightarrow> \<exists>fs. v = JObject fs \<and> map_of fs ''id'' = Some (JString i)"
proof -
  have "value_str x = Some i \<Longrightarrow> x = Some (JString i)" for x by (cases x rule: value_str.cases) auto
  then show "item_id v = Some i \<Longrightarrow> ?thesis"
    by (cases v) (auto simp: item_id_def vget_def)
qed

section \<open>Dependent patches stay behind\<close>

lemma pull_out_early:
  assumes "c \<le> length ps"
  shows "fold (\<lambda>n (qs, moved). (remove_nth n qs, moved @ [qs ! n])) (rev (filter (\<lambda>n. P (ps ! n)) [0..<c]))
      (take c ps @ rest, moved) =
    (filter (\<lambda>p. \<not> P p) (take c ps) @ rest, moved @ rev (filter P (take c ps)))"
  using assms
proof (induction c arbitrary: rest moved)
  case (Suc c)
  then have c: "take (Suc c) ps = take c ps @ [ps ! c]" "length (take c ps) = c"
    by (simp_all add: take_Suc_conv_app_nth)
  have upt: "[0..<Suc c] = [0..<c] @ [c]" by simp
  show ?case
  proof (cases "P (ps ! c)")
    case True
    then show ?thesis
      using Suc.IH [of rest "moved @ [ps ! c]"] Suc.prems c
      by (simp add: upt remove_nth_def nth_append del: upt_Suc)
  next
    case False
    then show ?thesis
      using Suc.IH [of "ps ! c # rest" moved] Suc.prems c by (simp add: upt del: upt_Suc)
  qed
qed simp

lemma push_in_at:
  "length xs = at \<Longrightarrow> fold (\<lambda>(offset, p). insert_nth (at + offset) p) (List.enumerate k moved) (xs @ ys @ zs) =
     xs @ ys @ moved @ zs" if "length ys = k"
  using that
proof (induction moved arbitrary: ys k)
  case (Cons p moved)
  have "insert_nth (at + k) p (xs @ ys @ zs) = xs @ (ys @ [p]) @ zs"
    using Cons.prems by (simp add: insert_nth_def)
  then show ?case using Cons.IH [of "ys @ [p]" "Suc k"] Cons.prems by simp
qed simp

text \<open>
  C21. Moving a row keeps the patches that address its subtree behind it:
  those before the patch that carries the row now follow it directly, in
  their order, and every other patch keeps its place.
\<close>

theorem dependents_stay_behind:
  assumes "patch_index_of ps i = Some c"
  shows "keep_dependents_after ps i subtree =
    filter (\<lambda>p. \<not> addresses subtree p) (take c ps) @ ps ! c # filter (addresses subtree) (take c ps) @ drop (Suc c) ps"
proof -
  have c: "c < length ps" using assms by (auto simp: patch_index_of_def dest: position_SomeD)
  let ?P = "addresses subtree"
  let ?early = "filter (\<lambda>n. ?P (ps ! n)) [0..<c]"
  have len: "length ?early = length (filter ?P (take c ps))"
  proof -
    have "map ((!) ps) [0..<c] = take c ps" using c by (simp add: map_nth take_map [symmetric] nth_image list_eq_iff_nth_eq)
    then have "filter ?P (take c ps) = map ((!) ps) ?early" 
      using filter_map [of ?P "(!) ps" "[0..<c]"] by (simp add: comp_def)
    then show ?thesis by simp
  qed
  show ?thesis
  proof (cases "?early = []")
    case True
    then have f: "filter ?P (take c ps) = []" using len by simp
    then have "filter (\<lambda>p. \<not> ?P p) (take c ps) = take c ps" by (simp add: filter_empty_conv)
    then show ?thesis
      using assms f True id_take_nth_drop [OF c] by (simp add: keep_dependents_after_def)
  next
    case False
    let ?others = "filter (\<lambda>p. \<not> ?P p) (take c ps)"
    have pull: "pull_out ?early ps = (?others @ drop c ps, filter ?P (take c ps))"
      using pull_out_early [of c ps ?P "drop c ps" "[]"] c by (simp add: pull_out_def)
    have at: "c - length ?early + 1 = length (?others @ [ps ! c])"
      using sum_length_filter_compl [of ?P "take c ps"] c len by simp
    have "drop c ps = ps ! c # drop (Suc c) ps" using c by (rule Cons_nth_drop_Suc [symmetric])
    then have "push_in (c - length ?early + 1) (filter ?P (take c ps)) (?others @ drop c ps) =
        (?others @ [ps ! c]) @ filter ?P (take c ps) @ drop (Suc c) ps"
      using push_in_at [of "[]" 0 "?others @ [ps ! c]" "c - length ?early + 1" "filter ?P (take c ps)" "drop (Suc c) ps"] at
      by (simp add: push_in_def)
    then show ?thesis using assms False pull by (simp add: keep_dependents_after_def)
  qed
qed

section \<open>Edits of a field\<close>

definition field_edit :: "edit \<Rightarrow> (string \<times> string \<times> json) option" where
  "field_edit e = (case e of
     Update i config \<Rightarrow> Some (i, ''config'', config)
   | SetDisabled i d \<Rightarrow> Some (i, ''disabled'', JBool d)
   | SetInject i names \<Rightarrow> Some (i, ''inject'', (case names of None \<Rightarrow> JNull | Some ns \<Rightarrow> JArray (map JString ns)))
   | SetIsolate i labels \<Rightarrow> Some (i, ''isolate'', (case labels of None \<Rightarrow> JNull | Some fs \<Rightarrow> JObject fs))
   | _ \<Rightarrow> None)"

lemma apply_field_edit:
  assumes "field_edit e = Some (i, field, v)" and "apply_patches layers = Some composed"
    and "find_row (co_flat composed) i = Some r" and "field = ''config'' \<Longrightarrow> \<not> item_group (cr_value r)"
  shows "apply_edit layers n e = Some (set_field \<lparr>ex_layers = layers, ex_editable = n, ex_rows = co_flat composed\<rparr>
    (ly_patches (layers ! n)) r field v)" "field \<noteq> ''id''"
  using assms by (auto simp: field_edit_def apply_edit_def Let_def require_row_def ok_or_def split: edit.splits)

lemma find_row_id: "find_row rows i = Some r \<Longrightarrow> cr_id r = Some i \<and> r \<in> set rows"
  by (auto simp: find_row_Some)

text \<open>What the layer's own overrides of a row add up to.\<close>

definition own_fields :: "patch list \<Rightarrow> string \<Rightarrow> string option \<Rightarrow> object" where
  "own_fields ps i name =
     filter (\<lambda>(k, _). k \<noteq> ''id'') (fold (\<lambda>p. put_fields (pt_overrides p)) (filter (overrides_row i name) ps) [])"

lemma put_fields_distinct: "distinct (map fst fs) \<Longrightarrow> distinct (map fst (put_fields kvs fs))"
  by (induction kvs arbitrary: fs) (auto simp: put_fields_def)

lemma map_of_put_fields: "distinct (map fst kvs) \<Longrightarrow> map_of (put_fields kvs fs) = map_of fs ++ map_of kvs"
proof (induction kvs arbitrary: fs)
  case (Cons kv kvs)
  obtain k v where kv: "kv = (k, v)" by (cases kv)
  have "map_of kvs k = None" using Cons.prems kv by (simp add: map_of_eq_None_iff)
  then show ?case
    using Cons.IH [of "al_insert k v fs"] Cons.prems kv
    by (auto simp: put_fields_def map_add_def fun_eq_iff split: option.split)
qed (simp add: put_fields_def)

lemma own_fields_distinct: "distinct (map fst (own_fields ps i name))"
proof -
  have d: "distinct (map fst (fold (\<lambda>p. put_fields (pt_overrides p)) qs fs))" if "distinct (map fst fs)" for qs fs
    using that by (induction qs arbitrary: fs) (auto intro: put_fields_distinct)
  show ?thesis unfolding own_fields_def by (intro distinct_map_filter d) simp
qed

lemma search_distinct_keys:
  "search_rows vs i = Some path \<Longrightarrow> \<forall>v \<in> set vs. distinct_keys v \<Longrightarrow> distinct_keys (read_at path vs)"
proof (induction vs i arbitrary: path rule: search_rows.induct)
  case (1 vs i)
  show ?case
  proof (cases "position (\<lambda>v. item_id v = Some i) vs")
    case (Some n)
    then show ?thesis using "1.prems" by (auto simp: search_rows.simps [of vs i] dest: position_SomeD)
  next
    case none: None
    then obtain n items q where n: "position (has_below i) vs = Some n" "item_config (vs ! n) = Some items"
      "search_rows items i = Some q" "path = n # q"
      using "1.prems"(1) by (auto simp: search_rows.simps [of vs i] split: option.splits)
    then have "distinct_keys (vs ! n)" using "1.prems"(2) by (auto dest: position_SomeD)
    then have "\<forall>u \<in> set items. distinct_keys u" using distinct_keys_children n(2) by blast
    then have "distinct_keys (read_at q items)" using "1.IH" [OF none n(1,2,3)] by blast
    moreover obtain m rest where "q = m # rest"
      using n(3) by (auto simp: search_rows.simps [of items i] split: option.splits)
    ultimately show ?thesis using n by simp
  qed
qed

lemma position_filter:
  "(\<And>x. P x \<Longrightarrow> Q x) \<Longrightarrow> position P xs = Some n \<Longrightarrow>
   \<exists>m. position P (filter Q xs) = Some m \<and> filter Q xs ! m = xs ! n"
proof (induction xs arbitrary: n)
  case (Cons x xs)
  show ?case
  proof (cases "P x")
    case False
    then obtain k where "position P xs = Some k" "n = Suc k" using Cons.prems(2) by auto
    then show ?thesis using Cons.IH [OF Cons.prems(1)] False by fastforce
  qed (use Cons.prems in auto)
qed simp

lemma inserts_not_override: "inserts i p \<Longrightarrow> \<not> overrides_row j name p"
  by (auto simp: inserts_def overrides_row_def insert_rows_def)

lemma put_row_keeps_overrides:
  "(\<forall>p \<in> set ps. \<not> overrides_row i name p) \<Longrightarrow> \<forall>p \<in> set (put_row v loc ps). \<not> overrides_row i name p"
  by (auto simp: change_located_def overrides_row_def dest!: set_update_subset_insert [THEN subsetD])

lemma fold_overrides_row:
  assumes "locate_mut ps i = Some loc" and "located loc ps = JObject fs" and "distinct (map fst fs)"
  shows "\<exists>loc' fs'. locate_mut (fold_overrides ps i name) i = Some loc' \<and>
    located loc' (fold_overrides ps i name) = JObject fs' \<and> distinct (map fst fs') \<and>
    map_of fs' = map_of fs ++ map_of (own_fields ps i name) \<and>
    (\<forall>p \<in> set (fold_overrides ps i name). \<not> overrides_row i name p)"
proof -
  let ?kept = "filter (\<lambda>p. \<not> overrides_row i name p) ps"
  let ?own = "own_fields ps i name"
  let ?fields = "fold (\<lambda>p. put_fields (pt_overrides p)) (filter (overrides_row i name) ps) []"
  obtain n path where loc: "loc = (n, path)" by (cases loc)
  have n: "position (inserts i) ps = Some n" "search_rows (insert_rows (ps ! n)) i = Some path"
    using assms(1) loc by (auto simp: locate_mut_Some)
  then obtain m where m: "position (inserts i) ?kept = Some m" "?kept ! m = ps ! n"
    using position_filter [of "inserts i" "\<lambda>p. \<not> overrides_row i name p"] inserts_not_override by blast
  then have lk: "locate_mut ?kept i = Some (m, path)" "located (m, path) ?kept = JObject fs"
    using n assms(2) loc by (simp_all add: locate_mut_Some located_def)
  have id: "item_id (JObject fs) = Some i" using located_id [OF assms(1)] assms(2) by simp
  let ?new = "put_fields ?own fs"
  have new: "map_of ?new = map_of fs ++ map_of ?own" "distinct (map fst ?new)"
    using map_of_put_fields own_fields_distinct put_fields_distinct [OF assms(3)] by blast+
  have "map_of ?own ''id'' = None" by (auto simp: own_fields_def map_of_eq_None_iff)
  then have "item_id (JObject ?new) = Some i"
    using id by (simp add: item_id_def vget_def new(1) map_add_def)
  note put = locate_put [OF lk(1) this]
  show ?thesis
  proof (cases "?fields = []")
    case True
    then have "fold_overrides ps i name = ?kept" "?own = []" by (simp_all add: fold_overrides_def own_fields_def)
    then show ?thesis using lk assms(3) by (intro exI [of _ "(m, path)"] exI [of _ fs]) simp
  next
    case False
    then have eq: "fold_overrides ps i name = put_row (JObject ?new) (m, path) ?kept"
      using lk by (simp add: fold_overrides_def own_fields_def)
    have no:  "\<forall>p \<in> set (put_row (JObject ?new) (m, path) ?kept). \<not> overrides_row i name p"
      by (rule put_row_keeps_overrides) simp
    show ?thesis
      unfolding eq by (intro exI conjI, rule put(1), rule put(2), rule new(2), rule new(1), rule no)
  qed
qed

lemma own_row_located:
  assumes "apply_patches layers = Some composed" and "\<forall>l \<in> set layers. clean_layer l"
    and "find_row (co_flat composed) i = Some r" and "cr_owner r = OwnLayer n"
  shows "\<exists>loc fs. locate_mut (ly_patches (layers ! n)) i = Some loc \<and>
    located loc (ly_patches (layers ! n)) = JObject fs \<and> distinct (map fst fs)"
proof -
  have r: "cr_id r = Some i" "r \<in> set (co_flat composed)" using find_row_id [OF assms(3)] by auto
  have src: "n < length layers" "writes layers n i"
    using composed_from [OF assms(1,2) r(2)] r(1) assms(4) by (auto simp: row_from_def)
  then obtain loc where loc: "locate_mut (ly_patches (layers ! n)) i = Some loc"
    using src(2) locate_mut_iff [of "ly_patches (layers ! n)" i] by (auto simp: writes_def inserts_def)
  obtain k path where k: "loc = (k, path)" by (cases loc)
  have "position (inserts i) (ly_patches (layers ! n)) = Some k"
    and path: "search_rows (insert_rows (ly_patches (layers ! n) ! k)) i = Some path"
    using loc k by (auto simp: locate_mut_Some)
  then have "ly_patches (layers ! n) ! k \<in> set (ly_patches (layers ! n))" by (auto dest: position_SomeD)
  moreover have "clean_layer (layers ! n)" using assms(2) src(1) by simp
  ultimately have "distinct_keys (located loc (ly_patches (layers ! n)))"
    using search_distinct_keys [OF path] k by (auto simp: located_def clean_layer_def)
  then show ?thesis using loc item_id_object [OF located_id [OF loc]] by auto
qed

lemma own_row_edit:
  assumes "apply_patches layers = Some composed" and "\<forall>l \<in> set layers. clean_layer l"
    and "find_row (co_flat composed) i = Some r" and "cr_owner r = OwnLayer n"
    and "field_edit e = Some (i, field, v)" and "field = ''config'' \<Longrightarrow> \<not> item_group (cr_value r)"
    and "\<And>l. cr_overridden r field = Some l \<Longrightarrow> l \<le> n"
  shows "\<exists>ps' loc fs loc0 fs0. apply_edit layers n e = Some (Inr ps') \<and>
    locate_mut ps' i = Some loc \<and> located loc ps' = JObject fs \<and>
    locate_mut (ly_patches (layers ! n)) i = Some loc0 \<and> located loc0 (ly_patches (layers ! n)) = JObject fs0 \<and>
    map_of fs = (map_of fs0 ++ map_of (own_fields (ly_patches (layers ! n)) i (row_name r)))
      (field := if v = JNull then None else Some v) \<and>
    (\<forall>p \<in> set ps'. \<not> overrides_row i (row_name r) p)"
proof -
  let ?ps = "ly_patches (layers ! n)"
  let ?c = "\<lparr>ex_layers = layers, ex_editable = n, ex_rows = co_flat composed\<rparr>"
  let ?name = "row_name r"
  have rid: "row_id r = i" using find_row_id [OF assms(3)] by (simp add: row_id_def)
  obtain loc0 fs0 where o: "locate_mut ?ps i = Some loc0" "located loc0 ?ps = JObject fs0" "distinct (map fst fs0)"
    using own_row_located [OF assms(1-4)] by blast
  obtain loc fs where f: "locate_mut (fold_overrides ?ps i ?name) i = Some loc"
    "located loc (fold_overrides ?ps i ?name) = JObject fs" "distinct (map fst fs)"
    "map_of fs = map_of fs0 ++ map_of (own_fields ?ps i ?name)"
    "\<forall>p \<in> set (fold_overrides ?ps i ?name). \<not> overrides_row i ?name p"
    using fold_overrides_row [OF o] by blast
  let ?fs = "(if v = JNull then al_swap_remove field else al_insert field v) fs"
  have e: "apply_edit layers n e = Some (set_field ?c ?ps r field v)" "field \<noteq> ''id''"
    using apply_field_edit [OF assms(5,1,3,6)] by auto
  have m: "map_of ?fs = (map_of fs)(field := if v = JNull then None else Some v)"
    using f(3) by (simp add: map_of_al_swap_remove)
  have "item_id (JObject fs) = Some i" using located_id [OF f(1)] f(2) by simp
  then have "item_id (JObject ?fs) = Some i" using e(2) m by (simp add: item_id_def vget_def del: map_of_al_insert)
  note put = locate_put [OF f(1) this]
  have "check_above ?c r field = Inr ()"
    using assms(7) by (auto simp: check_above_def split: option.split)
  then have "set_field ?c ?ps r field v = Inr (put_row (JObject ?fs) loc (fold_overrides ?ps i ?name))"
    using assms(4) f(1,2) by (simp add: set_field_def addressable_def with_owned_object_def rid)
  then have "apply_edit layers n e = Some (Inr (put_row (JObject ?fs) loc (fold_overrides ?ps i ?name)))"
    using e(1) by simp
  moreover have "map_of ?fs = (map_of fs0 ++ map_of (own_fields ?ps i ?name))
      (field := if v = JNull then None else Some v)" by (simp only: m f(4))
  ultimately show ?thesis
    using put o(1,2) put_row_keeps_overrides [OF f(5)] by blast
qed


section \<open>Rows of other layers\<close>









lemma run_layers_snoc:
  assumes "Suc n = length layers" and "ly_patches (layers ! n) = ps"
  shows "run_layers (replace_layer layers n (ps @ [pt])) =
    apply_patch n (ly_name (layers ! n)) (length ps, pt) (run_layers layers)"
proof -
  obtain ls l where l: "layers = ls @ [l]" using assms(1) by (metis length_Suc_conv_rev)
  then have n: "n = length ls" using assms(1) by simp
  have en: "List.enumerate 0 (xs @ [x]) = List.enumerate 0 xs @ [(length xs, x)]" for xs :: "'b list" and x
    by (simp add: enumerate_append_eq)
  show ?thesis
    using assms(2)
    by (simp add: l n replace_layer_def run_layers_def en apply_layer_def del: enumerate_simps)
qed


section \<open>Created rows\<close>

definition plain_row :: "string \<Rightarrow> object \<Rightarrow> bool" where
  "plain_row i fs \<longleftrightarrow> distinct (map fst fs) \<and> \<not> is_group fs \<and> map_of fs ''id'' = Some (JString i) \<and> i \<noteq> []"

definition root_insert :: "json \<Rightarrow> patch" where
  "root_insert v = \<lparr>pt_id = None, pt_insert = Some [v], pt_name = None, pt_overrides = []\<rparr>"

lemma plain_row_build:
  assumes "plain_row i fs"
  shows "build (JObject fs) l a = push_node (al_swap_remove ''config'' fs)
      (case map_of fs ''config'' of None \<Rightarrow> Absent | Some c \<Rightarrow> CValue c) l a"
    "is_group (al_swap_remove ''config'' fs) = False"
    "map_of (al_swap_remove ''config'' fs) ''id'' = Some (JString i)"
proof -
  show g: "is_group (al_swap_remove ''config'' fs) = False" "map_of (al_swap_remove ''config'' fs) ''id'' = Some (JString i)"
    using assms by (simp_all add: plain_row_def is_group_def map_of_al_swap_remove)
  then have "group_items fs = None" by (simp add: group_items_def split: option.split json.split)
  then show "build (JObject fs) l a = push_node (al_swap_remove ''config'' fs)
      (case map_of fs ''config'' of None \<Rightarrow> Absent | Some c \<Rightarrow> CValue c) l a"
    by (simp add: build.simps [of "JObject fs"])
qed

text \<open>A row inserted at the root comes last, as it was written, and the others stay.\<close>

lemma root_insert_composes:
  assumes "patched p" and "plain_row i fs" and "compose p = Some c"
    and "q = apply_patch l name (index, root_insert (JObject fs)) p"
  shows "\<exists>c' r. compose q = Some c' \<and> co_flat c' = co_flat c @ [r] \<and> co_rows c' = co_rows c @ [cr_value r] \<and>
    co_warnings c' = co_warnings c \<and> cr_id r = Some i \<and> cr_parent r = None \<and> cr_owner r = OwnLayer l \<and>
    cr_overridden r = Map.empty \<and> cr_value r = canon (JObject fs)"
proof -
  let ?a = "pa_arena p"
  let ?fs = "al_swap_remove ''config'' fs"
  let ?config = "case map_of fs ''config'' of None \<Rightarrow> Absent | Some c \<Rightarrow> CValue c"
  let ?m = "length (ar_nodes ?a)"
  define a where "a = snd (push_node ?fs ?config l ?a)"
  note plain = plain_row_build [OF assms(2)]
  have push: "push_node ?fs ?config l ?a = (CNode ?m, a)" by (simp add: a_def push_node_def Let_def)
  have q: "q = p\<lparr>pa_arena := a, pa_root := pa_root p @ [CNode ?m]\<rparr>"
    using assms(4) plain(1) push by (simp add: apply_patch_def apply_insert_def root_insert_def nonempty_def)
  define nd where "nd = \<lparr>nd_fields = ?fs, nd_config = ?config, nd_owner = OwnLayer l, nd_overridden = Map.empty\<rparr>"
  have nodes: "ar_nodes a = ar_nodes ?a @ [nd]" by (simp add: a_def push_node_def Let_def nd_def)
  have f: "forest ?a (pa_root p)" using patched_inv [OF assms(1)] by (simp add: patch_inv_def)
  have kids: "kids ?a x \<subseteq> {..<?m}" for x using f by (simp add: forest_def)
  have root: "j < ?m" if "CNode j \<in> set (pa_root p)" for j using f that by (simp add: forest_def)
  have old: "to_value (Suc ?m) a x = Some y" if "x \<in> set (pa_root p)" "to_value ?m ?a x = Some y" for x y
    by (subst grown_agrees(1) [OF nodes kids]) (use root that to_value_more [OF that(2)] in auto)
  have oldf: "flatten_child (Suc ?m) a None 0 x = Some y"
    if "x \<in> set (pa_root p)" "flatten_child ?m ?a None 0 x = Some y" for x y
    by (subst grown_agrees(2) [OF nodes kids]) (use root that flatten_more [OF that(2)] in auto)
  have nd: "ar_nodes a ! ?m = nd" by (simp add: nodes)
  obtain v where v: "to_value (Suc ?m) a (CNode ?m) = Some v" "v = canon (JObject fs)"
  proof -
    obtain k where "to_value k a (CNode ?m) = Some (canon (JObject fs))"
      using build_value(1) [of "JObject fs" l ?a "CNode ?m" a a "[]"] plain(1) push by auto
    moreover have "to_value (Suc ?m) a (CNode ?m) \<noteq> None"
      by (simp add: nd nd_def Let_def split: option.split)
    ultimately have "to_value (Suc ?m) a (CNode ?m) = Some (canon (JObject fs))"
      using to_value_more [of k a "CNode ?m" _ "max k (Suc ?m)"] to_value_more [of "Suc ?m" a "CNode ?m" _ "max k (Suc ?m)"]
      by fastforce
    then show ?thesis using that by blast
  qed
  define r where "r = \<lparr>cr_value = v, cr_id = Some i, cr_parent = None, cr_owner = OwnLayer l, cr_overridden = Map.empty\<rparr>"
  have "i \<noteq> []" using assms(2) by (simp add: plain_row_def)
  then have fl: "flatten_child (Suc ?m) a None 0 (CNode ?m) = Some [r]"
    using v(1) plain(2,3)
    by (simp add: nd nd_def Let_def r_def del: to_value.simps split: option.split json.split)
  have "those_map (to_value (Suc ?m) a) (pa_root p @ [CNode ?m]) = Some (co_rows c @ [v])"
    by (rule those_map_append, rule those_map_more [OF compose_SomeD(1) [OF assms(3)] old])
      (simp_all add: v(1) del: to_value.simps)
  moreover obtain xs where xs: "those_map (flatten_child ?m ?a None 0) (pa_root p) = Some xs" "co_flat c = concat xs"
    using compose_SomeD(2) [OF assms(3)] by (auto simp: flatten_def)
  have "those_map (flatten_child (Suc ?m) a None 0) (pa_root p @ [CNode ?m]) = Some (xs @ [[r]])"
    by (rule those_map_append, rule those_map_more [OF xs(1) oldf]) (simp_all add: fl del: flatten_child.simps)
  ultimately have "compose q = Some \<lparr>co_rows = co_rows c @ [v], co_flat = co_flat c @ [r], co_warnings = co_warnings c\<rparr>"
    using compose_SomeD(3) [OF assms(3)] xs(2)
    by (simp add: compose_def q nodes flatten_def Let_def del: to_value.simps flatten_child.simps)
  then show ?thesis
    by (intro exI [of _ "\<lparr>co_rows = co_rows c @ [v], co_flat = co_flat c @ [r], co_warnings = co_warnings c\<rparr>"]
        exI [of _ r]) (simp add: r_def v(2))
qed

lemma plain_row_id: "plain_row i fs \<Longrightarrow> item_id (JObject fs) = Some i"
  by (simp add: plain_row_def item_id_def vget_def)

lemma created_row:
  assumes "Suc n = length layers" and "plain_row i fs" and "apply_patches layers = Some c"
    and "find_row (co_flat c) i = None"
  shows "apply_edit layers n (Create (JObject fs) None None) =
      Some (Inr (ly_patches (layers ! n) @ [root_insert (JObject fs)]))"
    "\<exists>c' r. apply_patches (replace_layer layers n (ly_patches (layers ! n) @ [root_insert (JObject fs)])) = Some c' \<and>
       co_flat c' = co_flat c @ [r] \<and> co_rows c' = co_rows c @ [cr_value r] \<and>
       co_warnings c' = co_warnings c \<and> cr_id r = Some i \<and> cr_parent r = None \<and> cr_owner r = OwnLayer n \<and>
       cr_overridden r = Map.empty \<and> cr_value r = canon (JObject fs)"
proof -
  show "apply_edit layers n (Create (JObject fs) None None) =
      Some (Inr (ly_patches (layers ! n) @ [root_insert (JObject fs)]))"
    using assms(2-4)
    by (simp add: apply_edit_def create_row_def place_def plain_row_def vget_def nonempty_def Let_def
        root_insert_def empty_patch_def)
  show "\<exists>c' r. apply_patches (replace_layer layers n (ly_patches (layers ! n) @ [root_insert (JObject fs)])) = Some c' \<and>
       co_flat c' = co_flat c @ [r] \<and> co_rows c' = co_rows c @ [cr_value r] \<and>
       co_warnings c' = co_warnings c \<and> cr_id r = Some i \<and> cr_parent r = None \<and> cr_owner r = OwnLayer n \<and>
       cr_overridden r = Map.empty \<and> cr_value r = canon (JObject fs)"
    using root_insert_composes [OF run_layers_patched assms(2) _ run_layers_snoc [OF assms(1) refl]] assms(3)
    by (simp add: apply_patches_def)
qed



lemma created_located:
  assumes "plain_row i fs" and "\<forall>p \<in> set ps. \<not> inserts i p"
  shows "locate_mut (ps @ [root_insert (JObject fs)]) i = Some (length ps, [0])"
    "located (length ps, [0]) (ps @ [root_insert (JObject fs)]) = JObject fs"
proof -
  note id = plain_row_id [OF assms(1)]
  have "position P ps = None \<Longrightarrow> P x \<Longrightarrow> position P (ps @ [x]) = Some (length ps)" for P :: "patch \<Rightarrow> bool" and x
    by (induction ps) (auto split: if_splits)
  then have "position (inserts i) (ps @ [root_insert (JObject fs)]) = Some (length ps)"
    using assms(2) id by (simp add: position_None inserts_def root_insert_def insert_rows_def)
  then show "locate_mut (ps @ [root_insert (JObject fs)]) i = Some (length ps, [0])"
    using id by (simp add: locate_mut_Some root_insert_def insert_rows_def search_rows.simps [of "[JObject fs]"])
  show "located (length ps, [0]) (ps @ [root_insert (JObject fs)]) = JObject fs"
    by (simp add: located_def root_insert_def insert_rows_def)
qed



lemma plain_row_canon:
  assumes "plain_row i fs"
  shows "vget ''name'' (canon (JObject fs)) = map_of fs ''name''" "\<not> item_group (canon (JObject fs))"
proof -
  obtain fs' where "canon (JObject fs) = JObject fs'" "\<forall>k. k \<noteq> ''config'' \<longrightarrow> map_of fs' k = map_of fs k"
    using canon_same [of fs] assms by (auto simp: plain_row_def)
  then show "vget ''name'' (canon (JObject fs)) = map_of fs ''name''" "\<not> item_group (canon (JObject fs))"
    using assms by (simp_all add: vget_def item_group_def plain_row_def is_group_def)
qed

text \<open>
  An override that the editable layer still has for an id, from a row
  that is gone, does nothing to a row created later under this id (it comes
  before the insert), until the first edit of any field of the new row: this
  edit folds the old override into the row, with all its fields.
\<close>

theorem stale_override_comes_back:
  assumes "Suc n = length layers" and "\<forall>l \<in> set layers. clean_layer l" and "plain_row i fs"
    and "distinct_keys (JObject fs)" and "apply_patches layers = Some c" and "find_row (co_flat c) i = None"
    and "ps = ly_patches (layers ! n)" and "\<forall>p \<in> set ps. \<not> inserts i p" and "field_edit e = Some (i, field, v)"
  shows "\<exists>ps' c' r ps'' loc fs''. apply_edit layers n (Create (JObject fs) None None) = Some (Inr ps') \<and>
    apply_patches (replace_layer layers n ps') = Some c' \<and>
    find_row (co_flat c') i = Some r \<and> cr_value r = canon (JObject fs) \<and>
    apply_edit (replace_layer layers n ps') n e = Some (Inr ps'') \<and>
    locate_mut ps'' i = Some loc \<and> located loc ps'' = JObject fs'' \<and>
    map_of fs'' = (map_of fs ++ map_of (own_fields ps i (value_str (map_of fs ''name''))))
      (field := if v = JNull then None else Some v)"
proof -
  let ?ps' = "ps @ [root_insert (JObject fs)]"
  let ?layers = "replace_layer layers n ?ps'"
  have n: "n < length layers" using assms(1) by simp
  have own: "ly_patches (?layers ! n) = ?ps'" using n by (simp add: replace_layer_def)
  have c: "apply_edit layers n (Create (JObject fs) None None) = Some (Inr ?ps')"
    using created_row(1) [OF assms(1,3,5,6)] assms(7) by simp
  obtain c' r where c': "apply_patches ?layers = Some c'" "co_flat c' = co_flat c @ [r]"
    and r: "cr_id r = Some i" "cr_owner r = OwnLayer n" "cr_overridden r = Map.empty" "cr_value r = canon (JObject fs)"
    using created_row(2) [OF assms(1,3,5,6)] assms(7) by blast
  have find: "find_row (co_flat c') i = Some r"
    using assms(6) r(1) unfolding c'(2)
    by (auto simp: find_row_def find_None_iff find_Some_iff nth_append intro!: exI [of _ "length (co_flat c)"])
  have clean: "\<forall>l \<in> set ?layers. clean_layer l"
  proof
    fix l assume "l \<in> set ?layers"
    then consider "l = (layers ! n)\<lparr>ly_patches := ?ps'\<rparr>" | "l \<in> set layers"
      unfolding replace_layer_def by (auto dest: set_update_subset_insert [THEN subsetD])
    then show "clean_layer l"
    proof cases
      case 1
      have "clean_layer (layers ! n)" using assms(2) n by simp
      then show ?thesis using 1 assms(4,7) by (auto simp: clean_layer_def insert_rows_def root_insert_def)
    qed (use assms(2) in blast)
  qed
  note canon = plain_row_canon [OF assms(3)]
  have "\<exists>ps'' loc fs'' loc0 fs0. apply_edit ?layers n e = Some (Inr ps'') \<and>
    locate_mut ps'' i = Some loc \<and> located loc ps'' = JObject fs'' \<and>
    locate_mut (ly_patches (?layers ! n)) i = Some loc0 \<and> located loc0 (ly_patches (?layers ! n)) = JObject fs0 \<and>
    map_of fs'' = (map_of fs0 ++ map_of (own_fields (ly_patches (?layers ! n)) i (row_name r)))
      (field := if v = JNull then None else Some v) \<and>
    (\<forall>p \<in> set ps''. \<not> overrides_row i (row_name r) p)"
    by (rule own_row_edit [OF c'(1) clean find r(2) assms(9)]) (use r(3,4) canon(2) in simp_all)
  then obtain ps'' loc fs'' loc0 fs0 where e: "apply_edit ?layers n e = Some (Inr ps'')"
    "locate_mut ps'' i = Some loc" "located loc ps'' = JObject fs''"
    "locate_mut ?ps' i = Some loc0" "located loc0 ?ps' = JObject fs0"
    "map_of fs'' = (map_of fs0 ++ map_of (own_fields ?ps' i (row_name r))) (field := if v = JNull then None else Some v)"
    unfolding own by blast
  have "fs0 = fs" using created_located [OF assms(3,8)] e(4,5) by simp
  moreover have "own_fields ?ps' i (row_name r) = own_fields ps i (value_str (map_of fs ''name''))"
    using r(4) canon(1) by (simp add: own_fields_def row_name_def overrides_row_def root_insert_def)
  ultimately have m: "map_of fs'' = (map_of fs ++ map_of (own_fields ps i (value_str (map_of fs ''name''))))
      (field := if v = JNull then None else Some v)" using e(6) by (simp only:)
  show ?thesis
    by (intro exI conjI, rule c, rule c'(1), rule find, rule r(4), rule e(1), rule e(2), rule e(3), rule m)
qed

section \<open>Witnesses\<close>

definition user_layer :: "patch list \<Rightarrow> layer" where
  "user_layer ps = \<lparr>ly_name = ''user'', ly_patches = ps\<rparr>"

definition demo_config :: json where
  "demo_config = JObject [(''port'', JNumber (PosInt 80))]"

theorem dependents_stay_behind_witness:
  "keep_dependents_after [demo_override ''c'' [], demo_override ''x'' [], demo_insert None [demo_group]] ''g'' [''g'', ''c''] =
     [demo_override ''x'' [], demo_insert None [demo_group], demo_override ''c'' []]"
proof -
  have "patch_index_of [demo_override ''c'' [], demo_override ''x'' [], demo_insert None [demo_group]] ''g'' = Some 2"
    by code_simp
  from dependents_stay_behind [OF this, of "[''g'', ''c'']"] show ?thesis
    by (simp add: addresses_def demo_override_def demo_insert_def)
qed

lemma demo_clean:
  "clean_layer demo_layer" "clean_layer (user_layer [demo_override ''a'' kvs])" "clean_layer (user_layer [])"
  "clean_layer (user_layer [demo_insert None [row ''a'' []], demo_override ''a'' [(''config'', demo_config)]])"
  by (simp_all add: clean_layer_def demo_layer_def user_layer_def demo_override_def demo_insert_def insert_rows_def
      row_def demo_group_def)




text \<open>The row is created enabled, and disabled by an update of its config.\<close>

theorem stale_override_comes_back_witness:
  "\<exists>ps' c' r ps'' loc fs''. apply_edit [demo_layer, user_layer [demo_override ''n'' [(''disabled'', JBool True)]]] 1
       (Create (row ''n'' []) None None) = Some (Inr ps') \<and>
     apply_patches (replace_layer [demo_layer, user_layer [demo_override ''n'' [(''disabled'', JBool True)]]] 1 ps') = Some c' \<and>
     find_row (co_flat c') ''n'' = Some r \<and> cr_value r = row ''n'' [] \<and>
     apply_edit (replace_layer [demo_layer, user_layer [demo_override ''n'' [(''disabled'', JBool True)]]] 1 ps') 1
       (Update ''n'' demo_config) = Some (Inr ps'') \<and>
     locate_mut ps'' ''n'' = Some loc \<and> located loc ps'' = JObject fs'' \<and> map_of fs'' ''disabled'' = Some (JBool True)"
proof -
  let ?ps = "[demo_override ''n'' [(''disabled'', JBool True)]]"
  let ?layers = "[demo_layer, user_layer ?ps]"
  let ?fs = "[(''id'', JString ''n'')]"
  have "map_option (\<lambda>c. find_row (co_flat c) ''n'' = None) (apply_patches ?layers) = Some True" by code_simp
  then obtain c where c: "apply_patches ?layers = Some c" "find_row (co_flat c) ''n'' = None" by auto
  have clean: "\<forall>l \<in> set ?layers. clean_layer l"
    using demo_clean(1) by (simp add: clean_layer_def user_layer_def demo_override_def insert_rows_def)
  have plain: "plain_row ''n'' ?fs" "distinct_keys (JObject ?fs)" by (simp_all add: plain_row_def is_group_def)
  have e: "field_edit (Update ''n'' demo_config) = Some (''n'', ''config'', demo_config)" by (simp add: field_edit_def)
  have own: "own_fields ?ps ''n'' None = [(''disabled'', JBool True)]" by code_simp
  have canon: "canon (JObject ?fs) = row ''n'' []"
    by (simp add: row_def canon.simps [of "JObject ?fs"] group_items_def al_swap_remove_def)
  have ps: "?ps = ly_patches (?layers ! 1)" "\<forall>p \<in> set ?ps. \<not> inserts ''n'' p"
    by (simp_all add: user_layer_def inserts_def demo_override_def insert_rows_def)
  have "demo_config \<noteq> JNull" by (simp add: demo_config_def)
  then obtain ps' c' r ps'' loc fs'' where
    "apply_edit ?layers 1 (Create (row ''n'' []) None None) = Some (Inr ps')"
    "apply_patches (replace_layer ?layers 1 ps') = Some c'" "find_row (co_flat c') ''n'' = Some r" "cr_value r = row ''n'' []"
    "apply_edit (replace_layer ?layers 1 ps') 1 (Update ''n'' demo_config) = Some (Inr ps'')"
    "locate_mut ps'' ''n'' = Some loc" "located loc ps'' = JObject fs''"
    "map_of fs'' = (map_of ?fs ++ map_of (own_fields ?ps ''n'' None)) (''config'' := Some demo_config)"
    using stale_override_comes_back [OF _ clean plain c ps e] canon by (auto simp: row_def)
  then show ?thesis using own by (intro exI conjI) (assumption | simp)+
qed

text \<open>
  The rows of a group without an id have no parent, so they count as rows of
  the root: a row created at position 1 of the root, before row \<open>b\<close>, goes
  into the group in front of row \<open>a\<close>.
\<close>

theorem rows_of_nameless_groups_count:
  "apply_edit [user_layer [demo_insert None
       [JObject [(''group'', JBool True), (''config'', JArray [row ''a'' []])], row ''b'' []]]] 0
     (Create (row ''n'' []) None (Some 1)) =
   Some (Inr [demo_insert None
     [JObject [(''group'', JBool True), (''config'', JArray [row ''n'' [], row ''a'' []])], row ''b'' []]])"
  by code_simp

end
