(* ===== verification/Edit_Queue.thy ===== *)
theory Edit_Queue
  imports Edit_Theorems
begin

text \<open>
  The queue of edits that are applied but not yet stored: \<open>commit\<close>,
  \<open>persist_queue\<close> and \<open>edit\<close> of \<open>crates/rutis-loader/src/loader/commit.rs\<close>,
  \<open>reconcile\<close> and \<open>flush\<close> of \<open>loader/api.rs\<close>, and the storage of
  \<open>persist.rs\<close>.

  The running tree (the dry run of a change, reconciling the tree with the
  layers, the failures it has) and the storage are outside: an opaque state
  \<open>'w\<close> that the operations of a record of functions read and change.  Each of
  these that is awaited may be the last: a caller that drops the future of its
  operation leaves the state as it is then (\<open>None\<close>, and the outcome
  \<open>GaveUp\<close>).  All operations hold the loader's operation lock from their
  start to their end, so they follow each other.
\<close>

record failing =
  fg_failure :: failure
  fg_scope :: "nat option"
  fg_value :: string
  fg_unavailable :: bool
  fg_running :: bool

datatype save_answer = Saved string | SaveConflict | SaveError string

record 'w outside =
  ou_open :: "'w \<Rightarrow> bool"
  ou_dry_run :: "layer list \<Rightarrow> string \<Rightarrow> 'w \<Rightarrow> loader_error option option \<times> 'w"
  ou_reconcile :: "layer list \<Rightarrow> 'w \<Rightarrow> failure list option \<times> 'w"
  ou_failing :: "'w \<Rightarrow> failing list"
  ou_forget :: "string \<Rightarrow> 'w \<Rightarrow> 'w"
  ou_unstop :: "string \<Rightarrow> 'w \<Rightarrow> 'w"
  ou_load :: "string \<Rightarrow> 'w \<Rightarrow> (loader_error + patch list \<times> string) option \<times> 'w"
  ou_save :: "string \<Rightarrow> string \<Rightarrow> edit list \<Rightarrow> patch list \<Rightarrow> 'w \<Rightarrow> save_answer option \<times> 'w"

text \<open>\<open>NoPersist\<close> in the place of the storage.\<close>

definition stores_nothing :: "'w outside \<Rightarrow> 'w outside" where
  "stores_nothing out = out\<lparr>ou_load := (\<lambda>_ w. (Some (Inl (Unsupported NoPersistLoad)), w)),
     ou_save := (\<lambda>_ v _ _ w. (Some (Saved v), w))\<rparr>"

datatype loader_event = Reconciled | Edited edit | EditDropped edit loader_error

record loader_state =
  ls_layers :: "layer list"
  ls_editable :: "nat option"
  ls_version :: string
  ls_pending :: "edit list"
  ls_events :: "loader_event list"

datatype 'a outcome = Answer 'a | GaveUp

type_synonym ('a, 'w) run = "'a outcome \<times> loader_state \<times> 'w"

definition awaiting :: "'a option \<times> 'w \<Rightarrow> loader_state \<Rightarrow> ('a \<Rightarrow> 'w \<Rightarrow> ('b, 'w) run) \<Rightarrow> ('b, 'w) run" where
  "awaiting x s f = (case x of (None, w) \<Rightarrow> (GaveUp, s, w) | (Some a, w) \<Rightarrow> f a w)"

definition and_after :: "('a, 'w) run \<Rightarrow> ('a \<Rightarrow> loader_state \<Rightarrow> 'w \<Rightarrow> ('b, 'w) run) \<Rightarrow> ('b, 'w) run" where
  "and_after x f = (case x of (GaveUp, s, w) \<Rightarrow> (GaveUp, s, w) | (Answer a, s, w) \<Rightarrow> f a s w)"

definition emit_event :: "loader_event \<Rightarrow> loader_state \<Rightarrow> loader_state" where
  "emit_event ev s = s\<lparr>ls_events := ls_events s @ [ev]\<rparr>"

text \<open>\<open>Failing::public\<close>: each failure once.\<close>

definition public :: "failing list \<Rightarrow> failure list" where
  "public fs = fold (\<lambda>f out. if fg_failure f \<in> set out then out else out @ [fg_failure f]) fs []"

section \<open>Committing an edit in memory\<close>

definition edited :: "layer list \<Rightarrow> nat \<Rightarrow> edit \<Rightarrow> loader_error + patch list" where
  "edited layers n e = the (apply_edit layers n e)"

definition skips_dry_run :: "edit \<Rightarrow> bool" where
  "skips_dry_run e = (case e of Remove _ \<Rightarrow> True | SetDisabled _ d \<Rightarrow> d | _ \<Rightarrow> False)"

definition dry_run_edit :: "'w outside \<Rightarrow> layer list \<Rightarrow> edit \<Rightarrow> 'w \<Rightarrow> loader_error option option \<times> 'w" where
  "dry_run_edit out next e w =
     (if skips_dry_run e then (Some None, w)
      else (case edit_id e of None \<Rightarrow> (Some None, w) | Some i \<Rightarrow> ou_dry_run out next i w))"

text \<open>What of the running tree's record an edit resets before it is applied.\<close>

definition reset_row :: "'w outside \<Rightarrow> edit \<Rightarrow> 'w \<Rightarrow> 'w" where
  "reset_row out e w =
     (let w1 = (case e of Rename _ name \<Rightarrow> ou_forget out name w | _ \<Rightarrow> w)
      in case edit_id e of None \<Rightarrow> w1 | Some i \<Rightarrow> ou_unstop out i w1)"

definition roll_back ::
  "'w outside \<Rightarrow> layer list \<Rightarrow> failing list \<Rightarrow> failure list \<Rightarrow> loader_state \<Rightarrow> 'w \<Rightarrow> (loader_error + unit, 'w) run" where
  "roll_back out layers earlier new s w =
     (let s1 = s\<lparr>ls_layers := layers\<rparr> in
      awaiting (ou_reconcile out layers w) s1 (\<lambda>_ w1.
        let back = public (filter (\<lambda>f. f \<notin> set earlier) (ou_failing out w1))
        in (Answer (Inl (if back = [] then ApplyFailed new else RollbackFailed new back)), s1, w1)))"

definition commit :: "'w outside \<Rightarrow> edit \<Rightarrow> loader_state \<Rightarrow> 'w \<Rightarrow> (loader_error + unit, 'w) run" where
  "commit out e s w =
     (case ls_editable s of
        None \<Rightarrow> (Answer (Inl NoEditableLayer), s, w)
      | Some n \<Rightarrow>
          (let layers = ls_layers s; earlier = ou_failing out w in
           case edited layers n e of
             Inl err \<Rightarrow> (Answer (Inl err), s, w)
           | Inr ps \<Rightarrow>
               (let next = replace_layer layers n ps in
                awaiting (dry_run_edit out next e w) s (\<lambda>refused w1.
                  case refused of
                    Some err \<Rightarrow> (Answer (Inl err), s, w1)
                  | None \<Rightarrow>
                      (let s1 = s\<lparr>ls_layers := next\<rparr> in
                       awaiting (ou_reconcile out next (reset_row out e w1)) s1 (\<lambda>new w2.
                         if new = [] then (Answer (Inr ()), s1, w2)
                         else roll_back out layers earlier new s1 w2))))))"

section \<open>Storing the queue\<close>

text \<open>The replay of the queue on newer content: the new index of the caller's edit, and its error.\<close>

fun replay_queue ::
  "'w outside \<Rightarrow> nat option \<Rightarrow> (nat \<times> edit) list \<Rightarrow> nat option \<Rightarrow> loader_error option \<Rightarrow> loader_state \<Rightarrow> 'w \<Rightarrow>
     (nat option \<times> loader_error option, 'w) run" where
  "replay_queue out current [] replaced failed s w = (Answer (replaced, failed), s, w)"
| "replay_queue out current ((index, e) # queue) replaced failed s w =
     and_after (commit out e s w) (\<lambda>r s1 w1.
       case r of
         Inr _ \<Rightarrow>
           replay_queue out current queue (if current = Some index then Some (length (ls_pending s1)) else replaced) failed
             (s1\<lparr>ls_pending := ls_pending s1 @ [e]\<rparr>) w1
       | Inl err \<Rightarrow>
           if current = Some index then replay_queue out current queue replaced (Some err) s1 w1
           else replay_queue out current queue replaced failed (emit_event (EditDropped e err) s1) w1)"

definition finish :: "loader_error option \<Rightarrow> loader_error + unit" where
  "finish err = (case err of None \<Rightarrow> Inr () | Some e \<Rightarrow> Inl e)"

definition CONFLICT_RETRIES :: nat where
  "CONFLICT_RETRIES = 3"

text \<open>The layer as it was loaded again, its queue taken.\<close>

definition reloaded :: "loader_state \<Rightarrow> nat \<Rightarrow> patch list \<Rightarrow> string \<Rightarrow> loader_state" where
  "reloaded s n latest v =
     s\<lparr>ls_layers := replace_layer (ls_layers s) n latest, ls_version := v, ls_pending := []\<rparr>"

text \<open>The attempts; the number is of those that may still follow.\<close>

fun persist_loop ::
  "nat \<Rightarrow> 'w outside \<Rightarrow> nat option \<Rightarrow> loader_error option \<Rightarrow> loader_state \<Rightarrow> 'w \<Rightarrow> (loader_error + unit, 'w) run" where
  "persist_loop left out current failed s w =
     (case ls_editable s of
        None \<Rightarrow> (Answer (finish failed), s, w)
      | Some n \<Rightarrow>
          if ls_pending s = [] then (Answer (finish failed), s, w)
          else (let name = ly_name (ls_layers s ! n) in
            awaiting (ou_save out name (ls_version s) (ls_pending s) (ly_patches (ls_layers s ! n)) w) s (\<lambda>a w1.
              case a of
                Saved v \<Rightarrow> (Answer (finish failed), s\<lparr>ls_version := v, ls_pending := []\<rparr>, w1)
              | SaveError m \<Rightarrow> (Answer (Inl (case failed of Some e \<Rightarrow> e | None \<Rightarrow> SaveFailed m)), s, w1)
              | SaveConflict \<Rightarrow>
                  (case left of
                     0 \<Rightarrow> (Answer (Inl (case failed of Some e \<Rightarrow> e | None \<Rightarrow> Conflict)), s, w1)
                   | Suc left' \<Rightarrow>
                       awaiting (ou_load out name w1) s (\<lambda>loaded w2.
                         case loaded of
                           Inl err \<Rightarrow> (Answer (Inl (LoadFailed err)), s, w2)
                         | Inr (latest, v) \<Rightarrow>
                             awaiting (ou_reconcile out (ls_layers (reloaded s n latest v)) w2) (reloaded s n latest v) (\<lambda>_ w3.
                               and_after (replay_queue out current (List.enumerate 0 (ls_pending s)) None failed (reloaded s n latest v) w3)
                                 (\<lambda>(replaced, failed') s2 w4. persist_loop left' out replaced failed' s2 w4)))))))"

declare persist_loop.simps [simp del]

definition persist_queue :: "'w outside \<Rightarrow> nat option \<Rightarrow> loader_state \<Rightarrow> 'w \<Rightarrow> (loader_error + unit, 'w) run" where
  "persist_queue out current s w = persist_loop CONFLICT_RETRIES out current None s w"

section \<open>The operations of the loader\<close>

definition edit_op :: "'w outside \<Rightarrow> edit \<Rightarrow> loader_state \<Rightarrow> 'w \<Rightarrow> (loader_error + unit, 'w) run" where
  "edit_op out e s w =
     (if \<not> ou_open out w then (Answer (Inl Closed), s, w)
      else and_after (commit out e s w) (\<lambda>r s1 w1.
        case r of
          Inl err \<Rightarrow> (Answer (Inl err), s1, w1)
        | Inr _ \<Rightarrow>
            and_after (persist_queue out (Some (length (ls_pending s1))) (s1\<lparr>ls_pending := ls_pending s1 @ [e]\<rparr>) w1)
              (\<lambda>result s2 w2. (Answer result, emit_event (Edited e) s2, w2))))"

definition flush_op :: "'w outside \<Rightarrow> loader_state \<Rightarrow> 'w \<Rightarrow> (loader_error + unit, 'w) run" where
  "flush_op out s w =
     (if \<not> ou_open out w then (Answer (Inl Closed), s, w) else persist_queue out None s w)"

text \<open>The replay of \<open>Loader::reconcile\<close>.\<close>

fun replay_all :: "'w outside \<Rightarrow> edit list \<Rightarrow> loader_state \<Rightarrow> 'w \<Rightarrow> (unit, 'w) run" where
  "replay_all out [] s w = (Answer (), s, w)"
| "replay_all out (e # queue) s w =
     and_after (commit out e s w) (\<lambda>r s1 w1.
       case r of
         Inr _ \<Rightarrow> replay_all out queue (s1\<lparr>ls_pending := ls_pending s1 @ [e]\<rparr>) w1
       | Inl err \<Rightarrow> replay_all out queue (emit_event (EditDropped e err) s1) w1)"

definition take_layers :: "layer list \<Rightarrow> (nat \<times> string) option \<Rightarrow> loader_state \<Rightarrow> loader_state" where
  "take_layers layers editable s =
     s\<lparr>ls_layers := layers, ls_editable := map_option fst editable,
       ls_version := (case editable of None \<Rightarrow> ls_version s | Some (_, v) \<Rightarrow> v),
       ls_pending := (case editable of None \<Rightarrow> ls_pending s | Some _ \<Rightarrow> [])\<rparr>"

definition find_editable ::
  "layer list \<Rightarrow> (string \<times> string) option \<Rightarrow> loader_error + (nat \<times> string) option" where
  "find_editable layers editable =
     (case editable of
        None \<Rightarrow> Inr None
      | Some (name, v) \<Rightarrow>
          (case position (\<lambda>l. ly_name l = name) layers of
             None \<Rightarrow> Inl (InvalidEntry (NoLayerNamed name))
           | Some n \<Rightarrow> Inr (Some (n, v))))"

definition reconciled ::
  "'w outside \<Rightarrow> edit list \<Rightarrow> loader_state \<Rightarrow> failure list \<Rightarrow> 'w \<Rightarrow> (loader_error + failure list, 'w) run" where
  "reconciled out queue s new w =
     (if queue = [] then (Answer (Inr new), emit_event Reconciled s, w)
      else and_after (replay_all out queue s w) (\<lambda>_ s1 w1.
             and_after (persist_queue out None s1 w1) (\<lambda>_ s2 w2. (Answer (Inr new), emit_event Reconciled s2, w2))))"

definition reconcile_op ::
  "'w outside \<Rightarrow> layer list \<Rightarrow> (string \<times> string) option \<Rightarrow> loader_state \<Rightarrow> 'w \<Rightarrow>
     (loader_error + failure list, 'w) run" where
  "reconcile_op out layers editable s w =
     (if \<not> ou_open out w then (Answer (Inl Closed), s, w)
      else
        (case find_editable layers editable of
           Inl err \<Rightarrow> (Answer (Inl err), s, w)
         | Inr at \<Rightarrow>
             awaiting (ou_reconcile out layers w) (take_layers layers at s)
               (reconciled out (case at of None \<Rightarrow> [] | Some _ \<Rightarrow> ls_pending s) (take_layers layers at s))))"

end
