(* ===== verification/Queue_Properties.thy ===== *)
theory Queue_Properties
  imports Edit_Queue
begin

text \<open>
  The queue of edits: what the storage is told, that a refused edit changes
  nothing, and that no queued edit is lost unless its caller gives up.
\<close>

section \<open>A commit\<close>

lemma replace_layer_simps [simp]:
  "replace_layer (replace_layer layers n ps) n qs = replace_layer layers n qs"
  "replace_layer layers n (ly_patches (layers ! n)) = layers"
  "length (replace_layer layers n ps) = length layers"
  "n < length layers \<Longrightarrow> ly_patches (replace_layer layers n ps ! n) = ps"
  by (cases "n < length layers", simp_all add: replace_layer_def list_update_beyond)

lemma replace_layer_name [simp]: "ly_name (replace_layer layers n ps ! m) = ly_name (layers ! m)"
proof (cases "n < length layers \<and> n = m")
  case False
  then show ?thesis by (cases "n < length layers") (auto simp: replace_layer_def list_update_beyond)
qed (simp add: replace_layer_def)

lemma apply_edit_edited: "apply_edit layers n e = Some (edited layers n e)"
  using edit_ends [of layers n e] by (auto simp: edited_def)

lemma awaiting_Answer:
  assumes "awaiting x s f = (Answer r, s', w')"
  obtains a w1 where "x = (Some a, w1)" "f a w1 = (Answer r, s', w')"
  using assms by (auto simp: awaiting_def split: prod.splits option.splits)

lemma and_after_Answer:
  assumes "and_after x f = (Answer r, s', w')"
  obtains a s1 w1 where "x = (Answer a, s1, w1)" "f a s1 w1 = (Answer r, s', w')"
  using assms by (auto simp: and_after_def split: prod.splits outcome.splits)

lemma same_layers [simp]: "s\<lparr>ls_layers := ls_layers s\<rparr> = s"
  by simp

lemma roll_back_cases:
  assumes "roll_back out (ls_layers s) before new (s\<lparr>ls_layers := lys\<rparr>) w = (a, s', w')"
  shows "s' = s \<and> (\<forall>u. a \<noteq> Answer (Inr u))"
  using assms by (auto simp: roll_back_def awaiting_def Let_def split: prod.splits option.splits)

text \<open>A commit that is not answered with success leaves the state, unless its caller gave up meanwhile.\<close>

lemma commit_cases:
  assumes "commit out e s w = (a, s', w')"
  obtains (kept) "s' = s" "\<And>u. a \<noteq> Answer (Inr u)"
  | (changed) n ps where "ls_editable s = Some n" "edited (ls_layers s) n e = Inr ps"
      "s' = s\<lparr>ls_layers := replace_layer (ls_layers s) n ps\<rparr>" "a = GaveUp \<or> a = Answer (Inr ())"
proof -
  consider "ls_editable s = None" | n err where "ls_editable s = Some n" "edited (ls_layers s) n e = Inl err"
    | n ps where "ls_editable s = Some n" "edited (ls_layers s) n e = Inr ps"
    by (metis not_None_eq sum.exhaust_sel)
  then show ?thesis
  proof cases
    case (3 n ps)
    define lys where "lys = replace_layer (ls_layers s) n ps"
    define before where "before = ou_failing out w"
    obtain d w1 where d: "dry_run_edit out lys e w = (d, w1)" by fastforce
    obtain new w2 where r: "ou_reconcile out lys (reset_row out e w1) = (new, w2)" by fastforce
    have run: "commit out e s w = (case d of None \<Rightarrow> (GaveUp, s, w1) | Some (Some err) \<Rightarrow> (Answer (Inl err), s, w1)
      | Some None \<Rightarrow> (case new of None \<Rightarrow> (GaveUp, s\<lparr>ls_layers := lys\<rparr>, w2)
        | Some fs \<Rightarrow> if fs = [] then (Answer (Inr ()), s\<lparr>ls_layers := lys\<rparr>, w2)
          else roll_back out (ls_layers s) before fs (s\<lparr>ls_layers := lys\<rparr>) w2))"
      using 3 d r
      by (simp add: commit_def Let_def awaiting_def lys_def [symmetric] before_def [symmetric] split: option.split)
    show ?thesis
    proof (cases "\<exists>fs. d = Some None \<and> new = Some fs \<and> fs \<noteq> []")
      case True
      then obtain fs where "roll_back out (ls_layers s) before fs (s\<lparr>ls_layers := lys\<rparr>) w2 = (a, s', w')"
        using run assms by auto
      from roll_back_cases [OF this] show ?thesis using kept by blast
    next
      case False
      then have "s' = s \<and> (\<forall>u. a \<noteq> Answer (Inr u)) \<or> s' = s\<lparr>ls_layers := lys\<rparr> \<and> (a = GaveUp \<or> a = Answer (Inr ()))"
        using run assms by (auto split: option.splits if_splits)
      then show ?thesis using kept changed [OF 3] unfolding lys_def by blast
    qed
  qed (use assms kept in \<open>auto simp: commit_def Let_def\<close>)
qed

lemma commit_Inr:
  assumes "commit out e s w = (Answer (Inr u), s', w')"
  obtains n ps where "ls_editable s = Some n" "edited (ls_layers s) n e = Inr ps"
    "s' = s\<lparr>ls_layers := replace_layer (ls_layers s) n ps\<rparr>"
  by (rule commit_cases [OF assms]) (use that in auto)

lemma commit_Inl: "commit out e s w = (Answer (Inl err), s', w') \<Longrightarrow> s' = s"
  by (erule commit_cases) auto

section \<open>The queue replays the storage\<close>

fun replayed :: "layer list \<Rightarrow> nat \<Rightarrow> edit list \<Rightarrow> patch list option" where
  "replayed layers n [] = Some (ly_patches (layers ! n))"
| "replayed layers n (e # es) =
     (case edited layers n e of Inl _ \<Rightarrow> None | Inr ps \<Rightarrow> replayed (replace_layer layers n ps) n es)"

lemma replayed_snoc:
  assumes "replayed layers n es = Some ps" and "edited (replace_layer layers n ps) n e = Inr qs" and "n < length layers"
  shows "replayed layers n (es @ [e]) = Some qs"
  using assms by (induction layers n es rule: replayed.induct) (auto split: sum.splits)

definition synced :: "(string \<Rightarrow> string \<Rightarrow> patch list) \<Rightarrow> loader_state \<Rightarrow> bool" where
  "synced stored s \<longleftrightarrow> (\<forall>n. ls_editable s = Some n \<longrightarrow> n < length (ls_layers s) \<and>
     replayed (replace_layer (ls_layers s) n (stored (ly_name (ls_layers s ! n)) (ls_version s))) n (ls_pending s) =
       Some (ly_patches (ls_layers s ! n)))"

lemma synced_commit:
  assumes "synced stored s" and "commit out e s w = (Answer (Inr u), s', w')"
  shows "synced stored (s'\<lparr>ls_pending := ls_pending s' @ [e]\<rparr>)"
proof -
  obtain n ps where c: "ls_editable s = Some n" "edited (ls_layers s) n e = Inr ps"
    "s' = s\<lparr>ls_layers := replace_layer (ls_layers s) n ps\<rparr>" by (rule commit_Inr [OF assms(2)])
  have n: "n < length (ls_layers s)"
    and r: "replayed (replace_layer (ls_layers s) n (stored (ly_name (ls_layers s ! n)) (ls_version s))) n (ls_pending s) =
      Some (ly_patches (ls_layers s ! n))"
    using assms(1) c(1) by (auto simp: synced_def)
  have "replayed (replace_layer (ls_layers s) n (stored (ly_name (ls_layers s ! n)) (ls_version s))) n (ls_pending s @ [e]) = Some ps"
    by (rule replayed_snoc [OF r]) (use c(2) n in simp_all)
  then show ?thesis using c n by (simp add: synced_def)
qed

text \<open>
  The storage: a load gives the content of the version it gives, and a save
  stores the layer under the version it gives, provided it was told edits that
  make the layer from the content it expects.
\<close>

definition told_truly :: "(string \<Rightarrow> string \<Rightarrow> patch list) \<Rightarrow> string \<Rightarrow> string \<Rightarrow> edit list \<Rightarrow> patch list \<Rightarrow> bool" where
  "told_truly stored name v es ps \<longleftrightarrow> (\<exists>layers n. n < length layers \<and> ly_name (layers ! n) = name \<and>
     replayed (replace_layer layers n (stored name v)) n es = Some ps)"

definition keeps_versions :: "'w outside \<Rightarrow> (string \<Rightarrow> string \<Rightarrow> patch list) \<Rightarrow> bool" where
  "keeps_versions out stored \<longleftrightarrow>
     (\<forall>name w ps v w'. ou_load out name w = (Some (Inr (ps, v)), w') \<longrightarrow> stored name v = ps) \<and>
     (\<forall>name v es ps w v' w'. ou_save out name v es ps w = (Some (Saved v'), w') \<longrightarrow>
        told_truly stored name v es ps \<longrightarrow> stored name v' = ps)"

lemma emit_event_simps [simp]:
  "ls_layers (emit_event ev s) = ls_layers s" "ls_editable (emit_event ev s) = ls_editable s"
  "ls_version (emit_event ev s) = ls_version s" "ls_pending (emit_event ev s) = ls_pending s"
  "ls_events (emit_event ev s) = ls_events s @ [ev]"
  by (simp_all add: emit_event_def)

lemma synced_event [simp]: "synced stored (emit_event ev s) = synced stored s"
  by (simp add: synced_def)

lemma synced_replay:
  assumes "replay_queue out current queue replaced failed s w = (Answer r, s', w')" and "synced stored s"
  shows "synced stored s' \<and> ls_editable s' = ls_editable s"
  using assms
proof (induction out current queue replaced failed s w rule: replay_queue.induct)
  case (2 out current index e queue replaced failed s w)
  obtain a s1 w1 where c: "commit out e s w = (Answer a, s1, w1)"
    by (rule and_after_Answer [OF "2.prems"(1) [unfolded replay_queue.simps]])
  show ?case
  proof (cases a)
    case (Inl err)
    have s1: "s1 = s" by (rule commit_Inl [OF c [unfolded Inl]])
    show ?thesis
    proof (cases "current = Some index")
      case True
      then have "replay_queue out current queue replaced (Some err) s w1 = (Answer r, s', w')"
        using "2.prems"(1) c Inl s1 by (simp add: and_after_def)
      then show ?thesis using "2.IH"(1) [OF Inl True, of s w1] "2.prems"(2) by blast
    next
      case False
      then have "replay_queue out current queue replaced failed (emit_event (EditDropped e err) s) w1 = (Answer r, s', w')"
        using "2.prems"(1) c Inl s1 by (simp add: and_after_def)
      then show ?thesis using "2.IH"(2) [OF Inl False, of s w1] "2.prems"(2) by simp
    qed
  next
    case (Inr u)
    have sy: "synced stored (s1\<lparr>ls_pending := ls_pending s1 @ [e]\<rparr>)" 
      by (rule synced_commit [OF "2.prems"(2) c [unfolded Inr]])
    obtain n ps where "s1 = s\<lparr>ls_layers := replace_layer (ls_layers s) n ps\<rparr>"
      by (rule commit_Inr [OF c [unfolded Inr]])
    then have ed: "ls_editable s1 = ls_editable s" by simp
    have "replay_queue out current queue (if current = Some index then Some (length (ls_pending s1)) else replaced) failed
        (s1\<lparr>ls_pending := ls_pending s1 @ [e]\<rparr>) w1 = (Answer r, s', w')"
      using "2.prems"(1) c Inr by (simp add: and_after_def)
    then show ?thesis using "2.IH"(3) [OF Inr, of s1 w1] sy ed by simp
  qed
qed auto

section \<open>An attempt to store the queue\<close>

lemma persist_cases:
  assumes "persist_loop left out current failed s w = (Answer r, s', w')"
  obtains (idle) "s' = s" "r = finish failed" "ls_editable s = None \<or> ls_pending s = []"
  | (saved) n v w1 where "ls_editable s = Some n" "ls_pending s \<noteq> []"
      "ou_save out (ly_name (ls_layers s ! n)) (ls_version s) (ls_pending s) (ly_patches (ls_layers s ! n)) w = (Some (Saved v), w1)"
      "s' = s\<lparr>ls_version := v, ls_pending := []\<rparr>" "r = finish failed"
  | (kept) err where "s' = s" "r = Inl err" "ls_pending s \<noteq> []"
  | (again) n latest v w1 w2 w3 replaced failed' s2 w4 left' where "ls_editable s = Some n" "left = Suc left'"
      "ou_load out (ly_name (ls_layers s ! n)) w1 = (Some (Inr (latest, v)), w2)"
      "replay_queue out current (List.enumerate 0 (ls_pending s)) None failed (reloaded s n latest v) w3 =
        (Answer (replaced, failed'), s2, w4)"
      "persist_loop left' out replaced failed' s2 w4 = (Answer r, s', w')"
proof (cases "ls_editable s = None \<or> ls_pending s = []")
  case True
  then have "s' = s \<and> r = finish failed"
    using assms by (auto simp: persist_loop.simps [of left] split: option.splits)
  then show ?thesis using idle True by blast
next
  case False
  then obtain n where n: "ls_editable s = Some n" and p: "ls_pending s \<noteq> []" by auto
  define call where "call = ou_save out (ly_name (ls_layers s ! n)) (ls_version s) (ls_pending s) (ly_patches (ls_layers s ! n)) w"
  obtain a w1 where a: "call = (a, w1)" by fastforce
  have run: "persist_loop left out current failed s w = (case a of None \<Rightarrow> (GaveUp, s, w1) | Some x \<Rightarrow> (case x of
        Saved v \<Rightarrow> (Answer (finish failed), s\<lparr>ls_version := v, ls_pending := []\<rparr>, w1)
      | SaveError m \<Rightarrow> (Answer (Inl (case failed of Some e \<Rightarrow> e | None \<Rightarrow> SaveFailed m)), s, w1)
      | SaveConflict \<Rightarrow> (case left of
           0 \<Rightarrow> (Answer (Inl (case failed of Some e \<Rightarrow> e | None \<Rightarrow> Conflict)), s, w1)
         | Suc left' \<Rightarrow> awaiting (ou_load out (ly_name (ls_layers s ! n)) w1) s (\<lambda>loaded w2. case loaded of
             Inl err \<Rightarrow> (Answer (Inl (LoadFailed err)), s, w2)
           | Inr (latest, v) \<Rightarrow>
               awaiting (ou_reconcile out (ls_layers (reloaded s n latest v)) w2) (reloaded s n latest v) (\<lambda>_ w3.
                 and_after (replay_queue out current (List.enumerate 0 (ls_pending s)) None failed (reloaded s n latest v) w3)
                   (\<lambda>(replaced, failed') s2 w4. persist_loop left' out replaced failed' s2 w4))))))"
    using n p a by (simp add: persist_loop.simps [of left] call_def awaiting_def [of "(_, _)"] Let_def)
  show ?thesis
  proof (cases "\<exists>left'. a = Some SaveConflict \<and> left = Suc left'")
    case False
    then show ?thesis
      using run assms saved [OF n p] kept p a call_def
      by (cases a; cases left; auto split: save_answer.splits)
  next
    case True
    then obtain left' where l: "a = Some SaveConflict" "left = Suc left'" by blast
    then have "awaiting (ou_load out (ly_name (ls_layers s ! n)) w1) s (\<lambda>loaded w2. case loaded of
             Inl err \<Rightarrow> (Answer (Inl (LoadFailed err)), s, w2)
           | Inr (latest, v) \<Rightarrow>
               awaiting (ou_reconcile out (ls_layers (reloaded s n latest v)) w2) (reloaded s n latest v) (\<lambda>_ w3.
                 and_after (replay_queue out current (List.enumerate 0 (ls_pending s)) None failed (reloaded s n latest v) w3)
                   (\<lambda>(replaced, failed') s2 w4. persist_loop left' out replaced failed' s2 w4))) = (Answer r, s', w')"
      using run assms by simp
    then obtain loaded w2 where ld: "ou_load out (ly_name (ls_layers s ! n)) w1 = (Some loaded, w2)"
      "(case loaded of
             Inl err \<Rightarrow> (Answer (Inl (LoadFailed err)), s, w2)
           | Inr (latest, v) \<Rightarrow>
               awaiting (ou_reconcile out (ls_layers (reloaded s n latest v)) w2) (reloaded s n latest v) (\<lambda>_ w3.
                 and_after (replay_queue out current (List.enumerate 0 (ls_pending s)) None failed (reloaded s n latest v) w3)
                   (\<lambda>(replaced, failed') s2 w4. persist_loop left' out replaced failed' s2 w4))) = (Answer r, s', w')"
      by (rule awaiting_Answer)
    show ?thesis
    proof (cases loaded)
      case (Inl err)
      then show ?thesis using ld(2) kept p by auto
    next
      case (Inr lv)
      then obtain latest v where lv: "loaded = Inr (latest, v)" by (cases lv) auto
      have "awaiting (ou_reconcile out (ls_layers (reloaded s n latest v)) w2) (reloaded s n latest v) (\<lambda>_ w3.
                 and_after (replay_queue out current (List.enumerate 0 (ls_pending s)) None failed (reloaded s n latest v) w3)
                   (\<lambda>(replaced, failed') s2 w4. persist_loop left' out replaced failed' s2 w4)) = (Answer r, s', w')"
        using ld(2) unfolding lv by simp
      then obtain new w3 where "and_after (replay_queue out current (List.enumerate 0 (ls_pending s)) None failed (reloaded s n latest v) w3)
                   (\<lambda>(replaced, failed') s2 w4. persist_loop left' out replaced failed' s2 w4) = (Answer r, s', w')"
        by (rule awaiting_Answer)
      then obtain rf s2 w4 where "replay_queue out current (List.enumerate 0 (ls_pending s)) None failed (reloaded s n latest v) w3 = (Answer rf, s2, w4)"
        "(case rf of (replaced, failed') \<Rightarrow> persist_loop left' out replaced failed') s2 w4 = (Answer r, s', w')"
        by (rule and_after_Answer)
      then show ?thesis using again [OF n l(2) ld(1) [unfolded lv]] by (cases rf) auto
    qed
  qed
qed

lemma synced_reloaded:
  assumes "synced stored s" and "ls_editable s = Some n" and "stored (ly_name (ls_layers s ! n)) v = latest"
  shows "synced stored (reloaded s n latest v)"
  using assms by (simp add: synced_def reloaded_def)

lemma synced_persist:
  assumes "keeps_versions out stored"
  shows "persist_loop left out current failed s w = (Answer r, s', w') \<Longrightarrow> synced stored s \<Longrightarrow>
    synced stored s' \<and> ls_editable s' = ls_editable s"
proof (induction left arbitrary: current failed s w)
  case (0 current failed s w)
  from "0.prems"(1) show ?case
  proof (cases rule: persist_cases)
    case (saved n v w1)
    have "told_truly stored (ly_name (ls_layers s ! n)) (ls_version s) (ls_pending s) (ly_patches (ls_layers s ! n))"
      using "0.prems"(2) saved(1) unfolding synced_def told_truly_def by blast
    then have "stored (ly_name (ls_layers s ! n)) v = ly_patches (ls_layers s ! n)"
      using assms saved(3) unfolding keeps_versions_def by blast
    then show ?thesis using "0.prems"(2) saved(1,4) by (simp add: synced_def)
  qed (use "0.prems"(2) in simp_all)
next
  case (Suc left)
  from Suc.prems(1) show ?case
  proof (cases rule: persist_cases)
    case (saved n v w1)
    have "told_truly stored (ly_name (ls_layers s ! n)) (ls_version s) (ls_pending s) (ly_patches (ls_layers s ! n))"
      using Suc.prems(2) saved(1) unfolding synced_def told_truly_def by blast
    then have "stored (ly_name (ls_layers s ! n)) v = ly_patches (ls_layers s ! n)"
      using assms saved(3) unfolding keeps_versions_def by blast
    then show ?thesis using Suc.prems(2) saved(1,4) by (simp add: synced_def)
  next
    case (again n latest v w1 w2 w3 replaced failed' s2 w4 left')
    have "stored (ly_name (ls_layers s ! n)) v = latest" using assms again(3) unfolding keeps_versions_def by blast
    then have "synced stored (reloaded s n latest v)" by (rule synced_reloaded [OF Suc.prems(2) again(1)])
    then have "synced stored s2 \<and> ls_editable s2 = ls_editable (reloaded s n latest v)" by (rule synced_replay [OF again(4)])
    then show ?thesis using Suc.IH again(2,5) by (simp add: reloaded_def)
  qed (use Suc.prems(2) in simp_all)
qed

end
