(* ===== verification/Queue_Accounts.thy ===== *)
theory Queue_Accounts
  imports Queue_Properties
begin

text \<open>
  Where the edits of the queue are after an attempt to store it: still queued,
  stored, reported as dropped, or answered to the caller that waits.
\<close>

definition dropped :: "edit \<times> loader_error \<Rightarrow> loader_event" where
  "dropped x = EditDropped (fst x) (snd x)"

text \<open>The edit of the caller among the ones replayed.\<close>

definition callers :: "nat option \<Rightarrow> (nat \<times> edit) list \<Rightarrow> edit option" where
  "callers current queue = Option.bind current (map_of queue)"

text \<open>What became of it: answered with an error, or at its new place in the queue.\<close>

definition fared ::
  "edit option \<Rightarrow> nat option \<Rightarrow> loader_error option \<Rightarrow> edit list \<Rightarrow> nat option \<Rightarrow> loader_error option \<Rightarrow> edit list \<Rightarrow> bool" where
  "fared mine replaced failed own replaced' failed' pending \<longleftrightarrow>
     (case mine of
        None \<Rightarrow> own = [] \<and> replaced' = replaced \<and> failed' = failed
      | Some e \<Rightarrow> own = [e] \<and> replaced' = replaced \<and> failed' \<noteq> None \<or>
          own = [] \<and> failed' = failed \<and> (\<exists>j < length pending. replaced' = Some j \<and> pending ! j = e))"

lemma replay_accounts:
  assumes "replay_queue out current queue replaced failed s w = (Answer (replaced', failed'), s', w')"
    and "distinct (map fst queue)"
  shows "\<exists>kept lost own. mset (map snd queue) = mset kept + mset (map fst lost) + mset own \<and>
    ls_pending s' = ls_pending s @ kept \<and> ls_events s' = ls_events s @ map dropped lost \<and>
    fared (callers current queue) replaced failed own replaced' failed' (ls_pending s')"
  using assms
proof (induction out current queue replaced failed s w rule: replay_queue.induct)
  case (1 out current replaced failed s w)
  then show ?case by (auto simp: fared_def callers_def split: option.splits)
next
  case (2 out current index e queue replaced failed s w)
  obtain a s1 w1 where c: "commit out e s w = (Answer a, s1, w1)"
    by (rule and_after_Answer [OF "2.prems"(1) [unfolded replay_queue.simps]])
  have d: "distinct (map fst queue)" and new: "map_of queue index = None"
    using "2.prems"(2) by (auto simp: map_of_eq_None_iff)
  have mine: "callers current ((index, e) # queue) =
      (if current = Some index then Some e else callers current queue)"
    and rest: "current = Some index \<Longrightarrow> callers current queue = None"
    using new by (auto simp: callers_def split: Option.bind_splits)
  show ?case
  proof (cases a)
    case (Inl err)
    have s1: "s1 = s" by (rule commit_Inl [OF c [unfolded Inl]])
    show ?thesis
    proof (cases "current = Some index")
      case True
      then have "replay_queue out current queue replaced (Some err) s w1 = (Answer (replaced', failed'), s', w')"
        using "2.prems"(1) c Inl s1 by (simp add: and_after_def)
      from "2.IH"(1) [OF Inl True this d] obtain kept lost own where
        "mset (map snd queue) = mset kept + mset (map fst lost) + mset own"
        "ls_pending s' = ls_pending s @ kept" "ls_events s' = ls_events s @ map dropped lost"
        "own = []" "replaced' = replaced" "failed' = Some err"
        by (auto simp: fared_def rest [OF True])
      then show ?thesis using True unfolding mine
        by (intro exI [of _ kept] exI [of _ lost] exI [of _ "[e]"]) (simp add: fared_def)
    next
      case False
      then have "replay_queue out current queue replaced failed (emit_event (EditDropped e err) s) w1 =
          (Answer (replaced', failed'), s', w')"
        using "2.prems"(1) c Inl s1 by (simp add: and_after_def)
      from "2.IH"(2) [OF Inl False this d] obtain kept lost own where
        "mset (map snd queue) = mset kept + mset (map fst lost) + mset own"
        "ls_pending s' = ls_pending s @ kept" "ls_events s' = ls_events s @ EditDropped e err # map dropped lost"
        "fared (callers current queue) replaced failed own replaced' failed' (ls_pending s')"
        by auto
      then show ?thesis using False unfolding mine
        by (intro exI [of _ kept] exI [of _ "(e, err) # lost"] exI [of _ own]) (simp add: dropped_def)
    qed
  next
    case (Inr u)
    let ?at = "if current = Some index then Some (length (ls_pending s1)) else replaced"
    obtain n ps where "s1 = s\<lparr>ls_layers := replace_layer (ls_layers s) n ps\<rparr>"
      by (rule commit_Inr [OF c [unfolded Inr]])
    then have s1: "ls_pending s1 = ls_pending s" "ls_events s1 = ls_events s" by simp_all
    have "replay_queue out current queue ?at failed (s1\<lparr>ls_pending := ls_pending s1 @ [e]\<rparr>) w1 =
        (Answer (replaced', failed'), s', w')"
      using "2.prems"(1) c Inr by (simp add: and_after_def)
    from "2.IH"(3) [OF Inr this d] obtain kept lost own where k:
      "mset (map snd queue) = mset kept + mset (map fst lost) + mset own"
      "ls_pending s' = ls_pending s @ e # kept" "ls_events s' = ls_events s @ map dropped lost"
      "fared (callers current queue) ?at failed own replaced' failed' (ls_pending s')"
      by (auto simp: s1)
    have "fared (callers current ((index, e) # queue)) replaced failed own replaced' failed' (ls_pending s')"
    proof (cases "current = Some index")
      case True
      then have "own = []" "failed' = failed" "replaced' = Some (length (ls_pending s))"
        using k(4) rest by (simp_all add: fared_def s1)
      moreover have "callers current ((index, e) # queue) = Some e" using mine True by simp
      ultimately show ?thesis using k(2) by (simp add: fared_def)
    next
      case False
      then show ?thesis using k(4) by (simp add: mine)
    qed
    then show ?thesis using k by (intro exI [of _ "e # kept"] exI [of _ lost] exI [of _ own]) simp
  qed
qed

lemma callers_enumerate:
  "k < length es \<Longrightarrow> callers (Some k) (List.enumerate 0 es) = Some (es ! k)"
proof -
  assume k: "k < length es"
  have "(k, es ! k) \<in> set (List.enumerate 0 es)" using k by (simp add: in_set_enumerate_eq)
  moreover have "distinct (map fst (List.enumerate 0 es))" by simp
  ultimately show ?thesis by (simp add: callers_def)
qed

text \<open>The caller's edit at its index, if it still waits for one; the error, if it no longer does.\<close>

definition waits_for :: "nat option \<Rightarrow> loader_error option \<Rightarrow> edit option \<Rightarrow> loader_state \<Rightarrow> bool" where
  "waits_for current failed mine s \<longleftrightarrow>
     (case current of
        None \<Rightarrow> mine = None
      | Some k \<Rightarrow> failed = None \<and> k < length (ls_pending s) \<and> mine = Some (ls_pending s ! k))"

definition stored_as :: "'w outside \<Rightarrow> loader_state \<Rightarrow> edit list \<Rightarrow> bool" where
  "stored_as out s es \<longleftrightarrow> (\<exists>n v w w'. ls_editable s = Some n \<and>
     ou_save out (ly_name (ls_layers s ! n)) v es (ly_patches (ls_layers s ! n)) w = (Some (Saved (ls_version s)), w'))"

lemma persist_accounts:
  assumes "persist_loop left out current failed s w = (Answer r, s', w')" and "waits_for current failed mine s"
  shows "\<exists>kept lost own. mset (ls_pending s) = mset kept + mset (map fst lost) + mset own \<and>
    ls_events s' = ls_events s @ map dropped lost \<and>
    (own = [] \<or> (\<exists>e err. own = [e] \<and> mine = Some e \<and> r = Inl err)) \<and>
    (failed \<noteq> None \<longrightarrow> (\<exists>err. r = Inl err)) \<and>
    (ls_pending s' = kept \<or> ls_pending s' = [] \<and> stored_as out s' kept)"
  using assms
proof (induction left arbitrary: current failed mine s w)
  case (0 current failed mine s w)
  from "0.prems"(1) show ?case
  proof (cases rule: persist_cases)
    case (saved n v w1)
    then have "stored_as out s' (ls_pending s)" unfolding stored_as_def by auto
    then show ?thesis using saved
      by (intro exI [of _ "ls_pending s"] exI [of _ "[]"]) (auto simp: finish_def)
  qed (intro exI [of _ "ls_pending s"] exI [of _ "[]"]; auto simp: finish_def)+
next
  case (Suc left)
  from Suc.prems(1) show ?case
  proof (cases rule: persist_cases)
    case (saved n v w1)
    then have "stored_as out s' (ls_pending s)" unfolding stored_as_def by auto
    then show ?thesis using saved
      by (intro exI [of _ "ls_pending s"] exI [of _ "[]"]) (auto simp: finish_def)
  next
    case (again n latest v w1 w2 w3 replaced failed' s2 w4 left')
    have l: "left' = left" using again(2) by simp
    let ?queue = "List.enumerate 0 (ls_pending s)"
    obtain kept lost own where k: "mset (ls_pending s) = mset kept + mset (map fst lost) + mset own"
      "ls_pending s2 = kept" "ls_events s2 = ls_events s @ map dropped lost"
      "fared (callers current ?queue) None failed own replaced failed' (ls_pending s2)"
      using replay_accounts [OF again(4)] by (auto simp: reloaded_def)
    define mine2 where "mine2 = (if own = [] then mine else None)"
    have w: "waits_for replaced failed' mine2 s2 \<and> (failed \<noteq> None \<longrightarrow> failed' \<noteq> None) \<and>
        (own = [] \<or> (\<exists>e. own = [e] \<and> mine = Some e \<and> failed' \<noteq> None))"
    proof (cases current)
      case None
      then have "own = []" "replaced = None" "failed' = failed" "mine = None"
        using k(4) Suc.prems(2) by (simp_all add: fared_def callers_def waits_for_def)
      then show ?thesis by (simp add: waits_for_def mine2_def)
    next
      case (Some c)
      then have m: "failed = None" "callers current ?queue = mine" "mine \<noteq> None"
        using Suc.prems(2) callers_enumerate [of c "ls_pending s"] by (simp_all add: waits_for_def)
      then show ?thesis using k(4)
        by (auto simp: fared_def mine2_def waits_for_def)
    qed
    obtain kept2 lost2 own2 where k2: "mset (ls_pending s2) = mset kept2 + mset (map fst lost2) + mset own2"
      "ls_events s' = ls_events s2 @ map dropped lost2"
      "own2 = [] \<or> (\<exists>e err. own2 = [e] \<and> mine2 = Some e \<and> r = Inl err)"
      "failed' \<noteq> None \<longrightarrow> (\<exists>err. r = Inl err)"
      "ls_pending s' = kept2 \<or> ls_pending s' = [] \<and> stored_as out s' kept2"
      using Suc.IH [OF again(5) [unfolded l] conjunct1 [OF w]] by (elim exE conjE) (rule that)
    show ?thesis
    proof (intro exI conjI)
      show "mset (ls_pending s) = mset kept2 + mset (map fst (lost @ lost2)) + mset (own @ own2)"
        using k(1,2) k2(1) by simp
      show "own @ own2 = [] \<or> (\<exists>e err. own @ own2 = [e] \<and> mine = Some e \<and> r = Inl err)"
        using w k2(3,4) by (auto simp: mine2_def)
      show "failed \<noteq> None \<longrightarrow> (\<exists>err. r = Inl err)" using w k2(4) by blast
    qed (use k(3) k2(2,5) in simp_all)
  qed (intro exI [of _ "ls_pending s"] exI [of _ "[]"]; auto simp: finish_def)+
qed

end
