(* ===== verification/Queue_Theorems.thy ===== *)
theory Queue_Theorems
  imports Queue_Accounts
begin

text \<open>What the operations of the loader keep of its layers, its queue and its storage.\<close>

section \<open>Every run of operations\<close>

definition fresh_loader :: loader_state where
  "fresh_loader = \<lparr>ls_layers = [], ls_editable = None, ls_version = [], ls_pending = [], ls_events = []\<rparr>"

text \<open>
  The states between operations none of which was given up.  The layers the
  application gives to \<open>reconcile\<close> hold the editable one as it is stored
  under the version it gives.
\<close>

inductive loader_runs :: "'w outside \<Rightarrow> (string \<Rightarrow> string \<Rightarrow> patch list) \<Rightarrow> loader_state \<Rightarrow> bool" for out stored where
  lr_start: "loader_runs out stored fresh_loader"
| lr_edit: "loader_runs out stored s \<Longrightarrow> edit_op out e s w = (Answer r, s', w') \<Longrightarrow> loader_runs out stored s'"
| lr_flush: "loader_runs out stored s \<Longrightarrow> flush_op out s w = (Answer r, s', w') \<Longrightarrow> loader_runs out stored s'"
| lr_reconcile: "loader_runs out stored s \<Longrightarrow> reconcile_op out layers editable s w = (Answer q, s', w') \<Longrightarrow>
    (\<And>name v n. editable = Some (name, v) \<Longrightarrow> position (\<lambda>l. ly_name l = name) layers = Some n \<Longrightarrow>
       stored name v = ly_patches (layers ! n)) \<Longrightarrow> loader_runs out stored s'"

lemma synced_edit:
  assumes "keeps_versions out stored" and "synced stored s" and "edit_op out e s w = (Answer r, s', w')"
  shows "synced stored s'"
proof (cases "ou_open out w")
  case True
  then have "and_after (commit out e s w) (\<lambda>r s1 w1. case r of
          Inl err \<Rightarrow> (Answer (Inl err), s1, w1)
        | Inr _ \<Rightarrow> and_after (persist_queue out (Some (length (ls_pending s1))) (s1\<lparr>ls_pending := ls_pending s1 @ [e]\<rparr>) w1)
              (\<lambda>result s2 w2. (Answer result, emit_event (Edited e) s2, w2))) = (Answer r, s', w')"
    using assms(3) by (simp add: edit_op_def)
  then obtain a s1 w1 where c: "commit out e s w = (Answer a, s1, w1)"
    and k: "(case a of Inl err \<Rightarrow> (Answer (Inl err), s1, w1)
        | Inr _ \<Rightarrow> and_after (persist_queue out (Some (length (ls_pending s1))) (s1\<lparr>ls_pending := ls_pending s1 @ [e]\<rparr>) w1)
              (\<lambda>result s2 w2. (Answer result, emit_event (Edited e) s2, w2))) = (Answer r, s', w')"
    by (rule and_after_Answer)
  show ?thesis
  proof (cases a)
    case (Inl err)
    have "s1 = s" by (rule commit_Inl [OF c [unfolded Inl]])
    then show ?thesis using k assms(2) Inl by simp
  next
    case (Inr u)
    have sy: "synced stored (s1\<lparr>ls_pending := ls_pending s1 @ [e]\<rparr>)"
      by (rule synced_commit [OF assms(2) c [unfolded Inr]])
    obtain result s2 w2 where p: "persist_queue out (Some (length (ls_pending s1))) (s1\<lparr>ls_pending := ls_pending s1 @ [e]\<rparr>) w1 =
        (Answer result, s2, w2)" "s' = emit_event (Edited e) s2"
      using k Inr by (auto elim: and_after_Answer)
    have "synced stored s2" using synced_persist [OF assms(1) p(1) [unfolded persist_queue_def] sy] by blast
    then show ?thesis using p(2) by simp
  qed
qed (use assms in \<open>simp add: edit_op_def\<close>)

lemma synced_replay_all:
  "replay_all out queue s w = (Answer u, s', w') \<Longrightarrow> synced stored s \<Longrightarrow> synced stored s'"
proof (induction out queue s w rule: replay_all.induct)
  case (2 out e queue s w)
  obtain a s1 w1 where c: "commit out e s w = (Answer a, s1, w1)"
    by (rule and_after_Answer [OF "2.prems"(1) [unfolded replay_all.simps]])
  show ?case
  proof (cases a)
    case (Inl err)
    have s1: "s1 = s" by (rule commit_Inl [OF c [unfolded Inl]])
    then have "replay_all out queue (emit_event (EditDropped e err) s) w1 = (Answer u, s', w')"
      using "2.prems"(1) c Inl by (simp add: and_after_def)
    then show ?thesis using "2.IH"(1) [OF Inl, of s w1] "2.prems"(2) by simp
  next
    case (Inr x)
    have sy: "synced stored (s1\<lparr>ls_pending := ls_pending s1 @ [e]\<rparr>)"
      by (rule synced_commit [OF "2.prems"(2) c [unfolded Inr]])
    have "replay_all out queue (s1\<lparr>ls_pending := ls_pending s1 @ [e]\<rparr>) w1 = (Answer u, s', w')"
      using "2.prems"(1) c Inr by (simp add: and_after_def)
    then show ?thesis using "2.IH"(2) [OF Inr, of s1 w1] sy by blast
  qed
qed simp

lemma synced_take_layers:
  assumes "\<And>n v. at = Some (n, v) \<Longrightarrow> n < length layers \<and> stored (ly_name (layers ! n)) v = ly_patches (layers ! n)"
  shows "synced stored (take_layers layers at s)"
  using assms by (cases at) (auto simp: synced_def take_layers_def)

lemma synced_reconcile:
  assumes "keeps_versions out stored" and "synced stored s" and "reconcile_op out layers editable s w = (Answer r, s', w')"
    and "\<And>name v n. editable = Some (name, v) \<Longrightarrow> position (\<lambda>l. ly_name l = name) layers = Some n \<Longrightarrow>
       stored name v = ly_patches (layers ! n)"
  shows "synced stored s'"
proof -
  show ?thesis
  proof (cases "ou_open out w \<and> (\<exists>at. find_editable layers editable = Inr at)")
    case False
    then have "s' = s"
      using assms(3) by (cases "find_editable layers editable") (auto simp: reconcile_op_def split: if_splits)
    then show ?thesis using assms(2) by simp
  next
    case True
    then obtain at where open_: "ou_open out w" and at: "find_editable layers editable = Inr at" by blast
    have ok: "n < length layers \<and> stored (ly_name (layers ! n)) v = ly_patches (layers ! n)" if "at = Some (n, v)" for n v
    proof -
      obtain name where "editable = Some (name, v)" "position (\<lambda>l. ly_name l = name) layers = Some n"
        using at \<open>at = Some (n, v)\<close> by (auto simp: find_editable_def split: option.splits prod.splits)
      then show ?thesis using assms(4) position_SomeD by fastforce
    qed
    define s1 where "s1 = take_layers layers at s"
    have sy: "synced stored s1" unfolding s1_def using ok by (rule synced_take_layers)
    define queue where "queue = (case at of None \<Rightarrow> [] | Some _ \<Rightarrow> ls_pending s)"
    have "awaiting (ou_reconcile out layers w) s1 (reconciled out queue s1) = (Answer r, s', w')"
      using assms(3) open_ at by (simp add: reconcile_op_def s1_def queue_def)
    then obtain new w1 where k: "reconciled out queue s1 new w1 = (Answer r, s', w')"
      by (rule awaiting_Answer)
    show ?thesis
    proof (cases "queue = []")
      case False
      then obtain u s2 w2 where r: "replay_all out queue s1 w1 = (Answer u, s2, w2)"
        and p: "and_after (persist_queue out None s2 w2) (\<lambda>_ s3 w3. (Answer (Inr new), emit_event Reconciled s3, w3)) =
          (Answer r, s', w')"
        using k by (auto simp: reconciled_def elim: and_after_Answer)
      obtain a s3 w3 where q: "persist_queue out None s2 w2 = (Answer a, s3, w3)"
        and s': "(Answer (Inr new), emit_event Reconciled s3, w3) = (Answer r, s', w')"
        by (rule and_after_Answer [OF p])
      have "synced stored s3"
        using synced_persist [OF assms(1) q [unfolded persist_queue_def] synced_replay_all [OF r sy]] by blast
      then show ?thesis using s' by auto
    qed (use k sy in \<open>auto simp: reconciled_def\<close>)
  qed
qed

text \<open>
  C22. Between operations the edits in the queue, applied in order to the
  content the storage has under the version the loader holds, give the
  editable layer as it is in memory; with nothing queued the layer is what is
  stored.  This holds through failed and conflicting saves, replays on newer
  content and new layers, for a storage that is only relied on for saves that
  were told so.
\<close>

theorem queue_replays_the_storage:
  assumes "keeps_versions out stored" and "loader_runs out stored s" and "ls_editable s = Some n"
  shows "n < length (ls_layers s) \<and>
    replayed (replace_layer (ls_layers s) n (stored (ly_name (ls_layers s ! n)) (ls_version s))) n (ls_pending s) =
      Some (ly_patches (ls_layers s ! n)) \<and>
    (ls_pending s = [] \<longrightarrow> stored (ly_name (ls_layers s ! n)) (ls_version s) = ly_patches (ls_layers s ! n))"
proof -
  have "synced stored s" using assms(2)
  proof induction
    case lr_start
    then show ?case by (simp add: synced_def fresh_loader_def)
  next
    case (lr_edit s e w r s' w')
    show ?case by (rule synced_edit [OF assms(1) lr_edit.IH lr_edit.hyps(2)])
  next
    case (lr_flush s w r s' w')
    then show ?case
      using synced_persist [OF assms(1)] by (fastforce simp: flush_op_def persist_queue_def split: if_splits)
  next
    case (lr_reconcile s layers editable w q s' w')
    show ?case by (rule synced_reconcile [OF assms(1) lr_reconcile.IH lr_reconcile.hyps(2,3)])
  qed
  then show ?thesis using assms(3) by (auto simp: synced_def)
qed

text \<open>
  An edit that is refused (by its guards, the dry run, or because rows
  newly fail and it is rolled back) leaves the layers, the queue, the version
  and the events as they were, and nothing is stored for it.
\<close>

theorem refused_edit_changes_nothing:
  assumes "ou_open out w" and "commit out e s w = (Answer (Inl err), s', w')"
  shows "s' = s \<and> edit_op out e s w = (Answer (Inl err), s, w')"
  using commit_Inl [OF assms(2)] assms by (simp add: edit_op_def and_after_def)

text \<open>
  C23. No queued edit is lost by storing the queue, through any number of
  conflicts: each one queued before is still queued, or was in a save that
  succeeded, or is reported as dropped, or is the one the caller waits for and
  is answered with an error.  (The caller is the one whose edit has the index
  given; the edits keep their numbers, counted as a multiset.)
\<close>

theorem no_queued_edit_is_lost:
  assumes "persist_queue out current s w = (Answer r, s', w')"
    and "\<And>k. current = Some k \<Longrightarrow> k < length (ls_pending s)"
  shows "\<exists>kept lost own. mset (ls_pending s) = mset kept + mset (map fst lost) + mset own \<and>
    ls_events s' = ls_events s @ map dropped lost \<and>
    (own = [] \<or> (\<exists>k err. current = Some k \<and> own = [ls_pending s ! k] \<and> r = Inl err)) \<and>
    (ls_pending s' = kept \<or> ls_pending s' = [] \<and> stored_as out s' kept)"
proof -
  let ?mine = "map_option ((!) (ls_pending s)) current"
  have w: "waits_for current None ?mine s" using assms(2) by (simp add: waits_for_def split: option.split)
  obtain kept lost own where k: "mset (ls_pending s) = mset kept + mset (map fst lost) + mset own"
    "ls_events s' = ls_events s @ map dropped lost"
    "own = [] \<or> (\<exists>e err. own = [e] \<and> ?mine = Some e \<and> r = Inl err)"
    "ls_pending s' = kept \<or> ls_pending s' = [] \<and> stored_as out s' kept"
    using persist_accounts [OF assms(1) [unfolded persist_queue_def] w] by (elim exE conjE) (rule that)
  have "own = [] \<or> (\<exists>k err. current = Some k \<and> own = [ls_pending s ! k] \<and> r = Inl err)"
    using k(3) by auto
  then show ?thesis using k by (intro exI conjI) 
qed

section \<open>A caller that gives up\<close>

text \<open>
  A caller that gives up while its edit is being applied leaves the edit in
  the layers but not in the queue: a later \<open>flush\<close> succeeds and stores
  nothing of it.
\<close>

theorem given_up_edit_is_not_queued:
  assumes "ls_editable s = Some n" and "edited (ls_layers s) n e = Inr ps" and "ou_open out w"
    and "dry_run_edit out (replace_layer (ls_layers s) n ps) e w = (Some None, w1)"
    and "ou_reconcile out (replace_layer (ls_layers s) n ps) (reset_row out e w1) = (None, w2)"
    and "ls_pending s = []" and "s' = s\<lparr>ls_layers := replace_layer (ls_layers s) n ps\<rparr>"
  shows "edit_op out e s w = (GaveUp, s', w2) \<and>
    (ou_open out w3 \<longrightarrow> flush_op out s' w3 = (Answer (Inr ()), s', w3))"
proof
  have "commit out e s w = (GaveUp, s', w2)"
    using assms by (simp add: commit_def Let_def awaiting_def)
  then show "edit_op out e s w = (GaveUp, s', w2)" using assms(3) by (simp add: edit_op_def and_after_def)
  show "ou_open out w3 \<longrightarrow> flush_op out s' w3 = (Answer (Inr ()), s', w3)"
    using assms(1,6,7) by (simp add: flush_op_def persist_queue_def persist_loop.simps finish_def)
qed

text \<open>
  A caller that gives up while the tree is reconciled with the layer loaded
  after a conflict takes the whole queue with it: no event says so, and the
  next \<open>flush\<close> succeeds.
\<close>

theorem given_up_replay_loses_the_queue:
  assumes "ls_editable s = Some n" and "ls_pending s \<noteq> []" and "ou_open out w"
    and "ou_save out (ly_name (ls_layers s ! n)) (ls_version s) (ls_pending s) (ly_patches (ls_layers s ! n)) w =
      (Some SaveConflict, w1)"
    and "ou_load out (ly_name (ls_layers s ! n)) w1 = (Some (Inr (latest, v)), w2)"
    and "s' = reloaded s n latest v" and "ou_reconcile out (ls_layers s') w2 = (None, w3)"
  shows "flush_op out s w = (GaveUp, s', w3) \<and> ls_pending s' = [] \<and> ls_events s' = ls_events s \<and>
    (ou_open out w4 \<longrightarrow> flush_op out s' w4 = (Answer (Inr ()), s', w4))"
proof (intro conjI)
  have "persist_loop (Suc m) out None None s w = (GaveUp, s', w3)" for m
    using assms by (simp add: persist_loop.simps [of "Suc m"] Let_def awaiting_def)
  then show "flush_op out s w = (GaveUp, s', w3)"
    using assms(3) by (simp add: flush_op_def persist_queue_def CONFLICT_RETRIES_def eval_nat_numeral)
  show "ou_open out w4 \<longrightarrow> flush_op out s' w4 = (Answer (Inr ()), s', w4)"
    using assms(1,6) by (simp add: flush_op_def persist_queue_def persist_loop.simps finish_def reloaded_def)
qed (simp_all add: assms(6) reloaded_def)

section \<open>A scripted storage\<close>

text \<open>The answers of the storage and of the reconciled tree, in order; afterwards all succeeds.\<close>

record script =
  sc_saves :: "save_answer option list"
  sc_loads :: "(loader_error + patch list \<times> string) option list"
  sc_reconciles :: "failure list option list"

definition scripted :: "script outside" where
  "scripted = \<lparr>ou_open = (\<lambda>_. True), ou_dry_run = (\<lambda>_ _ w. (Some None, w)),
     ou_reconcile = (\<lambda>_ w. case sc_reconciles w of [] \<Rightarrow> (Some [], w) | a # as \<Rightarrow> (a, w\<lparr>sc_reconciles := as\<rparr>)),
     ou_failing = (\<lambda>_. []), ou_forget = (\<lambda>_ w. w), ou_unstop = (\<lambda>_ w. w),
     ou_load = (\<lambda>_ w. case sc_loads w of [] \<Rightarrow> (Some (Inr ([], [])), w) | a # as \<Rightarrow> (a, w\<lparr>sc_loads := as\<rparr>)),
     ou_save = (\<lambda>_ v _ _ w. case sc_saves w of [] \<Rightarrow> (Some (Saved v), w) | a # as \<Rightarrow> (a, w\<lparr>sc_saves := as\<rparr>))\<rparr>"

definition demo_loader :: "patch list \<Rightarrow> edit list \<Rightarrow> loader_state" where
  "demo_loader ps es = \<lparr>ls_layers = [user_layer ps], ls_editable = Some 0, ls_version = ''0'', ls_pending = es, ls_events = []\<rparr>"

abbreviation add_row :: "string \<Rightarrow> edit" where
  "add_row i \<equiv> Create (row i []) None None"

text \<open>
  The caller's edit of row \<open>c\<close> was dropped by the replay (the row is not in
  the layer stored meanwhile), the edit queued before it was not.  When the
  second save conflicts too and the layer cannot be loaded, the caller is told
  that its edit was not persisted, not that it was dropped.
\<close>

theorem dropped_edit_is_answered_as_queued:
  "(case edit_op scripted (Update ''c'' demo_config)
      (demo_loader [demo_insert None [row ''c'' []], demo_insert None [row ''b'' []]] [add_row ''b''])
      \<lparr>sc_saves = [Some SaveConflict, Some SaveConflict],
       sc_loads = [Some (Inr ([], ''1'')), Some (Inl (Resolve ''c'' ''gone''))], sc_reconciles = []\<rparr> of
    (r, s, w) \<Rightarrow> r = Answer (Inl (LoadFailed (Resolve ''c'' ''gone''))) \<and> ls_pending s = [add_row ''b''] \<and>
      ls_events s = [Edited (Update ''c'' demo_config)])"
  by code_simp

section \<open>Witnesses\<close>

text \<open>A storage that keeps an empty layer, or one with row \<open>a\<close>, and has a conflict for any other.\<close>

definition row_storage :: "unit outside" where
  "row_storage = \<lparr>ou_open = (\<lambda>_. True), ou_dry_run = (\<lambda>_ _ w. (Some None, w)), ou_reconcile = (\<lambda>_ w. (Some [], w)),
     ou_failing = (\<lambda>_. []), ou_forget = (\<lambda>_ w. w), ou_unstop = (\<lambda>_ w. w),
     ou_load = (\<lambda>_ w. (Some (Inr ([], ''0'')), w)),
     ou_save = (\<lambda>_ _ _ ps w. (Some (if ps = [] then Saved ''0''
       else if ps = [root_insert (row ''a'' [])] then Saved ''1'' else SaveConflict), w))\<rparr>"

definition row_stored :: "string \<Rightarrow> string \<Rightarrow> patch list" where
  "row_stored name v = (if v = ''1'' then [root_insert (row ''a'' [])] else [])"

lemma row_storage_keeps_versions: "keeps_versions row_storage row_stored"
  by (auto simp: keeps_versions_def row_storage_def row_stored_def split: if_splits)

theorem queue_replays_the_storage_witness:
  "\<exists>s. loader_runs row_storage row_stored s \<and> ls_pending s = [add_row ''b''] \<and>
     replayed [user_layer []] 0 [add_row ''b''] = Some (ly_patches (ls_layers s ! 0))"
proof -
  let ?s = "\<lparr>ls_layers = [user_layer [root_insert (row ''b'' [])]], ls_editable = Some 0, ls_version = ''0'',
    ls_pending = [add_row ''b''], ls_events = [Reconciled, Edited (add_row ''b'')]\<rparr>"
  have "reconcile_op row_storage [user_layer []] (Some (ly_name (user_layer []), ''0'')) fresh_loader () =
      (Answer (Inr []), emit_event Reconciled (demo_loader [] []), ())" by code_simp
  then have "loader_runs row_storage row_stored (emit_event Reconciled (demo_loader [] []))"
    by (rule lr_reconcile [OF lr_start]) (auto simp: row_stored_def user_layer_def split: if_splits)
  moreover have "edit_op row_storage (add_row ''b'') (emit_event Reconciled (demo_loader [] [])) () =
      (Answer (Inl Conflict), ?s, ())" by code_simp
  ultimately have s: "loader_runs row_storage row_stored ?s" by (rule lr_edit)
  have "replayed (replace_layer (ls_layers ?s) 0 (row_stored (ly_name (ls_layers ?s ! 0)) (ls_version ?s))) 0 (ls_pending ?s) =
      Some (ly_patches (ls_layers ?s ! 0))"
    using queue_replays_the_storage [OF row_storage_keeps_versions s, of 0] by simp
  then have "replayed [user_layer []] 0 [add_row ''b''] = Some (ly_patches (ls_layers ?s ! 0))"
    by (simp add: row_stored_def replace_layer_def user_layer_def)
  with s show ?thesis by (intro exI [of _ ?s]) simp
qed

text \<open>A second row with the id of the first is refused.\<close>

theorem refused_edit_changes_nothing_witness:
  "edit_op row_storage (add_row ''a'') (demo_loader [root_insert (row ''a'' [])] []) () =
     (Answer (Inl (RowExists ''a'')), demo_loader [root_insert (row ''a'' [])] [], ())"
proof -
  have "commit row_storage (add_row ''a'') (demo_loader [root_insert (row ''a'' [])] []) () =
      (Answer (Inl (RowExists ''a'')), demo_loader [root_insert (row ''a'' [])] [], ())" by code_simp
  from refused_edit_changes_nothing [OF _ this] show ?thesis by (simp add: row_storage_def)
qed

text \<open>After a conflict the queued edit of row \<open>c\<close> is dropped, and the new row \<open>a\<close> is stored.\<close>

theorem no_queued_edit_is_lost_witness:
  "\<exists>kept lost own. mset [Update ''c'' demo_config, add_row ''a''] = mset kept + mset (map fst lost) + mset own \<and>
    [EditDropped (Update ''c'' demo_config) (UnknownEntry ''c'')] = map dropped lost \<and> own = []"
proof -
  let ?q = "[Update ''c'' demo_config, add_row ''a'']"
  let ?s = "demo_loader [root_insert (row ''c'' [])] ?q"
  have "persist_queue row_storage (Some 1) ?s () = (Answer (Inr ()),
      \<lparr>ls_layers = [user_layer [root_insert (row ''a'' [])]], ls_editable = Some 0, ls_version = ''1'', ls_pending = [],
       ls_events = [EditDropped (Update ''c'' demo_config) (UnknownEntry ''c'')]\<rparr>, ())" by code_simp
  from no_queued_edit_is_lost [OF this] obtain kept lost own where
    "mset ?q = mset kept + mset (map fst lost) + mset own"
    "[EditDropped (Update ''c'' demo_config) (UnknownEntry ''c'')] = map dropped lost" "own = []"
    by (auto simp: demo_loader_def simp del: mset.simps)
  then show ?thesis by (intro exI conjI)
qed

end
