(* ===== verification/Decimal_Text.thy ===== *)
theory Decimal_Text
  imports Rutis_Prelude
begin

text \<open>Decimal digits: reading them, \<open>{}\<close> and \<open>{:0w}\<close>, and that the two agree.\<close>

definition is_digit :: "char \<Rightarrow> bool" where
  "is_digit c \<longleftrightarrow> 48 \<le> (of_char c :: nat) \<and> (of_char c :: nat) \<le> 57"

definition digit_value :: "char \<Rightarrow> nat" where
  "digit_value c = of_char c - 48"

lemma digit_char_simps [simp]:
  assumes "d < 10"
  shows "is_digit (digit_char d)" "digit_value (digit_char d) = d"
  using assms by (simp_all add: is_digit_def digit_value_def digit_char_def)

lemma digit_char_value [simp]: "is_digit c \<Longrightarrow> digit_char (digit_value c) = c"
  by (simp add: is_digit_def digit_value_def digit_char_def)

lemma digit_value_less [simp]: "is_digit c \<Longrightarrow> digit_value c < 10"
  by (auto simp: is_digit_def digit_value_def)

text \<open>The value of a row of digits, as a loop that multiplies by ten computes it.\<close>

definition number_of :: "string \<Rightarrow> nat" where
  "number_of ds = foldl (\<lambda>v c. v * 10 + digit_value c) 0 ds"

lemma number_of_from: "foldl (\<lambda>v c. v * 10 + digit_value c) a ds = a * 10 ^ length ds + number_of ds"
proof (induction ds arbitrary: a)
  case (Cons c ds)
  show ?case using Cons.IH [of "a * 10 + digit_value c"] Cons.IH [of "digit_value c"]
    by (simp add: number_of_def algebra_simps)
qed (simp add: number_of_def)

lemma number_of_simps [simp]:
  "number_of [] = 0"
  "number_of (c # ds) = digit_value c * 10 ^ length ds + number_of ds"
  "number_of (ds @ [c]) = number_of ds * 10 + digit_value c"
  using number_of_from [of "digit_value c" ds] by (simp_all add: number_of_def)

lemma number_of_append: "number_of (as @ bs) = number_of as * 10 ^ length bs + number_of bs"
  using number_of_from [of "number_of as" bs] by (simp add: number_of_def)

lemma number_of_less: "\<forall>c \<in> set ds. is_digit c \<Longrightarrow> number_of ds < 10 ^ length ds"
proof (induction ds)
  case (Cons c ds)
  then have "number_of ds < 10 ^ length ds" and "digit_value c \<le> 9" using digit_value_less [of c] by (auto simp: less_Suc_eq_le [symmetric])
  then have "digit_value c * 10 ^ length ds + number_of ds < 9 * 10 ^ length ds + 10 ^ length ds"
    by (intro add_le_less_mono mult_le_mono1)
  then show ?case by simp
qed simp

lemma last_digit: "a * 10 + x = b * 10 + y \<Longrightarrow> x < 10 \<Longrightarrow> y < 10 \<Longrightarrow> x = y \<and> a = (b::nat)"
  by presburger

text \<open>The same number of digits and the same value: the same text.\<close>

lemma number_of_inj:
  "length as = length bs \<Longrightarrow> \<forall>c \<in> set as. is_digit c \<Longrightarrow> \<forall>c \<in> set bs. is_digit c \<Longrightarrow>
   number_of as = number_of bs \<Longrightarrow> as = bs"
proof (induction as bs rule: rev_induct2)
  case (4 a as b bs)
  have "number_of as * 10 + digit_value a = number_of bs * 10 + digit_value b" using 4 by simp
  moreover have "digit_value a < 10" "digit_value b < 10" using 4 by simp_all
  ultimately have "digit_value a = digit_value b" "number_of as = number_of bs"
    using last_digit by blast+
  then have "digit_char (digit_value a) = digit_char (digit_value b)" by simp
  then have "a = b" using 4 by simp
  moreover have "as = bs" using 4 \<open>number_of as = number_of bs\<close> by simp
  ultimately show ?case by simp
qed auto

section \<open>Writing a number\<close>

lemma show_nat_digits: "\<forall>c \<in> set (show_nat n). is_digit c"
proof (induction n rule: show_nat.induct)
  case (1 n)
  then show ?case by (subst show_nat.simps) auto
qed

lemma number_of_show_nat [simp]: "number_of (show_nat n) = n"
proof (induction n rule: show_nat.induct)
  case (1 n)
  then show ?case by (subst show_nat.simps) simp
qed

lemma show_nat_length: "n < 10 ^ w \<Longrightarrow> 0 < w \<Longrightarrow> length (show_nat n) \<le> w"
proof (induction n arbitrary: w rule: show_nat.induct)
  case (1 n)
  show ?case
  proof (cases "n < 10")
    case False
    then obtain v where w: "w = Suc v" "0 < v" using "1.prems" by (cases w; cases "w - 1") auto
    have "n div 10 < 10 ^ v" using "1.prems" w by (simp add: less_mult_imp_div_less mult.commute)
    then have "length (show_nat (n div 10)) \<le> v" using "1.IH" [OF False] w by blast
    then show ?thesis using False w by (subst show_nat.simps) simp
  qed (use "1.prems" in \<open>subst show_nat.simps, simp\<close>)
qed

lemma show_nat_hd: "hd (show_nat n) = CHR ''0'' \<longleftrightarrow> n = 0"
proof (induction n rule: show_nat.induct)
  case (1 n)
  show ?case
  proof (cases "n < 10")
    case True
    have "digit_char n = CHR ''0'' \<longleftrightarrow> n = 0"
    proof
      assume "digit_char n = CHR ''0''"
      then have "digit_value (digit_char n) = 0" by (simp add: digit_value_def)
      then show "n = 0" using True digit_char_simps(2) [of n] by (simp del: digit_char_simps)
    next
      have "digit_char 0 = CHR ''0''" by code_simp
      then show "n = 0 \<Longrightarrow> digit_char n = CHR ''0''" by simp
    qed
    then show ?thesis using True by (subst show_nat.simps) simp
  next
    case False
    then have "show_nat n = show_nat (n div 10) @ [digit_char (n mod 10)]" by (subst show_nat.simps) simp
    then show ?thesis using 1 False by (simp add: hd_append)
  qed
qed

text \<open>Digits without a leading zero are the text of their value.\<close>

lemma show_nat_number_of:
  "\<forall>c \<in> set ds. is_digit c \<Longrightarrow> ds \<noteq> [] \<Longrightarrow> ds = ''0'' \<or> hd ds \<noteq> CHR ''0'' \<Longrightarrow> show_nat (number_of ds) = ds"
proof (induction ds rule: rev_induct)
  case (snoc c ds)
  have c: "is_digit c" "digit_value c < 10" using snoc.prems by simp_all
  show ?case
  proof (cases "ds = []")
    case True
    then show ?thesis using c by (subst show_nat.simps) simp
  next
    case False
    then have h: "hd ds \<noteq> CHR ''0''" using snoc.prems by auto
    have "number_of ds \<noteq> 0"
      using snoc.IH snoc.prems h False show_nat_hd [of 0] by (metis Un_iff set_append)
    then have "show_nat (number_of ds * 10 + digit_value c) =
        show_nat ((number_of ds * 10 + digit_value c) div 10) @ [digit_char ((number_of ds * 10 + digit_value c) mod 10)]"
      by (subst show_nat.simps) simp
    also have "\<dots> = ds @ [c]" using c snoc.IH snoc.prems h False by simp
    finally show ?thesis by simp
  qed
qed simp

text \<open>\<open>{:0w}\<close>.\<close>

definition zero_padded :: "nat \<Rightarrow> nat \<Rightarrow> string" where
  "zero_padded w n = replicate (w - length (show_nat n)) (CHR ''0'') @ show_nat n"

lemma digit_zero [simp]: "is_digit (CHR ''0'')" "digit_value (CHR ''0'') = 0"
  by (simp_all add: is_digit_def digit_value_def)

lemma number_of_zeros [simp]: "number_of (replicate k (CHR ''0'')) = 0"
  by (induction k) simp_all

lemma zero_padded_digits: "\<forall>c \<in> set (zero_padded w n). is_digit c"
  using show_nat_digits [of n] by (auto simp: zero_padded_def)

lemma number_of_zero_padded [simp]: "number_of (zero_padded w n) = n"
  by (simp add: zero_padded_def number_of_append)

lemma zero_padded_length: "n < 10 ^ w \<Longrightarrow> 0 < w \<Longrightarrow> length (zero_padded w n) = w"
  using show_nat_length [of n w] by (simp add: zero_padded_def)

lemma zero_padded_number_of:
  assumes "\<forall>c \<in> set ds. is_digit c" and "length ds = w" and "0 < w"
  shows "zero_padded w (number_of ds) = ds"
  using number_of_inj [of "zero_padded w (number_of ds)" ds] assms zero_padded_digits
    zero_padded_length [of "number_of ds" w] number_of_less [OF assms(1)] by simp

end
