(* ===== verification/Value_Calendar.thy ===== *)
theory Value_Calendar
  imports Rutis_Prelude "HOL-Library.Signed_Division"
begin

text \<open>
  The calendar of the tagged values, \<open>crates/rutis-bridge/src/session/values.rs\<close>:
  days since 1970-01-01 and dates of the proleptic Gregorian calendar.

  The arithmetic is that of \<open>i64\<close>: division rounds towards zero.  The values
  stay far from its bounds, as the callers admit only years and days within
  0001 to 9999.
\<close>

section \<open>The functions\<close>

definition SECONDS_PER_DAY :: int where
  "SECONDS_PER_DAY = 86400"

definition days_from_civil :: "int \<Rightarrow> int \<Rightarrow> int \<Rightarrow> int" where
  "days_from_civil y month day =
     (let year = if month \<le> 2 then y - 1 else y;
          era = (if year \<ge> 0 then year else year - 399) sdiv 400;
          year_of_era = year - era * 400;
          month_from_march = (month + 9) smod 12;
          day_of_year = (153 * month_from_march + 2) sdiv 5 + day - 1;
          day_of_era = year_of_era * 365 + year_of_era sdiv 4 - year_of_era sdiv 100 + day_of_year
      in era * 146097 + day_of_era - 719468)"

definition as_u8 :: "int \<Rightarrow> int" where
  "as_u8 n = n mod 256"

definition civil_from_days :: "int \<Rightarrow> int \<times> int \<times> int" where
  "civil_from_days n =
     (let days = n + 719468;
          era = (if days \<ge> 0 then days else days - 146096) sdiv 146097;
          day_of_era = days - era * 146097;
          year_of_era =
            (day_of_era - day_of_era sdiv 1460 + day_of_era sdiv 36524 - day_of_era sdiv 146096) sdiv 365;
          day_of_year = day_of_era - (365 * year_of_era + year_of_era sdiv 4 - year_of_era sdiv 100);
          month_from_march = (5 * day_of_year + 2) sdiv 153;
          day = as_u8 (day_of_year - (153 * month_from_march + 2) sdiv 5 + 1);
          month = as_u8 (if month_from_march < 10 then month_from_march + 3 else month_from_march - 9);
          year = year_of_era + era * 400 + (if month \<le> 2 then 1 else 0)
      in (year, month, day))"

definition is_leap :: "int \<Rightarrow> bool" where
  "is_leap year \<longleftrightarrow> 4 dvd year \<and> (\<not> 100 dvd year \<or> 400 dvd year)"

definition days_in_month :: "int \<Rightarrow> int \<Rightarrow> int" where
  "days_in_month year month =
     (if month = 2 \<and> is_leap year then 29
      else if month = 2 then 28
      else if month \<in> {4, 6, 9, 11} then 30
      else 31)"

section \<open>Years that start in March\<close>

text \<open>
  A year of the era from its first of March: its number in the era and the day
  in it, the 366th only where the February at its end is a leap month.
\<close>

definition march_year :: "int \<Rightarrow> int \<Rightarrow> bool" where
  "march_year yoe doy \<longleftrightarrow> 0 \<le> yoe \<and> yoe < 400 \<and> 0 \<le> doy \<and> doy \<le> 365 \<and> (doy = 365 \<longrightarrow> is_leap (yoe + 1))"

definition era_day :: "int \<Rightarrow> int \<Rightarrow> int" where
  "era_day yoe doy = yoe * 365 + yoe div 4 - yoe div 100 + doy"

lemma div_between: "b * k \<le> a \<Longrightarrow> a < b * k + b \<Longrightarrow> a div b = (k::int)"
  by (rule int_div_pos_eq [of a b k "a - b * k"]) simp_all

lemma div_parts:
  assumes "0 < (b::int)"
  obtains k where "a div b = k" "b * k \<le> a" "a < b * k + b"
proof
  show "b * (a div b) \<le> a" using assms pos_mod_sign [of b a] mult_div_mod_eq [of b a] by linarith
  show "a < b * (a div b) + b" using assms pos_mod_bound [of b a] mult_div_mod_eq [of b a] by linarith
qed simp

lemma era_parts:
  assumes "0 \<le> yoe" and "yoe < (400::int)"
  obtains c q r where "yoe = 100 * c + 4 * q + r" "0 \<le> c" "c \<le> 3" "0 \<le> q" "q \<le> 24" "0 \<le> r" "r \<le> 3"
    "yoe div 4 = 25 * c + q" "yoe div 100 = c"
proof -
  obtain c where c: "yoe div 100 = c" "100 * c \<le> yoe" "yoe < 100 * c + 100" by (rule div_parts [of 100 yoe]) simp
  obtain q where q: "(yoe - 100 * c) div 4 = q" "4 * q \<le> yoe - 100 * c" "yoe - 100 * c < 4 * q + 4"
    by (rule div_parts [of 4 "yoe - 100 * c"]) simp
  have "yoe div 4 = 25 * c + q" using q(2,3) by (intro div_between) simp_all
  then show ?thesis using that [of c q "yoe - 100 * c - 4 * q"] assms c q by simp
qed

lemma leap_parts:
  assumes "yoe = 100 * c + 4 * q + r" and "0 \<le> q" and "q \<le> 24" and "0 \<le> r" and "r \<le> 3" and "0 \<le> c" and "c \<le> (3::int)"
  shows "is_leap (yoe + 1) \<longleftrightarrow> r = 3 \<and> (q \<noteq> 24 \<or> c = 3)"
proof -
  have yoe: "yoe + 1 = 4 * (25 * c + q) + (r + 1)" using assms(1) by simp
  have "4 dvd yoe + 1 \<longleftrightarrow> 4 dvd r + 1" unfolding yoe by (rule dvd_add_right_iff) simp
  also have "\<dots> \<longleftrightarrow> r = 3" using assms(4,5) by presburger
  finally have four: "4 dvd yoe + 1 \<longleftrightarrow> r = 3" .
  have hundred: "100 dvd yoe + 1 \<longleftrightarrow> q = 24" if "r = 3"
  proof -
    have "yoe + 1 = 100 * c + 4 * (q + 1)" using assms(1) that by simp
    then have "100 dvd yoe + 1 \<longleftrightarrow> 100 dvd 4 * (q + 1)"
      by (simp only:) (rule dvd_add_right_iff, simp)
    also have "\<dots> \<longleftrightarrow> q = 24" using assms(2,3) by presburger
    finally show ?thesis .
  qed
  have whole: "400 dvd yoe + 1 \<longleftrightarrow> c = 3" if "r = 3" "q = 24"
  proof -
    have "yoe + 1 = 100 * (c + 1)" using assms(1) that by simp
    then show ?thesis using assms(6,7) by presburger
  qed
  show ?thesis using four hundred whole by (auto simp: is_leap_def)
qed

lemma year_of_era:
  assumes "march_year yoe doy"
  defines "doe \<equiv> era_day yoe doy"
  shows "(doe - doe div 1460 + doe div 36524 - doe div 146096) div 365 = yoe" "0 \<le> doe" "doe < 146097"
proof -
  obtain c q r where p: "yoe = 100 * c + 4 * q + r" "0 \<le> c" "c \<le> 3" "0 \<le> q" "q \<le> 24" "0 \<le> r" "r \<le> 3"
    "yoe div 4 = 25 * c + q" "yoe div 100 = c"
    using assms(1) by (auto simp: march_year_def intro: era_parts)
  have doy: "0 \<le> doy" "doy \<le> 365" using assms(1) by (simp_all add: march_year_def)
  have leap: "doy \<le> 364 \<or> doy = 365 \<and> r = 3 \<and> (q \<le> 23 \<or> c = 3)"
    using assms(1) leap_parts [OF p(1,4-7,2,3)] p(5) by (auto simp: march_year_def)
  have doe: "doe = 36524 * c + 1461 * q + 365 * r + doy"
    using p by (simp add: doe_def era_day_def)
  show bounds: "0 \<le> doe" "doe < 146097"
    using p doy leap unfolding doe by linarith+
  define last where "last = (if doe = 146096 then 1 else 0 :: int)"
  have century: "doe div 36524 = c + last"
  proof (rule div_between)
    show "36524 * (c + last) \<le> doe" using p doy unfolding last_def doe by auto
    show "doe < 36524 * (c + last) + 36524" using p doy leap unfolding last_def doe by auto
  qed
  have whole: "doe div 146096 = last"
    using bounds unfolding last_def by (auto intro!: div_between)
  define late where "late = (if 24 * c + q + 365 * r + doy \<ge> 1460 then 1 else 0 :: int)"
  have leaps: "doe div 1460 = 25 * c + q + late"
  proof (rule div_between)
    show "1460 * (25 * c + q + late) \<le> doe" using p doy unfolding late_def doe by auto
    show "doe < 1460 * (25 * c + q + late) + 1460" using p doy unfolding late_def doe by auto
  qed
  show "(doe - doe div 1460 + doe div 36524 - doe div 146096) div 365 = yoe"
  proof (rule div_between)
    show "365 * yoe \<le> doe - doe div 1460 + doe div 36524 - doe div 146096"
      unfolding leaps century whole using p doy unfolding late_def doe by auto
    show "doe - doe div 1460 + doe div 36524 - doe div 146096 < 365 * yoe + 365"
      unfolding leaps century whole using p doy leap unfolding late_def doe by auto
  qed
qed

lemma era_day_exists:
  assumes "0 \<le> doe" and "doe < 146097"
  obtains yoe doy where "march_year yoe doy" "doe = era_day yoe doy"
proof -
  obtain k where k: "doe div 36524 = k" "36524 * k \<le> doe" "doe < 36524 * k + 36524" by (rule div_parts [of 36524 doe]) simp
  define c where "c = min 3 k"
  define r1 where "r1 = doe - 36524 * c"
  have c: "0 \<le> c" "c \<le> 3" "0 \<le> r1" "r1 \<le> 36524" "r1 = 36524 \<Longrightarrow> c = 3"
  proof -
    consider "3 \<le> k" "c = 3" | "k < 3" "c = k" unfolding c_def by linarith
    then show "0 \<le> c" "c \<le> 3" "0 \<le> r1" "r1 \<le> 36524" "r1 = 36524 \<Longrightarrow> c = 3"
      unfolding r1_def using assms k(2,3) by (cases; linarith)+
  qed
  obtain q where q1: "r1 div 1461 = q" "1461 * q \<le> r1" "r1 < 1461 * q + 1461" by (rule div_parts [of 1461 r1]) simp
  define r2 where "r2 = r1 - 1461 * q"
  have q: "0 \<le> q" "q \<le> 24" "0 \<le> r2" "r2 \<le> 1460" using c q1(2,3) by (auto simp: r2_def)
  have last: "q = 24 \<Longrightarrow> r2 = 1460 \<Longrightarrow> c = 3" using c by (auto simp: r2_def)
  obtain l where l: "r2 div 365 = l" "365 * l \<le> r2" "r2 < 365 * l + 365" by (rule div_parts [of 365 r2]) simp
  define r where "r = min 3 l"
  define doy where "doy = r2 - 365 * r"
  have r: "0 \<le> r" "r \<le> 3" "0 \<le> doy" "doy \<le> 365" "doy = 365 \<Longrightarrow> r = 3"
  proof -
    consider "3 \<le> l" "r = 3" | "l < 3" "r = l" unfolding r_def by linarith
    then show "0 \<le> r" "r \<le> 3" "0 \<le> doy" "doy \<le> 365" "doy = 365 \<Longrightarrow> r = 3"
      unfolding doy_def using q l(2,3) by (cases; linarith)+
  qed
  have leap: "q \<noteq> 24 \<or> c = 3" if "doy = 365" using last r(5) that by (auto simp: doy_def)
  define yoe where "yoe = 100 * c + 4 * q + r"
  have "yoe div 4 = 25 * c + q" "yoe div 100 = c"
    unfolding yoe_def using q r by (intro div_between; simp)+
  then have "doe = era_day yoe doy" by (simp add: era_day_def doy_def r2_def r1_def yoe_def)
  moreover have "march_year yoe doy"
    using c q r leap leap_parts [OF yoe_def q(1,2) r(1,2) c(1,2)] by (auto simp: march_year_def yoe_def)
  ultimately show ?thesis using that by blast
qed

section \<open>Days and dates\<close>

lemma sdiv_div [simp]: "0 \<le> a \<Longrightarrow> 0 < b \<Longrightarrow> a sdiv b = a div (b::int)"
  by (cases "a = 0") (simp_all add: signed_divide_int_def)

lemma era_sdiv:
  assumes "0 < (b::int)" and "c = b - 1"
  shows "(if a \<ge> 0 then a else a - c) sdiv b = a div b"
proof (cases "a \<ge> 0")
  case False
  obtain k where k: "a div b = k" "b * k \<le> a" "a < b * k + b" using assms(1) by (rule div_parts)
  have "(b - 1 - a) div b = - k" using k by (intro div_between) (simp_all add: algebra_simps)
  then show ?thesis using False assms k(1) by (simp add: signed_divide_int_def)
qed (use assms in simp)

text \<open>The number of the month from March on, and of its first day in the year.\<close>

definition from_march :: "int \<Rightarrow> int" where
  "from_march m = (m + 9) mod 12"

definition month_start :: "int \<Rightarrow> int" where
  "month_start m = (153 * from_march m + 2) div 5"

lemma months: "1 \<le> m \<Longrightarrow> m \<le> 12 \<Longrightarrow> m \<in> {1, 2, 3, 4, 5, 6, 7, 8, 9, 10, 11, 12 :: int}"
  by simp presburger

text \<open>A real date: the fields as \<open>Date::new\<close> admits them, of any year.\<close>

definition real_date :: "int \<Rightarrow> int \<Rightarrow> int \<Rightarrow> bool" where
  "real_date y m d \<longleftrightarrow> 1 \<le> m \<and> m \<le> 12 \<and> 1 \<le> d \<and> d \<le> days_in_month y m"

definition march_of :: "int \<Rightarrow> int \<Rightarrow> int" where
  "march_of y m = (if m \<le> 2 then y - 1 else y)"

lemma leap_era: "is_leap (y + 400 * k) = is_leap y"
proof -
  have "n dvd y + 400 * k \<longleftrightarrow> n dvd y" if "n dvd 400" for n
    using that by (metis dvd_add_left_iff dvd_mult2)
  then show ?thesis by (simp add: is_leap_def)
qed

lemma real_date_march:
  assumes "real_date y m d"
  shows "march_year (march_of y m mod 400) (month_start m + d - 1)"
proof -
  have m: "1 \<le> m" "m \<le> 12" and d: "1 \<le> d" "d \<le> days_in_month y m" using assms by (auto simp: real_date_def)
  have "is_leap (march_of y m mod 400 + 1)" if "m = 2" "is_leap y"
  proof -
    have "march_of y m mod 400 + 1 = y + 400 * - ((y - 1) div 400)"
      using that by (simp add: march_of_def minus_mult_div_eq_mod [symmetric])
    then show ?thesis using that leap_era [of y "- ((y - 1) div 400)"] by simp
  qed
  then show ?thesis
    using months [OF m] d by (auto simp: march_year_def month_start_def from_march_def days_in_month_def split: if_splits)
qed

lemma days_from_civil_eq:
  assumes "real_date y m d"
  shows "days_from_civil y m d =
    march_of y m div 400 * 146097 + era_day (march_of y m mod 400) (month_start m + d - 1) - 719468"
proof -
  have e: "(if march_of y m \<ge> 0 then march_of y m else march_of y m - 399) sdiv 400 = march_of y m div 400"
    by (rule era_sdiv) simp_all
  have m: "(m + 9) smod 12 = from_march m" "0 \<le> from_march m"
    using assms by (simp_all add: real_date_def from_march_def signed_modulo_int_def)
  show ?thesis
    unfolding days_from_civil_def march_of_def [symmetric] Let_def e
    using m by (simp add: era_day_def month_start_def minus_mult_div_eq_mod mult.commute)
qed

text \<open>The month a day of the year lies in.\<close>

lemma month_of_day:
  assumes "1 \<le> m" and "m \<le> 12" and "1 \<le> d" and "d \<le> (if m = 2 then 29 else days_in_month 0 m)"
  shows "(5 * (month_start m + d - 1) + 2) div 153 = from_march m"
  using months [OF assms(1,2)] assms(3,4)
  by (auto simp: month_start_def from_march_def days_in_month_def intro!: div_between)

lemma day_has_month:
  assumes "0 \<le> doy" and "doy \<le> 365"
  obtains m d where "1 \<le> m" "m \<le> 12" "1 \<le> d" "d \<le> (if m = 2 then 29 else days_in_month 0 m)"
    "doy = month_start m + d - 1"
proof -
  obtain k where k: "(5 * doy + 2) div 153 = k" "153 * k \<le> 5 * doy + 2" "5 * doy + 2 < 153 * k + 153"
    by (rule div_parts [of 153 "5 * doy + 2"]) simp
  define m where "m = (if k < 10 then k + 3 else k - 9)"
  have "0 \<le> k" "k \<le> 11" using assms k(2,3) by linarith+
  then have "k \<in> {0, 1, 2, 3, 4, 5, 6, 7, 8, 9, 10, 11}" by simp presburger
  then have "1 \<le> m \<and> m \<le> 12 \<and> 1 \<le> doy - month_start m + 1 \<and>
      doy - month_start m + 1 \<le> (if m = 2 then 29 else days_in_month 0 m)"
    using assms(2) k(2,3) unfolding m_def
    by (elim insertE emptyE; simp add: month_start_def from_march_def days_in_month_def)
  then show ?thesis using that [of m "doy - month_start m + 1"] by simp
qed

lemma civil_from_days_eq:
  assumes "march_year yoe doy" and "n = era * 146097 + era_day yoe doy - 719468"
    and "1 \<le> m" and "m \<le> 12" and "1 \<le> d" and "d \<le> (if m = 2 then 29 else days_in_month 0 m)"
    and "doy = month_start m + d - 1"
  shows "civil_from_days n = (yoe + era * 400 + (if m \<le> 2 then 1 else 0), m, d)"
proof -
  define doe where "doe = era_day yoe doy"
  note y = year_of_era [OF assms(1), folded doe_def]
  have n: "n + 719468 = era * 146097 + doe" using assms(2) by (simp add: doe_def)
  have "(n + 719468) div 146097 = era" unfolding n using y(2,3) by (intro div_between) simp_all
  then have e: "(if n + 719468 \<ge> 0 then n + 719468 else n + 719468 - 146096) sdiv 146097 = era"
    using era_sdiv [of 146097 146096 "n + 719468"] by simp
  have doe: "n + 719468 - era * 146097 = doe" using n by simp
  have y0: "0 \<le> yoe" "0 \<le> doy" using assms(1) by (simp_all add: march_year_def)
  have "doe div 1460 \<le> doe" "doe div 146096 \<le> doe div 36524" 
    using y(2) by (simp_all add: zdiv_mono2)
  then have yoe: "(doe - doe sdiv 1460 + doe sdiv 36524 - doe sdiv 146096) sdiv 365 = yoe"
    using y(1,2) by simp
  have doy: "doe - (365 * yoe + yoe sdiv 4 - yoe sdiv 100) = doy"
    using y0 by (simp add: doe_def era_day_def)
  have mp: "(5 * doy + 2) sdiv 153 = from_march m" using month_of_day [OF assms(3-6)] assms(7) y0 by simp
  have day: "as_u8 (doy - (153 * from_march m + 2) sdiv 5 + 1) = d"
    using months [OF assms(3,4)] assms(5-7)
    by (auto simp: as_u8_def month_start_def from_march_def days_in_month_def split: if_splits)
  have month: "as_u8 (if from_march m < 10 then from_march m + 3 else from_march m - 9) = m"
    using months [OF assms(3,4)] by (auto simp: as_u8_def from_march_def)
  show ?thesis
    unfolding civil_from_days_def Let_def e doe yoe doy mp day month by simp
qed

lemma real_date_days: "real_date y m d \<Longrightarrow> d \<le> (if m = 2 then 29 else days_in_month 0 m)"
  by (auto simp: real_date_def days_in_month_def split: if_splits)

theorem civil_of_days_of_civil:
  assumes "real_date y m d"
  shows "civil_from_days (days_from_civil y m d) = (y, m, d)"
proof -
  have m: "1 \<le> m" "m \<le> 12" "1 \<le> d" using assms by (auto simp: real_date_def)
  have "march_of y m mod 400 + march_of y m div 400 * 400 + (if m \<le> 2 then 1 else 0) = y"
    by (simp add: march_of_def mod_div_mult_eq)
  then show ?thesis
    using civil_from_days_eq [OF real_date_march [OF assms] days_from_civil_eq [OF assms] m real_date_days [OF assms] refl]
    by simp
qed

theorem days_of_civil_of_days:
  obtains y m d where "civil_from_days n = (y, m, d)" "real_date y m d" "days_from_civil y m d = n"
proof -
  obtain era where era: "(n + 719468) div 146097 = era" "146097 * era \<le> n + 719468" "n + 719468 < 146097 * era + 146097"
    by (rule div_parts [of 146097 "n + 719468"]) simp
  obtain yoe doy where y: "march_year yoe doy" "n + 719468 - 146097 * era = era_day yoe doy"
    by (rule era_day_exists [of "n + 719468 - 146097 * era"]) (use era in simp_all)
  have "0 \<le> doy" "doy \<le> 365" using y(1) by (simp_all add: march_year_def)
  then obtain m d where md: "1 \<le> m" "m \<le> 12" "1 \<le> d" "d \<le> (if m = 2 then 29 else days_in_month 0 m)"
    "doy = month_start m + d - 1" by (rule day_has_month)
  have n: "n = era * 146097 + era_day yoe doy - 719468" using y(2) by simp
  define yy where "yy = yoe + era * 400 + (if m \<le> 2 then 1 else 0)"
  have c: "civil_from_days n = (yy, m, d)" unfolding yy_def by (rule civil_from_days_eq [OF y(1) n md])
  have ym: "march_of yy m = yoe + era * 400" by (simp add: march_of_def yy_def)
  have "0 \<le> yoe" "yoe < 400" using y(1) by (simp_all add: march_year_def)
  then have parts: "march_of yy m div 400 = era" "march_of yy m mod 400 = yoe"
    unfolding ym by simp_all
  have "is_leap yy" if "m = 2" "d = 29"
  proof -
    have "doy = 365" using that md(5) by (simp add: month_start_def from_march_def)
    then have "is_leap (yoe + 1)" using y(1) by (simp add: march_year_def)
    moreover have "yy = (yoe + 1) + 400 * era" using that by (simp add: yy_def)
    ultimately show ?thesis using leap_era [of "yoe + 1" era] by simp
  qed
  then have "d \<le> days_in_month yy m"
    using md(4) by (cases "m = 2 \<and> d = 29") (auto simp: days_in_month_def)
  then have r: "real_date yy m d" using md(1-3) by (simp add: real_date_def)
  have "days_from_civil yy m d = n" using days_from_civil_eq [OF r] parts md(5) n by simp
  then show ?thesis by (rule that [OF c r])
qed

section \<open>Counting the days\<close>

text \<open>
  What the number of days means: those of the years and months before, from
  0001-01-01 on, and of the month.
\<close>

definition days_of_year :: "int \<Rightarrow> int" where
  "days_of_year y = (if is_leap y then 366 else 365)"

definition day_count :: "nat \<Rightarrow> int \<Rightarrow> int \<Rightarrow> int" where
  "day_count y m d = (\<Sum>k = 1..<y. days_of_year (int k)) + (\<Sum>k = 1..<nat m. days_in_month (int y) (int k)) + (d - 1)"

lemma leap_days: "(h \<Longrightarrow> f) \<Longrightarrow> (l \<Longrightarrow> h) \<Longrightarrow> (if f \<and> (\<not> h \<or> l) then 366 else 365 :: int) =
    365 + (if f then 1 else 0) - (if h then 1 else 0) + (if l then 1 else 0)"
  by (cases f; cases h; cases l) simp_all

lemma count_step: "s' = s + n \<Longrightarrow> n = 365 + f - h + l \<Longrightarrow> s = 365 * p + a - b + c \<Longrightarrow>
    a' = a + f \<Longrightarrow> b' = b + h \<Longrightarrow> c' = c + l \<Longrightarrow> p' = p + 1 \<Longrightarrow> s' = 365 * p' + a' - b' + (c' :: int)"
  by simp

lemma days_of_years: "1 \<le> y \<Longrightarrow> (\<Sum>k = 1..<y. days_of_year (int k)) =
  365 * (int y - 1) + (int y - 1) div 4 - (int y - 1) div 100 + (int y - 1) div 400"
proof (induction y rule: dec_induct)
  case (step y)
  have step_div: "int y div n = (int y - 1) div n + (if n dvd int y then 1 else 0)" if n: "0 < n" for n
  proof -
    obtain k where k: "(int y - 1) div n = k" "n * k \<le> int y - 1" "int y - 1 < n * k + n" using n by (rule div_parts)
    show ?thesis
    proof (cases "int y = n * k + n")
      case True
      then have "int y = n * (k + 1)" by (simp add: algebra_simps)
      then show ?thesis using n k(1) by simp
    next
      case False
      then have d: "int y div n = k" using k(2,3) by (intro div_between) simp_all
      moreover have "\<not> n dvd int y"
      proof
        assume "n dvd int y"
        then have "int y = n * k" using d by (metis dvd_mult_div_cancel)
        then show False using k(2) by simp
      qed
      ultimately show ?thesis using k(1) by simp
    qed
  qed
  have sum: "(\<Sum>k = 1..<Suc y. days_of_year (int k)) = (\<Sum>k = 1..<y. days_of_year (int k)) + days_of_year (int y)"
    using step.hyps by simp
  have "100 dvd int y \<Longrightarrow> 4 dvd int y" "400 dvd int y \<Longrightarrow> 100 dvd int y" by (erule dvd_trans [rotated]; simp)+
  then have year: "days_of_year (int y) = 365 + (if 4 dvd int y then 1 else 0) - (if 100 dvd int y then 1 else 0) +
      (if 400 dvd int y then 1 else 0)"
    unfolding days_of_year_def is_leap_def by (rule leap_days)
  have y: "int (Suc y) - 1 = int y" by simp
  show ?case unfolding y
    by (rule count_step [OF sum year step.IH step_div step_div step_div]) simp_all
qed simp

definition days_before_month :: "int \<Rightarrow> int \<Rightarrow> int" where
  "days_before_month y m =
     (if m \<le> 2 then month_start m - 306 else month_start m + 59 + (if is_leap y then 1 else 0))"

lemma days_before_next_month:
  assumes "1 \<le> m" and "m \<le> 11"
  shows "days_before_month y (m + 1) = days_before_month y m + days_in_month y m"
proof -
  have "m \<in> {1, 2, 3, 4, 5, 6, 7, 8, 9, 10, 11}" using assms by simp presburger
  then show ?thesis
    by (elim insertE emptyE; simp add: days_before_month_def days_in_month_def month_start_def from_march_def)
qed

lemma days_of_months: "1 \<le> m \<Longrightarrow> m \<le> 12 \<Longrightarrow> (\<Sum>k = 1..<m. days_in_month y (int k)) = days_before_month y (int m)"
proof (induction m rule: dec_induct)
  case base
  then show ?case by (simp add: days_before_month_def month_start_def from_march_def)
next
  case (step m)
  then show ?case using days_before_next_month [of "int m" y] by (simp add: add.commute)
qed

text \<open>
  The number of days is what counting them gives: 719162 lie before 1970-01-01.
\<close>

lemma march_years_div:
  assumes "1 \<le> y"
  shows "era_day (y mod 400) 0 + y div 400 * 146097 = 365 * y + y div 4 - y div 100 + y div (400::int)"
proof -
  obtain era where era: "y div 400 = era" by simp
  define yoe where "yoe = y mod 400"
  have y: "y = yoe + era * 400" unfolding yoe_def era [symmetric] by (simp add: mod_div_mult_eq)
  have yoe: "0 \<le> yoe" "yoe < 400" by (simp_all add: yoe_def)
  have "y div 4 = yoe div 4 + 100 * era" "y div 100 = yoe div 100 + 4 * era"
  proof -
    have "y = yoe + (100 * era) * 4" "y = yoe + (4 * era) * 100" using y by simp_all
    then show "y div 4 = yoe div 4 + 100 * era" "y div 100 = yoe div 100 + 4 * era"
      by (metis add.commute div_mult_self1 zero_neq_numeral)+
  qed
  then show ?thesis unfolding yoe_def [symmetric] era using y by (simp add: era_day_def)
qed

theorem days_from_civil_counts:
  assumes "1 \<le> y" and "real_date (int y) m d"
  shows "days_from_civil (int y) m d = day_count y m d - 719162"
proof -
  have m: "1 \<le> m" "m \<le> 12" using assms(2) by (auto simp: real_date_def)
  let ?y = "march_of (int y) m"
  have e: "era_day (?y mod 400) (month_start m + d - 1) = era_day (?y mod 400) 0 + (month_start m + d - 1)"
    by (simp add: era_day_def)
  have "era_day (?y mod 400) 0 + ?y div 400 * 146097 = 365 * ?y + ?y div 4 - ?y div 100 + ?y div 400"
  proof (cases "?y = 0")
    case False
    then show ?thesis using assms(1) by (intro march_years_div) (simp add: march_of_def split: if_splits)
  qed (simp add: era_day_def)
  then have lhs: "days_from_civil (int y) m d =
      365 * ?y + ?y div 4 - ?y div 100 + ?y div 400 + (month_start m + d - 1) - 719468"
    using days_from_civil_eq [OF assms(2)] e by simp
  have rhs: "day_count y m d = 365 * (int y - 1) + (int y - 1) div 4 - (int y - 1) div 100 + (int y - 1) div 400 +
      days_before_month (int y) m + (d - 1)"
    unfolding day_count_def using days_of_years [OF assms(1)] days_of_months [of "nat m" "int y"] m by simp
  show ?thesis
  proof (cases "m \<le> 2")
    case True
    then show ?thesis unfolding lhs rhs by (simp add: march_of_def days_before_month_def)
  next
    case False
    have "(\<Sum>k = 1..<Suc y. days_of_year (int k)) = (\<Sum>k = 1..<y. days_of_year (int k)) + days_of_year (int y)"
      using assms(1) by simp
    moreover have "int (Suc y) - 1 = int y" by simp
    moreover have "1 \<le> Suc y" by simp
    ultimately have "365 * int y + int y div 4 - int y div 100 + int y div 400 =
        (365 * (int y - 1) + (int y - 1) div 4 - (int y - 1) div 100 + (int y - 1) div 400) + days_of_year (int y)"
      using days_of_years [OF assms(1)] days_of_years [of "Suc y"] by (simp only:)
    moreover have "days_before_month (int y) m = month_start m + days_of_year (int y) - 306"
      using False by (simp add: days_before_month_def days_of_year_def)
    moreover have "?y = int y" using False by (simp add: march_of_def)
    ultimately show ?thesis unfolding lhs rhs by (simp only:)
  qed
qed

section \<open>Dates\<close>

text \<open>\<open>Date\<close>, made by \<open>Date::new\<close> alone; an error is the kind and the fields it shows.\<close>

record date =
  da_year :: nat
  da_month :: nat
  da_day :: nat

datatype value_error =
    InvalidDate nat nat nat
  | OutOfYears int
  | InvalidTime nat nat nat nat
  | InstantRange int int
  | NanosRange int
  | InvalidText string string

definition date_new :: "nat \<Rightarrow> nat \<Rightarrow> nat \<Rightarrow> value_error + date" where
  "date_new y m d =
     (if \<not> (1 \<le> y \<and> y \<le> 9999) \<or> \<not> (1 \<le> m \<and> m \<le> 12) \<or> d = 0 \<or> int d > days_in_month (int y) (int m)
      then Inl (InvalidDate y m d)
      else Inr \<lparr>da_year = y, da_month = m, da_day = d\<rparr>)"

definition days_since_unix_epoch :: "date \<Rightarrow> int" where
  "days_since_unix_epoch x = days_from_civil (int (da_year x)) (int (da_month x)) (int (da_day x))"

definition from_days_since_unix_epoch :: "int \<Rightarrow> value_error + date" where
  "from_days_since_unix_epoch days =
     (if \<not> (-719162 \<le> days \<and> days \<le> 2932896) then Inl (OutOfYears days)
      else (case civil_from_days days of (year, month, day) \<Rightarrow>
        if \<not> (0 \<le> year \<and> year < 65536) then Inl (OutOfYears days)
        else date_new (nat year) (nat month) (nat day)))"

text \<open>The dates there are.\<close>

definition date_ok :: "date \<Rightarrow> bool" where
  "date_ok x \<longleftrightarrow> date_new (da_year x) (da_month x) (da_day x) = Inr x"

lemma date_new_Inr: "date_new y m d = Inr x \<longleftrightarrow>
  x = \<lparr>da_year = y, da_month = m, da_day = d\<rparr> \<and> 1 \<le> y \<and> y \<le> 9999 \<and> real_date (int y) (int m) (int d)"
  by (auto simp: date_new_def real_date_def split: if_splits)

lemma date_ok_iff: "date_ok x \<longleftrightarrow>
  1 \<le> da_year x \<and> da_year x \<le> 9999 \<and> real_date (int (da_year x)) (int (da_month x)) (int (da_day x))"
  by (auto simp: date_ok_def date_new_Inr)

lemma date_new_ok: "date_new y m d = Inr x \<Longrightarrow> date_ok x"
  by (auto simp: date_new_Inr date_ok_iff)

text \<open>The days of the years 1 to 9999 are the days admitted.\<close>

lemma day_in_year:
  assumes "real_date y m d"
  shows "0 \<le> days_before_month y m + (d - 1)" "days_before_month y m + (d - 1) < days_of_year y"
proof -
  have m: "1 \<le> m" "m \<le> 12" and d: "1 \<le> d" "d \<le> days_in_month y m" using assms by (auto simp: real_date_def)
  have "0 \<le> days_before_month y m \<and> days_before_month y m + days_in_month y m \<le> days_of_year y"
    using months [OF m]
    by (elim insertE emptyE; simp add: days_before_month_def days_in_month_def month_start_def from_march_def days_of_year_def)
  then show "0 \<le> days_before_month y m + (d - 1)" "days_before_month y m + (d - 1) < days_of_year y" using d by simp_all
qed

lemma day_count_between:
  assumes "1 \<le> y" and "real_date (int y) m d"
  shows "(\<Sum>k = 1..<y. days_of_year (int k)) \<le> day_count y m d" "day_count y m d < (\<Sum>k = 1..<Suc y. days_of_year (int k))"
proof -
  have "1 \<le> m" "m \<le> 12" using assms(2) by (auto simp: real_date_def)
  then have c: "day_count y m d = (\<Sum>k = 1..<y. days_of_year (int k)) + days_before_month (int y) m + (d - 1)"
    using days_of_months [of "nat m" "int y"] by (simp add: day_count_def)
  have s: "(\<Sum>k = 1..<Suc y. days_of_year (int k)) = (\<Sum>k = 1..<y. days_of_year (int k)) + days_of_year (int y)"
    using assms(1) by simp
  show "(\<Sum>k = 1..<y. days_of_year (int k)) \<le> day_count y m d" "day_count y m d < (\<Sum>k = 1..<Suc y. days_of_year (int k))"
    unfolding c s using day_in_year [OF assms(2)] by linarith+
qed

lemma years_mono: "1 \<le> y \<Longrightarrow> y \<le> z \<Longrightarrow> (\<Sum>k = 1..<y. days_of_year (int k)) \<le> (\<Sum>k = 1..<z. days_of_year (int k))"
  by (rule sum_mono2) (auto simp: days_of_year_def)

lemma all_years: "(\<Sum>k = 1..<10000. days_of_year (int k)) = 3652059"
  using days_of_years [of 10000] by simp

lemma whole_eras: "(\<Sum>k = 1..<Suc (400 * n). days_of_year (int k)) = 146097 * int n"
  using days_of_years [of "Suc (400 * n)"] by (simp add: zdiv_zmult2_eq) 

lemma date_days_bounds:
  assumes "date_ok x"
  shows "-719162 \<le> days_since_unix_epoch x" "days_since_unix_epoch x \<le> 2932896"
proof -
  have y: "1 \<le> da_year x" "da_year x \<le> 9999" and r: "real_date (int (da_year x)) (int (da_month x)) (int (da_day x))"
    using assms by (auto simp: date_ok_iff)
  note b = day_count_between [OF y(1) r] 
  have "0 \<le> (\<Sum>k = 1..<da_year x. days_of_year (int k))" by (rule sum_nonneg) (simp add: days_of_year_def)
  moreover have "(\<Sum>k = 1..<Suc (da_year x). days_of_year (int k)) \<le> 3652059"
    using years_mono [of "Suc (da_year x)" 10000] y all_years by simp
  ultimately show "-719162 \<le> days_since_unix_epoch x" "days_since_unix_epoch x \<le> 2932896"
    using b days_from_civil_counts [OF y(1) r] by (simp_all add: days_since_unix_epoch_def)
qed

lemma days_shift:
  assumes "real_date y m d"
  shows "days_from_civil (y + 400 * k) m d = days_from_civil y m d + 146097 * k"
proof -
  have r: "real_date (y + 400 * k) m d" using assms by (simp add: real_date_def days_in_month_def leap_era)
  have "march_of (y + 400 * k) m = march_of y m + k * 400" by (simp add: march_of_def)
  then have "march_of (y + 400 * k) m div 400 = march_of y m div 400 + k" "march_of (y + 400 * k) m mod 400 = march_of y m mod 400"
    by simp_all
  then show ?thesis using days_from_civil_eq [OF r] days_from_civil_eq [OF assms] by (simp add: algebra_simps)
qed

lemma year_in_bounds:
  assumes "real_date y m d" and "-719162 \<le> days_from_civil y m d" and "days_from_civil y m d \<le> 2932896"
  shows "1 \<le> y" "y \<le> 9999"
proof -
  show low: "1 \<le> y"
  proof (rule ccontr)
    assume "\<not> 1 \<le> y"
    then have y: "y \<le> 0" by simp
    define n where "n = nat (1 - y)"
    define z where "z = nat (y + 400 * int n)"
    have z: "int z = y + 400 * int n" "1 \<le> z" "Suc z \<le> Suc (400 * n)" using y by (auto simp: n_def z_def)
    have r: "real_date (int z) m d" using assms(1) by (simp add: z(1) real_date_def days_in_month_def leap_era)
    have "day_count z m d < (\<Sum>k = 1..<Suc (400 * n). days_of_year (int k))"
      using day_count_between(2) [OF z(2) r] years_mono [of "Suc z" "Suc (400 * n)"] z by linarith
    then have "days_from_civil (int z) m d < 146097 * int n - 719162"
      using days_from_civil_counts [OF z(2) r] whole_eras [of n] by simp
    then show False using days_shift [OF assms(1), of "int n"] assms(2) z(1) by simp
  qed
  show "y \<le> 9999"
  proof (rule ccontr)
    assume "\<not> y \<le> 9999"
    then obtain z where z: "y = int z" "10000 \<le> z" using nonneg_int_cases [of y] low by force
    have "3652059 \<le> day_count z m d"
      using day_count_between(1) [of z m d] years_mono [of 10000 z] all_years assms(1) z by simp
    then show False using days_from_civil_counts [of z m d] assms z by simp
  qed
qed

lemma from_days_Inr:
  "from_days_since_unix_epoch n = Inr x \<longleftrightarrow> date_ok x \<and> days_since_unix_epoch x = n"
proof
  assume l: "from_days_since_unix_epoch n = Inr x"
  obtain y m d where c: "civil_from_days n = (y, m, d)" "real_date y m d" "days_from_civil y m d = n"
    by (rule days_of_civil_of_days)
  have b: "-719162 \<le> n" "n \<le> 2932896" using l by (auto simp: from_days_since_unix_epoch_def split: if_splits)
  have y: "1 \<le> y" "y \<le> 9999" using year_in_bounds [OF c(2)] b c(3) by auto
  have x: "date_new (nat y) (nat m) (nat d) = Inr x"
    using l b c(1) y by (simp add: from_days_since_unix_epoch_def)
  then show "date_ok x \<and> days_since_unix_epoch x = n"
    using date_new_ok [OF x] c(2,3) y by (auto simp: date_new_Inr days_since_unix_epoch_def real_date_def)
next
  assume r: "date_ok x \<and> days_since_unix_epoch x = n"
  then have d: "real_date (int (da_year x)) (int (da_month x)) (int (da_day x))"
    and n: "days_from_civil (int (da_year x)) (int (da_month x)) (int (da_day x)) = n"
    by (auto simp: date_ok_iff days_since_unix_epoch_def)
  have "civil_from_days n = (int (da_year x), int (da_month x), int (da_day x))"
    using civil_of_days_of_civil [OF d] n by simp
  moreover have "-719162 \<le> n" "n \<le> 2932896" "da_year x < 65536"
    using date_days_bounds [of x] r by (auto simp: date_ok_iff)
  ultimately show "from_days_since_unix_epoch n = Inr x"
    using r by (simp add: from_days_since_unix_epoch_def date_ok_def)
qed

lemma from_days_total:
  assumes "-719162 \<le> n" and "n \<le> 2932896"
  obtains x where "from_days_since_unix_epoch n = Inr x"
proof -
  obtain y m d where c: "civil_from_days n = (y, m, d)" "real_date y m d" "days_from_civil y m d = n"
    by (rule days_of_civil_of_days)
  have y: "1 \<le> y" "y \<le> 9999" using year_in_bounds [OF c(2)] assms c(3) by auto
  define x where "x = \<lparr>da_year = nat y, da_month = nat m, da_day = nat d\<rparr>"
  have "date_ok x \<and> days_since_unix_epoch x = n"
    using c y by (auto simp: date_ok_iff days_since_unix_epoch_def x_def real_date_def)
  then show ?thesis using that from_days_Inr by blast
qed

end
