(* ===== verification/Value_Text.thy ===== *)
theory Value_Text
  imports Decimal_Text Value_Calendar
begin

text \<open>
  The text formats of dates, times of day, local dates and times, and points
  in time, \<open>crates/rutis-bridge/src/session/values.rs\<close>.

  A text is its bytes; the cursor \<open>Text\<close> is what it has not read yet.  The
  \<open>u32\<close> of at most nine digits cannot overflow.
\<close>

section \<open>The cursor\<close>

definition tx_digits :: "nat \<Rightarrow> string \<Rightarrow> (nat \<times> string) option" where
  "tx_digits w t =
     (if length t < w \<or> \<not> list_all is_digit (take w t) then None
      else Some (number_of (take w t), drop w t))"

definition tx_byte :: "char \<Rightarrow> string \<Rightarrow> string option" where
  "tx_byte c t = (case t of [] \<Rightarrow> None | x # r \<Rightarrow> if x = c then Some r else None)"

definition nanos_of :: "string \<Rightarrow> nat" where
  "nanos_of ds =
     foldl (\<lambda>nanos i. nanos * 10 + (if i < length ds then digit_value (ds ! i) else 0)) 0 [0..<9]"

definition tx_fraction :: "string \<Rightarrow> (nat \<times> string) option" where
  "tx_fraction t =
     (case tx_byte CHR ''.'' t of
        None \<Rightarrow> Some (0, t)
      | Some r \<Rightarrow>
          (let ds = takeWhile is_digit r in
           if ds = [] \<or> length ds > 9 then None else Some (nanos_of ds, dropWhile is_digit r)))"

section \<open>Times of day and local times\<close>

record time_of_day =
  td_hour :: nat
  td_minute :: nat
  td_second :: nat
  td_nanosecond :: nat

definition time_new :: "nat \<Rightarrow> nat \<Rightarrow> nat \<Rightarrow> nat \<Rightarrow> value_error + time_of_day" where
  "time_new h m s n =
     (if h > 23 \<or> m > 59 \<or> s > 59 \<or> n \<ge> 1000000000 then Inl (InvalidTime h m s n)
      else Inr \<lparr>td_hour = h, td_minute = m, td_second = s, td_nanosecond = n\<rparr>)"

definition time_ok :: "time_of_day \<Rightarrow> bool" where
  "time_ok x \<longleftrightarrow> time_new (td_hour x) (td_minute x) (td_second x) (td_nanosecond x) = Inr x"

definition seconds_of_day :: "time_of_day \<Rightarrow> int" where
  "seconds_of_day x = int (td_hour x) * 3600 + int (td_minute x) * 60 + int (td_second x)"

record datetime =
  dt_date :: date
  dt_time :: time_of_day

definition datetime_ok :: "datetime \<Rightarrow> bool" where
  "datetime_ok x \<longleftrightarrow> date_ok (dt_date x) \<and> time_ok (dt_time x)"

definition right_of :: "'e + 'a \<Rightarrow> 'a option" where
  "right_of x = (case x of Inl _ \<Rightarrow> None | Inr a \<Rightarrow> Some a)"

definition tx_date :: "string \<Rightarrow> (date \<times> string) option" where
  "tx_date t = do {
     (year, t) \<leftarrow> tx_digits 4 t;
     t \<leftarrow> tx_byte CHR ''-'' t;
     (month, t) \<leftarrow> tx_digits 2 t;
     t \<leftarrow> tx_byte CHR ''-'' t;
     (day, t) \<leftarrow> tx_digits 2 t;
     x \<leftarrow> right_of (date_new year month day);
     Some (x, t)
   }"

definition tx_time :: "string \<Rightarrow> (time_of_day \<times> string) option" where
  "tx_time t = do {
     (hour, t) \<leftarrow> tx_digits 2 t;
     t \<leftarrow> tx_byte CHR '':'' t;
     (minute, t) \<leftarrow> tx_digits 2 t;
     t \<leftarrow> tx_byte CHR '':'' t;
     (second, t) \<leftarrow> tx_digits 2 t;
     (nanosecond, t) \<leftarrow> tx_fraction t;
     x \<leftarrow> right_of (time_new hour minute second nanosecond);
     Some (x, t)
   }"

definition tx_datetime :: "string \<Rightarrow> (datetime \<times> string) option" where
  "tx_datetime t = do {
     (x, t) \<leftarrow> tx_date t;
     t \<leftarrow> tx_byte CHR ''T'' t;
     (y, t) \<leftarrow> tx_time t;
     Some (\<lparr>dt_date = x, dt_time = y\<rparr>, t)
   }"

section \<open>Writing\<close>

definition trim_zeros :: "string \<Rightarrow> string" where
  "trim_zeros s = rev (dropWhile (\<lambda>c. c = CHR ''0'') (rev s))"

definition show_fraction :: "nat \<Rightarrow> string" where
  "show_fraction n = (if n = 0 then [] else ''.'' @ trim_zeros (zero_padded 9 n))"

definition show_date :: "date \<Rightarrow> string" where
  "show_date x = zero_padded 4 (da_year x) @ ''-'' @ zero_padded 2 (da_month x) @ ''-'' @ zero_padded 2 (da_day x)"

definition show_time :: "time_of_day \<Rightarrow> string" where
  "show_time x = zero_padded 2 (td_hour x) @ '':'' @ zero_padded 2 (td_minute x) @ '':'' @
     zero_padded 2 (td_second x) @ show_fraction (td_nanosecond x)"

definition show_datetime :: "datetime \<Rightarrow> string" where
  "show_datetime x = show_date (dt_date x) @ ''T'' @ show_time (dt_time x)"

section \<open>Reading whole texts\<close>

definition whole :: "(string \<Rightarrow> ('a \<times> string) option) \<Rightarrow> string \<Rightarrow> 'a option" where
  "whole read t = (case read t of Some (x, []) \<Rightarrow> Some x | _ \<Rightarrow> None)"

definition value_or :: "value_error \<Rightarrow> 'a option \<Rightarrow> value_error + 'a" where
  "value_or e x = (case x of None \<Rightarrow> Inl e | Some a \<Rightarrow> Inr a)"

definition date_from_str :: "string \<Rightarrow> value_error + date" where
  "date_from_str t = value_or (InvalidText ''date'' t) (whole tx_date t)"

definition time_from_str :: "string \<Rightarrow> value_error + time_of_day" where
  "time_from_str t = value_or (InvalidText ''time'' t) (whole tx_time t)"

definition datetime_from_str :: "string \<Rightarrow> value_error + datetime" where
  "datetime_from_str t = value_or (InvalidText ''datetime'' t) (whole tx_datetime t)"

section \<open>Points in time\<close>

record instant =
  in_seconds :: int
  in_nanosecond :: nat

definition MIN_SECONDS :: int where
  "MIN_SECONDS = -62135596800"

definition MAX_SECONDS :: int where
  "MAX_SECONDS = 253402300799"

definition from_unix :: "int \<Rightarrow> nat \<Rightarrow> value_error + instant" where
  "from_unix seconds n =
     (if \<not> (MIN_SECONDS \<le> seconds \<and> seconds \<le> MAX_SECONDS) \<or> n \<ge> 1000000000
      then Inl (InstantRange seconds (int n))
      else Inr \<lparr>in_seconds = seconds, in_nanosecond = n\<rparr>)"

definition from_unix_nanos :: "int \<Rightarrow> value_error + instant" where
  "from_unix_nanos nanos =
     (let seconds = nanos div 1000000000 in
      if \<not> (- (2 ^ 63) \<le> seconds \<and> seconds < 2 ^ 63) then Inl (NanosRange nanos)
      else from_unix seconds (nat (nanos mod 1000000000)))"

definition unix_nanos :: "instant \<Rightarrow> int" where
  "unix_nanos x = in_seconds x * 1000000000 + int (in_nanosecond x)"

text \<open>\<open>None\<close> where the code's \<open>expect\<close> fails.\<close>

definition to_utc :: "instant \<Rightarrow> datetime option" where
  "to_utc x =
     (let second = in_seconds x mod SECONDS_PER_DAY in do {
        d \<leftarrow> right_of (from_days_since_unix_epoch (in_seconds x div SECONDS_PER_DAY));
        t \<leftarrow> right_of (time_new (nat (second div 3600)) (nat (second mod 3600 div 60)) (nat (second mod 60))
               (in_nanosecond x));
        Some \<lparr>dt_date = d, dt_time = t\<rparr>
      })"

definition from_utc :: "datetime \<Rightarrow> instant" where
  "from_utc x = \<lparr>in_seconds = days_since_unix_epoch (dt_date x) * SECONDS_PER_DAY + seconds_of_day (dt_time x),
     in_nanosecond = td_nanosecond (dt_time x)\<rparr>"

definition instant_ok :: "instant \<Rightarrow> bool" where
  "instant_ok x \<longleftrightarrow> from_unix (in_seconds x) (in_nanosecond x) = Inr x"

definition tx_instant :: "string \<Rightarrow> (instant \<times> string) option" where
  "tx_instant t = do {
     (x, t) \<leftarrow> tx_datetime t;
     t \<leftarrow> tx_byte CHR ''Z'' t;
     Some (from_utc x, t)
   }"

definition instant_from_str :: "string \<Rightarrow> value_error + instant" where
  "instant_from_str t = value_or (InvalidText ''instant'' t) (whole tx_instant t)"

definition show_instant :: "instant \<Rightarrow> string option" where
  "show_instant x = map_option (\<lambda>u. show_datetime u @ ''Z'') (to_utc x)"

section \<open>Reading what was written\<close>

text \<open>
  A form of values: each is written as a text, which a reader of the cursor
  takes off the front of what follows, where that stops it.
\<close>

locale text_form =
  fixes display :: "'a \<Rightarrow> string" and read :: "string \<Rightarrow> ('a \<times> string) option"
    and ok :: "'a \<Rightarrow> bool" and stops :: "string \<Rightarrow> bool"
  assumes read_shown: "ok x \<Longrightarrow> stops r \<Longrightarrow> read (display x @ r) = Some (x, r)"
    and read_ok: "read t = Some (x, r) \<Longrightarrow> ok x"
    and stops_Nil: "stops []"
begin

lemma whole_shown: "ok x \<Longrightarrow> whole read (display x) = Some x"
  using read_shown [of x "[]"] stops_Nil by (simp add: whole_def)

lemma whole_ok: "whole read t = Some x \<Longrightarrow> ok x"
  by (auto simp: whole_def split: option.splits list.splits dest: read_ok)

lemma shown_inj: "ok x \<Longrightarrow> ok y \<Longrightarrow> display x = display y \<Longrightarrow> x = y"
  by (metis option.inject whole_shown)

lemma whole_again: "whole read t = Some x \<Longrightarrow> whole read (display x) = Some x"
  using whole_ok whole_shown by blast

end

lemma tx_byte_Cons [simp]: "tx_byte c (x # r) = (if x = c then Some r else None)" "tx_byte c [] = None"
  by (simp_all add: tx_byte_def)

lemma tx_byte_Some: "tx_byte c t = Some r \<longleftrightarrow> t = c # r"
  by (auto simp: tx_byte_def split: list.splits)

lemma tx_digits_shown [simp]:
  assumes "n < 10 ^ w" and "0 < w"
  shows "tx_digits w (zero_padded w n @ r) = Some (n, r)"
  using zero_padded_length [OF assms] zero_padded_digits [of w n] by (simp add: tx_digits_def list_all_iff)

lemma tx_digits_Some:
  "tx_digits w t = Some (n, r) \<Longrightarrow> 0 < w \<Longrightarrow> t = zero_padded w n @ r \<and> n < 10 ^ w"
  using zero_padded_number_of [of "take w t" w] number_of_less [of "take w t"]
  by (auto simp: tx_digits_def list_all_iff min_def split: if_splits)

lemma right_of_simps [simp]: "right_of (Inr a) = Some a" "right_of (Inl e) = None"
  by (simp_all add: right_of_def)

lemma right_of_Some [simp]: "right_of x = Some a \<longleftrightarrow> x = Inr a"
  by (cases x) simp_all

lemma date_ok_bounds: "date_ok x \<Longrightarrow> da_year x < 10000 \<and> da_month x < 100 \<and> da_day x < 100"
  by (auto simp: date_ok_iff real_date_def days_in_month_def split: if_splits)

lemma tx_date_shown: "date_ok x \<Longrightarrow> tx_date (show_date x @ r) = Some (x, r)"
  using date_ok_bounds [of x] by (simp add: tx_date_def show_date_def date_ok_def)

lemma tx_date_Some:
  assumes "tx_date t = Some (x, r)"
  shows "date_ok x \<and> t = show_date x @ r"
proof -
  obtain y t1 m t2 d where "tx_digits 4 t = Some (y, CHR ''-'' # t1)" "tx_digits 2 t1 = Some (m, CHR ''-'' # t2)"
    "tx_digits 2 t2 = Some (d, r)" and new: "date_new y m d = Inr x"
    using assms by (auto simp: tx_date_def bind_eq_Some_conv tx_byte_Some)
  then have "t = zero_padded 4 y @ ''-'' @ zero_padded 2 m @ ''-'' @ zero_padded 2 d @ r"
    by (auto dest!: tx_digits_Some)
  then show ?thesis using new date_new_ok [OF new] by (auto simp: show_date_def date_new_Inr)
qed

interpretation date_text: text_form show_date tx_date date_ok "\<lambda>_. True"
  by unfold_locales (auto simp: tx_date_shown dest: tx_date_Some)

text \<open>A fraction: at most nine digits, read as if nine had been written.\<close>

lemma nanos_of: "length ds \<le> 9 \<Longrightarrow> nanos_of ds = number_of (ds @ replicate (9 - length ds) (CHR ''0''))"
proof -
  assume "length ds \<le> 9"
  then have eq: "map (\<lambda>i. if i < length ds then ds ! i else CHR ''0'') [0..<9] = ds @ replicate (9 - length ds) (CHR ''0'')"
    by (auto intro!: nth_equalityI simp: nth_append)
  have "nanos_of ds = foldl (\<lambda>v c. v * 10 + digit_value c) 0 (map (\<lambda>i. if i < length ds then ds ! i else CHR ''0'') [0..<9])"
    by (simp add: nanos_of_def foldl_map if_distrib [of digit_value] cong: if_cong)
  then show ?thesis unfolding eq number_of_def .
qed

lemma trim_zeros_split: "\<exists>k. s = trim_zeros s @ replicate k (CHR ''0'')"
proof -
  define k where "k = length (takeWhile (\<lambda>c. c = CHR ''0'') (rev s))"
  have "takeWhile (\<lambda>c. c = CHR ''0'') xs = replicate (length (takeWhile (\<lambda>c. c = CHR ''0'') xs)) (CHR ''0'')" for xs
    by (induction xs) auto
  then have "rev s = replicate k (CHR ''0'') @ rev (trim_zeros s)"
    unfolding trim_zeros_def k_def rev_rev_ident by (metis takeWhile_dropWhile_id)
  from arg_cong [OF this, of rev] show ?thesis by auto
qed

lemma trimmed_fraction:
  assumes "n < 1000000000" and "n \<noteq> 0"
  shows "trim_zeros (zero_padded 9 n) \<noteq> []" "length (trim_zeros (zero_padded 9 n)) \<le> 9"
    "\<forall>c \<in> set (trim_zeros (zero_padded 9 n)). is_digit c" "nanos_of (trim_zeros (zero_padded 9 n)) = n"
proof -
  let ?s = "zero_padded 9 n"
  obtain k where k: "trim_zeros ?s @ replicate k (CHR ''0'') = ?s" using trim_zeros_split by metis
  have "length ?s = 9" using assms by (intro zero_padded_length) simp_all
  then have l: "length (trim_zeros ?s) + k = 9" using arg_cong [OF k, of length] by simp
  then show "length (trim_zeros ?s) \<le> 9" by simp
  have "\<forall>c \<in> set (trim_zeros ?s @ replicate k (CHR ''0'')). is_digit c" unfolding k by (rule zero_padded_digits)
  then show "\<forall>c \<in> set (trim_zeros ?s). is_digit c" by simp
  have "9 - length (trim_zeros ?s) = k" using l by simp
  then have "nanos_of (trim_zeros ?s) = number_of ?s" using nanos_of [of "trim_zeros ?s"] l k by simp
  then show v: "nanos_of (trim_zeros ?s) = n" by simp
  show "trim_zeros ?s \<noteq> []"
  proof
    assume "trim_zeros ?s = []"
    then have "nanos_of (trim_zeros ?s) = 0" by (simp add: nanos_of)
    then show False using v assms(2) by simp
  qed
qed

text \<open>What follows a time must not continue it.\<close>

definition ends_time :: "string \<Rightarrow> bool" where
  "ends_time r \<longleftrightarrow> (case r of [] \<Rightarrow> True | c # _ \<Rightarrow> \<not> is_digit c \<and> c \<noteq> CHR ''.'')"

lemma tx_fraction_shown:
  assumes "n < 1000000000" and "ends_time r"
  shows "tx_fraction (show_fraction n @ r) = Some (n, r)"
proof (cases "n = 0")
  case True
  then show ?thesis using assms(2)
    by (cases r) (auto simp: show_fraction_def tx_fraction_def ends_time_def)
next
  case False
  note t = trimmed_fraction [OF assms(1) False]
  have r: "takeWhile is_digit r = []" "dropWhile is_digit r = r"
    using assms(2) by (cases r; simp add: ends_time_def)+
  have "takeWhile is_digit (trim_zeros (zero_padded 9 n) @ r) = trim_zeros (zero_padded 9 n)"
    "dropWhile is_digit (trim_zeros (zero_padded 9 n) @ r) = r"
    using t(3) r by (simp_all add: takeWhile_append2 dropWhile_append2)
  then show ?thesis using False t by (simp add: show_fraction_def tx_fraction_def Let_def)
qed

lemma time_new_Inr: "time_new h m s n = Inr x \<longleftrightarrow>
  x = \<lparr>td_hour = h, td_minute = m, td_second = s, td_nanosecond = n\<rparr> \<and> h < 24 \<and> m < 60 \<and> s < 60 \<and> n < 1000000000"
  by (auto simp: time_new_def)

lemma time_ok_iff: "time_ok x \<longleftrightarrow> td_hour x < 24 \<and> td_minute x < 60 \<and> td_second x < 60 \<and> td_nanosecond x < 1000000000"
  by (auto simp: time_ok_def time_new_Inr)

lemma tx_time_shown: "time_ok x \<Longrightarrow> ends_time r \<Longrightarrow> tx_time (show_time x @ r) = Some (x, r)"
  using time_ok_iff [of x] by (simp add: tx_time_def show_time_def time_ok_def tx_fraction_shown)

lemma tx_time_ok: "tx_time t = Some (x, r) \<Longrightarrow> time_ok x"
  by (auto simp: tx_time_def bind_eq_Some_conv time_new_Inr time_ok_iff)

interpretation time_text: text_form show_time tx_time time_ok ends_time
  by unfold_locales (simp_all add: tx_time_shown tx_time_ok ends_time_def)

lemma tx_datetime_shown: "datetime_ok x \<Longrightarrow> ends_time r \<Longrightarrow> tx_datetime (show_datetime x @ r) = Some (x, r)"
  by (simp add: tx_datetime_def show_datetime_def datetime_ok_def tx_date_shown tx_time_shown)

lemma tx_datetime_ok: "tx_datetime t = Some (x, r) \<Longrightarrow> datetime_ok x"
  by (auto simp: tx_datetime_def bind_eq_Some_conv datetime_ok_def dest: tx_date_Some tx_time_ok)

interpretation datetime_text: text_form show_datetime tx_datetime datetime_ok ends_time
  by unfold_locales (simp_all add: tx_datetime_shown tx_datetime_ok ends_time_def)

section \<open>Points in time and their dates\<close>

lemma right_of_new_time:
  assumes "0 \<le> s" and "s < 86400" and "n < 1000000000"
  shows "time_new (nat (s div 3600)) (nat (s mod 3600 div 60)) (nat (s mod 60)) n =
    Inr \<lparr>td_hour = nat (s div 3600), td_minute = nat (s mod 3600 div 60), td_second = nat (s mod 60), td_nanosecond = n\<rparr>"
proof -
  have "s div 3600 < 24" using assms by simp
  then show ?thesis using assms by (simp add: time_new_Inr nat_less_iff)
qed

lemma seconds_of_day_bounds: "time_ok x \<Longrightarrow> 0 \<le> seconds_of_day x \<and> seconds_of_day x < 86400"
  by (auto simp: time_ok_iff seconds_of_day_def)

lemma seconds_of_day_parts:
  assumes "time_ok x"
  shows "seconds_of_day x div 3600 = int (td_hour x)" "seconds_of_day x mod 3600 div 60 = int (td_minute x)"
    "seconds_of_day x mod 60 = int (td_second x)"
proof -
  have b: "int (td_minute x) < 60" "int (td_second x) < 60" using assms by (simp_all add: time_ok_iff)
  then show h: "seconds_of_day x div 3600 = int (td_hour x)"
    unfolding seconds_of_day_def by (intro div_between) simp_all
  have "seconds_of_day x mod 3600 = int (td_minute x) * 60 + int (td_second x)"
    using h mult_div_mod_eq [of 3600 "seconds_of_day x"] by (simp add: seconds_of_day_def)
  then show "seconds_of_day x mod 3600 div 60 = int (td_minute x)" using b by (simp add: div_between)
  have "seconds_of_day x = int (td_second x) + (int (td_hour x) * 60 + int (td_minute x)) * 60"
    by (simp add: seconds_of_day_def)
  then show "seconds_of_day x mod 60 = int (td_second x)" using b by (simp only: mod_mult_self1) simp
qed

lemma from_unix_Inr: "from_unix s n = Inr x \<longleftrightarrow>
  x = \<lparr>in_seconds = s, in_nanosecond = n\<rparr> \<and> MIN_SECONDS \<le> s \<and> s \<le> MAX_SECONDS \<and> n < 1000000000"
  by (auto simp: from_unix_def)

lemma instant_ok_iff: "instant_ok x \<longleftrightarrow>
  MIN_SECONDS \<le> in_seconds x \<and> in_seconds x \<le> MAX_SECONDS \<and> in_nanosecond x < 1000000000"
  by (auto simp: instant_ok_def from_unix_Inr)

lemma to_utc_Some:
  assumes "instant_ok x"
  shows "\<exists>u. to_utc x = Some u \<and> datetime_ok u \<and> from_utc u = x"
proof -
  let ?s = "in_seconds x mod 86400" and ?d = "in_seconds x div 86400"
  have b: "-62135596800 \<le> in_seconds x" "in_seconds x \<le> 253402300799" "in_nanosecond x < 1000000000"
    using assms by (simp_all add: instant_ok_iff MIN_SECONDS_def MAX_SECONDS_def)
  have "-719162 \<le> ?d" "?d \<le> 2932896" using b by simp_all
  then obtain d where d: "from_days_since_unix_epoch ?d = Inr d" by (rule from_days_total)
  then have dd: "date_ok d" "days_since_unix_epoch d = ?d" by (simp_all add: from_days_Inr)
  have s: "0 \<le> ?s" "?s < 86400" by simp_all
  define t where "t = \<lparr>td_hour = nat (?s div 3600), td_minute = nat (?s mod 3600 div 60), td_second = nat (?s mod 60),
    td_nanosecond = in_nanosecond x\<rparr>"
  have t: "time_new (nat (?s div 3600)) (nat (?s mod 3600 div 60)) (nat (?s mod 60)) (in_nanosecond x) = Inr t"
    unfolding t_def by (rule right_of_new_time [OF s b(3)])
  have "seconds_of_day t = ?s div 3600 * 3600 + ?s mod 3600 div 60 * 60 + ?s mod 60" 
    using s by (simp add: seconds_of_day_def t_def)
  also have "\<dots> = ?s"
  proof -
    have "?s mod 3600 mod 60 = ?s mod 60" by (rule mod_mod_cancel) simp
    then show ?thesis using mult_div_mod_eq [of 3600 ?s] mult_div_mod_eq [of 60 "?s mod 3600"] by linarith
  qed
  finally have "from_utc \<lparr>dt_date = d, dt_time = t\<rparr> = x"
    using dd(2) by (simp add: from_utc_def SECONDS_PER_DAY_def div_mult_mod_eq t_def)
  moreover have "time_ok t" using t by (auto simp: time_ok_iff time_new_Inr)
  ultimately show ?thesis
    using d t dd(1) by (simp add: to_utc_def SECONDS_PER_DAY_def datetime_ok_def)
qed

lemma from_utc_ok:
  assumes "datetime_ok u"
  shows "instant_ok (from_utc u)" "to_utc (from_utc u) = Some u"
proof -
  have ok: "date_ok (dt_date u)" "time_ok (dt_time u)" using assms by (simp_all add: datetime_ok_def)
  note s = seconds_of_day_bounds [OF ok(2)] and d = date_days_bounds [OF ok(1)]
  show i: "instant_ok (from_utc u)"
    using s d ok(2) by (simp add: instant_ok_iff from_utc_def SECONDS_PER_DAY_def MIN_SECONDS_def MAX_SECONDS_def time_ok_iff)
  have div: "in_seconds (from_utc u) div 86400 = days_since_unix_epoch (dt_date u)"
    using s by (intro div_between) (simp_all add: from_utc_def SECONDS_PER_DAY_def)
  have mod: "in_seconds (from_utc u) mod 86400 = seconds_of_day (dt_time u)"
    using div mult_div_mod_eq [of 86400 "in_seconds (from_utc u)"] by (simp add: from_utc_def SECONDS_PER_DAY_def)
  have "from_days_since_unix_epoch (days_since_unix_epoch (dt_date u)) = Inr (dt_date u)"
    using ok(1) by (simp add: from_days_Inr)
  moreover have "time_new (td_hour (dt_time u)) (td_minute (dt_time u)) (td_second (dt_time u)) (td_nanosecond (dt_time u)) =
      Inr (dt_time u)" using ok(2) by (simp add: time_ok_def)
  moreover have "in_nanosecond (from_utc u) = td_nanosecond (dt_time u)" by (simp add: from_utc_def)
  ultimately show "to_utc (from_utc u) = Some u"
    using seconds_of_day_parts [OF ok(2)] by (simp add: to_utc_def SECONDS_PER_DAY_def div mod)
qed

lemma tx_instant_shown:
  assumes "instant_ok x"
  shows "\<exists>t. show_instant x = Some t \<and> tx_instant (t @ r) = Some (x, r)"
proof -
  obtain u where u: "to_utc x = Some u" "datetime_ok u" "from_utc u = x" using to_utc_Some [OF assms] by blast
  have "ends_time (CHR ''Z'' # r)" by (simp add: ends_time_def is_digit_def)
  then have "tx_datetime (show_datetime u @ CHR ''Z'' # r) = Some (u, CHR ''Z'' # r)" by (rule tx_datetime_shown [OF u(2)])
  then show ?thesis using u by (simp add: show_instant_def tx_instant_def)
qed

lemma tx_instant_ok: "tx_instant t = Some (x, r) \<Longrightarrow> instant_ok x"
  by (auto simp: tx_instant_def bind_eq_Some_conv dest: tx_datetime_ok from_utc_ok)

interpretation instant_text: text_form "\<lambda>x. the (show_instant x)" tx_instant instant_ok "\<lambda>_. True"
proof
  show "tx_instant (the (show_instant x) @ r) = Some (x, r)" if "instant_ok x" for x r
    using tx_instant_shown [OF that, of r] by auto
qed (simp_all add: tx_instant_ok)

lemma unix_nanos_back:
  assumes "instant_ok x"
  shows "from_unix_nanos (unix_nanos x) = Inr x"
proof -
  have b: "MIN_SECONDS \<le> in_seconds x" "in_seconds x \<le> MAX_SECONDS" "in_nanosecond x < 1000000000"
    using assms by (simp_all add: instant_ok_iff)
  have "unix_nanos x div 1000000000 = in_seconds x" using b(3) unfolding unix_nanos_def by (intro div_between) simp_all
  moreover have "unix_nanos x mod 1000000000 = int (in_nanosecond x)"
    using calculation mult_div_mod_eq [of 1000000000 "unix_nanos x"] by (simp add: unix_nanos_def)
  ultimately show ?thesis using assms b by (simp add: from_unix_nanos_def instant_ok_def MIN_SECONDS_def MAX_SECONDS_def)
qed

end
