(* ===== verification/Value_Bytes.thy ===== *)
theory Value_Bytes
  imports Decimal_Text Value_Calendar
begin

unbundle bit_operations_syntax

text \<open>
  Binary data as base64 and UUIDs as hex, \<open>crates/rutis-bridge/src/session/values.rs\<close>.

  Bytes are a \<open>string\<close>, as a character is a byte here.  The \<open>u32\<close> of a group
  holds 24 bits, so its shifts lose nothing; \<open>as u8\<close> is \<open>char_of\<close>, which
  takes the lowest byte.
\<close>

section \<open>Bits of natural numbers\<close>

abbreviation byte_of :: "char \<Rightarrow> nat" where
  "byte_of c \<equiv> of_char c"

lemma byte_less [simp]: "byte_of c < 256"
  by simp

lemma push_or: "b < 2 ^ n \<Longrightarrow> push_bit n a OR b = a * 2 ^ n + (b::nat)"
proof -
  assume "b < 2 ^ n"
  then have "take_bit n b = b" by (simp add: take_bit_nat_eq_self)
  then have "\<not> bit b k" if "n \<le> k" for k using that by (metis bit_take_bit_iff not_less)
  then have "push_bit n a AND b = 0" by (auto simp: bit_eq_iff bit_simps)
  then show ?thesis by (simp add: disjunctive_add_eq_or push_bit_eq_mult)
qed

section \<open>Base64\<close>

definition ALPHABET :: string where
  "ALPHABET = ''ABCDEFGHIJKLMNOPQRSTUVWXYZabcdefghijklmnopqrstuvwxyz0123456789+/''"

function chunks :: "nat \<Rightarrow> 'a list \<Rightarrow> 'a list list" where
  "chunks n xs = (if xs = [] \<or> n = 0 then [] else take n xs # chunks n (drop n xs))"
  by pat_completeness auto
termination by (relation "measure (length \<circ> snd)") (auto simp: length_greater_0_conv)

declare chunks.simps [simp del]

definition byte_at :: "string \<Rightarrow> nat \<Rightarrow> nat" where
  "byte_at bs i = (if i < length bs then byte_of (bs ! i) else 0)"

definition encode_group :: "string \<Rightarrow> string" where
  "encode_group chunk =
     (let grp = push_bit 16 (byte_at chunk 0) OR push_bit 8 (byte_at chunk 1) OR byte_at chunk 2 in
      map (\<lambda>i. if i \<le> length chunk then ALPHABET ! (drop_bit (18 - 6 * i) grp AND 63) else CHR ''='') [0..<4])"

definition base64_encode :: "string \<Rightarrow> string" where
  "base64_encode bytes = concat (map encode_group (chunks 3 bytes))"

definition sextet :: "char \<Rightarrow> nat option" where
  "sextet c =
     (if byte_of CHR ''A'' \<le> byte_of c \<and> byte_of c \<le> byte_of CHR ''Z'' then Some (byte_of c - byte_of CHR ''A'')
      else if byte_of CHR ''a'' \<le> byte_of c \<and> byte_of c \<le> byte_of CHR ''z'' then Some (byte_of c - byte_of CHR ''a'' + 26)
      else if byte_of CHR ''0'' \<le> byte_of c \<and> byte_of c \<le> byte_of CHR ''9'' then Some (byte_of c - byte_of CHR ''0'' + 52)
      else if c = CHR ''+'' then Some 62
      else if c = CHR ''/'' then Some 63
      else None)"

fun sextets :: "nat \<Rightarrow> string \<Rightarrow> nat option" where
  "sextets bits [] = Some bits"
| "sextets bits (c # cs) =
     (case sextet c of None \<Rightarrow> None | Some s \<Rightarrow> sextets (push_bit 6 bits OR s) cs)"

definition decode_group :: "bool \<Rightarrow> string \<Rightarrow> string option" where
  "decode_group last_one grp =
     (let padding = length (takeWhile (\<lambda>c. c = CHR ''='') (rev grp)) in
      if padding > 2 \<or> padding > 0 \<and> \<not> last_one then None
      else (case sextets 0 (take (4 - padding) grp) of
              None \<Rightarrow> None
            | Some b \<Rightarrow>
                (let bits = push_bit (6 * padding) b;
                     decoded = [char_of (drop_bit 16 bits), char_of (drop_bit 8 bits), char_of bits];
                     kept = 3 - padding
                 in if \<exists>c \<in> set (drop kept decoded). c \<noteq> char_of (0::nat) then None
                    else Some (take kept decoded))))"

fun decode_groups :: "string list \<Rightarrow> string option" where
  "decode_groups [] = Some []"
| "decode_groups (g # gs) =
     (case decode_group (gs = []) g of
        None \<Rightarrow> None
      | Some d \<Rightarrow> (case decode_groups gs of None \<Rightarrow> None | Some ds \<Rightarrow> Some (d @ ds)))"

definition base64_decode :: "string \<Rightarrow> value_error + string" where
  "base64_decode t =
     (if length t mod 4 \<noteq> 0 then Inl (InvalidText ''bytes'' t)
      else (case decode_groups (chunks 4 t) of None \<Rightarrow> Inl (InvalidText ''bytes'' t) | Some ds \<Rightarrow> Inr ds))"

section \<open>A group\<close>

lemma sextet_alphabet: "s < 64 \<Longrightarrow> sextet (ALPHABET ! s) = Some s"
proof -
  have "list_all (\<lambda>s. sextet (ALPHABET ! s) = Some s) [0..<64]" by code_simp
  then show "s < 64 \<Longrightarrow> ?thesis" by (simp add: list_all_iff)
qed

lemma alphabet_ranges:
  "k < 26 \<Longrightarrow> ALPHABET ! k = char_of (65 + k)"
  "k < 26 \<Longrightarrow> ALPHABET ! (k + 26) = char_of (97 + k)"
  "k < 10 \<Longrightarrow> ALPHABET ! (k + 52) = char_of (48 + k)"
  "ALPHABET ! 62 = CHR ''+''" "ALPHABET ! 63 = CHR ''/''"
proof -
  have "list_all (\<lambda>k. ALPHABET ! k = char_of (65 + k)) [0..<26]" by code_simp
  then show "k < 26 \<Longrightarrow> ALPHABET ! k = char_of (65 + k)" by (simp add: list_all_iff)
  have "list_all (\<lambda>k. ALPHABET ! (k + 26) = char_of (97 + k)) [0..<26]" by code_simp
  then show "k < 26 \<Longrightarrow> ALPHABET ! (k + 26) = char_of (97 + k)" by (simp add: list_all_iff)
  have "list_all (\<lambda>k. ALPHABET ! (k + 52) = char_of (48 + k)) [0..<10]" by code_simp
  then show "k < 10 \<Longrightarrow> ALPHABET ! (k + 52) = char_of (48 + k)" by (simp add: list_all_iff)
  show "ALPHABET ! 62 = CHR ''+''" "ALPHABET ! 63 = CHR ''/''" by code_simp+
qed

lemma sextet_Some:
  assumes "sextet c = Some s"
  shows "s < 64 \<and> ALPHABET ! s = c"
proof -
  consider "65 \<le> byte_of c" "byte_of c \<le> 90" "s = byte_of c - 65"
    | "97 \<le> byte_of c" "byte_of c \<le> 122" "s = byte_of c - 97 + 26"
    | "48 \<le> byte_of c" "byte_of c \<le> 57" "s = byte_of c - 48 + 52"
    | "c = CHR ''+''" "s = 62" | "c = CHR ''/''" "s = 63"
    using assms by (auto simp: sextet_def split: if_splits)
  then show ?thesis
  proof cases
    case 1
    then show ?thesis using alphabet_ranges(1) [of "byte_of c - 65"] by simp
  next
    case 2
    then show ?thesis using alphabet_ranges(2) [of "byte_of c - 97"] by simp
  next
    case 3
    then show ?thesis using alphabet_ranges(3) [of "byte_of c - 48"] by simp
  qed (use alphabet_ranges(4,5) in simp_all)
qed

lemma alphabet_no_pad: "s < 64 \<Longrightarrow> ALPHABET ! s \<noteq> CHR ''=''"
  using sextet_alphabet [of s] by (auto simp: sextet_def)

text \<open>Four numbers of six bits and three of eight are the same 24 bits.\<close>

definition of_sextets :: "nat \<Rightarrow> nat \<Rightarrow> nat \<Rightarrow> nat \<Rightarrow> nat" where
  "of_sextets p q r s = ((p * 64 + q) * 64 + r) * 64 + s"

definition of_bytes :: "nat \<Rightarrow> nat \<Rightarrow> nat \<Rightarrow> nat" where
  "of_bytes a b c = (a * 256 + b) * 256 + c"

lemma div_twice: "n div 4096 = n div 64 div (64::nat)" "n div 262144 = n div 64 div 64 div (64::nat)"
  "n div 65536 = n div 256 div (256::nat)"
  by (simp_all add: div_mult2_eq [symmetric])

lemma low_part: "s < k \<Longrightarrow> (x * k + s) div k = (x::nat)" "s < k \<Longrightarrow> (x * k + s) mod k = (s::nat)"
  by simp_all

lemma sextets_of:
  assumes "p < 64" and "q < 64" and "r < 64" and "s < 64"
  shows "of_sextets p q r s div 262144 mod 64 = p" "of_sextets p q r s div 4096 mod 64 = q"
    "of_sextets p q r s div 64 mod 64 = r" "of_sextets p q r s mod 64 = s" "of_sextets p q r s < 16777216"
  unfolding of_sextets_def div_twice
  using assms by (simp_all only: low_part mod_less) (simp add: algebra_simps)

lemma of_sextets_of: "n < 16777216 \<Longrightarrow> of_sextets (n div 262144 mod 64) (n div 4096 mod 64) (n div 64 mod 64) (n mod 64) = n"
proof -
  assume "n < 16777216"
  then have "n div 64 div 64 div 64 < 64" unfolding div_twice [symmetric] by simp
  then have "n div 64 div 64 div 64 mod 64 = n div 64 div 64 div 64" by simp
  then show ?thesis unfolding of_sextets_def div_twice by (simp add: div_mult_mod_eq)
qed

lemma bytes_of:
  assumes "a < 256" and "b < 256" and "c < 256"
  shows "of_bytes a b c div 65536 mod 256 = a" "of_bytes a b c div 256 mod 256 = b" "of_bytes a b c mod 256 = c"
    "of_bytes a b c < 16777216"
  unfolding of_bytes_def div_twice
  using assms by (simp_all only: low_part mod_less) simp

lemma of_bytes_of: "n < 16777216 \<Longrightarrow> of_bytes (n div 65536 mod 256) (n div 256 mod 256) (n mod 256) = n"
proof -
  assume "n < 16777216"
  then have "n div 256 div 256 < 256" unfolding div_twice [symmetric] by simp
  then have "n div 256 div 256 mod 256 = n div 256 div 256" by simp
  then show ?thesis unfolding of_bytes_def div_twice by (simp add: div_mult_mod_eq)
qed

lemma encode_group_eq:
  assumes "length bs \<le> 3"
  shows "encode_group bs = (let n = of_bytes (byte_at bs 0) (byte_at bs 1) (byte_at bs 2) in
    map (\<lambda>i. if i \<le> length bs then ALPHABET ! ([n div 262144 mod 64, n div 4096 mod 64, n div 64 mod 64, n mod 64] ! i)
      else CHR ''='') [0, 1, 2, 3])"
proof -
  let ?n = "of_bytes (byte_at bs 0) (byte_at bs 1) (byte_at bs 2)"
  have b: "byte_at bs i < 256" for i by (simp add: byte_at_def)
  have "push_bit 8 (byte_at bs 1) OR byte_at bs 2 = byte_at bs 1 * 256 + byte_at bs 2"
    using push_or [of "byte_at bs 2" 8] b by simp
  moreover have "byte_at bs 1 * 256 + byte_at bs 2 < 2 ^ 16" using b [of 1] b [of 2] by simp
  ultimately have n: "push_bit 16 (byte_at bs 0) OR push_bit 8 (byte_at bs 1) OR byte_at bs 2 = ?n"
    using push_or [of _ 16 "byte_at bs 0"] by (simp add: of_bytes_def)
  have "x AND 63 = x mod 64" for x :: nat
    using take_bit_eq_mask [of 6 x] by (simp add: take_bit_eq_mod mask_eq_exp_minus_1)
  moreover have "[0..<4] = [0, 1, 2, 3 :: nat]" by (simp add: upt_rec)
  ultimately show ?thesis
    unfolding encode_group_def n Let_def by (simp add: drop_bit_eq_div)
qed

lemma sextets_step: "sextet c = Some s \<Longrightarrow> sextets bits (c # cs) = sextets (bits * 64 + s) cs"
  using push_or [of s 6 bits] sextet_Some [of c s] by simp

lemma pad_count:
  "length (takeWhile (\<lambda>c. c = CHR ''='') (rev (cs @ replicate k (CHR ''='')))) = k"
  if "cs = [] \<or> last cs \<noteq> CHR ''=''"
proof -
  have "takeWhile (\<lambda>c. c = CHR ''='') (rev cs) = []"
    using that by (cases cs rule: rev_cases) auto
  moreover have "takeWhile (\<lambda>c. c = CHR ''='') (replicate k (CHR ''='') @ ys) =
      replicate k (CHR ''='') @ takeWhile (\<lambda>c. c = CHR ''='') ys" for ys
    by (induction k) simp_all
  ultimately show ?thesis by simp
qed

lemma char_byte_eq: "char_of n = c \<longleftrightarrow> n mod 256 = byte_of c" for n :: nat
  by (metis of_char_eq_iff of_char_of)

lemma decode_group_eq:
  assumes "length cs + k = 4" and "cs = [] \<or> last cs \<noteq> CHR ''=''"
  shows "decode_group lo (cs @ replicate k (CHR ''='')) =
    (if k > 2 \<or> k > 0 \<and> \<not> lo then None
     else (case sextets 0 cs of None \<Rightarrow> None
       | Some b \<Rightarrow> let n = b * 64 ^ k; d = [n div 65536 mod 256, n div 256 mod 256, n mod 256] in
           if \<exists>x \<in> set (drop (3 - k) d). x \<noteq> 0 then None else Some (map char_of (take (3 - k) d))))"
proof -
  have cs: "take (4 - k) (cs @ replicate k (CHR ''='')) = cs" using assms(1) by simp
  have d: "[char_of (drop_bit 16 n), char_of (drop_bit 8 n), char_of n] =
      map char_of [n div 65536 mod 256, n div 256 mod 256, n mod 256]" for n :: nat
    by (simp add: drop_bit_eq_div)
  have z: "(\<exists>c \<in> set (drop j (map char_of ns)). c \<noteq> char_of (0::nat)) = (\<exists>x \<in> set (drop j ns). x \<noteq> 0)"
    if "\<forall>x \<in> set ns. x < 256" for j and ns :: "nat list"
  proof -
    have "(\<exists>c \<in> set (drop j (map char_of ns)). c \<noteq> char_of (0::nat)) = (\<exists>x \<in> set (drop j ns). char_of x \<noteq> char_of (0::nat))"
      by (simp only: drop_map set_map bex_simps)
    also have "\<dots> = (\<exists>x \<in> set (drop j ns). x \<noteq> 0)"
      by (rule bex_cong) (use that in \<open>simp_all add: char_byte_eq in_set_dropD\<close>)
    finally show ?thesis .
  qed
  show ?thesis
    unfolding decode_group_def pad_count [OF assms(2)] cs d Let_def
    by (auto simp: z take_map push_bit_eq_mult power_mult split: option.split simp del: list.map)
qed

text \<open>A whole group, and the two short ones.\<close>

lemma sextets4: "sextet c0 = Some p \<Longrightarrow> sextet c1 = Some q \<Longrightarrow> sextet c2 = Some r \<Longrightarrow> sextet c3 = Some s \<Longrightarrow>
   sextets 0 [c0, c1, c2, c3] = Some (of_sextets p q r s)"
  and sextets3: "sextet c0 = Some p \<Longrightarrow> sextet c1 = Some q \<Longrightarrow> sextet c2 = Some r \<Longrightarrow>
   sextets 0 [c0, c1, c2] = Some ((p * 64 + q) * 64 + r)"
  and sextets2: "sextet c0 = Some p \<Longrightarrow> sextet c1 = Some q \<Longrightarrow> sextets 0 [c0, c1] = Some (p * 64 + q)"
  by (simp_all add: sextets_step of_sextets_def del: sextets.simps(2))

lemma short_lists:
  "0 < length bs \<Longrightarrow> length bs \<le> 3 \<Longrightarrow> (\<exists>a. bs = [a]) \<or> (\<exists>a b. bs = [a, b]) \<or> (\<exists>a b c. bs = [a, b, c])"
  by (cases bs; cases "tl bs"; cases "tl (tl bs)"; auto)

lemma replicate_two: "replicate 2 x = [x, x]"
  by (simp add: numeral_2_eq_2)

lemma decode_group_Some:
  assumes "length cs + k = 4" and "last cs \<noteq> CHR ''=''" and "sextets 0 cs = Some b" and "b * 64 ^ k = n"
    and "[n div 65536 mod 256, n div 256 mod 256, n mod 256] = map byte_of bs @ replicate k 0" and "k \<le> 2" and "k = 0 \<or> lo"
  shows "decode_group lo (cs @ replicate k (CHR ''='')) = Some bs"
proof -
  have "length bs = 3 - k" using arg_cong [OF assms(5), of length] by simp
  then have "take (3 - k) (map byte_of bs @ replicate k 0) = map byte_of bs"
    "drop (3 - k) (map byte_of bs @ replicate k 0) = replicate k 0" by simp_all
  moreover have "map char_of (map byte_of bs) = bs" by (simp add: comp_def)
  ultimately show ?thesis
    using decode_group_eq [of cs k lo, OF assms(1)] assms(2-4,6,7) unfolding Let_def
    by (auto simp: assms(5) simp del: list.map map_map)
qed

lemma encode_decode_group:
  assumes "0 < length bs" and "length bs \<le> 3" and "length bs = 3 \<or> lo"
  shows "decode_group lo (encode_group bs) = Some bs" "length (encode_group bs) = 4"
proof -
  show "length (encode_group bs) = 4" by (simp add: encode_group_eq [OF assms(2)] Let_def)
  define n where "n = of_bytes (byte_at bs 0) (byte_at bs 1) (byte_at bs 2)"
  have b: "byte_at bs i < 256" for i by (simp add: byte_at_def)
  note bb = bytes_of [OF b [of 0] b [of 1] b [of 2], folded n_def]
  define p q r s where "p = n div 262144 mod 64" and "q = n div 4096 mod 64" and "r = n div 64 mod 64" and "s = n mod 64"
  have n: "of_sextets p q r s = n" unfolding p_def q_def r_def s_def by (rule of_sextets_of [OF bb(4)])
  have lt: "p < 64" "q < 64" "r < 64" "s < 64" by (simp_all add: p_def q_def r_def s_def)
  let ?a = "(!) ALPHABET"
  have g: "encode_group bs = map (\<lambda>i. if i \<le> length bs then ?a ([p, q, r, s] ! i) else CHR ''='') [0, 1, 2, 3]"
    unfolding encode_group_eq [OF assms(2)] Let_def n_def [symmetric] p_def q_def r_def s_def ..
  note al = sextet_alphabet [OF lt(1)] sextet_alphabet [OF lt(2)] sextet_alphabet [OF lt(3)] sextet_alphabet [OF lt(4)]
  note np = alphabet_no_pad [OF lt(2)] alphabet_no_pad [OF lt(3)] alphabet_no_pad [OF lt(4)]
  consider (one) a where "bs = [a]" | (two) a b where "bs = [a, b]" | (three) a b c where "bs = [a, b, c]"
    using short_lists [OF assms(1,2)] by blast
  then show "decode_group lo (encode_group bs) = Some bs"
  proof cases
    case three
    have e: "encode_group bs = [?a p, ?a q, ?a r, ?a s] @ replicate 0 (CHR ''='')" unfolding g by (simp add: three)
    show ?thesis unfolding e
      by (rule decode_group_Some [OF _ _ sextets4 [OF al]]) (use np bb(1-3) n in \<open>simp_all add: three byte_at_def\<close>)
  next
    case two
    have e: "encode_group bs = [?a p, ?a q, ?a r] @ replicate 1 (CHR ''='')" unfolding g by (simp add: two eval_nat_numeral)
    have "n = 64 * ((byte_of a * 256 + byte_of b) * 4)" by (simp add: n_def of_bytes_def two byte_at_def)
    then have "n mod 64 = 0" by (simp only: mod_mult_self1_is_0)
    then have "((p * 64 + q) * 64 + r) * 64 = n" using n by (simp add: s_def of_sextets_def)
    then show ?thesis unfolding e
      by (intro decode_group_Some [OF _ _ sextets3 [OF al(1-3)]]) (use np bb(1-3) assms(3) in \<open>simp_all add: two byte_at_def\<close>)
  next
    case one
    have e: "encode_group bs = [?a p, ?a q] @ replicate 2 (CHR ''='')" unfolding g by (simp add: one eval_nat_numeral)
    have "n = 64 * (64 * (16 * byte_of a))" by (simp add: n_def of_bytes_def one byte_at_def)
    then have "n mod 64 = 0" "n div 64 mod 64 = 0" by (simp_all only: mod_mult_self1_is_0 nonzero_mult_div_cancel_left zero_neq_numeral)
    then have "(p * 64 + q) * 4096 = n" using n by (simp add: s_def r_def of_sextets_def)
    then show ?thesis unfolding e
      by (intro decode_group_Some [OF _ _ sextets2 [OF al(1,2)]]) (use np bb(1-3) assms(3) in \<open>simp_all add: one byte_at_def replicate_two\<close>)
  qed
qed

section \<open>Whole texts\<close>

lemma chunks_append: "length g = n \<Longrightarrow> 0 < n \<Longrightarrow> chunks n (g @ xs) = g # chunks n xs"
  by (subst chunks.simps) auto

lemma chunks_Nil [simp]: "chunks n [] = []"
  by (subst chunks.simps) simp

lemma concat_chunks: "0 < n \<Longrightarrow> concat (chunks n xs) = xs"
  by (induction n xs rule: chunks.induct) (subst chunks.simps, simp)

lemma chunks_empty: "0 < n \<Longrightarrow> chunks n xs = [] \<longleftrightarrow> xs = []"
  by (subst chunks.simps) simp

lemma encode_decode: "decode_groups (chunks 4 (base64_encode bs)) = Some bs \<and> length (base64_encode bs) mod 4 = 0"
proof (induction "length bs" arbitrary: bs rule: less_induct)
  case less
  show ?case
  proof (cases "bs = []")
    case True
    then show ?thesis by (simp add: base64_encode_def)
  next
    case False
    let ?g = "take 3 bs" and ?r = "drop 3 bs"
    have e: "base64_encode bs = encode_group ?g @ base64_encode ?r"
      using False by (simp add: base64_encode_def chunks.simps [of 3 bs])
    have "0 < length ?g" "length ?g \<le> 3" "length ?g = 3 \<or> ?r = []" using False by auto
    then have g: "decode_group (?r = []) (encode_group ?g) = Some ?g" "length (encode_group ?g) = 4"
      using encode_decode_group [of ?g "?r = []"] by blast+
    have r: "decode_groups (chunks 4 (base64_encode ?r)) = Some ?r" "length (base64_encode ?r) mod 4 = 0"
      using less [of ?r] False by simp_all
    have "chunks 4 (base64_encode ?r) = [] \<longleftrightarrow> ?r = []"
      using r(1) by (cases "chunks 4 (base64_encode ?r)") (auto simp: base64_encode_def)
    then show ?thesis using g r by (simp add: e chunks_append mod_add_eq [symmetric])
  qed
qed

text \<open>Only the text that encoding gives is decoded.\<close>

lemma sextets_cases:
  assumes "sextets 0 cs = Some b"
  shows "length cs = 2 \<Longrightarrow> \<exists>p q. p < 64 \<and> q < 64 \<and> cs = [ALPHABET ! p, ALPHABET ! q] \<and> b = p * 64 + q"
    and "length cs = 3 \<Longrightarrow> \<exists>p q r. p < 64 \<and> q < 64 \<and> r < 64 \<and> cs = [ALPHABET ! p, ALPHABET ! q, ALPHABET ! r] \<and>
      b = (p * 64 + q) * 64 + r"
    and "length cs = 4 \<Longrightarrow> \<exists>p q r s. p < 64 \<and> q < 64 \<and> r < 64 \<and> s < 64 \<and>
      cs = [ALPHABET ! p, ALPHABET ! q, ALPHABET ! r, ALPHABET ! s] \<and> b = of_sextets p q r s"
proof -
  have step: "\<exists>s < 64. c = ALPHABET ! s \<and> sextets (v * 64 + s) ds = Some b" if v: "sextets v (c # ds) = Some b" for v c ds
  proof -
    obtain s where s: "sextet c = Some s" using v by (auto split: option.splits)
    have "sextets (v * 64 + s) ds = Some b" using v unfolding sextets_step [OF s] .
    then show ?thesis using sextet_Some [OF s] by auto
  qed
  show "length cs = 2 \<Longrightarrow> \<exists>p q. p < 64 \<and> q < 64 \<and> cs = [ALPHABET ! p, ALPHABET ! q] \<and> b = p * 64 + q"
    using assms by (auto simp: numeral_2_eq_2 length_Suc_conv simp del: sextets.simps(2) dest!: step) blast
  show "length cs = 3 \<Longrightarrow> \<exists>p q r. p < 64 \<and> q < 64 \<and> r < 64 \<and> cs = [ALPHABET ! p, ALPHABET ! q, ALPHABET ! r] \<and>
      b = (p * 64 + q) * 64 + r"
    using assms by (auto simp: numeral_3_eq_3 length_Suc_conv simp del: sextets.simps(2) dest!: step) blast
  show "length cs = 4 \<Longrightarrow> \<exists>p q r s. p < 64 \<and> q < 64 \<and> r < 64 \<and> s < 64 \<and>
      cs = [ALPHABET ! p, ALPHABET ! q, ALPHABET ! r, ALPHABET ! s] \<and> b = of_sextets p q r s"
  proof -
    assume "length cs = 4"
    then have "length cs = Suc (Suc (Suc (Suc 0)))" by simp
    then show ?thesis
      using assms by (auto simp: of_sextets_def length_Suc_conv simp del: sextets.simps(2) dest!: step) blast
  qed
qed

lemma padding_split: "\<exists>cs. xs = cs @ replicate (length (takeWhile (\<lambda>c. c = x) (rev xs))) x \<and> (cs = [] \<or> last cs \<noteq> x)"
proof (induction xs rule: rev_induct)
  case (snoc y xs)
  show ?case
  proof (cases "y = x")
    case True
    obtain cs where "xs = cs @ replicate (length (takeWhile (\<lambda>c. c = x) (rev xs))) x" "cs = [] \<or> last cs \<noteq> x"
      using snoc.IH by blast
    then show ?thesis using True
      by (intro exI [of _ cs]) (simp add: replicate_append_same [symmetric])
  qed (intro exI [of _ "xs @ [y]"]; simp)
qed simp

lemma bytes_of_decoded:
  assumes "n < 16777216" and "length ns = 3 - k" and "[n div 65536 mod 256, n div 256 mod 256, n mod 256] = ns @ replicate k 0"
    and "k \<le> 3"
  shows "of_bytes (byte_at (map char_of ns) 0) (byte_at (map char_of ns) 1) (byte_at (map char_of ns) 2) = n"
proof -
  have "byte_at (map char_of ns) i = [n div 65536 mod 256, n div 256 mod 256, n mod 256] ! i" if "i < 3" for i
  proof (cases "i < length ns")
    case True
    then have "ns ! i = [n div 65536 mod 256, n div 256 mod 256, n mod 256] ! i" using assms(3) by (simp add: nth_append)
    moreover have "i = 0 \<or> i = 1 \<or> i = 2" using that by auto
    ultimately show ?thesis using True by (auto simp: byte_at_def)
  next
    case False
    then have "i - length ns < k" using that assms(2,4) by simp
    then show ?thesis unfolding assms(3) using False by (simp add: byte_at_def nth_append)
  qed
  from this [of 0] this [of 1] this [of 2] show ?thesis using of_bytes_of [OF assms(1)] by simp
qed

lemma decode_encode_group:
  assumes "decode_group lo g = Some ds" and "length g = 4"
  shows "encode_group ds = g \<and> 0 < length ds \<and> length ds \<le> 3 \<and> (length ds = 3 \<or> lo)"
proof -
  define k where "k = length (takeWhile (\<lambda>c. c = CHR ''='') (rev g))"
  obtain cs where cs: "g = cs @ replicate k (CHR ''='')" "cs = [] \<or> last cs \<noteq> CHR ''=''"
    using padding_split [of g "CHR ''=''"] unfolding k_def by blast
  have len: "length cs + k = 4" using arg_cong [OF cs(1), of length] assms(2) by simp
  have dec: "\<not> (k > 2 \<or> k > 0 \<and> \<not> lo)" "sextets 0 cs \<noteq> None"
    using assms(1) decode_group_eq [OF len cs(2), of lo] cs(1) by (auto split: if_splits option.splits)
  then obtain b where b: "sextets 0 cs = Some b" by blast
  define n where "n = b * 64 ^ k"
  define d where "d = [n div 65536 mod 256, n div 256 mod 256, n mod 256]"
  have z: "\<forall>x \<in> set (drop (3 - k) d). x = 0" and ds: "ds = map char_of (take (3 - k) d)"
    using assms(1) decode_group_eq [OF len cs(2), of lo] dec(1) unfolding cs(1) b n_def d_def Let_def
    by (auto split: if_splits)
  have k: "k \<le> 2" "k = 0 \<or> lo" using dec(1) by auto
  have "drop (3 - k) d = replicate k 0"
    using z k by (intro replicate_eqI) (simp_all add: d_def)
  then have d: "d = take (3 - k) d @ replicate k 0" by (metis append_take_drop_id)
  have l: "length (take (3 - k) d) = 3 - k" by (simp add: d_def)
  have enc: "encode_group ds = g" if n: "n = of_sextets p q r s" "p < 64" "q < 64" "r < 64" "s < 64"
    and g: "g = map (\<lambda>i. if i \<le> 3 - k then ALPHABET ! ([p, q, r, s] ! i) else CHR ''='') [0, 1, 2, 3]" for p q r s
  proof -
    have "of_bytes (byte_at ds 0) (byte_at ds 1) (byte_at ds 2) = n"
      unfolding ds
    proof (rule bytes_of_decoded [OF _ l])
      show "n < 16777216" using sextets_of(5) [OF n(2-5)] n(1) by simp
      show "[n div 65536 mod 256, n div 256 mod 256, n mod 256] = take (3 - k) d @ replicate k 0"
        using d by (simp only: d_def)
      show "k \<le> 3" using k(1) by simp
    qed
    moreover have "length ds = 3 - k" using l by (simp add: ds)
    ultimately show ?thesis
      using sextets_of(1-4) [OF n(2-5)] by (simp add: encode_group_eq n(1) g Let_def)
  qed
  have "k = 0 \<or> k = 1 \<or> k = 2" using k by auto
  then have "encode_group ds = g"
  proof (elim disjE)
    assume k0: "k = 0"
    then obtain p q r s where "p < 64" "q < 64" "r < 64" "s < 64" "cs = [ALPHABET ! p, ALPHABET ! q, ALPHABET ! r, ALPHABET ! s]"
      "b = of_sextets p q r s" using sextets_cases(3) [OF b] len by auto
    then show ?thesis using k0 cs(1) by (intro enc [of p q r s]) (simp_all add: n_def)
  next
    assume k1: "k = 1"
    then obtain p q r where "p < 64" "q < 64" "r < 64" "cs = [ALPHABET ! p, ALPHABET ! q, ALPHABET ! r]"
      "b = (p * 64 + q) * 64 + r" using sextets_cases(2) [OF b] len by auto
    then show ?thesis using k1 cs(1) by (intro enc [of p q r 0]) (simp_all add: n_def of_sextets_def)
  next
    assume k2: "k = 2"
    then obtain p q where "p < 64" "q < 64" "cs = [ALPHABET ! p, ALPHABET ! q]" "b = p * 64 + q"
      using sextets_cases(1) [OF b] len by auto
    then show ?thesis using k2 cs(1) by (intro enc [of p q 0 0]) (simp_all add: n_def of_sextets_def replicate_two)
  qed
  then show ?thesis using k l by (auto simp: ds)
qed

lemma chunks_one: "0 < length xs \<Longrightarrow> length xs \<le> n \<Longrightarrow> chunks n xs = [xs]"
  using chunks_append [of xs n "[]"] by (subst chunks.simps) (auto simp: Suc_le_eq intro: order_less_le_trans)

lemma chunks_full: "0 < n \<Longrightarrow> length xs mod n = 0 \<Longrightarrow> g \<in> set (chunks n xs) \<Longrightarrow> length g = n"
proof (induction n xs rule: chunks.induct)
  case (1 n xs)
  show ?case
  proof (cases "xs = []")
    case False
    then have le: "n \<le> length xs" using "1.prems"(1,2) by (intro dvd_imp_le) (simp_all add: mod_eq_0_iff_dvd)
    have "g = take n xs \<or> g \<in> set (chunks n (drop n xs))"
      using "1.prems" False by (subst (asm) chunks.simps) simp
    then show ?thesis
    proof
      assume "g \<in> set (chunks n (drop n xs))"
      moreover have "length (drop n xs) mod n = 0" using "1.prems" le by (simp add: mod_if)
      ultimately show ?thesis using "1.IH" False "1.prems"(1) by simp
    qed (use le in simp)
  qed (use "1.prems" in simp)
qed

lemma decode_encode:
  "decode_groups gs = Some ds \<Longrightarrow> \<forall>g \<in> set gs. length g = 4 \<Longrightarrow> base64_encode ds = concat gs"
proof (induction gs arbitrary: ds)
  case (Cons g gs)
  obtain d ds' where d: "decode_group (gs = []) g = Some d" "decode_groups gs = Some ds'" "ds = d @ ds'"
    using Cons.prems(1) by (auto split: option.splits)
  have g: "encode_group d = g" "0 < length d" "length d \<le> 3" "length d = 3 \<or> gs = []"
    using decode_encode_group [OF d(1)] Cons.prems(2) by auto
  show ?case
  proof (cases "gs = []")
    case True
    then show ?thesis using d g by (simp add: base64_encode_def chunks_one)
  next
    case False
    then have "chunks 3 ds = d # chunks 3 ds'" using d(3) g(4) by (simp add: chunks_append)
    then show ?thesis using Cons.IH [OF d(2)] Cons.prems(2) g(1) by (simp add: base64_encode_def)
  qed
qed (simp add: base64_encode_def)

text \<open>Encoding and decoding are inverse: every text decodes to the bytes it encodes, or not at all.\<close>

lemma base64_decode_iff: "base64_decode t = Inr bs \<longleftrightarrow> base64_encode bs = t"
proof
  assume d: "base64_decode t = Inr bs"
  then have "length t mod 4 = 0" "decode_groups (chunks 4 t) = Some bs"
    by (auto simp: base64_decode_def split: if_splits option.splits)
  moreover have "\<forall>g \<in> set (chunks 4 t). length g = 4" using calculation(1) by (intro ballI chunks_full) simp_all
  ultimately have "base64_encode bs = concat (chunks 4 t)" using decode_encode by blast
  then show "base64_encode bs = t" by (simp add: concat_chunks)
next
  assume "base64_encode bs = t"
  with encode_decode [of bs] have "decode_groups (chunks 4 t) = Some bs" "length t mod 4 = 0" by simp_all
  then show "base64_decode t = Inr bs" by (simp only: base64_decode_def) simp
qed

end
