(* ===== verification/Value_Uuid.thy ===== *)
theory Value_Uuid
  imports Value_Bytes "HOL-Library.Char_ord" "HOL-Library.List_Lexorder"
begin

text \<open>UUIDs, \<open>crates/rutis-bridge/src/session/values.rs\<close>: 16 bytes and their lowercase hex.\<close>

datatype uuid = Uuid (uuid_bytes: string)

text \<open>The derived order, that of the bytes.\<close>

instantiation uuid :: linorder
begin

definition less_eq_uuid :: "uuid \<Rightarrow> uuid \<Rightarrow> bool" where
  "less_eq_uuid a b \<longleftrightarrow> uuid_bytes a \<le> uuid_bytes b"

definition less_uuid :: "uuid \<Rightarrow> uuid \<Rightarrow> bool" where
  "less_uuid a b \<longleftrightarrow> uuid_bytes a < uuid_bytes b"

instance
  by standard (auto simp: less_eq_uuid_def less_uuid_def intro: uuid.expand)

end

definition uuid_ok :: "uuid \<Rightarrow> bool" where
  "uuid_ok u \<longleftrightarrow> length (uuid_bytes u) = 16"

text \<open>\<open>to_be_bytes\<close> and \<open>from_be_bytes\<close> of a \<open>u128\<close>.\<close>

definition from_u128 :: "nat \<Rightarrow> uuid" where
  "from_u128 n = Uuid (map (\<lambda>i. char_of (drop_bit (8 * (15 - i)) n)) [0..<16])"

definition as_u128 :: "uuid \<Rightarrow> nat" where
  "as_u128 u = foldl (\<lambda>v c. v * 256 + byte_of c) 0 (uuid_bytes u)"

definition nibble :: "char \<Rightarrow> nat option" where
  "nibble c =
     (if byte_of CHR ''0'' \<le> byte_of c \<and> byte_of c \<le> byte_of CHR ''9'' then Some (byte_of c - byte_of CHR ''0'')
      else if byte_of CHR ''a'' \<le> byte_of c \<and> byte_of c \<le> byte_of CHR ''f'' then Some (byte_of c - byte_of CHR ''a'' + 10)
      else None)"

definition hyphen_at :: "nat \<Rightarrow> bool" where
  "hyphen_at i \<longleftrightarrow> i \<in> {8, 13, 18, 23}"

fun uuid_loop :: "nat \<Rightarrow> string \<Rightarrow> string \<Rightarrow> nat \<Rightarrow> string option" where
  "uuid_loop i [] v nibbles = Some v"
| "uuid_loop i (c # cs) v nibbles =
     (if hyphen_at i then (if c \<noteq> CHR ''-'' then None else uuid_loop (Suc i) cs v nibbles)
      else (case nibble c of
              None \<Rightarrow> None
            | Some n \<Rightarrow>
                uuid_loop (Suc i) cs
                  (v[nibbles div 2 := char_of (byte_of (v ! (nibbles div 2)) OR push_bit (if even nibbles then 4 else 0) n)])
                  (Suc nibbles)))"

definition uuid_from_str :: "string \<Rightarrow> value_error + uuid" where
  "uuid_from_str t =
     (if length t \<noteq> 36 then Inl (InvalidText ''uuid'' t)
      else (case uuid_loop 0 t (replicate 16 (char_of (0::nat))) 0 of
              None \<Rightarrow> Inl (InvalidText ''uuid'' t) | Some v \<Rightarrow> Inr (Uuid v)))"

text \<open>\<open>{:02x}\<close>.\<close>

definition hex_digit :: "nat \<Rightarrow> char" where
  "hex_digit n = (if n < 10 then char_of (48 + n) else char_of (87 + n))"

definition hex2 :: "char \<Rightarrow> string" where
  "hex2 c = [hex_digit (byte_of c div 16), hex_digit (byte_of c mod 16)]"

definition hyphen_before :: "nat \<Rightarrow> bool" where
  "hyphen_before i \<longleftrightarrow> i \<in> {4, 6, 8, 10}"

fun show_bytes :: "nat \<Rightarrow> string \<Rightarrow> string" where
  "show_bytes i [] = []"
| "show_bytes i (c # cs) = (if hyphen_before i then ''-'' else []) @ hex2 c @ show_bytes (Suc i) cs"

definition show_uuid :: "uuid \<Rightarrow> string" where
  "show_uuid u = show_bytes 0 (uuid_bytes u)"

section \<open>A byte of the text\<close>

lemma nibble_digit: "n < 16 \<Longrightarrow> nibble (hex_digit n) = Some n"
  by (auto simp: nibble_def hex_digit_def)

lemma nibble_Some: "nibble c = Some n \<Longrightarrow> n < 16 \<and> hex_digit n = c"
  by (auto simp: nibble_def hex_digit_def char_byte_eq split: if_splits)

lemma two_nibbles:
  assumes "p < 16" and "q < 16"
  shows "push_bit 4 p mod 256 OR q = p * 16 + (q::nat)"
proof -
  have "push_bit 4 p mod 256 = push_bit 4 p" using assms(1) by (simp add: push_bit_eq_mult)
  then show ?thesis using push_or [of q 4 p] assms(2) by simp
qed

lemma loop_byte:
  assumes "\<not> hyphen_at i" and "\<not> hyphen_at (Suc i)" and "nibble a = Some p" and "nibble b = Some q"
  shows "uuid_loop i (a # b # rest) (pre @ char_of (0::nat) # post) (2 * length pre) =
    uuid_loop (Suc (Suc i)) rest (pre @ char_of (p * 16 + q) # post) (2 * Suc (length pre))"
  using assms two_nibbles [of p q] nibble_Some [OF assms(3)] nibble_Some [OF assms(4)]
  by (simp add: list_update_append nth_append)

text \<open>Where the text of a byte starts.\<close>

definition text_at :: "nat \<Rightarrow> nat" where
  "text_at j = 2 * j + (if 4 < j then 1 else 0) + (if 6 < j then 1 else 0) + (if 8 < j then 1 else 0) + (if 10 < j then 1 else 0)"

lemma text_places:
  assumes "j < 16"
  shows "hyphen_at (text_at j) = hyphen_before j"
    "\<not> hyphen_at (text_at j + (if hyphen_before j then 1 else 0))"
    "\<not> hyphen_at (Suc (text_at j + (if hyphen_before j then 1 else 0)))"
    "text_at (Suc j) = Suc (Suc (text_at j + (if hyphen_before j then 1 else 0)))"
proof -
  have "list_all (\<lambda>j. hyphen_at (text_at j) = hyphen_before j \<and>
      \<not> hyphen_at (text_at j + (if hyphen_before j then 1 else 0)) \<and>
      \<not> hyphen_at (Suc (text_at j + (if hyphen_before j then 1 else 0))) \<and>
      text_at (Suc j) = Suc (Suc (text_at j + (if hyphen_before j then 1 else 0)))) [0..<16]"
    by code_simp
  then show "hyphen_at (text_at j) = hyphen_before j"
    "\<not> hyphen_at (text_at j + (if hyphen_before j then 1 else 0))"
    "\<not> hyphen_at (Suc (text_at j + (if hyphen_before j then 1 else 0)))"
    "text_at (Suc j) = Suc (Suc (text_at j + (if hyphen_before j then 1 else 0)))"
    using assms by (simp_all add: list_all_iff)
qed

lemma hex2_read: "nibble (hex_digit (byte_of c div 16)) = Some (byte_of c div 16)"
  "nibble (hex_digit (byte_of c mod 16)) = Some (byte_of c mod 16)" "char_of (byte_of c div 16 * 16 + byte_of c mod 16) = c"
proof -
  have "byte_of c div 16 < 16" using byte_less [of c] by (intro less_mult_imp_div_less) simp
  then show "nibble (hex_digit (byte_of c div 16)) = Some (byte_of c div 16)" by (rule nibble_digit)
  show "nibble (hex_digit (byte_of c mod 16)) = Some (byte_of c mod 16)" by (rule nibble_digit) simp
  have "byte_of c div 16 * 16 + byte_of c mod 16 = byte_of c" by (rule div_mult_mod_eq)
  then show "char_of (byte_of c div 16 * 16 + byte_of c mod 16) = c" by simp
qed

lemma loop_shown:
  "length pre + length post = 16 \<Longrightarrow>
   uuid_loop (text_at (length pre)) (show_bytes (length pre) post) (pre @ replicate (length post) (char_of (0::nat)))
     (2 * length pre) = Some (pre @ post)"
proof (induction post arbitrary: pre)
  case (Cons c post)
  let ?j = "length pre"
  have j: "?j < 16" using Cons.prems by simp
  let ?i = "text_at ?j + (if hyphen_before ?j then 1 else 0)"
  have "uuid_loop (text_at ?j) (show_bytes ?j (c # post)) (pre @ replicate (length (c # post)) (char_of (0::nat))) (2 * ?j) =
      uuid_loop ?i (hex2 c @ show_bytes (Suc ?j) post) (pre @ char_of (0::nat) # replicate (length post) (char_of (0::nat))) (2 * ?j)"
    using text_places(1) [OF j] by simp
  also have "\<dots> = uuid_loop (Suc (Suc ?i)) (show_bytes (Suc ?j) post) (pre @ c # replicate (length post) (char_of (0::nat))) (2 * Suc ?j)"
    unfolding hex2_def using loop_byte [OF text_places(2,3) [OF j] hex2_read(1,2) [of c]] by (simp only: hex2_read append_Cons append_Nil)
  also have "\<dots> = Some ((pre @ [c]) @ post)"
    using Cons.IH [of "pre @ [c]"] Cons.prems text_places(4) [OF j] by simp
  finally show ?case by simp
qed simp

lemma loop_read:
  "uuid_loop (text_at (length pre)) t (pre @ replicate k (char_of (0::nat))) (2 * length pre) = Some u \<Longrightarrow>
   length pre + k = 16 \<Longrightarrow> length t + text_at (length pre) = 36 \<Longrightarrow>
   \<exists>post. u = pre @ post \<and> length post = k \<and> t = show_bytes (length pre) post"
proof (induction k arbitrary: pre t)
  case 0
  then have "text_at (length pre) = 36" by (simp add: text_at_def)
  then show ?case using 0 by simp
next
  case (Suc k)
  let ?j = "length pre" and ?z = "replicate k (char_of (0::nat))"
  have j: "?j < 16" using Suc.prems(2) by simp
  let ?i = "text_at ?j + (if hyphen_before ?j then 1 else 0)"
  have le: "?i + 2 \<le> 36"
  proof -
    have "list_all (\<lambda>j. text_at j + (if hyphen_before j then 1 else 0) + 2 \<le> 36) [0..<16]" by code_simp
    then show ?thesis using j by (simp add: list_all_iff)
  qed
  obtain t' where t': "t = (if hyphen_before ?j then ''-'' else []) @ t'"
    "uuid_loop ?i t' (pre @ char_of (0::nat) # ?z) (2 * ?j) = Some u"
    using Suc.prems text_places(1) [OF j] le by (cases t) (auto split: if_splits)
  have len: "length t' + ?i = 36" using t'(1) Suc.prems(3) by (auto split: if_splits)
  then obtain a b rest where ab: "t' = a # b # rest" using le by (cases t'; cases "tl t'") auto
  note at = text_places(2,3) [OF j]
  obtain p where p: "nibble a = Some p" using t'(2) ab at(1) by (auto split: option.splits)
  obtain q where q: "nibble b = Some q" using t'(2) ab at p by (auto split: option.splits)
  have u: "uuid_loop (text_at (Suc ?j)) rest ((pre @ [char_of (p * 16 + q)]) @ ?z) (2 * length (pre @ [char_of (p * 16 + q)])) = Some u"
    using t'(2) loop_byte [OF at p q, of rest pre ?z] text_places(4) [OF j] unfolding ab by simp
  have "length rest + text_at (Suc ?j) = 36" using len ab text_places(4) [OF j] by simp
  then obtain post where post: "u = (pre @ [char_of (p * 16 + q)]) @ post" "length post = k" "rest = show_bytes (Suc ?j) post"
    using Suc.IH [of "pre @ [char_of (p * 16 + q)]" rest] u Suc.prems(2) by auto
  have "hex2 (char_of (p * 16 + q)) = [a, b]"
    using nibble_Some [OF p] nibble_Some [OF q] by (simp add: hex2_def)
  then show ?case using post t'(1) ab by (intro exI [of _ "char_of (p * 16 + q) # post"]) simp
qed

text \<open>Reading and writing are inverse.\<close>

lemma text_at_ends: "text_at 0 = 0" "text_at 16 = 36"
  by (simp_all add: text_at_def)

lemma show_bytes_length: "length (show_bytes j bs) + text_at j = text_at (j + length bs)" if "j + length bs \<le> 16"
  using that
proof (induction j bs rule: show_bytes.induct)
  case (2 j c cs)
  then show ?case using text_places(4) [of j] by (auto simp: hex2_def)
qed simp

lemma uuid_from_str_iff: "uuid_from_str t = Inr u \<longleftrightarrow> uuid_ok u \<and> show_uuid u = t"
proof
  assume r: "uuid_from_str t = Inr u"
  then have "length t = 36" "uuid_loop 0 t (replicate 16 (char_of (0::nat))) 0 = Some (uuid_bytes u)"
    by (auto simp: uuid_from_str_def split: if_splits option.splits)
  then show "uuid_ok u \<and> show_uuid u = t"
    using loop_read [of "[]" t 16 "uuid_bytes u"] by (auto simp: text_at_ends uuid_ok_def show_uuid_def)
next
  assume "uuid_ok u \<and> show_uuid u = t"
  then have l: "length (uuid_bytes u) = 16" and t: "t = show_bytes 0 (uuid_bytes u)"
    by (auto simp: uuid_ok_def show_uuid_def)
  have "length t = 36" using show_bytes_length [of 0 "uuid_bytes u"] l by (simp add: t text_at_ends)
  then show "uuid_from_str t = Inr u"
    using loop_shown [of "[]" "uuid_bytes u"] l by (simp add: uuid_from_str_def text_at_ends t)
qed

lemma show_uuid_inj: "uuid_ok a \<Longrightarrow> uuid_ok b \<Longrightarrow> show_uuid a = show_uuid b \<Longrightarrow> a = b"
  using uuid_from_str_iff [of "show_uuid a" a] uuid_from_str_iff [of "show_uuid a" b] by simp

section \<open>The number of a UUID\<close>

lemma foldl_bytes: "foldl (\<lambda>v c. v * 256 + byte_of c) a bs = a * 256 ^ length bs + foldl (\<lambda>v c. v * 256 + byte_of c) 0 bs"
proof (induction bs arbitrary: a)
  case (Cons c bs)
  show ?case using Cons.IH [of "a * 256 + byte_of c"] Cons.IH [of "byte_of c"] by (simp add: algebra_simps)
qed simp

lemma as_u128_of_bytes:
  "n < 256 ^ k \<Longrightarrow> foldl (\<lambda>v c. v * 256 + byte_of c) 0 (map (\<lambda>i. char_of (drop_bit (8 * (k - 1 - i)) n)) [0..<k]) = n"
proof (induction k arbitrary: n)
  case (Suc k)
  have "map (\<lambda>i. char_of (drop_bit (8 * (Suc k - 1 - i)) n)) [0..<Suc k] =
      map (\<lambda>i. char_of (drop_bit (8 * (k - 1 - i)) (n div 256))) [0..<k] @ [char_of n :: char]"
  proof -
    have "drop_bit (8 * (Suc k - 1 - i)) n = drop_bit (8 * (k - 1 - i)) (n div 256)" if "i < k" for i
    proof -
      have "8 * (Suc k - 1 - i) = 8 * (k - 1 - i) + 8" using that by simp
      then show ?thesis by (simp only: drop_bit_drop_bit [symmetric]) (simp add: drop_bit_eq_div)
    qed
    then show ?thesis by simp
  qed
  moreover have "n div 256 < 256 ^ k" using Suc.prems by (simp add: less_mult_imp_div_less mult.commute)
  ultimately show ?case using Suc.IH [of "n div 256"] by (simp del: upt_Suc)
qed simp

lemma as_u128_from_u128: "n < 2 ^ 128 \<Longrightarrow> as_u128 (from_u128 n) = n"
  using as_u128_of_bytes [of n 16] by (simp add: as_u128_def from_u128_def)

end
