(* ===== verification/Value_Theorems.thy ===== *)
theory Value_Theorems
  imports Value_Text Value_Uuid
begin

text \<open>
  What the texts of the tagged values promise, \<open>crates/rutis-bridge/src/session/values.rs\<close>:
  the days of dates, the text forms and the canonical encodings of bytes and
  UUIDs.
\<close>

section \<open>Dates and the days they are\<close>

lemma date_day_count:
  assumes "date_ok x"
  shows "days_since_unix_epoch x = day_count (da_year x) (int (da_month x)) (int (da_day x)) - 719162"
  using assms days_from_civil_counts [of "da_year x" "int (da_month x)" "int (da_day x)"]
  by (simp add: date_ok_iff days_since_unix_epoch_def)

text \<open>
  C38. The arithmetic of eras and of months from March agrees with counting:
  the date made of a number of days since 1970-01-01 is the one date (of the
  years 1 to 9999, with the leap years of the Gregorian calendar) before which
  this many days, less the 719162 before 1970, have passed since 0001-01-01;
  where there is none the number is refused.
\<close>

theorem days_are_counted:
  "from_days_since_unix_epoch n = Inr x \<longleftrightarrow>
     date_ok x \<and> n = day_count (da_year x) (int (da_month x)) (int (da_day x)) - 719162"
  by (auto simp: from_days_Inr date_day_count)

section \<open>Texts\<close>

lemma value_or_Inr [simp]: "value_or e x = Inr a \<longleftrightarrow> x = Some a"
  by (cases x) (simp_all add: value_or_def)

text \<open>
  C39. A point in time survives its text and its parts: every one the type
  admits is shown without a panic, its text is read back as the same point,
  the local time in UTC it is shown by gives it back, and so do its
  nanoseconds since the epoch.
\<close>

theorem instants_come_back:
  assumes "instant_ok x"
  shows "\<exists>t. show_instant x = Some t \<and> instant_from_str t = Inr x \<and>
    (\<exists>u. to_utc x = Some u \<and> datetime_from_str (show_datetime u) = Inr u \<and> from_utc u = x) \<and>
    from_unix_nanos (unix_nanos x) = Inr x"
proof -
  obtain u where u: "to_utc x = Some u" "datetime_ok u" "from_utc u = x" using to_utc_Some [OF assms] by blast
  have "whole tx_instant (the (show_instant x)) = Some x" by (rule instant_text.whole_shown [OF assms])
  moreover have "whole tx_datetime (show_datetime u) = Some u" by (rule datetime_text.whole_shown [OF u(2)])
  ultimately show ?thesis using u unix_nanos_back [OF assms]
    by (simp add: instant_from_str_def datetime_from_str_def show_instant_def)
qed

lemma instants_come_back_witness:
  "\<exists>t. show_instant \<lparr>in_seconds = -62135596800, in_nanosecond = 120000000\<rparr> = Some t \<and>
     instant_from_str t = Inr \<lparr>in_seconds = -62135596800, in_nanosecond = 120000000\<rparr>"
  using instants_come_back [of "\<lparr>in_seconds = -62135596800, in_nanosecond = 120000000\<rparr>"]
  by (auto simp: instant_ok_iff MIN_SECONDS_def MAX_SECONDS_def)

lemma date_from_str_iff: "date_from_str t = Inr x \<longleftrightarrow> date_ok x \<and> t = show_date x"
proof
  assume "date_from_str t = Inr x"
  then have "tx_date t = Some (x, [])" by (auto simp: date_from_str_def whole_def split: option.splits list.splits)
  then show "date_ok x \<and> t = show_date x" using tx_date_Some [of t x "[]"] by simp
next
  assume "date_ok x \<and> t = show_date x"
  then show "date_from_str t = Inr x" using date_text.whole_shown [of x] by (simp add: date_from_str_def)
qed

text \<open>
  C40. Bytes, UUIDs and dates have one text each: a text is taken exactly where
  it is the text of the value it is taken for, so two texts of one value,
  with other padding, unused bits, letter case or digits, do not exist.
\<close>

theorem texts_are_canonical:
  "(base64_decode t = Inr bs \<longleftrightarrow> t = base64_encode bs) \<and>
   (uuid_from_str t = Inr u \<longleftrightarrow> length (uuid_bytes u) = 16 \<and> t = show_uuid u) \<and>
   (date_from_str t = Inr x \<longleftrightarrow> date_ok x \<and> t = show_date x)"
  using base64_decode_iff [of t bs] uuid_from_str_iff [of t u] date_from_str_iff [of t x]
  by (auto simp: uuid_ok_def)

end
