(* ===== verification/Value_Numbers.thy ===== *)
theory Value_Numbers
  imports Decimal_Text Value_Calendar
begin

text \<open>
  Integers of any size and decimal numbers, \<open>BigInt\<close> and \<open>Decimal\<close> of
  \<open>crates/rutis-bridge/src/session/values.rs\<close>: numbers kept as their text.
\<close>

definition MAX_DIGITS :: nat where
  "MAX_DIGITS = 4300"

text \<open>\<open>to_string\<close> of an integer.\<close>

definition show_int :: "int \<Rightarrow> string" where
  "show_int n = (if n < 0 then CHR ''-'' # show_nat (nat (- n)) else show_nat (nat n))"

text \<open>
  \<open>str::parse\<close> of the integers from \<open>lo\<close> to \<open>hi\<close>: decimal digits after an
  optional sign, \<open>-\<close> only for the signed types.
\<close>

definition parse_digits :: "int \<Rightarrow> string \<Rightarrow> int option" where
  "parse_digits s ds = (if ds \<noteq> [] \<and> list_all is_digit ds then Some (s * int (number_of ds)) else None)"

definition parse_integer :: "int \<Rightarrow> int \<Rightarrow> string \<Rightarrow> int option" where
  "parse_integer lo hi t =
     (let n = (case t of
                 [] \<Rightarrow> None
               | c # r \<Rightarrow>
                   if c = CHR ''-'' \<and> lo < 0 then parse_digits (-1) r
                   else if c = CHR ''+'' then parse_digits 1 r
                   else parse_digits 1 t)
      in case n of Some n \<Rightarrow> if lo \<le> n \<and> n \<le> hi then Some n else None | None \<Rightarrow> None)"

definition integer_text :: "string \<Rightarrow> (bool \<times> nat) option" where
  "integer_text t =
     (let (negative, digits) = (case strip_prefix ''-'' t of Some rest \<Rightarrow> (True, rest) | None \<Rightarrow> (False, t));
          valid = (digits \<noteq> [] \<and> list_all is_digit digits \<and> (digits = ''0'' \<or> \<not> starts_with ''0'' digits))
      in if valid then Some (negative, length digits) else None)"

datatype bigint = BigInt (bigint_text: string)

definition bigint_from_str :: "string \<Rightarrow> value_error + bigint" where
  "bigint_from_str t =
     (case integer_text t of
        Some (negative, digits) \<Rightarrow>
          if digits \<le> MAX_DIGITS \<and> \<not> (negative \<and> t = ''-0'') then Inr (BigInt t) else Inl (InvalidText ''bigint'' t)
      | None \<Rightarrow> Inl (InvalidText ''bigint'' t))"

definition bigint_from_int :: "int \<Rightarrow> bigint" where
  "bigint_from_int n = BigInt (show_int n)"

definition is_negative :: "bigint \<Rightarrow> bool" where
  "is_negative b = starts_with ''-'' (bigint_text b)"

definition to_i128 :: "bigint \<Rightarrow> int option" where
  "to_i128 b = parse_integer (- (2 ^ 127)) (2 ^ 127 - 1) (bigint_text b)"

definition to_u128 :: "bigint \<Rightarrow> int option" where
  "to_u128 b = parse_integer 0 (2 ^ 128 - 1) (bigint_text b)"

text \<open>\<open>to_json_number\<close>: the integer of the JSON number.\<close>

definition to_json_int :: "bigint \<Rightarrow> int option" where
  "to_json_int b =
     (case parse_integer (- (2 ^ 63)) (2 ^ 63 - 1) (bigint_text b) of
        Some n \<Rightarrow> Some n
      | None \<Rightarrow> parse_integer 0 (2 ^ 64 - 1) (bigint_text b))"

datatype decimal = Decimal (decimal_text: string)

definition decimal_from_str :: "string \<Rightarrow> value_error + decimal" where
  "decimal_from_str t =
     (let (integer, fraction) = (case split_once CHR ''.'' t of
                                   Some (integer, fraction) \<Rightarrow> (integer, Some fraction)
                                 | None \<Rightarrow> (t, None));
          valid = (case integer_text integer of
                     None \<Rightarrow> False
                   | Some (_, digits) \<Rightarrow>
                       (case fraction of
                          None \<Rightarrow> digits + 0 \<le> MAX_DIGITS
                        | Some fraction \<Rightarrow>
                            fraction \<noteq> [] \<and> list_all is_digit fraction \<and> digits + length fraction \<le> MAX_DIGITS))
      in if valid then Inr (Decimal t) else Inl (InvalidText ''decimal'' t))"

definition bigint_ok :: "bigint \<Rightarrow> bool" where
  "bigint_ok b \<longleftrightarrow> bigint_from_str (bigint_text b) = Inr b"

definition decimal_ok :: "decimal \<Rightarrow> bool" where
  "decimal_ok d \<longleftrightarrow> decimal_from_str (decimal_text d) = Inr d"

section \<open>The texts of integers\<close>

declare show_nat.simps [simp del]

lemma max_digits_pos [simp]: "0 < MAX_DIGITS"
  by (simp add: MAX_DIGITS_def)

lemma hd_starts: "starts_with [c] s \<longleftrightarrow> s \<noteq> [] \<and> hd s = c"
  by (cases s) (auto simp: starts_with_def)

lemma strip_sign: "strip_prefix [c] (x # r) = (if x = c then Some r else None)" "strip_prefix [c] [] = None"
  by (auto simp: strip_prefix_def starts_with_def)

lemma digit_no_sign [simp]: "\<not> is_digit (CHR ''-'')" "\<not> is_digit (CHR ''+'')" "\<not> is_digit (CHR ''.'')"
  by (simp_all add: is_digit_def)

lemma show_nat_list [simp]: "list_all is_digit (show_nat n)"
  using show_nat_digits [of n] by (simp add: list_all_iff)

lemma show_nat_zero_iff: "show_nat n = ''0'' \<longleftrightarrow> n = 0"
  using number_of_show_nat [of n] digit_char_value [of "CHR ''0''"]
  by (auto simp: show_nat.simps [of 0] simp del: number_of_show_nat digit_char_value)

lemma show_nat_no_sign: "show_nat n = c # r \<Longrightarrow> is_digit c"
  using show_nat_digits [of n] by simp

lemma parse_shown:
  "parse_integer lo hi (show_int n) = (if lo \<le> n \<and> n \<le> hi then Some n else None)"
  if "lo \<le> 0"
proof (cases "n < 0")
  case True
  then show ?thesis using that by (auto simp: show_int_def parse_integer_def parse_digits_def)
next
  case False
  obtain c r where c: "show_nat (nat n) = c # r" by (cases "show_nat (nat n)") auto
  then have "is_digit c" "list_all is_digit (c # r)" using show_nat_no_sign show_nat_list [of "nat n"] by auto
  moreover have "number_of (c # r) = nat n" using number_of_show_nat [of "nat n"] c by simp
  ultimately show ?thesis using False c by (auto simp: show_int_def parse_integer_def parse_digits_def simp del: number_of_simps)
qed

lemma integer_text_shown:
  "integer_text (show_int n) = Some (n < 0, length (show_nat (nat \<bar>n\<bar>)))"
proof -
  have valid: "show_nat m \<noteq> [] \<and> list_all is_digit (show_nat m) \<and> (show_nat m = ''0'' \<or> \<not> starts_with ''0'' (show_nat m))" for m
    using show_nat_hd [of m] by (auto simp: hd_starts show_nat_zero_iff)
  show ?thesis
  proof (cases "n < 0")
    case True
    then show ?thesis using valid [of "nat (- n)"] by (simp add: show_int_def integer_text_def strip_sign)
  next
    case False
    obtain c r where c: "show_nat (nat n) = c # r" by (cases "show_nat (nat n)") auto
    moreover have "c \<noteq> CHR ''-''" using show_nat_no_sign [OF c] by auto
    ultimately show ?thesis using False valid [of "nat n"] by (simp add: show_int_def integer_text_def strip_sign)
  qed
qed

lemma integer_text_Some:
  assumes "integer_text t = Some (negative, k)" and "t \<noteq> ''-0''"
  shows "\<exists>n. t = show_int n \<and> negative = (n < 0) \<and> k = length (show_nat (nat \<bar>n\<bar>))"
proof -
  obtain ds where ds: "t = (if negative then CHR ''-'' # ds else ds)" "ds \<noteq> []" "list_all is_digit ds" "ds = ''0'' \<or> hd ds \<noteq> CHR ''0''"
    using assms(1) by (cases t) (auto simp: integer_text_def strip_sign hd_starts split: if_splits)
  have "show_nat (number_of ds) = ds"
    using show_nat_number_of [of ds] ds by (simp add: list_all_iff)
  moreover have "number_of ds \<noteq> 0" if "negative"
    using calculation assms(2) ds(1) that show_nat_zero_iff [of "number_of ds"] by auto
  ultimately have t: "t = show_int (if negative then - int (number_of ds) else int (number_of ds))"
      "negative = ((if negative then - int (number_of ds) else int (number_of ds)) < 0)"
    using ds(1) by (auto simp: show_int_def)
  then show ?thesis using assms(1) integer_text_shown by (metis Pair_inject option.inject)
qed

lemma show_int_not_negative_zero: "show_int n \<noteq> ''-0''"
  by (auto simp: show_int_def show_nat_zero_iff dest: show_nat_no_sign)

lemma show_nat_length_iff: "length (show_nat n) \<le> w \<longleftrightarrow> n < 10 ^ w" if "0 < w"
proof
  assume l: "length (show_nat n) \<le> w"
  have "n < 10 ^ length (show_nat n)" using number_of_less [OF show_nat_digits [of n]] by simp
  also have "\<dots> \<le> 10 ^ w" using l by (simp add: power_increasing)
  finally show "n < 10 ^ w" .
qed (use show_nat_length that in blast)

lemma bigint_from_str_iff:
  "bigint_from_str t = Inr b \<longleftrightarrow> (\<exists>n. \<bar>n\<bar> < 10 ^ MAX_DIGITS \<and> t = show_int n \<and> b = bigint_from_int n)"
proof
  assume l: "bigint_from_str t = Inr b"
  then obtain s k where s: "integer_text t = Some (s, k)" "k \<le> MAX_DIGITS" "\<not> (s \<and> t = ''-0'')" "b = BigInt t"
    by (auto simp: bigint_from_str_def split: option.splits if_splits)
  have "t \<noteq> ''-0''" using s(1,3) by (auto simp: integer_text_def strip_sign)
  then obtain n where n: "t = show_int n" "k = length (show_nat (nat \<bar>n\<bar>))" using integer_text_Some [OF s(1)] by blast
  then have "nat \<bar>n\<bar> < 10 ^ MAX_DIGITS" using s(2) show_nat_length_iff [of MAX_DIGITS "nat \<bar>n\<bar>"] by simp
  then have "\<bar>n\<bar> < 10 ^ MAX_DIGITS" by (simp add: nat_less_iff)
  then show "\<exists>n. \<bar>n\<bar> < 10 ^ MAX_DIGITS \<and> t = show_int n \<and> b = bigint_from_int n" using n s(4) by (auto simp: bigint_from_int_def)
next
  assume "\<exists>n. \<bar>n\<bar> < 10 ^ MAX_DIGITS \<and> t = show_int n \<and> b = bigint_from_int n"
  then obtain n where n: "\<bar>n\<bar> < 10 ^ MAX_DIGITS" "t = show_int n" "b = bigint_from_int n" by blast
  then have "nat \<bar>n\<bar> < 10 ^ MAX_DIGITS" by (simp add: nat_less_iff)
  then have "length (show_nat (nat \<bar>n\<bar>)) \<le> MAX_DIGITS" using show_nat_length_iff [of MAX_DIGITS "nat \<bar>n\<bar>"] by simp
  then show "bigint_from_str t = Inr b" using n
    by (simp add: bigint_from_str_def integer_text_shown show_int_not_negative_zero bigint_from_int_def)
qed

lemma show_int_inj: "show_int a = show_int b \<Longrightarrow> a = b"
proof -
  assume e: "show_int a = show_int b"
  have "parse_integer (- \<bar>n\<bar>) \<bar>n\<bar> (show_int n) = Some n" for n by (subst parse_shown) auto
  then have "Some b = parse_integer (- \<bar>b\<bar>) \<bar>b\<bar> (show_int a)" unfolding e by (rule sym)
  also have "\<dots> = (if - \<bar>b\<bar> \<le> a \<and> a \<le> \<bar>b\<bar> then Some a else None)" by (rule parse_shown) simp
  finally show "a = b" by (simp split: if_splits)
qed

lemma bigint_values [simp]:
  "to_i128 (bigint_from_int n) = (if - (2 ^ 127) \<le> n \<and> n \<le> 2 ^ 127 - 1 then Some n else None)"
  "to_u128 (bigint_from_int n) = (if 0 \<le> n \<and> n \<le> 2 ^ 128 - 1 then Some n else None)"
  "to_json_int (bigint_from_int n) = (if - (2 ^ 63) \<le> n \<and> n \<le> 2 ^ 64 - 1 then Some n else None)"
  "is_negative (bigint_from_int n) \<longleftrightarrow> n < 0"
proof -
  show "is_negative (bigint_from_int n) \<longleftrightarrow> n < 0"
    using show_nat_no_sign [of "nat n" "CHR ''-''"] by (cases "show_nat (nat n)") (auto simp: is_negative_def bigint_from_int_def show_int_def hd_starts)
qed (simp_all add: to_i128_def to_u128_def to_json_int_def bigint_from_int_def parse_shown)

lemma bigint_ok_from_int: "\<bar>n\<bar> < 10 ^ MAX_DIGITS \<Longrightarrow> bigint_ok (bigint_from_int n)"
  unfolding bigint_ok_def bigint_from_str_iff by (auto simp: bigint_from_int_def)

lemma decimal_from_str_ok: "decimal_from_str t = Inr d \<Longrightarrow> d = Decimal t"
  by (simp add: decimal_from_str_def Let_def split: option.splits prod.splits if_splits)

end
