(* ===== verification/Value_Keys.thy ===== *)
theory Value_Keys
  imports Complex_Main Value_Text Value_Uuid Value_Numbers Json
begin

text \<open>
  The values that cross a session (\<open>Value\<close> and \<open>Reference\<close> of
  \<open>crates/rutis-bridge/src/session/rpc.rs\<close>) and the keys of maps and elements
  of sets among them (\<open>Key\<close>, \<open>check_keys\<close> of \<open>session/values.rs\<close>).

  An \<open>Arc\<close> is the number of its allocation, with the fields that never change;
  what changes, the grants of an import, is in the state of the session.  A
  record is a list of fields in the order of its \<open>BTreeMap\<close>.
\<close>

section \<open>Values\<close>

datatype kind = KFunction | KFuture | KObject | KPlugin

record import =
  im_ptr :: nat
  im_peer :: nat
  im_id :: nat
  im_kind :: kind
  im_origin :: "string list"

datatype body = FunctionBody | FutureBody | Relay import

record shared_object =
  ob_ptr :: nat
  ob_body :: body
  ob_origin :: "string list"
  ob_chain :: "string option"

datatype reference = Local shared_object | Remote import | Home import

datatype session_value =
    Undefined
  | Data json
  | VList "session_value list"
  | VRecord "(string \<times> session_value) list"
  | VReference reference
  | Signal
  | VInstant instant
  | VDateTime datetime
  | VDate date
  | VTime time_of_day
  | VBytes string
  | VMap "(session_value \<times> session_value) list"
  | VSet "session_value list"
  | VBigInt bigint
  | VDecimal decimal
  | VUuid uuid

fun value_tag :: "session_value \<Rightarrow> string option" where
  "value_tag (VInstant _) = Some ''instant''"
| "value_tag (VDateTime _) = Some ''datetime''"
| "value_tag (VDate _) = Some ''date''"
| "value_tag (VTime _) = Some ''time''"
| "value_tag (VBytes _) = Some ''bytes''"
| "value_tag (VMap _) = Some ''map''"
| "value_tag (VSet _) = Some ''set''"
| "value_tag (VBigInt _) = Some ''bigint''"
| "value_tag (VDecimal _) = Some ''decimal''"
| "value_tag (VUuid _) = Some ''uuid''"
| "value_tag _ = None"

fun describe_json :: "json \<Rightarrow> string" where
  "describe_json JNull = ''null''"
| "describe_json (JBool _) = ''a boolean''"
| "describe_json (JNumber _) = ''a number''"
| "describe_json (JString _) = ''a string''"
| "describe_json (JArray _) = ''an array''"
| "describe_json (JObject _) = ''an object''"

fun describe_value :: "session_value \<Rightarrow> string" where
  "describe_value Undefined = ''undefined''"
| "describe_value (Data j) = describe_json j"
| "describe_value (VList _) = ''an array''"
| "describe_value (VRecord _) = ''an object''"
| "describe_value (VReference _) = ''a reference''"
| "describe_value Signal = ''a signal''"
| "describe_value (VInstant _) = ''an instant''"
| "describe_value (VDateTime _) = ''a datetime''"
| "describe_value (VDate _) = ''a date''"
| "describe_value (VTime _) = ''a time''"
| "describe_value (VBytes _) = ''bytes''"
| "describe_value (VMap _) = ''a map''"
| "describe_value (VSet _) = ''a set''"
| "describe_value (VBigInt _) = ''a bigint''"
| "describe_value (VDecimal _) = ''a decimal''"
| "describe_value (VUuid _) = ''a uuid''"

text \<open>
  What ends a session is a transport error; a value error fails the call that
  carries the value.  The texts are represented by what they name.
\<close>

datatype value_refusal =
    TooDeep
  | NotTaken string string
  | NotDeclared string
  | BadText value_error
  | BadKey string string
  | FloatKey string number
  | DuplicateKey string session_value
  | NotHome
  | Unexpected string string

datatype session_error = ValueError value_refusal | TransportError string | Panicked

section \<open>Keys\<close>

text \<open>
  A float is \<open>m * 2 ^ e\<close>; its bits stand for its odd mantissa and its exponent,
  which say the same of a float that is not whole.
\<close>

datatype map_key =
    KText string
  | KInteger int
  | KFloat "int \<times> int"
  | KBool bool
  | KBigInt string
  | KDateTime datetime
  | KDate date
  | KTime time_of_day
  | KDecimal string
  | KUuid uuid

definition SAFE_INTEGER :: int where
  "SAFE_INTEGER = 2 ^ 53 - 1"

fun as_i64 :: "number \<Rightarrow> int option" where
  "as_i64 (PosInt n) = (if int n < 2 ^ 63 then Some (int n) else None)"
| "as_i64 (NegInt i) = Some i"
| "as_i64 (Float m e) = None"

fun as_u64 :: "number \<Rightarrow> int option" where
  "as_u64 (PosInt n) = Some (int n)"
| "as_u64 (NegInt i) = None"
| "as_u64 (Float m e) = None"

definition beyond_safe :: "number \<Rightarrow> bool" where
  "beyond_safe n =
     (case (as_i64 n, as_u64 n) of
        (Some integer, _) \<Rightarrow> \<bar>integer\<bar> > SAFE_INTEGER
      | (None, Some integer) \<Rightarrow> integer > SAFE_INTEGER
      | (None, None) \<Rightarrow> False)"

fun holds_beyond_safe :: "json \<Rightarrow> bool" where
  "holds_beyond_safe (JNumber n) = beyond_safe n"
| "holds_beyond_safe (JArray items) = list_ex holds_beyond_safe items"
| "holds_beyond_safe (JObject fs) = list_ex (\<lambda>(_, v). holds_beyond_safe v) fs"
| "holds_beyond_safe _ = False"

text \<open>\<open>to_string\<close> of a number that is an integer.\<close>

fun show_integer :: "number \<Rightarrow> string" where
  "show_integer (PosInt n) = show_int (int n)"
| "show_integer (NegInt i) = show_int i"
| "show_integer (Float m e) = []"

text \<open>\<open>fract\<close> is not zero; the integer of a whole float; its bits.\<close>

definition has_fraction :: "int \<Rightarrow> int \<Rightarrow> bool" where
  "has_fraction m e \<longleftrightarrow> e < 0 \<and> m mod 2 ^ nat (- e) \<noteq> 0"

definition float_int :: "int \<Rightarrow> int \<Rightarrow> int" where
  "float_int m e = (if e < 0 then m div 2 ^ nat (- e) else m * 2 ^ nat e)"

function float_bits :: "int \<Rightarrow> int \<Rightarrow> int \<times> int" where
  "float_bits m e = (if m = 0 then (0, 0) else if even m then float_bits (m div 2) (e + 1) else (m, e))"
  by pat_completeness auto

termination by (relation "measure (\<lambda>(m, e). nat \<bar>m\<bar>)") auto

declare float_bits.simps [simp del]

definition number_key :: "string \<Rightarrow> number \<Rightarrow> session_error + map_key" where
  "number_key what n =
     (case (as_i64 n, as_u64 n, n) of
        (Some integer, _, _) \<Rightarrow> Inr (KInteger integer)
      | (None, Some integer, _) \<Rightarrow> Inr (KInteger integer)
      | (None, None, Float m e) \<Rightarrow>
          if has_fraction m e then Inr (KFloat (float_bits m e))
          else if \<bar>float_int m e\<bar> \<le> SAFE_INTEGER then Inr (KInteger (float_int m e))
          else Inl (ValueError (FloatKey what n)))"

fun key :: "string \<Rightarrow> session_value \<Rightarrow> session_error + map_key" where
  "key what (Data (JString t)) = Inr (KText t)"
| "key what (Data (JBool b)) = Inr (KBool b)"
| "key what (Data (JNumber n)) = (if beyond_safe n then Inr (KBigInt (show_integer n)) else number_key what n)"
| "key what (VBigInt b) = Inr (KBigInt (bigint_text b))"
| "key what (VDateTime x) = Inr (KDateTime x)"
| "key what (VDate x) = Inr (KDate x)"
| "key what (VTime x) = Inr (KTime x)"
| "key what (VDecimal d) = Inr (KDecimal (decimal_text d))"
| "key what (VUuid u) = Inr (KUuid u)"
| "key what other = Inl (ValueError (BadKey what (describe_value other)))"

fun keys_from :: "string \<Rightarrow> map_key list \<Rightarrow> session_value list \<Rightarrow> session_error option" where
  "keys_from what seen [] = None"
| "keys_from what seen (v # vs) =
     (case key what v of
        Inl e \<Rightarrow> Some e
      | Inr k \<Rightarrow> if k \<in> set seen then Some (ValueError (DuplicateKey what v)) else keys_from what (k # seen) vs)"

definition check_keys :: "string \<Rightarrow> session_value list \<Rightarrow> session_error option" where
  "check_keys what vs = keys_from what [] vs"

section \<open>What keys there are\<close>

lemma keys_from_None: "keys_from what seen vs = None \<longleftrightarrow>
  (\<exists>ks. map (key what) vs = map Inr ks \<and> distinct ks \<and> set ks \<inter> set seen = {})"
proof (induction vs arbitrary: seen)
  case (Cons v vs)
  show ?case
  proof (cases "key what v")
    case (Inr k)
    then show ?thesis
      by (auto simp: Cons.IH Cons_eq_map_conv)
  qed (auto simp: Cons_eq_map_conv)
qed simp

lemma check_keys_None: "check_keys what vs = None \<longleftrightarrow> (\<exists>ks. map (key what) vs = map Inr ks \<and> distinct ks)"
  by (simp add: check_keys_def keys_from_None)

lemma keys_from_value_error: "keys_from what seen vs = Some e \<Longrightarrow> \<exists>r. e = ValueError r"
proof (induction vs arbitrary: seen)
  case (Cons v vs)
  have "key what v = Inl e' \<Longrightarrow> \<exists>r. e' = ValueError r" for e'
    by (cases "(what, v)" rule: key.cases) (auto simp: number_key_def split: if_splits number.splits option.splits)
  then show ?case using Cons by (auto split: sum.splits if_splits)
qed simp

text \<open>The value of a number.\<close>

fun number_value :: "number \<Rightarrow> rat" where
  "number_value (PosInt n) = of_nat n"
| "number_value (NegInt i) = of_int i"
| "number_value (Float m e) = of_int m * 2 powi e"

fun number_ok :: "number \<Rightarrow> bool" where
  "number_ok (PosInt n) \<longleftrightarrow> int n < 2 ^ 64"
| "number_ok (NegInt i) \<longleftrightarrow> - (2 ^ 63) \<le> i \<and> i < 0"
| "number_ok (Float m e) \<longleftrightarrow> True"

abbreviation dyadic :: "int \<Rightarrow> int \<Rightarrow> rat" where
  "dyadic m e \<equiv> of_int m * 2 powi e"

lemma dyadic_shift: "dyadic m (e + int k) = dyadic (m * 2 ^ k) e"
  by (simp add: power_int_add)

lemma dyadic_eq_iff: "dyadic a e = dyadic b e \<longleftrightarrow> a = b"
  by simp

lemma dyadic_int: "dyadic m e = of_int i \<longleftrightarrow> (if e < 0 then m = i * 2 ^ nat (- e) else m * 2 ^ nat e = i)"
proof (cases "e < 0")
  case True
  then have "(2::rat) powi e = 1 / 2 ^ nat (- e)" by (simp add: power_int_def inverse_eq_divide power_one_over)
  then have "dyadic m e = of_int i \<longleftrightarrow> (of_int m :: rat) = of_int (i * 2 ^ nat (- e))"
    by (simp only: of_int_mult of_int_power of_int_numeral) (simp add: divide_eq_eq)
  then show ?thesis using True by (simp only: of_int_eq_iff) simp
next
  case False
  then have "dyadic m e = of_int (m * 2 ^ nat e)" by (simp add: power_int_def)
  then show ?thesis using False by (simp only: of_int_eq_iff) simp
qed

lemma odd_dyadic_unique:
  assumes "dyadic a e = dyadic b f" and "odd a" and "odd b"
  shows "a = b \<and> e = f"
proof -
  have less: False if "dyadic a e = dyadic b f" "odd a" "e < f" for a b e f
  proof -
    have "dyadic b f = dyadic (b * 2 ^ nat (f - e)) e" using dyadic_shift [of b e "nat (f - e)"] that(3) by simp
    with that(1) have "dyadic a e = dyadic (b * 2 ^ nat (f - e)) e" by (rule trans)
    then have "a = b * 2 ^ nat (f - e)" by (simp only: dyadic_eq_iff)
    then show False using that(2,3) by simp
  qed
  have "e = f" using less [OF assms(1,2)] less [OF assms(1) [symmetric] assms(3)] by (cases e f rule: linorder_cases) simp_all
  then show ?thesis using assms(1) by simp
qed

lemma float_bits_odd: "m \<noteq> 0 \<Longrightarrow> \<exists>m' e'. float_bits m e = (m', e') \<and> odd m' \<and> dyadic m' e' = dyadic m e"
proof (induction m e rule: float_bits.induct)
  case (1 m e)
  show ?case
  proof (cases "even m")
    case True
    then obtain h where h: "m = 2 * h" by blast
    then have "\<exists>m' e'. float_bits h (e + 1) = (m', e') \<and> odd m' \<and> dyadic m' e' = dyadic h (e + 1)"
      using "1.IH" "1.prems" True by simp
    moreover have "dyadic h (e + 1) = dyadic m e" using dyadic_shift [of h e 1] h by (simp add: mult.commute)
    moreover have "float_bits m e = float_bits h (e + 1)" using h "1.prems" by (subst float_bits.simps) simp
    ultimately show ?thesis by simp
  qed (use "1.prems" in \<open>subst float_bits.simps, simp\<close>)
qed

lemma whole_float: "\<not> has_fraction m e \<Longrightarrow> dyadic m e = of_int (float_int m e)"
  by (subst dyadic_int) (auto simp: has_fraction_def float_int_def)

lemma fraction_not_int: "has_fraction m e \<Longrightarrow> dyadic m e \<noteq> of_int i"
  by (subst dyadic_int) (auto simp: has_fraction_def)

definition key_of_value :: "rat \<Rightarrow> map_key \<Rightarrow> bool" where
  "key_of_value q k \<longleftrightarrow>
     (\<exists>i. q = of_int i \<and> k = (if \<bar>i\<bar> \<le> SAFE_INTEGER then KInteger i else KBigInt (show_int i))) \<or>
     (\<exists>m e. q = dyadic m e \<and> odd m \<and> (\<forall>i. q \<noteq> of_int i) \<and> k = KFloat (m, e))"

lemma number_has_key:
  assumes "number_ok n" and "key what (Data (JNumber n)) = Inr k"
  shows "key_of_value (number_value n) k"
proof (cases n)
  case (PosInt i)
  then show ?thesis using assms
    by (auto simp: key_of_value_def beyond_safe_def number_key_def split: if_splits intro!: exI [of _ "int i"])
next
  case (NegInt i)
  then show ?thesis using assms
    by (auto simp: key_of_value_def beyond_safe_def number_key_def split: if_splits intro!: exI [of _ i])
next
  case (Float m e)
  then have k: "number_key what n = Inr k" using assms(2) by (simp add: beyond_safe_def)
  show ?thesis
  proof (cases "has_fraction m e")
    case True
    then have "m \<noteq> 0" by (auto simp: has_fraction_def)
    then obtain m' e' where "float_bits m e = (m', e')" "odd m'" "dyadic m' e' = dyadic m e" using float_bits_odd by blast
    moreover have "k = KFloat (float_bits m e)" using k True Float by (simp add: number_key_def)
    ultimately show ?thesis unfolding key_of_value_def Float number_value.simps
      using fraction_not_int [OF True] by (intro disjI2 exI [of _ m'] exI [of _ e']) simp
  next
    case False
    then show ?thesis using k Float whole_float [OF False]
      by (auto simp: key_of_value_def number_key_def split: if_splits intro!: exI [of _ "float_int m e"])
  qed
qed

lemma key_of_int: "key_of_value (of_int i) k \<longleftrightarrow> k = (if \<bar>i\<bar> \<le> SAFE_INTEGER then KInteger i else KBigInt (show_int i))"
  by (simp only: key_of_value_def of_int_eq_iff) blast

lemma key_of_fraction:
  assumes "\<forall>i. q \<noteq> of_int i" and "key_of_value q k"
  obtains m e where "q = dyadic m e" "odd m" "k = KFloat (m, e)"
  using assms unfolding key_of_value_def by blast

lemma key_of_value_unique:
  assumes "key_of_value p k" and "key_of_value q l"
  shows "k = l \<longleftrightarrow> p = q"
proof (cases "\<exists>i. p = of_int i")
  case True
  then obtain i where p: "p = of_int i" by blast
  have k: "k = (if \<bar>i\<bar> \<le> SAFE_INTEGER then KInteger i else KBigInt (show_int i))"
    using assms(1) unfolding p key_of_int .
  show ?thesis
  proof (cases "\<exists>j. q = of_int j")
    case True
    then obtain j where q: "q = of_int j" by blast
    have "l = (if \<bar>j\<bar> \<le> SAFE_INTEGER then KInteger j else KBigInt (show_int j))"
      using assms(2) unfolding q key_of_int .
    then show ?thesis unfolding k p q of_int_eq_iff using show_int_inj [of i j] by auto
  next
    case False
    then obtain m e where "l = KFloat (m, e)" using key_of_fraction [OF _ assms(2)] by blast
    then show ?thesis using k p False by auto
  qed
next
  case False
  then obtain m e where m: "p = dyadic m e" "odd m" "k = KFloat (m, e)" using key_of_fraction [OF _ assms(1)] by blast
  show ?thesis
  proof (cases "\<exists>j. q = of_int j")
    case True
    then obtain j where q: "q = of_int j" by blast
    have "l = (if \<bar>j\<bar> \<le> SAFE_INTEGER then KInteger j else KBigInt (show_int j))"
      using assms(2) unfolding q key_of_int .
    then show ?thesis using m False q by auto
  next
    case n: False
    then obtain m' e' where m': "q = dyadic m' e'" "odd m'" "l = KFloat (m', e')" using key_of_fraction [OF _ assms(2)] by blast
    show ?thesis using odd_dyadic_unique [of m e m' e'] m m' by auto
  qed
qed

text \<open>Numbers are one key where they are one number, whatever they are written as.\<close>

lemma number_keys:
  assumes "number_ok a" and "number_ok b"
    and "key what (Data (JNumber a)) = Inr k" and "key what (Data (JNumber b)) = Inr l"
  shows "k = l \<longleftrightarrow> number_value a = number_value b"
  using key_of_value_unique [OF number_has_key [OF assms(1,3)] number_has_key [OF assms(2,4)]] .

end
