(* ===== verification/Session_State.thy ===== *)
theory Session_State
  imports Value_Keys Core_Types
begin

text \<open>
  The references of a session, \<open>crates/rutis-bridge/src/session/rpc.rs\<close> and
  \<open>session/rpc/relay.rs\<close>: what it exports and imports, with the grants that
  count how often each reference was sent.

  Each operation here is one section under the lock of the table it uses.  An
  import is held while the program has a value with it; its \<open>drop\<close> is three
  sections (the last holder gone, the table entry, the release).
\<close>

section \<open>Paths\<close>

definition rebase :: "string list \<Rightarrow> string \<Rightarrow> string \<Rightarrow> string list" where
  "rebase path from_tag to_tag =
     map (\<lambda>entry. case strip_prefix (to_tag @ ''/'') entry of
                    Some native \<Rightarrow> native
                  | None \<Rightarrow> if CHR ''/'' \<in> set entry then entry else from_tag @ ''/'' @ entry) path"

section \<open>Exports\<close>

record export =
  ex_object :: shared_object
  ex_grants :: nat

record exports =
  xs_next :: nat
  xs_entries :: "nat \<rightharpoonup> export"
  xs_identities :: "nat \<rightharpoonup> nat"
  xs_relays :: "nat \<rightharpoonup> nat"

definition no_exports :: exports where
  "no_exports = \<lparr>xs_next = 0, xs_entries = Map.empty, xs_identities = Map.empty, xs_relays = Map.empty\<rparr>"

definition MAX_ID :: nat where
  "MAX_ID = 9007199254740991"

datatype wire_value =
    WUndefined
  | WData json
  | WList "wire_value list"
  | WRecord "(string \<times> wire_value) list"
  | WSignal
  | WReference nat bool kind "string list"
  | WInstant string
  | WDateTime string
  | WDate string
  | WTime string
  | WBytes string
  | WMap "(wire_value \<times> wire_value) list"
  | WSet "wire_value list"
  | WBigInt string
  | WDecimal string
  | WUuid string

fun body_kind :: "body \<Rightarrow> kind" where
  "body_kind FunctionBody = KFunction"
| "body_kind FutureBody = KFuture"
| "body_kind (Relay im) = im_kind im"

definition object_kind :: "shared_object \<Rightarrow> kind" where
  "object_kind ob = body_kind (ob_body ob)"

definition allocate :: "shared_object \<Rightarrow> exports \<Rightarrow> (session_error + nat) \<times> exports" where
  "allocate ob xs =
     (let n = xs_next xs + 1 in
      if xs_next xs \<ge> u64_max \<or> n > MAX_ID then (Inl (TransportError ''reference identifiers exhausted''), xs)
      else (Inr n, xs\<lparr>xs_next := n, xs_entries := (xs_entries xs)(n \<mapsto> \<lparr>ex_object = ob, ex_grants = 0\<rparr>)\<rparr>))"

text \<open>\<open>grant\<close>; its \<open>unwrap\<close> of an entry that is missing panics.\<close>

definition grant :: "nat \<Rightarrow> exports \<times> nat list \<Rightarrow> (session_error + wire_value) \<times> exports \<times> nat list" where
  "grant rid = (\<lambda>(xs, gs).
     (case xs_entries xs rid of
        None \<Rightarrow> (Inl Panicked, xs, gs)
      | Some en \<Rightarrow>
          if ex_grants en \<ge> u64_max then (Inl (TransportError ''reference grant overflow''), xs, gs)
          else (Inr (WReference rid False (object_kind (ex_object en)) (ob_origin (ex_object en))),
                xs\<lparr>xs_entries := (xs_entries xs)(rid \<mapsto> en\<lparr>ex_grants := ex_grants en + 1\<rparr>)\<rparr>, gs @ [rid])))"

definition relay_key :: "shared_object \<Rightarrow> nat option" where
  "relay_key ob = (case ob_body ob of Relay im \<Rightarrow> Some (im_ptr im) | _ \<Rightarrow> None)"

definition remove_export :: "nat \<Rightarrow> exports \<Rightarrow> exports" where
  "remove_export rid xs =
     (case xs_entries xs rid of
        None \<Rightarrow> xs
      | Some en \<Rightarrow>
          xs\<lparr>xs_entries := (xs_entries xs)(rid := None),
             xs_identities := (xs_identities xs)(ob_ptr (ex_object en) := None),
             xs_relays := (case relay_key (ex_object en) of
                             Some p \<Rightarrow> (xs_relays xs)(p := None)
                           | None \<Rightarrow> xs_relays xs)\<rparr>)"

definition ungrant_one :: "nat \<Rightarrow> exports \<Rightarrow> exports" where
  "ungrant_one rid xs =
     (case xs_entries xs rid of
        None \<Rightarrow> xs
      | Some en \<Rightarrow>
          (let left = ex_grants en - 1;
               xs = xs\<lparr>xs_entries := (xs_entries xs)(rid \<mapsto> en\<lparr>ex_grants := left\<rparr>)\<rparr>
           in if left = 0 then remove_export rid xs else xs))"

definition ungrant :: "nat list \<Rightarrow> exports \<Rightarrow> exports" where
  "ungrant gs xs = fold ungrant_one gs xs"

definition release_export :: "nat \<Rightarrow> nat \<Rightarrow> exports \<Rightarrow> session_error + exports" where
  "release_export rid n xs =
     (case xs_entries xs rid of
        None \<Rightarrow> Inl (TransportError ''release of unknown reference'')
      | Some en \<Rightarrow>
          if n = 0 \<or> n > ex_grants en then Inl (TransportError ''invalid reference release count'')
          else
            (let left = ex_grants en - n;
                 xs = xs\<lparr>xs_entries := (xs_entries xs)(rid \<mapsto> en\<lparr>ex_grants := left\<rparr>)\<rparr>
             in Inr (if left = 0 then remove_export rid xs else xs)))"

definition find_export :: "nat \<Rightarrow> exports \<Rightarrow> session_error + shared_object" where
  "find_export rid xs =
     (case xs_entries xs rid of
        Some en \<Rightarrow> Inr (ex_object en)
      | None \<Rightarrow> Inl (TransportError ''unknown or released reference''))"

definition find_export_object :: "nat \<Rightarrow> exports \<Rightarrow> session_error + shared_object" where
  "find_export_object rid xs =
     (case find_export rid xs of
        Inl e \<Rightarrow> Inl e
      | Inr ob \<Rightarrow>
          if object_kind ob \<noteq> KObject
          then Inl (TransportError ''method call or property read on a non-object reference'')
          else Inr ob)"

section \<open>The session\<close>

datatype phase = Held | Dropped | Unlisted

record held_import =
  hi_import :: import
  hi_grants :: nat
  hi_phase :: phase

text \<open>
  \<open>se_number\<close> is the identity of the session, \<open>se_peers\<close> the tags of the sessions
  of the process that are still there, \<open>se_background\<close> whether the background
  executor can be had.
\<close>

record session =
  se_number :: nat
  se_tag :: string
  se_peers :: "nat \<rightharpoonup> string"
  se_background :: bool
  se_taken :: "string list"
  se_declared :: "string list"
  se_exports :: exports
  se_imports :: "nat \<rightharpoonup> nat"
  se_held :: "nat \<rightharpoonup> held_import"
  se_next_ptr :: nat

definition supports :: "session \<Rightarrow> string \<Rightarrow> bool" where
  "supports s c \<longleftrightarrow> c \<in> set (se_taken s)"

definition declares :: "session \<Rightarrow> string \<Rightarrow> bool" where
  "declares s c \<longleftrightarrow> c \<in> set (se_declared s)"

text \<open>An encoding: the session and the references granted so far.\<close>

type_synonym encoding = "session \<times> nat list"

definition grant_in :: "nat \<Rightarrow> encoding \<Rightarrow> (session_error + wire_value) \<times> encoding" where
  "grant_in rid = (\<lambda>(s, gs).
     (case grant rid (se_exports s, gs) of (r, xs, gs) \<Rightarrow> (r, s\<lparr>se_exports := xs\<rparr>, gs)))"

definition encode_local :: "shared_object \<Rightarrow> encoding \<Rightarrow> (session_error + wire_value) \<times> encoding" where
  "encode_local ob = (\<lambda>(s, gs).
     (let xs = se_exports s;
          (found, xs) = (case xs_identities xs (ob_ptr ob) of
                           Some rid \<Rightarrow> (Inr rid, xs)
                         | None \<Rightarrow>
                             (case allocate ob xs of
                                (Inl e, xs) \<Rightarrow> (Inl e, xs)
                              | (Inr rid, xs) \<Rightarrow> (Inr rid, xs\<lparr>xs_identities := (xs_identities xs)(ob_ptr ob \<mapsto> rid)\<rparr>)))
      in case found of
           Inl e \<Rightarrow> (Inl e, s\<lparr>se_exports := xs\<rparr>, gs)
         | Inr rid \<Rightarrow>
             (case grant_in rid (s\<lparr>se_exports := xs\<rparr>, gs) of
                (Inr (WReference i h k origin), st) \<Rightarrow>
                  (Inr (WReference i h k
                     (case ob_chain ob of
                        Some chain \<Rightarrow> if chain \<noteq> se_tag s then rebase origin chain (se_tag s) else origin
                      | None \<Rightarrow> origin)), st)
              | r \<Rightarrow> r)))"

definition encode_import :: "import \<Rightarrow> encoding \<Rightarrow> (session_error + wire_value) \<times> encoding" where
  "encode_import im = (\<lambda>(s, gs).
     if im_peer im = se_number s then (Inr (WReference (im_id im) True (im_kind im) (im_origin im)), s, gs)
     else if im_kind im = KPlugin then (Inl (ValueError NotHome), s, gs)
     else (case xs_relays (se_exports s) (im_ptr im) of
             Some rid \<Rightarrow> grant_in rid (s, gs)
           | None \<Rightarrow>
               (case se_peers s (im_peer im) of
                  None \<Rightarrow> (Inl (TransportError ''the connection closed''), s, gs)
                | Some source \<Rightarrow>
                    if \<not> se_background s then (Inl (TransportError ''no background executor''), s, gs)
                    else
                      (let relay = \<lparr>ob_ptr = se_next_ptr s, ob_body = Relay im,
                             ob_origin = filter (\<lambda>entry. CHR ''/'' \<notin> set entry) (rebase (im_origin im) source (se_tag s)),
                             ob_chain = None\<rparr>;
                           s = s\<lparr>se_next_ptr := se_next_ptr s + 1\<rparr>
                       in case allocate relay (se_exports s) of
                            (Inl e, xs) \<Rightarrow> (Inl e, s\<lparr>se_exports := xs\<rparr>, gs)
                          | (Inr rid, xs) \<Rightarrow>
                              grant_in rid (s\<lparr>se_exports := xs\<lparr>xs_relays := (xs_relays xs)(im_ptr im \<mapsto> rid)\<rparr>\<rparr>, gs)))))"

fun encode_reference :: "reference \<Rightarrow> encoding \<Rightarrow> (session_error + wire_value) \<times> encoding" where
  "encode_reference (Remote im) st = encode_import im st"
| "encode_reference (Home im) st =
     (if im_peer im \<noteq> se_number (fst st) then (Inl (ValueError NotHome), st) else encode_import im st)"
| "encode_reference (Local ob) st =
     (case ob_body ob of Relay im \<Rightarrow> encode_import im st | _ \<Rightarrow> encode_local ob st)"

section \<open>Imports\<close>

definition decode_home :: "nat \<Rightarrow> kind \<Rightarrow> session \<Rightarrow> (session_error + reference) \<times> session" where
  "decode_home rid k s =
     (case find_export rid (se_exports s) of
        Inl e \<Rightarrow> (Inl e, s)
      | Inr ob \<Rightarrow>
          if object_kind ob \<noteq> k then (Inl (TransportError ''reference kind mismatch''), s)
          else (Inr (case ob_body ob of Relay im \<Rightarrow> Remote im | _ \<Rightarrow> Local ob), s))"

text \<open>\<open>Weak::upgrade\<close> of the entry of the table.\<close>

definition upgrade :: "nat \<Rightarrow> session \<Rightarrow> (nat \<times> held_import) option" where
  "upgrade rid s =
     (case se_imports s rid of
        None \<Rightarrow> None
      | Some p \<Rightarrow>
          (case se_held s p of
             Some h \<Rightarrow> if hi_phase h = Held then Some (p, h) else None
           | None \<Rightarrow> None))"

definition decode_import :: "nat \<Rightarrow> kind \<Rightarrow> string list \<Rightarrow> session \<Rightarrow> (session_error + reference) \<times> session" where
  "decode_import rid k origin s =
     (if rid = 0 \<or> rid > MAX_ID then (Inl (TransportError ''invalid reference identity''), s)
      else (case upgrade rid s of
              Some (p, h) \<Rightarrow>
                if im_kind (hi_import h) \<noteq> k \<or> im_origin (hi_import h) \<noteq> origin
                then (Inl (TransportError ''reference kind mismatch''), s)
                else if hi_grants h \<ge> u64_max then (Inl (TransportError ''import grant overflow''), s)
                else (Inr (Remote (hi_import h)),
                      s\<lparr>se_held := (se_held s)(p \<mapsto> h\<lparr>hi_grants := hi_grants h + 1\<rparr>)\<rparr>)
            | None \<Rightarrow>
                (let p = se_next_ptr s;
                     im = \<lparr>im_ptr = p, im_peer = se_number s, im_id = rid, im_kind = k, im_origin = origin\<rparr>
                 in (Inr (Remote im),
                     s\<lparr>se_held := (se_held s)(p \<mapsto> \<lparr>hi_import = im, hi_grants = 1, hi_phase = Held\<rparr>),
                       se_imports := (se_imports s)(rid \<mapsto> p), se_next_ptr := p + 1\<rparr>))))"

definition decode_reference :: "nat \<Rightarrow> bool \<Rightarrow> kind \<Rightarrow> string list \<Rightarrow> session \<Rightarrow> (session_error + reference) \<times> session" where
  "decode_reference rid home k origin s = (if home then decode_home rid k s else decode_import rid k origin s)"

text \<open>The drop of an import: the last holder goes, its entry goes, its grants go back.\<close>

definition drop_holder :: "nat \<Rightarrow> session \<Rightarrow> session" where
  "drop_holder p s =
     (case se_held s p of
        Some h \<Rightarrow> s\<lparr>se_held := (se_held s)(p \<mapsto> h\<lparr>hi_phase := Dropped\<rparr>)\<rparr>
      | None \<Rightarrow> s)"

definition drop_entry :: "nat \<Rightarrow> session \<Rightarrow> session" where
  "drop_entry p s =
     (case se_held s p of
        Some h \<Rightarrow>
          (let rid = im_id (hi_import h) in
           s\<lparr>se_held := (se_held s)(p \<mapsto> h\<lparr>hi_phase := Unlisted\<rparr>),
             se_imports := (if se_imports s rid = Some p then (se_imports s)(rid := None) else se_imports s)\<rparr>)
      | None \<Rightarrow> s)"

definition drop_release :: "nat \<Rightarrow> session \<Rightarrow> (nat \<times> nat) option \<times> session" where
  "drop_release p s =
     (case se_held s p of
        Some h \<Rightarrow> (Some (im_id (hi_import h), hi_grants h), s\<lparr>se_held := (se_held s)(p := None)\<rparr>)
      | None \<Rightarrow> (None, s))"

end
