(* ===== verification/Session_Values.thy ===== *)
theory Session_Values
  imports Session_State
begin

text \<open>
  How values cross a session: \<open>encode_inner\<close>, \<open>encode_data\<close> and \<open>decode\<close> of
  \<open>crates/rutis-bridge/src/session/rpc.rs\<close>, \<open>encode_args\<close> of
  \<open>session/rpc/crossing.rs\<close>.  A loop that stops at the first error is a
  recursion that does; \<open>decode_each\<close> goes on past value errors.
\<close>

definition MAX_DEPTH :: nat where
  "MAX_DEPTH = 64"

fun fits :: "json \<Rightarrow> nat \<Rightarrow> bool" where
  "fits (JArray items) levels \<longleftrightarrow> levels > 0 \<and> list_all (\<lambda>item. fits item (levels - 1)) items"
| "fits (JObject fs) levels \<longleftrightarrow> levels > 0 \<and> list_all (\<lambda>(_, item). fits item (levels - 1)) fs"
| "fits _ levels \<longleftrightarrow> True"

definition capability :: "string \<Rightarrow> string" where
  "capability tag = ''value-'' @ tag"

definition sendable :: "session \<Rightarrow> string \<Rightarrow> string \<Rightarrow> session_error option" where
  "sendable s tag what = (if supports s (capability tag) then None else Some (ValueError (NotTaken tag what)))"

text \<open>\<open>BTreeMap\<close> collected from fields: sorted by key, the last of equal keys.\<close>

fun btree_insert :: "string \<Rightarrow> 'v \<Rightarrow> (string \<times> 'v) list \<Rightarrow> (string \<times> 'v) list" where
  "btree_insert k v [] = [(k, v)]"
| "btree_insert k v ((k', v') # m) =
     (if k = k' then (k, v) # m else if k < k' then (k, v) # (k', v') # m else (k', v') # btree_insert k v m)"

definition btree :: "(string \<times> 'v) list \<Rightarrow> (string \<times> 'v) list" where
  "btree kvs = foldl (\<lambda>m (k, v). btree_insert k v m) [] kvs"

section \<open>Loops that may fail\<close>

text \<open>\<open>collect\<close> of results, without and with a state, and \<open>decode_each\<close>.\<close>

fun collect :: "('a \<Rightarrow> 'e + 'b) \<Rightarrow> 'a list \<Rightarrow> 'e + 'b list" where
  "collect f [] = Inr []"
| "collect f (x # xs) =
     (case f x of Inl e \<Rightarrow> Inl e | Inr y \<Rightarrow> (case collect f xs of Inl e \<Rightarrow> Inl e | Inr ys \<Rightarrow> Inr (y # ys)))"

fun collect_in :: "('a \<Rightarrow> 's \<Rightarrow> ('e + 'b) \<times> 's) \<Rightarrow> 'a list \<Rightarrow> 's \<Rightarrow> ('e + 'b list) \<times> 's" where
  "collect_in f [] st = (Inr [], st)"
| "collect_in f (x # xs) st =
     (case f x st of
        (Inl e, st) \<Rightarrow> (Inl e, st)
      | (Inr y, st) \<Rightarrow>
          (case collect_in f xs st of (Inl e, st) \<Rightarrow> (Inl e, st) | (Inr ys, st) \<Rightarrow> (Inr (y # ys), st)))"

fun is_value_error :: "session_error \<Rightarrow> bool" where
  "is_value_error (ValueError _) = True"
| "is_value_error _ = False"

fun each_past :: "('a \<Rightarrow> 's \<Rightarrow> (session_error + 'b) \<times> 's) \<Rightarrow> 'a list \<Rightarrow> 's \<Rightarrow> (session_error + 'b list) \<times> 's" where
  "each_past f [] st = (Inr [], st)"
| "each_past f (x # xs) st =
     (case f x st of
        (Inr y, st) \<Rightarrow>
          (case each_past f xs st of (Inl e, st) \<Rightarrow> (Inl e, st) | (Inr ys, st) \<Rightarrow> (Inr (y # ys), st))
      | (Inl e, st) \<Rightarrow>
          if is_value_error e then
            (case each_past f xs st of
               (Inl e', st) \<Rightarrow> (Inl (if is_value_error e' then e else e'), st)
             | (Inr _, st) \<Rightarrow> (Inl e, st))
          else (Inl e, st))"

lemma collect_cong [fundef_cong]:
  "xs = ys \<Longrightarrow> (\<And>x. x \<in> set ys \<Longrightarrow> f x = g x) \<Longrightarrow> collect f xs = collect g ys"
proof (induction xs arbitrary: ys)
  case (Cons x xs)
  then show ?case by (cases ys) (auto split: sum.split)
qed simp

lemma collect_in_cong [fundef_cong]:
  "xs = ys \<Longrightarrow> st = st' \<Longrightarrow> (\<And>x st. x \<in> set ys \<Longrightarrow> f x st = g x st) \<Longrightarrow> collect_in f xs st = collect_in g ys st'"
proof -
  assume e: "xs = ys" "st = st'" and f: "\<And>x st. x \<in> set ys \<Longrightarrow> f x st = g x st"
  have "(\<And>x st. x \<in> set zs \<Longrightarrow> f x st = g x st) \<Longrightarrow> collect_in f zs st = collect_in g zs st" for zs st
    by (induction zs arbitrary: st) (simp_all split: prod.split sum.split)
  with e f show ?thesis by simp
qed

lemma each_past_cong [fundef_cong]:
  "xs = ys \<Longrightarrow> st = st' \<Longrightarrow> (\<And>x st. x \<in> set ys \<Longrightarrow> f x st = g x st) \<Longrightarrow> each_past f xs st = each_past g ys st'"
proof -
  assume e: "xs = ys" "st = st'" and f: "\<And>x st. x \<in> set ys \<Longrightarrow> f x st = g x st"
  have "(\<And>x st. x \<in> set zs \<Longrightarrow> f x st = g x st) \<Longrightarrow> each_past f zs st = each_past g zs st" for zs st
    by (induction zs arbitrary: st) (simp_all split: prod.split sum.split)
  with e f show ?thesis by simp
qed

definition map_result :: "('a \<Rightarrow> 'b) \<Rightarrow> ('e + 'a) \<times> 's \<Rightarrow> ('e + 'b) \<times> 's" where
  "map_result f r = (case r of (Inl e, st) \<Rightarrow> (Inl e, st) | (Inr a, st) \<Rightarrow> (Inr (f a), st))"

section \<open>Encoding\<close>

function encode_data :: "session \<Rightarrow> json \<Rightarrow> session_error + wire_value" where
  "encode_data s j =
     (if \<not> holds_beyond_safe j then Inr (WData j)
      else (case j of
              JArray items \<Rightarrow> (case collect (\<lambda>item. encode_data s item) items of Inl e \<Rightarrow> Inl e | Inr ws \<Rightarrow> Inr (WList ws))
            | JObject fs \<Rightarrow>
                (case collect (\<lambda>(k, v). case encode_data s v of Inl e \<Rightarrow> Inl e | Inr w \<Rightarrow> Inr (k, w)) fs of
                   Inl e \<Rightarrow> Inl e
                 | Inr ws \<Rightarrow> Inr (WRecord (btree ws)))
            | JNumber n \<Rightarrow>
                (case sendable s ''bigint'' (show_integer n) of
                   Some e \<Rightarrow> Inl e
                 | None \<Rightarrow> Inr (WBigInt (show_integer n)))
            | _ \<Rightarrow> Inr (WData j)))"
  by pat_completeness auto

lemma size_field: "(k, v) \<in> set fs \<Longrightarrow> size v < Suc (size_list (size_prod f size) fs)"
  by (induction fs) auto

lemma size_key: "(k, v) \<in> set fs \<Longrightarrow> size k < Suc (size_list (size_prod size f) fs)"
  by (induction fs) auto

lemma size_entry: "(k, v) \<in> set fs \<Longrightarrow> size k < Suc (size_list (size_prod size size) fs) \<and> size v < Suc (size_list (size_prod size size) fs)"
  by (induction fs) auto

lemma size_item: "x \<in> set xs \<Longrightarrow> size x < Suc (size_list size xs)"
  by (induction xs) auto

termination encode_data
  by (relation "measure (\<lambda>(s, j). size j)") (auto intro: size_item size_field)

declare encode_data.simps [simp del]

fun is_nested :: "session_value \<Rightarrow> bool" where
  "is_nested (VList _) = True"
| "is_nested (VRecord _) = True"
| "is_nested (VMap _) = True"
| "is_nested (VSet _) = True"
| "is_nested _ = False"

text \<open>What \<open>encode_inner\<close> checks of every value before it writes it.\<close>

definition admitted :: "session_value \<Rightarrow> nat \<Rightarrow> encoding \<Rightarrow> (session_error + 'a) \<times> encoding \<Rightarrow> (session_error + 'a) \<times> encoding" where
  "admitted v levels st r =
     (if is_nested v \<and> levels = 0 then (Inl (ValueError TooDeep), st)
      else (case value_tag v of
              None \<Rightarrow> r
            | Some tag \<Rightarrow> (case sendable (fst st) tag (describe_value v) of Some e \<Rightarrow> (Inl e, st) | None \<Rightarrow> r)))"

text \<open>What sits inside a value: undefined is null there.\<close>

definition part :: "(session_value \<Rightarrow> encoding \<Rightarrow> (session_error + wire_value) \<times> encoding)
    \<Rightarrow> session_value \<Rightarrow> encoding \<Rightarrow> (session_error + wire_value) \<times> encoding" where
  "part enc v st = (if v = Undefined then (Inr (WData JNull), st) else enc v st)"

lemma part_cong [fundef_cong]: "v = v' \<Longrightarrow> st = st' \<Longrightarrow> enc v' st' = enc' v' st' \<Longrightarrow> part enc v st = part enc' v' st'"
  by (simp add: part_def)

function encode_inner :: "session_value \<Rightarrow> nat \<Rightarrow> encoding \<Rightarrow> (session_error + wire_value) \<times> encoding" where
  "encode_inner Undefined levels st = (Inr WUndefined, st)"
| "encode_inner (Data j) levels st =
     ((if \<not> fits j levels then Inl (ValueError TooDeep) else encode_data (fst st) j), st)"
| "encode_inner (VList vs) levels st =
     admitted (VList vs) levels st
       (map_result WList (collect_in (\<lambda>v st. part (\<lambda>v st. encode_inner v (levels - 1) st) v st) vs st))"
| "encode_inner (VRecord fs) levels st =
     admitted (VRecord fs) levels st
       (map_result (\<lambda>ws. WRecord (btree ws))
         (collect_in (\<lambda>(k, v) st. map_result (Pair k) (part (\<lambda>v st. encode_inner v (levels - 1) st) v st)) fs st))"
| "encode_inner (VReference r) levels st = encode_reference r st"
| "encode_inner Signal levels st = (Inr WSignal, st)"
| "encode_inner (VInstant x) levels st =
     admitted (VInstant x) levels st ((case show_instant x of Some t \<Rightarrow> Inr (WInstant t) | None \<Rightarrow> Inl Panicked), st)"
| "encode_inner (VDateTime x) levels st = admitted (VDateTime x) levels st (Inr (WDateTime (show_datetime x)), st)"
| "encode_inner (VDate x) levels st = admitted (VDate x) levels st (Inr (WDate (show_date x)), st)"
| "encode_inner (VTime x) levels st = admitted (VTime x) levels st (Inr (WTime (show_time x)), st)"
| "encode_inner (VBytes bs) levels st = admitted (VBytes bs) levels st (Inr (WBytes (base64_encode bs)), st)"
| "encode_inner (VMap es) levels st =
     admitted (VMap es) levels st
       (case check_keys ''map key'' (map fst es) of
          Some e \<Rightarrow> (Inl e, st)
        | None \<Rightarrow>
            map_result WMap
              (collect_in
                (\<lambda>(k, v) st.
                   case part (\<lambda>v st. encode_inner v (levels - 1) st) v st of
                     (Inl e, st) \<Rightarrow> (Inl e, st)
                   | (Inr w, st) \<Rightarrow> map_result (\<lambda>kw. (kw, w)) (encode_inner k (levels - 1) st)) es st))"
| "encode_inner (VSet vs) levels st =
     admitted (VSet vs) levels st
       (case check_keys ''set element'' vs of
          Some e \<Rightarrow> (Inl e, st)
        | None \<Rightarrow> map_result WSet (collect_in (\<lambda>v st. encode_inner v (levels - 1) st) vs st))"
| "encode_inner (VBigInt b) levels st = admitted (VBigInt b) levels st (Inr (WBigInt (bigint_text b)), st)"
| "encode_inner (VDecimal d) levels st = admitted (VDecimal d) levels st (Inr (WDecimal (decimal_text d)), st)"
| "encode_inner (VUuid u) levels st = admitted (VUuid u) levels st (Inr (WUuid (show_uuid u)), st)"
  by pat_completeness auto

termination encode_inner
  by (relation "measure (\<lambda>(v, levels, st). size v)") (auto intro: size_item size_field dest: size_entry)

text \<open>The references granted for a value that cannot be sent are given back.\<close>

definition or_ungrant :: "(session_error + 'a) \<times> encoding \<Rightarrow> (session_error + 'a \<times> nat list) \<times> session" where
  "or_ungrant r =
     (case r of
        (Inr a, s, gs) \<Rightarrow> (Inr (a, gs), s)
      | (Inl e, s, gs) \<Rightarrow> (Inl e, s\<lparr>se_exports := ungrant gs (se_exports s)\<rparr>))"

definition encode_granting :: "session_value \<Rightarrow> nat \<Rightarrow> session \<Rightarrow> (session_error + wire_value \<times> nat list) \<times> session" where
  "encode_granting v levels s = or_ungrant (encode_inner v levels (s, []))"

text \<open>\<open>encode_args\<close>: each argument of a list alone, an undefined one kept.\<close>

definition encode_args :: "session_value \<Rightarrow> session \<Rightarrow> (session_error + wire_value \<times> nat list) \<times> session" where
  "encode_args args s =
     or_ungrant
       (case args of
          VList items \<Rightarrow>
            map_result WList (collect_in (\<lambda>v st. encode_inner v MAX_DEPTH st) items (s, []))
        | args \<Rightarrow> encode_inner args (MAX_DEPTH + 1) (s, []))"

section \<open>Decoding\<close>

definition value_or_error :: "value_error + 'a \<Rightarrow> ('a \<Rightarrow> session_value) \<Rightarrow> session_error + session_value" where
  "value_or_error r f = (case r of Inl e \<Rightarrow> Inl (ValueError (BadText e)) | Inr a \<Rightarrow> Inr (f a))"

fun decode_text :: "wire_value \<Rightarrow> (session_error + session_value) option" where
  "decode_text (WInstant t) = Some (value_or_error (instant_from_str t) VInstant)"
| "decode_text (WDateTime t) = Some (value_or_error (datetime_from_str t) VDateTime)"
| "decode_text (WDate t) = Some (value_or_error (date_from_str t) VDate)"
| "decode_text (WTime t) = Some (value_or_error (time_from_str t) VTime)"
| "decode_text (WBytes t) = Some (value_or_error (base64_decode t) VBytes)"
| "decode_text (WBigInt t) = Some (value_or_error (bigint_from_str t) VBigInt)"
| "decode_text (WDecimal t) = Some (value_or_error (decimal_from_str t) VDecimal)"
| "decode_text (WUuid t) = Some (value_or_error (uuid_from_str t) VUuid)"
| "decode_text _ = None"

fun wire_tag :: "wire_value \<Rightarrow> string option" where
  "wire_tag (WInstant _) = Some ''instant''"
| "wire_tag (WDateTime _) = Some ''datetime''"
| "wire_tag (WDate _) = Some ''date''"
| "wire_tag (WTime _) = Some ''time''"
| "wire_tag (WBytes _) = Some ''bytes''"
| "wire_tag (WMap _) = Some ''map''"
| "wire_tag (WSet _) = Some ''set''"
| "wire_tag (WBigInt _) = Some ''bigint''"
| "wire_tag (WDecimal _) = Some ''decimal''"
| "wire_tag (WUuid _) = Some ''uuid''"
| "wire_tag _ = None"

definition undeclared :: "session \<Rightarrow> wire_value \<Rightarrow> session_error option" where
  "undeclared s w =
     (case wire_tag w of
        Some tag \<Rightarrow> if declares s (capability tag) then None else Some (ValueError (NotDeclared tag))
      | None \<Rightarrow> None)"

definition null_if_undefined :: "session_value \<Rightarrow> session_value" where
  "null_if_undefined v = (if v = Undefined then Data JNull else v)"

definition nulls :: "session_value list \<Rightarrow> session_value list" where
  "nulls vs = map null_if_undefined vs"

text \<open>The entries of a map, of the keys and values decoded one after the other.\<close>

fun entries_of :: "session_value list \<Rightarrow> (session_value \<times> session_value) list" where
  "entries_of (k # v # vs) = (k, null_if_undefined v) # entries_of vs"
| "entries_of _ = []"

text \<open>What \<open>decode\<close> checks of a tagged value before it reads it.\<close>

definition taken :: "session \<Rightarrow> wire_value \<Rightarrow> (session_error + 'a) \<times> session \<Rightarrow> (session_error + 'a) \<times> session" where
  "taken s w r = (case undeclared s w of Some e \<Rightarrow> (Inl e, s) | None \<Rightarrow> r)"

definition read_text :: "wire_value \<Rightarrow> session_error + session_value" where
  "read_text w = (case decode_text w of Some r \<Rightarrow> r | None \<Rightarrow> Inl Panicked)"

function decode :: "wire_value \<Rightarrow> session \<Rightarrow> (session_error + session_value) \<times> session" where
  "decode WUndefined s = (Inr Undefined, s)"
| "decode (WData j) s = (Inr (Data j), s)"
| "decode (WList ws) s = map_result (\<lambda>vs. VList (nulls vs)) (each_past (\<lambda>w s. decode w s) ws s)"
| "decode (WRecord fs) s =
     map_result (\<lambda>vs. VRecord (btree (zip (map fst fs) (nulls vs)))) (each_past (\<lambda>w s. decode w s) (map snd fs) s)"
| "decode WSignal s = (Inr Signal, s)"
| "decode (WReference rid home k origin) s = map_result VReference (decode_reference rid home k origin s)"
| "decode (WInstant t) s = taken s (WInstant t) (read_text (WInstant t), s)"
| "decode (WDateTime t) s = taken s (WDateTime t) (read_text (WDateTime t), s)"
| "decode (WDate t) s = taken s (WDate t) (read_text (WDate t), s)"
| "decode (WTime t) s = taken s (WTime t) (read_text (WTime t), s)"
| "decode (WBytes t) s = taken s (WBytes t) (read_text (WBytes t), s)"
| "decode (WMap es) s =
     (case each_past (\<lambda>w s. decode w s) (concat (map (\<lambda>(k, v). [k, v]) es)) s of
        (Inl e, s') \<Rightarrow> (Inl e, s')
      | (Inr vs, s') \<Rightarrow>
          (case undeclared s (WMap es) of
             Some e \<Rightarrow> (Inl e, s')
           | None \<Rightarrow>
               (let entries = entries_of vs in
                case check_keys ''map key'' (map fst entries) of
                  Some e \<Rightarrow> (Inl e, s')
                | None \<Rightarrow> (Inr (VMap entries), s'))))"
| "decode (WSet ws) s =
     (case each_past (\<lambda>w s. decode w s) ws s of
        (Inl e, s') \<Rightarrow> (Inl e, s')
      | (Inr vs, s') \<Rightarrow>
          (case undeclared s (WSet ws) of
             Some e \<Rightarrow> (Inl e, s')
           | None \<Rightarrow> (case check_keys ''set element'' vs of Some e \<Rightarrow> (Inl e, s') | None \<Rightarrow> (Inr (VSet vs), s'))))"
| "decode (WBigInt t) s = taken s (WBigInt t) (read_text (WBigInt t), s)"
| "decode (WDecimal t) s = taken s (WDecimal t) (read_text (WDecimal t), s)"
| "decode (WUuid t) s = taken s (WUuid t) (read_text (WUuid t), s)"
  by pat_completeness auto

termination decode
  by (relation "measure (\<lambda>(w, s). size w)") (auto intro: size_item size_field dest: size_entry)

text \<open>\<open>decode_args\<close>: what the arguments of a call are, each decoded alone.\<close>

definition decode_args :: "wire_value \<Rightarrow> session \<Rightarrow> (session_error + session_value) \<times> session" where
  "decode_args args s =
     (case args of
        WList items \<Rightarrow>
          map_result VList (each_past (\<lambda>w s. decode w s) items s)
      | args \<Rightarrow> decode args s)"

end
