(* ===== verification/Session_Crossing.thy ===== *)
theory Session_Crossing
  imports Session_Values
begin

text \<open>
  What a value is after it crossed a session: the same value, undefined inside
  it null, and the integers of its data beyond 2^53-1 bigints.
\<close>

section \<open>Sorted maps\<close>

abbreviation sorted_keys :: "(string \<times> 'v) list \<Rightarrow> bool" where
  "sorted_keys m \<equiv> sorted_wrt (<) (map fst m)"

lemma btree_insert_keys: "fst ` set (btree_insert k v m) = insert k (fst ` set m)"
  by (induction k v m rule: btree_insert.induct) auto

lemma btree_insert_sorted: "sorted_keys m \<Longrightarrow> sorted_keys (btree_insert k v m)"
proof (induction k v m rule: btree_insert.induct)
  case (2 k v k' v' m)
  have keys: "set (map fst (btree_insert k v m)) = insert k (set (map fst m))"
    using btree_insert_keys [of k v m] by simp
  show ?case using 2 keys by auto
qed simp

lemma btree_insert_last: "sorted_keys (m @ [(k, v)]) \<Longrightarrow> btree_insert k v m = m @ [(k, v)]"
proof (induction k v m rule: btree_insert.induct)
  case (2 k v k' v' m)
  then show ?case by (auto dest: less_asym)
qed simp

lemma btree_snoc: "btree (m @ [(k, v)]) = btree_insert k v (btree m)"
  by (simp add: btree_def)

lemma btree_Nil [simp]: "btree [] = []"
  by (simp add: btree_def)

lemma btree_sorted: "sorted_keys (btree kvs)"
  by (induction kvs rule: rev_induct) (auto simp: btree_snoc btree_insert_sorted)

lemma btree_of_sorted [simp]: "sorted_keys m \<Longrightarrow> btree m = m"
proof (induction m rule: rev_induct)
  case (snoc x m)
  obtain k v where x: "x = (k, v)" by (cases x)
  have "sorted_keys m" using snoc.prems by (simp add: sorted_wrt_append)
  then show ?case using snoc x by (simp add: btree_snoc btree_insert_last)
qed simp

lemma btree_insert_map: "btree_insert k (f v) (map (\<lambda>(k, v). (k, f v)) m) = map (\<lambda>(k, v). (k, f v)) (btree_insert k v m)"
  by (induction k v m rule: btree_insert.induct) auto

lemma btree_map: "btree (map (\<lambda>(k, v). (k, f v)) m) = map (\<lambda>(k, v). (k, f v)) (btree m)"
  by (induction m rule: rev_induct) (auto simp: btree_snoc btree_insert_map)

lemma btree_idem [simp]: "btree (btree m) = btree m"
  by (rule btree_of_sorted) (rule btree_sorted)

lemma set_btree_insert: "set (btree_insert k v m) \<subseteq> insert (k, v) (set m)"
  by (induction k v m rule: btree_insert.induct) auto

lemma set_btree: "set (btree m) \<subseteq> set m"
proof (induction m rule: rev_induct)
  case (snoc x m)
  then show ?case using set_btree_insert by (cases x) (fastforce simp: btree_snoc)
qed simp

section \<open>What crosses\<close>

fun plain :: "session_value \<Rightarrow> bool" where
  "plain (VReference r) = False"
| "plain (VList vs) = list_all plain vs"
| "plain (VRecord fs) = list_all (\<lambda>(k, v). plain v) fs"
| "plain (VMap es) = list_all (\<lambda>(k, v). plain k \<and> plain v) es"
| "plain (VSet vs) = list_all plain vs"
| "plain v = True"

text \<open>What the types of the code admit.\<close>

fun json_ok :: "json \<Rightarrow> bool" where
  "json_ok (JNumber n) = number_ok n"
| "json_ok (JArray items) = list_all json_ok items"
| "json_ok (JObject fs) \<longleftrightarrow> distinct (map fst fs) \<and> list_all (\<lambda>(k, v). json_ok v) fs"
| "json_ok j = True"

fun value_ok :: "session_value \<Rightarrow> bool" where
  "value_ok (Data j) = json_ok j"
| "value_ok (VList vs) = list_all value_ok vs"
| "value_ok (VRecord fs) \<longleftrightarrow> sorted_keys fs \<and> list_all (\<lambda>(k, v). value_ok v) fs"
| "value_ok (VInstant x) = instant_ok x"
| "value_ok (VDateTime x) = datetime_ok x"
| "value_ok (VDate x) = date_ok x"
| "value_ok (VTime x) = time_ok x"
| "value_ok (VMap es) = list_all (\<lambda>(k, v). value_ok k \<and> value_ok v) es"
| "value_ok (VSet vs) = list_all value_ok vs"
| "value_ok (VBigInt b) = bigint_ok b"
| "value_ok (VDecimal d) = decimal_ok d"
| "value_ok (VUuid u) = uuid_ok u"
| "value_ok v = True"

fun crossed_data :: "json \<Rightarrow> session_value" where
  "crossed_data (JArray items) =
     (if holds_beyond_safe (JArray items) then VList (map crossed_data items) else Data (JArray items))"
| "crossed_data (JObject fs) =
     (if holds_beyond_safe (JObject fs) then VRecord (btree (map (\<lambda>(k, v). (k, crossed_data v)) fs)) else Data (JObject fs))"
| "crossed_data (JNumber n) = (if beyond_safe n then VBigInt (BigInt (show_integer n)) else Data (JNumber n))"
| "crossed_data j = Data j"

fun crossed :: "session_value \<Rightarrow> session_value" where
  "crossed (Data j) = crossed_data j"
| "crossed (VList vs) = VList (map (\<lambda>v. null_if_undefined (crossed v)) vs)"
| "crossed (VRecord fs) = VRecord (map (\<lambda>(k, v). (k, null_if_undefined (crossed v))) fs)"
| "crossed (VMap es) = VMap (map (\<lambda>(k, v). (crossed k, null_if_undefined (crossed v))) es)"
| "crossed (VSet vs) = VSet (map crossed vs)"
| "crossed v = v"

section \<open>Loops\<close>

lemma map_result_Inr [simp]: "map_result f r = (Inr y, st) \<longleftrightarrow> (\<exists>x. r = (Inr x, st) \<and> y = f x)"
  by (auto simp: map_result_def split: prod.splits sum.splits)

lemma map_result_simps [simp]: "map_result f (Inr a, st) = (Inr (f a), st)" "map_result f (Inl e, st) = (Inl e, st)"
  by (simp_all add: map_result_def)

lemma collect_Inr: "list_all2 (\<lambda>x y. f x = Inr y) xs ys \<Longrightarrow> collect f xs = Inr ys"
  by (induction xs ys rule: list_all2_induct) simp_all

lemma collect_InrD: "collect f xs = Inr ys \<Longrightarrow> list_all2 (\<lambda>x y. f x = Inr y) xs ys"
  by (induction xs arbitrary: ys) (auto split: sum.splits)

lemma collect_in_Inr:
  assumes "collect_in f xs st = (Inr ys, st')"
    and "\<And>x y st'. x \<in> set xs \<Longrightarrow> f x st = (Inr y, st') \<Longrightarrow> st' = st \<and> P x y"
  shows "st' = st \<and> list_all2 P xs ys"
  using assms
proof (induction xs arbitrary: ys)
  case (Cons x xs)
  obtain y st1 zs where y: "f x st = (Inr y, st1)" "collect_in f xs st1 = (Inr zs, st')" "ys = y # zs"
    using Cons.prems(1) by (auto split: prod.splits sum.splits)
  have "st1 = st \<and> P x y" using Cons.prems(2) [of x y st1] y(1) by simp
  moreover have "st' = st \<and> list_all2 P xs zs"
    using Cons.IH [of zs] y(2) Cons.prems(2) calculation by (metis list.set_intros(2))
  ultimately show ?case using y(3) by simp
qed simp

lemma each_past_Inr: "list_all2 (\<lambda>x y. f x st = (Inr y, st)) xs ys \<Longrightarrow> each_past f xs st = (Inr ys, st)"
  by (induction xs ys rule: list_all2_induct) simp_all

section \<open>Keys and undefined\<close>

lemma crossed_data_defined: "crossed_data j \<noteq> Undefined"
  by (cases j) auto

lemma crossed_Undefined [simp]: "crossed v = Undefined \<longleftrightarrow> v = Undefined"
  by (cases v) (auto simp: crossed_data_defined)

lemma key_crossed: "key what v = Inr k \<Longrightarrow> key what (crossed v) = Inr k"
  by (cases "(what, v)" rule: key.cases) (auto split: if_splits)

lemma keys_crossed: "check_keys what vs = None \<Longrightarrow> check_keys what (map crossed vs) = None"
proof -
  assume "check_keys what vs = None"
  then obtain ks where "map (key what) vs = map Inr ks" "distinct ks" by (auto simp: check_keys_None)
  moreover have "map (key what) vs = map Inr ks \<Longrightarrow> map (key what) (map crossed vs) = map Inr ks" for ks
  proof (induction vs arbitrary: ks)
    case (Cons v vs)
    then show ?case by (cases ks) (auto simp: key_crossed)
  qed simp
  ultimately show ?thesis by (auto simp: check_keys_None)
qed

section \<open>The round trip\<close>

definition caps_agree :: "session \<Rightarrow> session \<Rightarrow> bool" where
  "caps_agree s r \<longleftrightarrow> set (se_taken s) \<subseteq> set (se_declared r)"

lemma sendable_declared: "caps_agree s r \<Longrightarrow> sendable s tag what = None \<Longrightarrow> declares r (capability tag)"
  by (auto simp: sendable_def supports_def declares_def caps_agree_def split: if_splits)

lemma admitted_Inr: "admitted v levels st r = (Inr w, st') \<Longrightarrow>
    r = (Inr w, st') \<and> (\<forall>tag. value_tag v = Some tag \<longrightarrow> sendable (fst st) tag (describe_value v) = None)"
  by (auto simp: admitted_def split: if_splits option.splits)

lemma admitted_declared:
  assumes "admitted v levels (s, gs) x = (Inr w, st')" and "caps_agree s r" and "wire_tag w' = value_tag v"
  shows "x = (Inr w, st') \<and> undeclared r w' = None"
  using admitted_Inr [OF assms(1)] sendable_declared [OF assms(2)] assms(3)
  by (auto simp: undeclared_def split: option.splits)

lemma part_Inr: "part enc v st = (Inr w, st') \<longleftrightarrow>
    (if v = Undefined then w = WData JNull \<and> st' = st else enc v st = (Inr w, st'))"
  by (auto simp: part_def)

lemma show_integer_bigint:
  assumes "number_ok n" and "beyond_safe n"
  shows "bigint_from_str (show_integer n) = Inr (BigInt (show_integer n))"
proof -
  have p: "(2::int) ^ 64 \<le> 10 ^ 20" by simp
  also have "(10::int) ^ 20 \<le> 10 ^ MAX_DIGITS" by (rule power_increasing) (simp_all add: MAX_DIGITS_def)
  finally have b: "(2::int) ^ 64 \<le> 10 ^ MAX_DIGITS" .
  have "\<exists>i. \<bar>i\<bar> < 2 ^ 64 \<and> show_integer n = show_int i"
  proof (cases n)
    case (PosInt i)
    then show ?thesis using assms(1) by (intro exI [of _ "int i"]) simp
  next
    case (NegInt i)
    then show ?thesis using assms(1) by (intro exI [of _ i]) simp
  qed (use assms(2) in \<open>simp add: beyond_safe_def\<close>)
  then obtain i where "\<bar>i\<bar> < 2 ^ 64" "show_integer n = show_int i" by blast
  moreover have "\<bar>i\<bar> < 10 ^ MAX_DIGITS" using calculation(1) b by (rule less_le_trans)
  ultimately show ?thesis unfolding bigint_from_str_iff bigint_from_int_def by (intro exI [of _ i]) simp
qed

text \<open>What decodes each part decodes the whole.\<close>

definition decodes_to :: "session \<Rightarrow> wire_value \<Rightarrow> session_value \<Rightarrow> bool" where
  "decodes_to r w v \<longleftrightarrow> decode w r = (Inr v, r)"

definition part_decodes_to :: "session \<Rightarrow> wire_value \<Rightarrow> session_value \<Rightarrow> bool" where
  "part_decodes_to r w v \<longleftrightarrow> (\<exists>u. decodes_to r w u \<and> null_if_undefined u = v)"

lemma each_decodes: "list_all2 (\<lambda>w v. decodes_to r w v) ws vs \<Longrightarrow> each_past (\<lambda>w s. decode w s) ws r = (Inr vs, r)"
  by (rule each_past_Inr) (simp add: decodes_to_def)

lemma parts_decode: "list_all2 (part_decodes_to r) ws vs \<Longrightarrow>
  \<exists>us. each_past (\<lambda>w s. decode w s) ws r = (Inr us, r) \<and> nulls us = vs"
proof (induction ws vs rule: list_all2_induct)
  case (Cons w ws v vs)
  then show ?case by (auto simp: part_decodes_to_def decodes_to_def nulls_def)
qed (simp add: nulls_def)

lemma decode_list: "list_all2 (\<lambda>v w. part_decodes_to r w (g v)) vs ws \<Longrightarrow> decodes_to r (WList ws) (VList (map g vs))"
  using parts_decode [of r ws "map g vs"]
  by (auto simp: decodes_to_def list_all2_map2 list_all2_conv_all_nth)

lemma decode_record:
  assumes "list_all2 (\<lambda>(k, v) (k', w). k' = k \<and> part_decodes_to r w (g v)) fs ws"
  shows "decodes_to r (WRecord (btree ws)) (VRecord (btree (map (\<lambda>(k, v). (k, g v)) fs)))"
proof -
  define dec where "dec w = null_if_undefined (case decode w r of (Inr v, _) \<Rightarrow> v | _ \<Rightarrow> Undefined)" for w
  have dec: "part_decodes_to r w v \<Longrightarrow> part_decodes_to r w (dec w) \<and> dec w = v" for w v
    by (auto simp: part_decodes_to_def decodes_to_def dec_def)
  have fields: "map (\<lambda>(k, w). (k, dec w)) ws = map (\<lambda>(k, v). (k, g v)) fs"
    using assms dec by (induction fs ws rule: list_all2_induct) auto
  have "\<forall>(k, w) \<in> set ws. part_decodes_to r w (dec w)"
    using assms dec by (induction fs ws rule: list_all2_induct) auto
  then have "\<forall>(k, w) \<in> set (btree ws). part_decodes_to r w (dec w)" using set_btree [of ws] by blast
  then have "list_all2 (part_decodes_to r) (map snd (btree ws)) (map (\<lambda>(k, w). dec w) (btree ws))"
    by (auto simp: list_all2_map1 list_all2_map2 intro!: list.rel_refl_strong)
  then obtain us where us: "each_past (\<lambda>w s. decode w s) (map snd (btree ws)) r = (Inr us, r)"
    "nulls us = map (\<lambda>(k, w). dec w) (btree ws)"
    using parts_decode by blast
  have "zip (map fst (btree ws)) (map (\<lambda>(k, w). dec w) (btree ws)) = map (\<lambda>(k, w). (k, dec w)) (btree ws)"
    by (simp add: zip_map1 zip_map2 zip_same_conv_map case_prod_unfold)
  then show ?thesis using us by (simp add: decodes_to_def btree_map [symmetric] fields)
qed

text \<open>Data.\<close>

lemma part_of_defined: "decodes_to r w v \<Longrightarrow> v \<noteq> Undefined \<Longrightarrow> part_decodes_to r w v"
  by (auto simp: part_decodes_to_def null_if_undefined_def)

lemma decode_data:
  assumes "encode_data s j = Inr w" and "json_ok j" and "caps_agree s r"
  shows "decodes_to r w (crossed_data j)"
  using assms(1,2)
proof (induction j arbitrary: w)
  case (JNumber n)
  then show ?case using show_integer_bigint [of n] sendable_declared [OF assms(3), of "''bigint''"]
    by (auto simp: encode_data.simps [of s "JNumber n"] taken_def undeclared_def read_text_def value_or_error_def decodes_to_def
          split: if_splits option.splits)
next
  case (JArray items)
  show ?case
  proof (cases "holds_beyond_safe (JArray items)")
    case True
    then obtain ws where ws: "collect (\<lambda>item. encode_data s item) items = Inr ws" "w = WList ws"
      using JArray.prems(1) by (auto simp: encode_data.simps [of s "JArray items"] split: sum.splits)
    have "list_all2 (\<lambda>j w. part_decodes_to r w (crossed_data j)) items ws"
      using collect_InrD [OF ws(1)]
      by (rule list.rel_mono_strong)
        (use JArray.IH JArray.prems(2) in \<open>auto simp: list_all_iff crossed_data_defined intro!: part_of_defined\<close>)
    then show ?thesis using decode_list [of r crossed_data items ws] True ws(2) by simp
  qed (use JArray.prems(1) in \<open>auto simp: encode_data.simps [of s "JArray items"] decodes_to_def\<close>)
next
  case (JObject fs)
  show ?case
  proof (cases "holds_beyond_safe (JObject fs)")
    case True
    define enc where "enc = (\<lambda>(k :: string, v). case encode_data s v of Inl e \<Rightarrow> Inl e | Inr w \<Rightarrow> Inr (k, w))"
    then obtain ws where ws: "collect enc fs = Inr ws" "w = WRecord (btree ws)"
      using JObject.prems(1) True by (auto simp: encode_data.simps [of s "JObject fs"] split: sum.splits)
    have "list_all2 (\<lambda>(k, j) (k', w). k' = k \<and> part_decodes_to r w (crossed_data j)) fs ws"
      using collect_InrD [OF ws(1)]
    proof (rule list.rel_mono_strong)
      fix x y assume x: "x \<in> set fs" and y: "enc x = Inr y"
      obtain k j where kj: "x = (k, j)" by (cases x)
      with y obtain w where w: "encode_data s j = Inr w" "y = (k, w)" by (auto simp: enc_def split: sum.splits)
      have "json_ok j" using x kj JObject.prems(2) by (auto simp: list_all_iff)
      then have "decodes_to r w (crossed_data j)" using JObject.IH [of x j w] x kj w(1) by simp
      then show "(case x of (k, j) \<Rightarrow> \<lambda>(k', w). k' = k \<and> part_decodes_to r w (crossed_data j)) y"
        using kj w(2) by (simp add: part_of_defined crossed_data_defined)
    qed
    then show ?thesis using decode_record [of r crossed_data fs ws] True ws(2) by simp
  qed (use JObject.prems(1) in \<open>auto simp: encode_data.simps [of s "JObject fs"] decodes_to_def\<close>)
qed (auto simp: encode_data.simps decodes_to_def split: if_splits)

text \<open>Values without references.\<close>

lemma decode_tagged:
  assumes "admitted v levels (s, gs) (Inr w', s, gs) = (Inr w, st')" and "caps_agree s r" and "wire_tag w' = value_tag v"
    and "read_text w' = Inr v" and "decode w' r = taken r w' (read_text w', r)"
  shows "st' = (s, gs) \<and> decodes_to r w v"
  using admitted_declared [OF assms(1,2,3)] assms(4,5) by (auto simp: decodes_to_def taken_def)

lemma encode_part_decodes:
  assumes "part (\<lambda>v st. encode_inner v l st) v (s, gs) = (Inr w, st')"
    and "\<And>w st'. encode_inner v l (s, gs) = (Inr w, st') \<Longrightarrow> st' = (s, gs) \<and> decodes_to r w (crossed v)"
  shows "st' = (s, gs) \<and> part_decodes_to r w (null_if_undefined (crossed v))"
proof (cases "v = Undefined")
  case True
  then show ?thesis using assms(1) by (simp add: part_Inr part_decodes_to_def decodes_to_def null_if_undefined_def)
next
  case False
  then have "encode_inner v l (s, gs) = (Inr w, st')" using assms(1) by (simp add: part_Inr)
  from assms(2) [OF this] show ?thesis by (auto simp: part_decodes_to_def)
qed

lemma encode_nested_Inr:
  assumes "encode_inner v levels st = (Inr w, st')"
  shows "v = VList vs \<Longrightarrow>
      \<exists>ws. collect_in (\<lambda>v st. part (\<lambda>v st. encode_inner v (levels - 1) st) v st) vs st = (Inr ws, st') \<and> w = WList ws"
    and "v = VRecord fs \<Longrightarrow>
      \<exists>ws. collect_in (\<lambda>(k, v) st. map_result (Pair k) (part (\<lambda>v st. encode_inner v (levels - 1) st) v st)) fs st =
        (Inr ws, st') \<and> w = WRecord (btree ws)"
    and "v = VMap es \<Longrightarrow>
      \<exists>ws. collect_in
              (\<lambda>(k, v) st.
                 case part (\<lambda>v st. encode_inner v (levels - 1) st) v st of
                   (Inl e, st) \<Rightarrow> (Inl e, st)
                 | (Inr w, st) \<Rightarrow> map_result (\<lambda>kw. (kw, w)) (encode_inner k (levels - 1) st)) es st = (Inr ws, st') \<and>
        w = WMap ws \<and> check_keys ''map key'' (map fst es) = None"
    and "v = VSet vs \<Longrightarrow>
      \<exists>ws. collect_in (\<lambda>v st. encode_inner v (levels - 1) st) vs st = (Inr ws, st') \<and> w = WSet ws \<and>
        check_keys ''set element'' vs = None"
proof -
  show "\<exists>ws. collect_in (\<lambda>v st. part (\<lambda>v st. encode_inner v (levels - 1) st) v st) vs st = (Inr ws, st') \<and> w = WList ws"
    if "v = VList vs"
    using admitted_Inr [OF assms [unfolded that encode_inner.simps]] by auto
  show "\<exists>ws. collect_in (\<lambda>(k, v) st. map_result (Pair k) (part (\<lambda>v st. encode_inner v (levels - 1) st) v st)) fs st =
        (Inr ws, st') \<and> w = WRecord (btree ws)" if "v = VRecord fs"
    using admitted_Inr [OF assms [unfolded that encode_inner.simps]] by auto
  show "\<exists>ws. collect_in
              (\<lambda>(k, v) st.
                 case part (\<lambda>v st. encode_inner v (levels - 1) st) v st of
                   (Inl e, st) \<Rightarrow> (Inl e, st)
                 | (Inr w, st) \<Rightarrow> map_result (\<lambda>kw. (kw, w)) (encode_inner k (levels - 1) st)) es st = (Inr ws, st') \<and>
        w = WMap ws \<and> check_keys ''map key'' (map fst es) = None" if "v = VMap es"
    using admitted_Inr [OF assms [unfolded that encode_inner.simps]] by (auto split: option.splits)
  show "\<exists>ws. collect_in (\<lambda>v st. encode_inner v (levels - 1) st) vs st = (Inr ws, st') \<and> w = WSet ws \<and>
        check_keys ''set element'' vs = None" if "v = VSet vs"
    using admitted_Inr [OF assms [unfolded that encode_inner.simps]] by (auto split: option.splits)
qed

lemma undeclared_nested:
  assumes "encode_inner v levels (s, gs) = (Inr w, st')" and "caps_agree s r" and "is_nested v" and "wire_tag w' = value_tag v"
  shows "undeclared r w' = None"
proof -
  have "\<forall>tag. value_tag v = Some tag \<longrightarrow> sendable s tag (describe_value v) = None"
    using assms(1,3) admitted_Inr by (cases v) fastforce+
  then show ?thesis using sendable_declared [OF assms(2)] assms(4) by (auto simp: undeclared_def split: option.splits)
qed

lemma encode_decode_value:
  assumes "encode_inner v levels (s, gs) = (Inr w, st')" and "plain v" and "value_ok v" and "caps_agree s r"
  shows "st' = (s, gs) \<and> decodes_to r w (crossed v)"
  using assms(1-3)
proof (induction v arbitrary: levels w st')
  case (Data j)
  then show ?case using decode_data [OF _ _ assms(4)] by (auto split: if_splits)
next
  case (VList vs)
  let ?enc = "\<lambda>v st. part (\<lambda>v st. encode_inner v (levels - 1) st) v st"
  obtain ws where ws: "collect_in ?enc vs (s, gs) = (Inr ws, st')" "w = WList ws"
    using encode_nested_Inr(1) [OF VList.prems(1) refl] by blast
  have "st' = (s, gs) \<and> list_all2 (\<lambda>v w. part_decodes_to r w (null_if_undefined (crossed v))) vs ws"
  proof (rule collect_in_Inr [OF ws(1)])
    fix v w st' assume v: "v \<in> set vs" "?enc v (s, gs) = (Inr w, st')"
    have "plain v" "value_ok v" using v(1) VList.prems(2,3) by (auto simp: list_all_iff)
    then show "st' = (s, gs) \<and> part_decodes_to r w (null_if_undefined (crossed v))"
      using encode_part_decodes [OF v(2)] VList.IH [OF v(1)] by blast
  qed
  then show ?case using decode_list [of r "\<lambda>v. null_if_undefined (crossed v)" vs ws] ws(2) by simp
next
  case (VRecord fs)
  let ?enc = "\<lambda>(k, v) st. map_result (Pair k) (part (\<lambda>v st. encode_inner v (levels - 1) st) v st)"
  obtain ws where ws: "collect_in ?enc fs (s, gs) = (Inr ws, st')" "w = WRecord (btree ws)"
    using encode_nested_Inr(2) [OF VRecord.prems(1) refl] by blast
  have "st' = (s, gs) \<and>
    list_all2 (\<lambda>(k, v) (k', w). k' = k \<and> part_decodes_to r w (null_if_undefined (crossed v))) fs ws"
  proof (rule collect_in_Inr [OF ws(1)])
    fix x y st' assume x: "x \<in> set fs" "?enc x (s, gs) = (Inr y, st')"
    obtain k v where kv: "x = (k, v)" by (cases x)
    obtain w where w: "part (\<lambda>v st. encode_inner v (levels - 1) st) v (s, gs) = (Inr w, st')" "y = (k, w)"
      using x(2) kv by auto
    have "plain v" "value_ok v" using x(1) kv VRecord.prems(2,3) by (auto simp: list_all_iff)
    moreover have "v \<in> Basic_BNFs.snds x" using kv by simp
    ultimately have "st' = (s, gs) \<and> part_decodes_to r w (null_if_undefined (crossed v))"
      using encode_part_decodes [OF w(1)] VRecord.IH [OF x(1)] by blast
    then show "st' = (s, gs) \<and> (case x of (k, v) \<Rightarrow> \<lambda>(k', w). k' = k \<and> part_decodes_to r w (null_if_undefined (crossed v))) y"
      using kv w(2) by simp
  qed
  moreover have "btree (map (\<lambda>(k, v). (k, null_if_undefined (crossed v))) fs) = map (\<lambda>(k, v). (k, null_if_undefined (crossed v))) fs"
    using VRecord.prems(3) by (subst btree_map) simp
  ultimately show ?case using decode_record [of r "\<lambda>v. null_if_undefined (crossed v)" fs ws] ws(2) by simp
next
  case (VMap es)
  let ?enc = "\<lambda>(k, v) st. case part (\<lambda>v st. encode_inner v (levels - 1) st) v st of
                   (Inl e, st) \<Rightarrow> (Inl e, st)
                 | (Inr w, st) \<Rightarrow> map_result (\<lambda>kw. (kw, w)) (encode_inner k (levels - 1) st)"
  obtain ws where ws: "collect_in ?enc es (s, gs) = (Inr ws, st')" "w = WMap ws" "check_keys ''map key'' (map fst es) = None"
    using encode_nested_Inr(3) [OF VMap.prems(1) refl] by blast
  have st: "st' = (s, gs) \<and>
    list_all2 (\<lambda>(k, v) (kw, w). decodes_to r kw (crossed k) \<and> part_decodes_to r w (null_if_undefined (crossed v))) es ws"
  proof (rule collect_in_Inr [OF ws(1)])
    fix x y st' assume x: "x \<in> set es" "?enc x (s, gs) = (Inr y, st')"
    obtain k v where kv: "x = (k, v)" by (cases x)
    obtain w st1 kw where w: "part (\<lambda>v st. encode_inner v (levels - 1) st) v (s, gs) = (Inr w, st1)"
      "encode_inner k (levels - 1) st1 = (Inr kw, st')" "y = (kw, w)"
      using x(2) kv by (auto split: prod.splits sum.splits)
    have ok: "plain v" "value_ok v" "plain k" "value_ok k" using x(1) kv VMap.prems(2,3) by (auto simp: list_all_iff)
    moreover have "v \<in> Basic_BNFs.snds x" "k \<in> Basic_BNFs.fsts x" using kv by simp_all
    moreover from calculation have v: "st1 = (s, gs) \<and> part_decodes_to r w (null_if_undefined (crossed v))"
      using encode_part_decodes [OF w(1)] VMap.IH(2) [OF x(1)] by blast
    ultimately have "st' = (s, gs) \<and> decodes_to r kw (crossed k)" using VMap.IH(1) [OF x(1)] w(2) by blast
    then show "st' = (s, gs) \<and> (case x of (k, v) \<Rightarrow>
        \<lambda>(kw, w). decodes_to r kw (crossed k) \<and> part_decodes_to r w (null_if_undefined (crossed v))) y"
      using kv w(3) v by simp
  qed
  have "\<exists>us. list_all2 (decodes_to r) (concat (map (\<lambda>(k, v). [k, v]) ws)) us \<and>
      entries_of us = map (\<lambda>(k, v). (crossed k, null_if_undefined (crossed v))) es"
    using conjunct2 [OF st]
  proof (induction es ws rule: list_all2_induct)
    case (Cons x es y ws)
    then obtain us where us: "list_all2 (decodes_to r) (concat (map (\<lambda>(k, v). [k, v]) ws)) us"
      "entries_of us = map (\<lambda>(k, v). (crossed k, null_if_undefined (crossed v))) es" by blast
    obtain k v kw w where xy: "x = (k, v)" "y = (kw, w)" by (cases x; cases y)
    then obtain u where "decodes_to r w u" "null_if_undefined u = null_if_undefined (crossed v)"
      using Cons.hyps(1) by (auto simp: part_decodes_to_def)
    then show ?case using us xy Cons.hyps(1) by (intro exI [of _ "crossed k # u # us"]) simp
  qed simp
  then obtain us where us: "list_all2 (decodes_to r) (concat (map (\<lambda>(k, v). [k, v]) ws)) us"
      "entries_of us = map (\<lambda>(k, v). (crossed k, null_if_undefined (crossed v))) es" by blast
  have "undeclared r (WMap ws) = None" by (rule undeclared_nested [OF VMap.prems(1) assms(4)]) simp_all
  moreover have "check_keys ''map key'' (map fst (entries_of us)) = None"
    using keys_crossed [OF ws(3)] us(2) by (simp add: case_prod_unfold comp_def)
  ultimately show ?case using each_decodes [OF us(1)] us(2) st ws(2) by (simp add: decodes_to_def)
next
  case (VSet vs)
  obtain ws where ws: "collect_in (\<lambda>v st. encode_inner v (levels - 1) st) vs (s, gs) = (Inr ws, st')" "w = WSet ws"
      "check_keys ''set element'' vs = None"
    using encode_nested_Inr(4) [OF VSet.prems(1) refl] by blast
  have st: "st' = (s, gs) \<and> list_all2 (\<lambda>v w. decodes_to r w (crossed v)) vs ws"
    by (rule collect_in_Inr [OF ws(1)]) (use VSet in \<open>auto simp: list_all_iff\<close>)
  then have "list_all2 (\<lambda>w v. decodes_to r w v) ws (map crossed vs)" by (auto simp: list_all2_conv_all_nth)
  then have "each_past (\<lambda>w s. decode w s) ws r = (Inr (map crossed vs), r)" by (rule each_decodes)
  moreover have "undeclared r (WSet ws) = None" by (rule undeclared_nested [OF VSet.prems(1) assms(4)]) simp_all
  ultimately show ?case using keys_crossed [OF ws(3)] st ws(2) by (simp add: decodes_to_def)
next
  case (VInstant x)
  have "whole tx_instant (the (show_instant x)) = Some x" using VInstant.prems(3) by (simp add: instant_text.whole_shown)
  moreover obtain u where "to_utc x = Some u" using to_utc_Some [of x] VInstant.prems(3) by auto
  ultimately obtain t where t: "show_instant x = Some t" "instant_from_str t = Inr x"
    by (simp add: show_instant_def instant_from_str_def value_or_def)
  show ?case using decode_tagged [OF _ assms(4), of "VInstant x" levels gs "WInstant t" w st'] VInstant.prems(1) t
    by (simp add: read_text_def value_or_error_def)
next
  case (VDateTime x)
  have "datetime_from_str (show_datetime x) = Inr x"
    using VDateTime.prems(3) datetime_text.whole_shown [of x] by (simp add: datetime_from_str_def value_or_def)
  then show ?case using decode_tagged [OF _ assms(4), of "VDateTime x" levels gs "WDateTime (show_datetime x)" w st'] VDateTime.prems(1)
    by (simp add: read_text_def value_or_error_def)
next
  case (VDate x)
  have "date_from_str (show_date x) = Inr x"
    using VDate.prems(3) date_text.whole_shown [of x] by (simp add: date_from_str_def value_or_def)
  then show ?case using decode_tagged [OF _ assms(4), of "VDate x" levels gs "WDate (show_date x)" w st'] VDate.prems(1)
    by (simp add: read_text_def value_or_error_def)
next
  case (VTime x)
  have "time_from_str (show_time x) = Inr x"
    using VTime.prems(3) time_text.whole_shown [of x] by (simp add: time_from_str_def value_or_def)
  then show ?case using decode_tagged [OF _ assms(4), of "VTime x" levels gs "WTime (show_time x)" w st'] VTime.prems(1)
    by (simp add: read_text_def value_or_error_def)
next
  case (VBytes bs)
  have "base64_decode (base64_encode bs) = Inr bs" by (simp add: base64_decode_iff)
  then show ?case using decode_tagged [OF _ assms(4), of "VBytes bs" levels gs "WBytes (base64_encode bs)" w st'] VBytes.prems(1)
    by (simp add: read_text_def value_or_error_def)
next
  case (VBigInt b)
  then show ?case using decode_tagged [OF _ assms(4), of "VBigInt b" levels gs "WBigInt (bigint_text b)" w st']
    by (simp add: read_text_def value_or_error_def bigint_ok_def)
next
  case (VDecimal d)
  then show ?case using decode_tagged [OF _ assms(4), of "VDecimal d" levels gs "WDecimal (decimal_text d)" w st']
    by (simp add: read_text_def value_or_error_def decimal_ok_def)
next
  case (VUuid u)
  have "uuid_from_str (show_uuid u) = Inr u" using VUuid.prems(3) by (simp add: uuid_from_str_iff)
  then show ?case using decode_tagged [OF _ assms(4), of "VUuid u" levels gs "WUuid (show_uuid u)" w st'] VUuid.prems(1)
    by (simp add: read_text_def value_or_error_def)
qed (auto simp: decodes_to_def)

end
