(* ===== verification/Session_Exports.thy ===== *)
theory Session_Exports
  imports Session_Crossing
begin

text \<open>
  The exports of a session stay consistent, whatever is encoded, given back and
  released, and a value that cannot be sent leaves them as they were.
\<close>

section \<open>Consistent exports\<close>

definition objects_of :: "exports \<Rightarrow> nat \<rightharpoonup> shared_object" where
  "objects_of xs = (\<lambda>rid. map_option ex_object (xs_entries xs rid))"

text \<open>
  The tables of identities and relays are those of the entries, and an address is
  that of one object; every entry is granted.
\<close>

definition addresses_ok :: "shared_object set \<Rightarrow> nat \<Rightarrow> shared_object set \<Rightarrow> bool" where
  "addresses_ok obs p xobs \<longleftrightarrow> inj_on ob_ptr (obs \<union> xobs) \<and> (\<forall>ob \<in> obs \<union> xobs. ob_ptr ob < p) \<and>
     (\<forall>ob \<in> obs. relay_key ob = None) \<and>
     (\<forall>ob \<in> xobs. if relay_key ob = None then ob \<in> obs else ob_chain ob = None)"

definition tables_ok :: "shared_object set \<Rightarrow> nat \<Rightarrow> exports \<Rightarrow> bool" where
  "tables_ok obs p xs \<longleftrightarrow>
     xs_next xs \<le> MAX_ID \<and>
     (\<forall>rid ob. objects_of xs rid = Some ob \<longrightarrow> 0 < rid \<and> rid \<le> xs_next xs) \<and>
     (\<forall>q rid. xs_identities xs q = Some rid \<longleftrightarrow> (\<exists>ob. objects_of xs rid = Some ob \<and> ob_ptr ob = q \<and> relay_key ob = None)) \<and>
     (\<forall>q rid. xs_relays xs q = Some rid \<longleftrightarrow> (\<exists>ob. objects_of xs rid = Some ob \<and> relay_key ob = Some q)) \<and>
     addresses_ok obs p (ran (objects_of xs))"

definition grants_ok :: "exports \<Rightarrow> bool" where
  "grants_ok xs \<longleftrightarrow> (\<forall>rid en. xs_entries xs rid = Some en \<longrightarrow> 0 < ex_grants en \<and> ex_grants en \<le> u64_max)"

text \<open>How often a reference is granted.\<close>

definition granted :: "exports \<Rightarrow> nat \<Rightarrow> nat" where
  "granted xs rid = (case xs_entries xs rid of Some en \<Rightarrow> ex_grants en | None \<Rightarrow> 0)"

text \<open>\<open>xs'\<close> is \<open>xs\<close> with the references \<open>gs\<close> granted, each as often as it is in the list.\<close>

definition granting :: "exports \<Rightarrow> nat list \<Rightarrow> exports \<Rightarrow> bool" where
  "granting xs gs xs' \<longleftrightarrow>
     xs_next xs \<le> xs_next xs' \<and>
     (\<forall>rid. granted xs' rid = granted xs rid + count_list gs rid) \<and>
     (\<forall>rid en. xs_entries xs rid = Some en \<longrightarrow> (\<exists>en'. xs_entries xs' rid = Some en' \<and> ex_object en' = ex_object en))"

lemma granting_refl: "granting xs [] xs"
  by (simp add: granting_def)

lemma granting_trans: "granting xs gs xs' \<Longrightarrow> granting xs' gs' xs'' \<Longrightarrow> granting xs (gs @ gs') xs''"
  by (fastforce simp: granting_def)

section \<open>Granting\<close>

lemma allocate_Inr:
  assumes "allocate ob xs = (Inr rid, xs')"
  shows "rid = Suc (xs_next xs)" "rid \<le> MAX_ID"
    "xs' = xs\<lparr>xs_next := rid, xs_entries := (xs_entries xs)(rid \<mapsto> \<lparr>ex_object = ob, ex_grants = 0\<rparr>)\<rparr>"
  using assms by (auto simp: allocate_def Let_def split: if_splits)

lemma allocate_Inl: "allocate ob xs = (Inl e, xs') \<Longrightarrow> xs' = xs"
  by (auto simp: allocate_def Let_def split: if_splits)

lemma grant_Inl: "grant rid (xs, gs) = (Inl e, xs', gs') \<Longrightarrow> xs' = xs \<and> gs' = gs"
  by (auto simp: grant_def split: option.splits if_splits)

lemma grant_Inr:
  assumes "grant rid (xs, gs) = (Inr w, xs', gs')"
  obtains en where "xs_entries xs rid = Some en" "ex_grants en < u64_max" "gs' = gs @ [rid]"
    "w = WReference rid False (object_kind (ex_object en)) (ob_origin (ex_object en))"
    "xs' = xs\<lparr>xs_entries := (xs_entries xs)(rid \<mapsto> en\<lparr>ex_grants := ex_grants en + 1\<rparr>)\<rparr>"
  using assms by (auto simp: grant_def split: option.splits if_splits)

text \<open>Only the number of grants of an entry changes.\<close>

definition regrant :: "nat \<Rightarrow> nat \<Rightarrow> exports \<Rightarrow> exports" where
  "regrant rid n xs = xs\<lparr>xs_entries := (xs_entries xs)(rid := map_option (ex_grants_update (\<lambda>_. n)) (xs_entries xs rid))\<rparr>"

lemma objects_of_regrant [simp]: "objects_of (regrant rid n xs) = objects_of xs"
  by (auto simp: objects_of_def regrant_def option.map_comp comp_def)

lemma regrant_tables [simp]: "xs_next (regrant rid n xs) = xs_next xs" "xs_identities (regrant rid n xs) = xs_identities xs"
  "xs_relays (regrant rid n xs) = xs_relays xs"
  by (simp_all add: regrant_def)

lemma tables_ok_regrant [simp]: "tables_ok obs p (regrant rid n xs) = tables_ok obs p xs"
  by (simp add: tables_ok_def)

lemma regrant_entry: "xs_entries xs rid = Some en \<Longrightarrow>
    xs\<lparr>xs_entries := (xs_entries xs)(rid \<mapsto> en\<lparr>ex_grants := n\<rparr>)\<rparr> = regrant rid n xs"
  by (simp add: regrant_def)

lemma granted_regrant: "granted (regrant rid n xs) q = (if q = rid \<and> xs_entries xs rid \<noteq> None then n else granted xs q)"
  by (auto simp: granted_def regrant_def split: option.splits)

text \<open>A new object.\<close>

lemma allocate_entry:
  assumes "allocate ob xs = (Inr rid, xs')" and "tables_ok obs p xs"
  shows "xs_entries xs rid = None" "objects_of xs' = (objects_of xs)(rid \<mapsto> ob)" "granted xs' = granted xs"
    "xs_next xs \<le> xs_next xs'" "xs_next xs' \<le> MAX_ID" "xs_next xs' = rid" "0 < rid" "rid > xs_next xs"
    "xs_identities xs' = xs_identities xs" "xs_relays xs' = xs_relays xs" "objects_of xs rid = None"
proof -
  have "objects_of xs rid = None"
  proof (rule ccontr)
    assume "objects_of xs rid \<noteq> None"
    then have "rid \<le> xs_next xs" using assms(2) by (auto simp: tables_ok_def)
    then show False using allocate_Inr(1) [OF assms(1)] by simp
  qed
  then show "xs_entries xs rid = None" "objects_of xs rid = None" by (simp_all add: objects_of_def)
  then show "objects_of xs' = (objects_of xs)(rid \<mapsto> ob)" "granted xs' = granted xs"
    using allocate_Inr [OF assms(1)] by (auto simp: objects_of_def granted_def fun_eq_iff)
qed (use allocate_Inr [OF assms(1)] in simp_all)

lemma tables_ok_add:
  assumes "tables_ok obs p xs" and "allocate ob xs = (Inr rid, xs')" and "addresses_ok obs p' (insert ob (ran (objects_of xs)))"
    and "xs_entries xs'' = xs_entries xs'" and "xs_next xs'' = xs_next xs'"
    and "xs_identities xs'' = (if relay_key ob = None then (xs_identities xs)(ob_ptr ob \<mapsto> rid) else xs_identities xs)"
    and "xs_relays xs'' = (case relay_key ob of None \<Rightarrow> xs_relays xs | Some q \<Rightarrow> (xs_relays xs)(q \<mapsto> rid))"
    and "relay_key ob = None \<Longrightarrow> xs_identities xs (ob_ptr ob) = None"
    and "\<And>q. relay_key ob = Some q \<Longrightarrow> xs_relays xs q = None"
  shows "tables_ok obs p' xs''"
proof -
  note al = allocate_entry [OF assms(2,1)]
  have obj: "objects_of xs'' = (objects_of xs)(rid \<mapsto> ob)" using al(2) assms(4) by (simp add: objects_of_def)
  have ids: "\<And>q r. xs_identities xs q = Some r \<longleftrightarrow> (\<exists>ob. objects_of xs r = Some ob \<and> ob_ptr ob = q \<and> relay_key ob = None)"
    and rel: "\<And>q r. xs_relays xs q = Some r \<longleftrightarrow> (\<exists>ob. objects_of xs r = Some ob \<and> relay_key ob = Some q)"
    and row: "\<And>r ob. objects_of xs r = Some ob \<Longrightarrow> 0 < r \<and> r \<le> xs_next xs"
    using assms(1) by (simp_all add: tables_ok_def)
  have "xs_identities xs'' q = Some r \<longleftrightarrow> (\<exists>ob'. ((objects_of xs)(rid \<mapsto> ob)) r = Some ob' \<and> ob_ptr ob' = q \<and> relay_key ob' = None)" for q r
  proof (cases "relay_key ob = None")
    case True
    have "xs_identities xs (ob_ptr ob) \<noteq> Some r" using assms(8) True by simp
    then show ?thesis using True assms(6) ids [of q r] al(11) ids [of "ob_ptr ob" r] by auto
  next
    case False
    then show ?thesis using assms(6) ids [of q r] al(11) by auto
  qed
  moreover have "xs_relays xs'' q = Some r \<longleftrightarrow> (\<exists>ob'. ((objects_of xs)(rid \<mapsto> ob)) r = Some ob' \<and> relay_key ob' = Some q)" for q r
  proof (cases "relay_key ob")
    case (Some k)
    then have "xs_relays xs k \<noteq> Some r" using assms(9) by simp
    then show ?thesis using Some assms(7) rel [of q r] al(11) rel [of k r] by auto
  next
    case None
    then show ?thesis using assms(7) rel [of q r] al(11) by auto
  qed
  moreover have "0 < r \<and> r \<le> xs_next xs''" if "((objects_of xs)(rid \<mapsto> ob)) r = Some ob'" for r ob'
    using that row [of r ob'] al(6,7,8) assms(5) by (auto split: if_splits)
  ultimately show ?thesis unfolding tables_ok_def obj using al(5,11) assms(3,5) by simp
qed

lemma addresses_ok_local: "addresses_ok obs p X \<Longrightarrow> ob \<in> obs \<Longrightarrow> addresses_ok obs p (insert ob X)"
  by (auto simp: addresses_ok_def insert_absorb)

lemma addresses_ok_relay:
  assumes "addresses_ok obs p X" and "ob_ptr ob = p" and "relay_key ob \<noteq> None" and "ob_chain ob = None"
  shows "addresses_ok obs (p + 1) (insert ob X)"
proof -
  have X: "inj_on ob_ptr (obs \<union> X)" "\<forall>x \<in> obs \<union> X. ob_ptr x < p" "\<forall>x \<in> obs. relay_key x = None"
    "\<forall>x \<in> X. if relay_key x = None then x \<in> obs else ob_chain x = None"
    using assms(1) by (simp_all add: addresses_ok_def)
  have "ob_ptr ob \<notin> ob_ptr ` ((obs \<union> X) - {ob})" using X(2) assms(2) by auto
  then have "inj_on ob_ptr (obs \<union> insert ob X)" using X(1) by simp
  moreover have "\<forall>x \<in> obs \<union> insert ob X. ob_ptr x < p + 1" using X(2) assms(2) by (auto simp: less_Suc_eq)
  moreover have "\<forall>x \<in> insert ob X. if relay_key x = None then x \<in> obs else ob_chain x = None" using X(4) assms(3,4) by auto
  ultimately show ?thesis using X(3) by (simp only: addresses_ok_def)
qed

lemma same_address: "addresses_ok obs p X \<Longrightarrow> ob \<in> obs \<Longrightarrow> ob' \<in> X \<Longrightarrow> ob_ptr ob' = ob_ptr ob \<Longrightarrow> ob' = ob"
  by (auto simp: addresses_ok_def inj_on_def)

section \<open>Encoding a reference\<close>

text \<open>The origin an exported object is sent with.\<close>

definition wire_origin :: "string \<Rightarrow> shared_object \<Rightarrow> string list" where
  "wire_origin tag ob =
     (case ob_chain ob of
        Some chain \<Rightarrow> if chain \<noteq> tag then rebase (ob_origin ob) chain tag else ob_origin ob
      | None \<Rightarrow> ob_origin ob)"

definition exports_ok :: "shared_object set \<Rightarrow> session \<Rightarrow> bool" where
  "exports_ok obs s \<longleftrightarrow> tables_ok obs (se_next_ptr s) (se_exports s) \<and> grants_ok (se_exports s)"

fun reference_in :: "shared_object set \<Rightarrow> reference \<Rightarrow> bool" where
  "reference_in obs (Local ob) \<longleftrightarrow> ob \<in> obs"
| "reference_in obs r \<longleftrightarrow> True"

text \<open>What a reference that was written says of the session.\<close>

definition sent_reference :: "session \<Rightarrow> wire_value \<Rightarrow> nat list \<Rightarrow> reference \<Rightarrow> bool" where
  "sent_reference s w new r \<longleftrightarrow>
     (\<exists>rid ob. new = [rid] \<and> objects_of (se_exports s) rid = Some ob \<and>
        w = WReference rid False (object_kind ob) (wire_origin (se_tag s) ob)) \<or>
     (\<exists>im. new = [] \<and> (r = Remote im \<or> r = Home im) \<and> im_peer im = se_number s \<and>
        w = WReference (im_id im) True (im_kind im) (im_origin im))"

text \<open>Encoding changes the exports and makes addresses, nothing else.\<close>

definition same_session :: "session \<Rightarrow> session \<Rightarrow> bool" where
  "same_session s s' \<longleftrightarrow> s = s'\<lparr>se_exports := se_exports s, se_next_ptr := se_next_ptr s\<rparr> \<and> se_next_ptr s \<le> se_next_ptr s'"

lemma same_session_refl [simp]: "same_session s s"
  by (simp add: same_session_def)

lemma same_session_trans:
  assumes "same_session a b" and "same_session b c"
  shows "same_session a c"
proof -
  have b: "b = c\<lparr>se_exports := se_exports b, se_next_ptr := se_next_ptr b\<rparr>" using assms(2) by (simp add: same_session_def)
  have "b\<lparr>se_exports := x, se_next_ptr := y\<rparr> = c\<lparr>se_exports := x, se_next_ptr := y\<rparr>" for x y by (subst b) simp
  then show ?thesis using assms by (simp add: same_session_def)
qed

lemma same_session_fields:
  assumes "same_session s s'"
  shows "se_number s' = se_number s" "se_tag s' = se_tag s" "se_held s' = se_held s" "se_imports s' = se_imports s"
    "se_taken s' = se_taken s" "se_declared s' = se_declared s" "se_peers s' = se_peers s" "se_background s' = se_background s"
    "se_next_ptr s \<le> se_next_ptr s'"
proof -
  have e: "s = s'\<lparr>se_exports := se_exports s, se_next_ptr := se_next_ptr s\<rparr>" using assms by (simp add: same_session_def)
  show "se_number s' = se_number s" "se_tag s' = se_tag s" "se_held s' = se_held s" "se_imports s' = se_imports s"
    "se_taken s' = se_taken s" "se_declared s' = se_declared s" "se_peers s' = se_peers s" "se_background s' = se_background s"
    by (subst e, simp)+
  show "se_next_ptr s \<le> se_next_ptr s'" using assms by (simp add: same_session_def)
qed

lemma same_session_exports: "same_session s (s\<lparr>se_exports := xs\<rparr>)"
    "se_next_ptr s \<le> p \<Longrightarrow> same_session s (s\<lparr>se_next_ptr := p, se_exports := xs\<rparr>)"
  by (simp_all add: same_session_def)

definition grew :: "shared_object set \<Rightarrow> encoding \<Rightarrow> encoding \<Rightarrow> nat list \<Rightarrow> bool" where
  "grew obs st st' new \<longleftrightarrow>
     exports_ok obs (fst st') \<and> snd st' = snd st @ new \<and> granting (se_exports (fst st)) new (se_exports (fst st')) \<and>
     same_session (fst st) (fst st')"

lemma grew_refl: "exports_ok obs (fst st) \<Longrightarrow> grew obs st st []"
  by (simp add: grew_def granting_refl)

lemma grew_trans:
  assumes "grew obs st st' new" and "grew obs st' st'' new'"
  shows "grew obs st st'' (new @ new')"
proof -
  have "granting (se_exports (fst st)) (new @ new') (se_exports (fst st''))"
    by (rule granting_trans [of _ _ "se_exports (fst st')"]) (use assms in \<open>simp_all add: grew_def\<close>)
  moreover have "same_session (fst st) (fst st'')"
    by (rule same_session_trans [of _ "fst st'"]) (use assms in \<open>simp_all add: grew_def\<close>)
  ultimately show ?thesis using assms by (simp add: grew_def)
qed

lemma granting_objects: "granting xs gs xs' \<Longrightarrow> objects_of xs rid = Some ob \<Longrightarrow> objects_of xs' rid = Some ob"
proof -
  assume g: "granting xs gs xs'" and o: "objects_of xs rid = Some ob"
  then obtain en where "xs_entries xs rid = Some en" "ex_object en = ob" by (auto simp: objects_of_def)
  with g obtain en' where "xs_entries xs' rid = Some en'" "ex_object en' = ob" unfolding granting_def by blast
  then show ?thesis by (simp add: objects_of_def)
qed

text \<open>A grant of an entry that is there, granted before or just made.\<close>

lemma granting_entry:
  assumes "xs_entries xs rid = Some en" and "xs_next xs0 \<le> xs_next xs" and "granted xs0 = granted xs"
    and "\<And>r en. xs_entries xs0 r = Some en \<Longrightarrow> \<exists>en'. xs_entries xs r = Some en' \<and> ex_object en' = ex_object en"
  shows "granting xs0 [rid] (regrant rid (ex_grants en + 1) xs)"
  unfolding granting_def
proof (intro conjI allI impI)
  show "granted (regrant rid (ex_grants en + 1) xs) r = granted xs0 r + count_list [rid] r" for r
  proof (cases "r = rid")
    case True
    then show ?thesis using assms(1) by (simp add: granted_regrant assms(3)) (simp add: granted_def)
  qed (simp add: granted_regrant assms(3))
  show "\<exists>en''. xs_entries (regrant rid (ex_grants en + 1) xs) r = Some en'' \<and> ex_object en'' = ex_object e0"
    if "xs_entries xs0 r = Some e0" for r e0
    using assms(4) [OF that] assms(1) by (auto simp: regrant_def)
qed (use assms(2) in simp)

lemma grants_ok_regrant: "grants_ok xs \<Longrightarrow> 0 < n \<Longrightarrow> n \<le> u64_max \<Longrightarrow> grants_ok (regrant rid n xs)"
  by (auto simp: grants_ok_def regrant_def)

lemma grant_in_Inr:
  assumes "grant_in rid (s, gs) = (Inr w, s', gs')"
  obtains en where "xs_entries (se_exports s) rid = Some en" "ex_grants en < u64_max" "gs' = gs @ [rid]"
    "w = WReference rid False (object_kind (ex_object en)) (ob_origin (ex_object en))"
    "s' = s\<lparr>se_exports := regrant rid (ex_grants en + 1) (se_exports s)\<rparr>"
proof -
  obtain xs where g: "grant rid (se_exports s, gs) = (Inr w, xs, gs')" "s' = s\<lparr>se_exports := xs\<rparr>"
    using assms by (auto simp: grant_in_def split: prod.splits)
  from g(1) show ?thesis by (rule grant_Inr) (use g(2) that regrant_entry in auto)
qed

lemma grant_in_Inl: "grant_in rid (s, gs) = (Inl e, st') \<Longrightarrow> st' = (s, gs)"
  by (auto simp: grant_in_def split: prod.splits dest: grant_Inl)

lemma grant_known:
  assumes "grant_in rid (s, gs) = (res, st')" and "exports_ok obs s" and "objects_of (se_exports s) rid = Some ob"
  shows "\<exists>new. grew obs (s, gs) st' new \<and> (\<forall>w. res = Inr w \<longrightarrow> new = [rid] \<and> objects_of (se_exports (fst st')) rid = Some ob \<and>
    w = WReference rid False (object_kind ob) (ob_origin ob))"
proof (cases res)
  case (Inl e)
  then show ?thesis using grant_in_Inl [of rid s gs e st'] assms(1) grew_refl [of obs "(s, gs)"] assms(2) by auto
next
  case (Inr w)
  obtain s' gs' where st: "st' = (s', gs')" by (cases st')
  obtain en where en: "xs_entries (se_exports s) rid = Some en" "ex_grants en < u64_max" "gs' = gs @ [rid]"
    "w = WReference rid False (object_kind (ex_object en)) (ob_origin (ex_object en))"
    "s' = s\<lparr>se_exports := regrant rid (ex_grants en + 1) (se_exports s)\<rparr>"
    by (rule grant_in_Inr [OF assms(1) [unfolded Inr st]])
  have "ex_object en = ob" using assms(3) en(1) by (simp add: objects_of_def)
  moreover have "grew obs (s, gs) st' [rid]"
    unfolding grew_def st using en assms(2) granting_entry [OF en(1), of "se_exports s"]
    by (auto simp: exports_ok_def grants_ok_regrant same_session_exports)
  ultimately show ?thesis using en Inr st assms(3) by (intro exI [of _ "[rid]"]) simp
qed

text \<open>A grant of an object that was just made.\<close>

lemma grant_new:
  assumes "allocate ob (se_exports s) = (Inr rid, xs1)" and "exports_ok obs s" and "se_next_ptr s \<le> p"
    and "xs_entries xs2 = xs_entries xs1" and "xs_next xs2 = xs_next xs1" and "tables_ok obs p xs2"
    and "grant_in rid (s\<lparr>se_next_ptr := p, se_exports := xs2\<rparr>, gs) = (res, st')"
  shows "grew obs (s, gs) st' [rid] \<and> objects_of (se_exports (fst st')) rid = Some ob \<and>
    res = Inr (WReference rid False (object_kind ob) (ob_origin ob))"
proof -
  have t: "tables_ok obs (se_next_ptr s) (se_exports s)" and g: "grants_ok (se_exports s)"
    using assms(2) by (simp_all add: exports_ok_def)
  note al = allocate_entry [OF assms(1) t]
  have en: "xs_entries xs2 rid = Some \<lparr>ex_object = ob, ex_grants = 0\<rparr>"
    using allocate_Inr(3) [OF assms(1)] assms(4) by simp
  have "(0::nat) < u64_max" by (simp add: u64_max_def)
  then have st: "st' = (s\<lparr>se_next_ptr := p, se_exports := regrant rid 1 xs2\<rparr>, gs @ [rid])"
    and res: "res = Inr (WReference rid False (object_kind ob) (ob_origin ob))"
    using assms(7) en regrant_entry [OF en, of 1] by (simp_all add: grant_in_def grant_def)
  have same: "granted xs2 = granted (se_exports s)" using al(3) assms(4) by (simp add: granted_def fun_eq_iff)
  have "granting (se_exports s) [rid] (regrant rid (ex_grants \<lparr>ex_object = ob, ex_grants = 0\<rparr> + 1) xs2)"
  proof (rule granting_entry [OF en])
    show "xs_next (se_exports s) \<le> xs_next xs2" using al(4) assms(5) by simp
    show "\<exists>en'. xs_entries xs2 r = Some en' \<and> ex_object en' = ex_object e0" if "xs_entries (se_exports s) r = Some e0" for r e0
      using that al(1) assms(4) allocate_Inr(3) [OF assms(1)] by auto
  qed (use same in simp)
  moreover have "grants_ok (regrant rid 1 xs2)"
    using g allocate_Inr(3) [OF assms(1)] assms(4) en by (auto simp: grants_ok_def regrant_def u64_max_def)
  moreover have "objects_of xs2 rid = Some ob" using en by (simp add: objects_of_def)
  ultimately show ?thesis
    using st res assms(3,6) by (simp add: grew_def exports_ok_def same_session_exports)
qed

lemma encode_local_grows:
  assumes "encode_local ob (s, gs) = (res, st')" and "exports_ok obs s" and "ob \<in> obs"
  shows "\<exists>new. grew obs (s, gs) st' new \<and> (\<forall>w. res = Inr w \<longrightarrow> sent_reference (fst st') w new r)"
proof (cases "xs_identities (se_exports s) (ob_ptr ob)")
  case (Some rid)
  have t: "tables_ok obs (se_next_ptr s) (se_exports s)" using assms(2) by (simp add: exports_ok_def)
  then obtain ob' where ob': "objects_of (se_exports s) rid = Some ob'" "ob_ptr ob' = ob_ptr ob"
    using Some by (auto simp: tables_ok_def)
  then have "ob' \<in> ran (objects_of (se_exports s))" by (auto intro: ranI)
  then have "ob' = ob" using same_address [of obs "se_next_ptr s" "ran (objects_of (se_exports s))" ob ob'] t assms(3) ob'(2)
    by (simp add: tables_ok_def)
  then have rid: "objects_of (se_exports s) rid = Some ob" using ob' by simp
  obtain res1 st1 where g: "grant_in rid (s, gs) = (res1, st1)" by (cases "grant_in rid (s, gs)")
  then obtain new where new: "grew obs (s, gs) st1 new"
    "\<forall>w. res1 = Inr w \<longrightarrow> new = [rid] \<and> objects_of (se_exports (fst st1)) rid = Some ob \<and> w = WReference rid False (object_kind ob) (ob_origin ob)"
    using grant_known [OF g assms(2) rid] by blast
  have "se_tag (fst st1) = se_tag s" using new(1) by (auto simp: grew_def same_session_fields)
  moreover have "st' = st1 \<and> (\<forall>w. res = Inr w \<longrightarrow> new = [rid] \<and> objects_of (se_exports (fst st1)) rid = Some ob \<and>
      w = WReference rid False (object_kind ob) (wire_origin (se_tag s) ob))"
    using assms(1) g Some new(2)
    by (cases res1) (auto simp: encode_local_def wire_origin_def split: wire_value.splits option.splits if_splits)
  ultimately show ?thesis using new(1) by (intro exI [of _ new]) (auto simp: sent_reference_def)
next
  case None
  have t: "tables_ok obs (se_next_ptr s) (se_exports s)" using assms(2) by (simp add: exports_ok_def)
  show ?thesis
  proof (cases "allocate ob (se_exports s)")
    case (Pair al xs1)
    show ?thesis
    proof (cases al)
      case (Inl e)
      then have "res = Inl e" "st' = (s, gs)" using assms(1) None Pair allocate_Inl by (auto simp: encode_local_def)
      then show ?thesis using grew_refl [of obs "(s, gs)"] assms(2) by auto
    next
      case (Inr rid)
      have al: "allocate ob (se_exports s) = (Inr rid, xs1)" using Pair Inr by simp
      define xs2 where "xs2 = xs1\<lparr>xs_identities := (xs_identities xs1)(ob_ptr ob \<mapsto> rid)\<rparr>"
      have local: "relay_key ob = None" using t assms(3) by (simp add: tables_ok_def addresses_ok_def)
      have "tables_ok obs (se_next_ptr s) xs2"
        by (rule tables_ok_add [OF t al])
          (use t local None assms(3) allocate_entry [OF al t] in
            \<open>auto simp: xs2_def tables_ok_def intro: addresses_ok_local\<close>)
      obtain res1 st1 where g: "grant_in rid (s\<lparr>se_exports := xs2\<rparr>, gs) = (res1, st1)"
        by (cases "grant_in rid (s\<lparr>se_exports := xs2\<rparr>, gs)")
      have new: "grew obs (s, gs) st1 [rid] \<and> objects_of (se_exports (fst st1)) rid = Some ob \<and>
          res1 = Inr (WReference rid False (object_kind ob) (ob_origin ob))"
        by (rule grant_new [OF al assms(2), of "se_next_ptr s" xs2]) (use \<open>tables_ok obs (se_next_ptr s) xs2\<close> g in \<open>simp_all add: xs2_def\<close>)
      have "se_tag (fst st1) = se_tag s" using new by (auto simp: grew_def same_session_fields)
      moreover have "st' = st1 \<and> (\<forall>w. res = Inr w \<longrightarrow> w = WReference rid False (object_kind ob) (wire_origin (se_tag s) ob))"
        using assms(1) g None al new
        by (auto simp: encode_local_def wire_origin_def xs2_def [symmetric] split: option.splits if_splits)
      ultimately show ?thesis using new by (intro exI [of _ "[rid]"]) (auto simp: sent_reference_def)
    qed
  qed
qed

lemma encode_import_grows:
  assumes "encode_import im (s, gs) = (res, st')" and "exports_ok obs s" and "r = Remote im \<or> r = Home im"
  shows "\<exists>new. grew obs (s, gs) st' new \<and> (\<forall>w. res = Inr w \<longrightarrow> sent_reference (fst st') w new r)"
proof -
  have unchanged: ?thesis if "st' = (s, gs)" "\<forall>w. res = Inr w \<longrightarrow> sent_reference s w [] r"
    using that grew_refl [of obs "(s, gs)"] assms(2) by (intro exI [of _ "[]"]) simp
  have t: "tables_ok obs (se_next_ptr s) (se_exports s)" using assms(2) by (simp add: exports_ok_def)
  consider (home) "im_peer im = se_number s" | (plugin) "im_peer im \<noteq> se_number s" "im_kind im = KPlugin"
    | (known) rid where "im_peer im \<noteq> se_number s" "im_kind im \<noteq> KPlugin" "xs_relays (se_exports s) (im_ptr im) = Some rid"
    | (gone) "im_peer im \<noteq> se_number s" "im_kind im \<noteq> KPlugin" "xs_relays (se_exports s) (im_ptr im) = None"
        "se_peers s (im_peer im) = None \<or> \<not> se_background s"
    | (fresh) source where "im_peer im \<noteq> se_number s" "im_kind im \<noteq> KPlugin" "xs_relays (se_exports s) (im_ptr im) = None"
        "se_peers s (im_peer im) = Some source" "se_background s"
    by (cases "xs_relays (se_exports s) (im_ptr im)"; cases "se_peers s (im_peer im)") auto
  then show ?thesis
  proof cases
    case home
    then show ?thesis using assms(1,3) by (intro unchanged) (auto simp: encode_import_def sent_reference_def)
  next
    case plugin
    then show ?thesis using assms(1) by (intro unchanged) (auto simp: encode_import_def)
  next
    case gone
    then show ?thesis using assms(1) by (intro unchanged) (auto simp: encode_import_def split: option.splits if_splits)
  next
    case known
    then obtain ob where ob: "objects_of (se_exports s) rid = Some ob" "relay_key ob = Some (im_ptr im)"
      using t by (auto simp: tables_ok_def)
    have "ob \<in> ran (objects_of (se_exports s))" using ob(1) by (auto intro: ranI)
    then have "ob_chain ob = None" using t ob(2) by (auto simp: tables_ok_def addresses_ok_def dest: bspec)
    then have o: "wire_origin tag ob = ob_origin ob" for tag by (simp add: wire_origin_def)
    have g: "grant_in rid (s, gs) = (res, st')" using assms(1) known by (simp add: encode_import_def)
    from grant_known [OF g assms(2) ob(1)] show ?thesis by (auto simp: sent_reference_def o)
  next
    case fresh
    define relay where "relay = \<lparr>ob_ptr = se_next_ptr s, ob_body = Relay im,
      ob_origin = filter (\<lambda>entry. CHR ''/'' \<notin> set entry) (rebase (im_origin im) source (se_tag s)), ob_chain = None\<rparr>"
    obtain al xs1 where al: "allocate relay (se_exports s) = (al, xs1)" by (cases "allocate relay (se_exports s)")
    show ?thesis
    proof (cases al)
      case (Inl e)
      then have "res = Inl e" "st' = (s\<lparr>se_next_ptr := se_next_ptr s + 1, se_exports := se_exports s\<rparr>, gs)"
        using assms(1) fresh al allocate_Inl [of relay "se_exports s" e xs1]
        by (auto simp: encode_import_def relay_def [symmetric] Let_def)
      moreover have "tables_ok obs (se_next_ptr s + 1) (se_exports s)"
        using t by (auto simp: tables_ok_def addresses_ok_def less_Suc_eq)
      ultimately show ?thesis using assms(2)
        by (intro exI [of _ "[]"]) (simp add: grew_def granting_refl exports_ok_def same_session_def)
    next
      case (Inr rid)
      then have al': "allocate relay (se_exports s) = (Inr rid, xs1)" using al by simp
      define xs2 where "xs2 = xs1\<lparr>xs_relays := (xs_relays xs1)(im_ptr im \<mapsto> rid)\<rparr>"
      have key: "relay_key relay = Some (im_ptr im)" "ob_chain relay = None" "ob_ptr relay = se_next_ptr s"
        by (simp_all add: relay_def relay_key_def)
      have "addresses_ok obs (se_next_ptr s) (ran (objects_of (se_exports s)))" using t by (simp add: tables_ok_def)
      then have addr: "addresses_ok obs (se_next_ptr s + 1) (insert relay (ran (objects_of (se_exports s))))"
        using addresses_ok_relay key by simp
      have tables: "tables_ok obs (se_next_ptr s + 1) xs2"
        by (rule tables_ok_add [OF t al' addr])
          (use key fresh(3) allocate_entry [OF al' t] in \<open>simp_all add: xs2_def\<close>)
      have g: "grant_in rid (s\<lparr>se_next_ptr := se_next_ptr s + 1, se_exports := xs2\<rparr>, gs) = (res, st')"
        using assms(1) fresh al' by (simp add: encode_import_def relay_def [symmetric] xs2_def Let_def)
      have "grew obs (s, gs) st' [rid] \<and> objects_of (se_exports (fst st')) rid = Some relay \<and>
          res = Inr (WReference rid False (object_kind relay) (ob_origin relay))"
        by (rule grant_new [OF al' assms(2) _ _ _ tables g]) (simp_all add: xs2_def)
      moreover have "wire_origin tag relay = ob_origin relay" for tag by (simp add: wire_origin_def key(2))
      ultimately show ?thesis by (intro exI [of _ "[rid]"]) (auto simp: sent_reference_def)
    qed
  qed
qed

lemma encode_reference_grows:
  assumes "encode_reference r (s, gs) = (res, st')" and "exports_ok obs s" and "reference_in obs r"
  shows "\<exists>new. grew obs (s, gs) st' new \<and> (\<forall>w. res = Inr w \<longrightarrow> sent_reference (fst st') w new r)"
proof (cases r)
  case (Local ob)
  have "relay_key ob = None" using assms(2,3) Local by (simp add: exports_ok_def tables_ok_def addresses_ok_def)
  then have "encode_local ob (s, gs) = (res, st')" using assms(1) Local by (auto simp: relay_key_def split: body.splits)
  then show ?thesis using encode_local_grows assms(2,3) Local by simp
next
  case (Remote im)
  then show ?thesis using assms encode_import_grows by simp
next
  case (Home im)
  show ?thesis
  proof (cases "im_peer im = se_number s")
    case True
    then show ?thesis using Home assms encode_import_grows by simp
  next
    case False
    then show ?thesis using Home assms(1,2) grew_refl [of obs "(s, gs)"] by (intro exI [of _ "[]"]) auto
  qed
qed

end
