(* ===== verification/Session_Giving_Back.thy ===== *)
theory Session_Giving_Back
  imports Session_Exports
begin

text \<open>
  Grants given back, by a value that could not be sent or by the far end, and
  what of the exports is left.
\<close>

lemma remove_export_entry: "xs_entries xs rid = Some en \<Longrightarrow> remove_export rid xs =
    xs\<lparr>xs_entries := (xs_entries xs)(rid := None), xs_identities := (xs_identities xs)(ob_ptr (ex_object en) := None),
       xs_relays := (case relay_key (ex_object en) of Some p \<Rightarrow> (xs_relays xs)(p := None) | None \<Rightarrow> xs_relays xs)\<rparr>"
  by (simp add: remove_export_def)

lemma tables_ok_remove:
  assumes "tables_ok obs p xs" and "xs_entries xs rid = Some en"
  shows "tables_ok obs p (remove_export rid xs)"
proof -
  let ?xs = "remove_export rid xs"
  define ob where "ob = ex_object en"
  have ob: "objects_of xs rid = Some ob" using assms(2) by (simp add: objects_of_def ob_def)
  have obj: "objects_of ?xs = (objects_of xs)(rid := None)"
    using assms(2) by (auto simp: remove_export_entry objects_of_def)
  have ids: "\<And>q r. xs_identities xs q = Some r \<longleftrightarrow> (\<exists>ob. objects_of xs r = Some ob \<and> ob_ptr ob = q \<and> relay_key ob = None)"
    and rel: "\<And>q r. xs_relays xs q = Some r \<longleftrightarrow> (\<exists>ob. objects_of xs r = Some ob \<and> relay_key ob = Some q)"
    and addr: "addresses_ok obs p (ran (objects_of xs))"
    using assms(1) by (simp_all add: tables_ok_def)
  have same: "ob' = ob" if "objects_of xs r = Some ob'" "ob_ptr ob' = ob_ptr ob" for r ob'
    using addr ob that unfolding addresses_ok_def inj_on_def by (meson UnI2 ranI)
  have "xs_identities ?xs q = Some r \<longleftrightarrow>
      (\<exists>ob'. ((objects_of xs)(rid := None)) r = Some ob' \<and> ob_ptr ob' = q \<and> relay_key ob' = None)" for q r
  proof (cases "q = ob_ptr ob")
    case True
    have "\<not> (\<exists>ob'. ((objects_of xs)(rid := None)) r = Some ob' \<and> ob_ptr ob' = q \<and> relay_key ob' = None)"
    proof
      assume "\<exists>ob'. ((objects_of xs)(rid := None)) r = Some ob' \<and> ob_ptr ob' = q \<and> relay_key ob' = None"
      then obtain ob' where ob': "r \<noteq> rid" "objects_of xs r = Some ob'" "ob_ptr ob' = q" "relay_key ob' = None"
        by (auto split: if_splits)
      then have "ob' = ob" using same True by blast
      then have "xs_identities xs q = Some r" "xs_identities xs q = Some rid" using ids ob ob' True by blast+
      then show False using ob'(1) by simp
    qed
    then show ?thesis using True assms(2) by (simp add: remove_export_entry ob_def)
  next
    case False
    then show ?thesis using ids [of q r] ob assms(2) by (auto simp: remove_export_entry ob_def)
  qed
  moreover have "xs_relays ?xs q = Some r \<longleftrightarrow>
      (\<exists>ob'. ((objects_of xs)(rid := None)) r = Some ob' \<and> relay_key ob' = Some q)" for q r
  proof (cases "relay_key ob = Some q")
    case True
    then have "xs_relays xs q = Some rid" using rel ob by blast
    then have "\<not> (\<exists>ob'. ((objects_of xs)(rid := None)) r = Some ob' \<and> relay_key ob' = Some q)"
      using rel [of q r] by (auto split: if_splits)
    then show ?thesis using True assms(2) by (simp add: remove_export_entry ob_def)
  next
    case False
    then show ?thesis using rel [of q r] ob assms(2)
      by (cases "relay_key ob") (auto simp: remove_export_entry ob_def)
  qed
  moreover have "addresses_ok obs p (ran ((objects_of xs)(rid := None)))"
  proof -
    have "ran ((objects_of xs)(rid := None)) \<subseteq> ran (objects_of xs)" by (auto simp: ran_def)
    then show ?thesis using addr unfolding addresses_ok_def by (meson Un_mono inj_on_subset subset_iff subset_refl)
  qed
  moreover have "xs_next ?xs = xs_next xs" using assms(2) by (simp add: remove_export_entry)
  moreover have "\<forall>r ob'. ((objects_of xs)(rid := None)) r = Some ob' \<longrightarrow> 0 < r \<and> r \<le> xs_next xs"
    using assms(1) by (simp add: tables_ok_def)
  ultimately show ?thesis using assms(1) unfolding tables_ok_def obj by simp
qed

text \<open>\<open>n\<close> grants of a reference gone, and the reference with the last.\<close>

definition lessen :: "nat \<Rightarrow> nat \<Rightarrow> exports \<Rightarrow> exports" where
  "lessen rid n xs =
     (let left = granted xs rid - n; xs = regrant rid left xs in if left = 0 then remove_export rid xs else xs)"

lemma lessen_spec:
  assumes "tables_ok obs p xs" and "grants_ok xs" and "xs_entries xs rid = Some en"
  shows "tables_ok obs p (lessen rid n xs)" "grants_ok (lessen rid n xs)" "xs_next (lessen rid n xs) = xs_next xs"
    "xs_entries (lessen rid n xs) =
      (xs_entries xs)(rid := (if ex_grants en \<le> n then None else Some (en\<lparr>ex_grants := ex_grants en - n\<rparr>)))"
    "granted (lessen rid n xs) = (granted xs)(rid := ex_grants en - n)"
proof -
  have g: "granted xs rid = ex_grants en" using assms(3) by (simp add: granted_def)
  have en: "xs_entries (regrant rid m xs) rid = Some (en\<lparr>ex_grants := m\<rparr>)" for m using assms(3) by (simp add: regrant_def)
  show "tables_ok obs p (lessen rid n xs)"
    using assms(1) tables_ok_remove [OF _ en] by (simp add: lessen_def Let_def)
  show e: "xs_entries (lessen rid n xs) =
      (xs_entries xs)(rid := (if ex_grants en \<le> n then None else Some (en\<lparr>ex_grants := ex_grants en - n\<rparr>)))"
    using g assms(3) remove_export_entry [OF en [of 0]] by (auto simp: lessen_def Let_def regrant_def fun_eq_iff)
  show "grants_ok (lessen rid n xs)" using assms(2,3) unfolding grants_ok_def e by (fastforce split: if_splits)
  show "xs_next (lessen rid n xs) = xs_next xs"
    using g assms(3) remove_export_entry [OF en [of 0]] by (simp add: lessen_def Let_def)
  show "granted (lessen rid n xs) = (granted xs)(rid := ex_grants en - n)"
    unfolding granted_def e by (auto simp: fun_eq_iff split: option.splits)
qed

lemma ungrant_one_lessen: "ungrant_one rid xs = (if xs_entries xs rid = None then xs else lessen rid 1 xs)"
  by (auto simp: ungrant_one_def lessen_def granted_def regrant_entry Let_def)

lemma release_lessen: "release_export rid n xs =
    (case xs_entries xs rid of
       None \<Rightarrow> Inl (TransportError ''release of unknown reference'')
     | Some en \<Rightarrow> if n = 0 \<or> n > ex_grants en then Inl (TransportError ''invalid reference release count'')
         else Inr (lessen rid n xs))"
  by (auto simp: release_export_def lessen_def granted_def regrant_entry Let_def split: option.splits)

lemma ungrant_spec:
  assumes "tables_ok obs p xs" and "grants_ok xs" and "\<And>rid. count_list gs rid \<le> granted xs rid"
  shows "tables_ok obs p (ungrant gs xs) \<and> grants_ok (ungrant gs xs) \<and> xs_next (ungrant gs xs) = xs_next xs \<and>
    xs_entries (ungrant gs xs) = (\<lambda>rid. case xs_entries xs rid of
       None \<Rightarrow> None
     | Some en \<Rightarrow> if ex_grants en \<le> count_list gs rid then None else Some (en\<lparr>ex_grants := ex_grants en - count_list gs rid\<rparr>))"
  using assms
proof (induction gs arbitrary: xs)
  case Nil
  then have "ex_grants en \<noteq> 0" if "xs_entries xs rid = Some en" for rid en using that by (fastforce simp: grants_ok_def)
  then have "\<forall>rid en. ex_grants en = 0 \<longrightarrow> xs_entries xs rid \<noteq> Some en" by blast
  then show ?case using Nil by (simp add: ungrant_def fun_eq_iff split: option.splits)
next
  case (Cons g gs)
  obtain en where en: "xs_entries xs g = Some en" "1 \<le> ex_grants en"
    using Cons.prems(3) [of g] by (auto simp: granted_def split: option.splits)
  note l = lessen_spec [OF Cons.prems(1,2) en(1), of 1]
  have "count_list gs rid \<le> granted (lessen g 1 xs) rid" for rid
    using Cons.prems(3) [of rid] l(5) en(1) by (auto simp: granted_def split: option.splits)
  from Cons.IH [OF l(1,2) this]
  have ih: "tables_ok obs p (ungrant gs (lessen g 1 xs))" "grants_ok (ungrant gs (lessen g 1 xs))"
    "xs_next (ungrant gs (lessen g 1 xs)) = xs_next xs"
    "xs_entries (ungrant gs (lessen g 1 xs)) = (\<lambda>rid. case xs_entries (lessen g 1 xs) rid of
       None \<Rightarrow> None
     | Some en \<Rightarrow> if ex_grants en \<le> count_list gs rid then None else Some (en\<lparr>ex_grants := ex_grants en - count_list gs rid\<rparr>))"
    using l(3) by simp_all
  have "ungrant (g # gs) xs = ungrant gs (lessen g 1 xs)" using en(1) by (simp add: ungrant_def ungrant_one_lessen)
  then show ?case using ih en unfolding l(4) by (auto simp: fun_eq_iff split: option.splits)
qed

text \<open>The tables say nothing that the entries do not.\<close>

lemma tables_of_entries:
  assumes "tables_ok obs p xs" and "tables_ok obs' p' xs'" and "xs_entries xs = xs_entries xs'"
  shows "xs_identities xs = xs_identities xs'" "xs_relays xs = xs_relays xs'"
proof -
  have o: "objects_of xs = objects_of xs'" using assms(3) by (simp add: objects_of_def)
  have "xs_identities xs q = Some r \<longleftrightarrow> xs_identities xs' q = Some r" "xs_relays xs q = Some r \<longleftrightarrow> xs_relays xs' q = Some r" for q r
    using assms(1,2) o by (simp_all add: tables_ok_def)
  then show "xs_identities xs = xs_identities xs'" "xs_relays xs = xs_relays xs'"
    by (metis ext not_None_eq)+
qed

text \<open>Granted and given back, the exports are as before.\<close>

lemma ungrant_granting:
  assumes "exports_ok obs s" and "grew obs (s, []) (s', gs) new"
  shows "gs = new" "ungrant gs (se_exports s') = (se_exports s)\<lparr>xs_next := xs_next (se_exports s')\<rparr>"
proof -
  show gs: "gs = new" using assms(2) by (simp add: grew_def)
  have g: "granting (se_exports s) gs (se_exports s')" and ok: "exports_ok obs s'"
    using assms(2) gs by (simp_all add: grew_def)
  have c: "count_list gs rid \<le> granted (se_exports s') rid" for rid using g by (simp add: granting_def)
  note u = ungrant_spec [OF _ _ c, of obs "se_next_ptr s'"]
  have t': "tables_ok obs (se_next_ptr s') (se_exports s')" "grants_ok (se_exports s')" using ok by (simp_all add: exports_ok_def)
  have entries: "xs_entries (ungrant gs (se_exports s')) rid = xs_entries (se_exports s) rid" for rid
  proof (cases "xs_entries (se_exports s) rid")
    case None
    then have "granted (se_exports s') rid = count_list gs rid" using g by (auto simp: granting_def granted_def)
    then show ?thesis using u [OF t'] None by (auto simp: granted_def split: option.splits)
  next
    case (Some en)
    then obtain en' where en': "xs_entries (se_exports s') rid = Some en'" "ex_object en' = ex_object en"
      using g unfolding granting_def by blast
    have "granted (se_exports s') rid = granted (se_exports s) rid + count_list gs rid" using g by (simp add: granting_def)
    then have "ex_grants en' = ex_grants en + count_list gs rid" using Some en' by (simp add: granted_def)
    moreover have "0 < ex_grants en" using assms(1) Some by (auto simp: exports_ok_def grants_ok_def)
    ultimately show ?thesis using u [OF t'] Some en' by simp
  qed
  have t: "tables_ok obs (se_next_ptr s) (se_exports s)" using assms(1) by (simp add: exports_ok_def)
  have e: "xs_entries (ungrant gs (se_exports s')) = xs_entries (se_exports s)" using entries by blast
  have tu: "tables_ok obs (se_next_ptr s') (ungrant gs (se_exports s'))" using u [OF t'] by blast
  show "ungrant gs (se_exports s') = (se_exports s)\<lparr>xs_next := xs_next (se_exports s')\<rparr>"
    using e tables_of_entries [OF tu t e] u [OF t'] by simp
qed

end
