(* ===== verification/Session_Sending.thy ===== *)
theory Session_Sending
  imports Session_Giving_Back "HOL-Library.Sublist"
begin

text \<open>
  Of the references of a value: encoding it encodes each of them, in order, and
  nothing else happens to the session; decoding it decodes each of them, past
  every value error.
\<close>

section \<open>The references of a value\<close>

fun refs_of :: "session_value \<Rightarrow> reference list" where
  "refs_of (VReference r) = [r]"
| "refs_of (VList vs) = concat (map refs_of vs)"
| "refs_of (VRecord fs) = concat (map (\<lambda>(k, v). refs_of v) fs)"
| "refs_of (VMap es) = concat (map (\<lambda>(k, v). refs_of v @ refs_of k) es)"
| "refs_of (VSet vs) = concat (map refs_of vs)"
| "refs_of v = []"

fun wire_refs :: "wire_value \<Rightarrow> wire_value list" where
  "wire_refs (WReference rid home k origin) = [WReference rid home k origin]"
| "wire_refs (WList ws) = concat (map wire_refs ws)"
| "wire_refs (WRecord fs) = concat (map (\<lambda>(k, w). wire_refs w) fs)"
| "wire_refs (WMap es) = concat (map (\<lambda>(k, w). wire_refs k @ wire_refs w) es)"
| "wire_refs (WSet ws) = concat (map wire_refs ws)"
| "wire_refs w = []"

section \<open>Sequences\<close>

abbreviation encode_refs :: "reference list \<Rightarrow> encoding \<Rightarrow> (session_error + wire_value list) \<times> encoding" where
  "encode_refs \<equiv> collect_in encode_reference"

lemma collect_in_append: "collect_in f (xs @ ys) st =
    (case collect_in f xs st of
       (Inl e, st1) \<Rightarrow> (Inl e, st1)
     | (Inr as, st1) \<Rightarrow> map_result (\<lambda>bs. as @ bs) (collect_in f ys st1))"
  by (induction xs arbitrary: st) (auto simp: map_result_def split: prod.splits sum.splits)

lemma collect_in_append_Inr:
  "collect_in f xs st = (Inr as, st1) \<Longrightarrow> collect_in f ys st1 = (Inr bs, st2) \<Longrightarrow> collect_in f (xs @ ys) st = (Inr (as @ bs), st2)"
  by (simp add: collect_in_append)

text \<open>Encoding something encodes its references, all of them or up to where it fails.\<close>

definition encodes :: "('a \<Rightarrow> encoding \<Rightarrow> (session_error + 'b) \<times> encoding) \<Rightarrow> ('b \<Rightarrow> wire_value list) \<Rightarrow> reference list \<Rightarrow> 'a \<Rightarrow> bool" where
  "encodes f refs rs x \<longleftrightarrow>
     (\<forall>st y st'. f x st = (Inr y, st') \<longrightarrow> (\<exists>ws. encode_refs rs st = (Inr ws, st') \<and> mset ws = mset (refs y))) \<and>
     (\<forall>st e st'. f x st = (Inl e, st') \<longrightarrow> (\<exists>rs1 res1. prefix rs1 rs \<and> encode_refs rs1 st = (res1, st')))"

lemma encodesI:
  assumes "\<And>st y st'. f x st = (Inr y, st') \<Longrightarrow> \<exists>ws. encode_refs rs st = (Inr ws, st') \<and> mset ws = mset (refs y)"
    and "\<And>st e st'. f x st = (Inl e, st') \<Longrightarrow> \<exists>rs1 res1. prefix rs1 rs \<and> encode_refs rs1 st = (res1, st')"
  shows "encodes f refs rs x"
  unfolding encodes_def using assms by blast

lemma encodes_Inr:
  assumes "encodes f refs rs x" and "f x st = (Inr y, st')"
  obtains ws where "encode_refs rs st = (Inr ws, st')" "mset ws = mset (refs y)"
  using assms unfolding encodes_def by blast

lemma encodes_Inl:
  assumes "encodes f refs rs x" and "f x st = (Inl e, st')"
  obtains rs1 res1 where "prefix rs1 rs" "encode_refs rs1 st = (res1, st')"
  using assms unfolding encodes_def by blast

lemma encodes_collect:
  assumes "\<And>x. x \<in> set xs \<Longrightarrow> encodes f refs (g x) x"
  shows "encodes (collect_in f) (\<lambda>ys. concat (map refs ys)) (concat (map g xs)) xs"
  using assms
proof (induction xs)
  case Nil
  show ?case by (auto simp: encodes_def)
next
  case (Cons x xs)
  then have x: "encodes f refs (g x) x" and xs: "encodes (collect_in f) (\<lambda>ys. concat (map refs ys)) (concat (map g xs)) xs"
    by simp_all
  show ?case
  proof (rule encodesI)
    fix st y st' assume "collect_in f (x # xs) st = (Inr y, st')"
    then obtain z st1 zs where z: "f x st = (Inr z, st1)" "collect_in f xs st1 = (Inr zs, st')" "y = z # zs"
      by (auto split: prod.splits sum.splits)
    obtain as where as: "encode_refs (g x) st = (Inr as, st1)" "mset as = mset (refs z)" by (rule encodes_Inr [OF x z(1)])
    obtain bs where "encode_refs (concat (map g xs)) st1 = (Inr bs, st')" "mset bs = mset (concat (map refs zs))"
      by (rule encodes_Inr [OF xs z(2)])
    with as show "\<exists>ws. encode_refs (concat (map g (x # xs))) st = (Inr ws, st') \<and> mset ws = mset (concat (map refs y))"
      using z(3) by (intro exI [of _ "as @ bs"]) (simp add: collect_in_append)
  next
    fix st e st' assume "collect_in f (x # xs) st = (Inl e, st')"
    then consider e' where "f x st = (Inl e', st')" | z st1 e' where "f x st = (Inr z, st1)" "collect_in f xs st1 = (Inl e', st')"
      by (auto split: prod.splits sum.splits)
    then show "\<exists>rs1 res1. prefix rs1 (concat (map g (x # xs))) \<and> encode_refs rs1 st = (res1, st')"
    proof cases
      case 1
      obtain rs1 res1 where "prefix rs1 (g x)" "encode_refs rs1 st = (res1, st')" by (rule encodes_Inl [OF x 1])
      then show ?thesis by (intro exI [of _ rs1] exI [of _ res1]) simp
    next
      case 2
      obtain as where as: "encode_refs (g x) st = (Inr as, st1)" by (rule encodes_Inr [OF x 2(1)])
      obtain rs1 res1 where r: "prefix rs1 (concat (map g xs))" "encode_refs rs1 st1 = (res1, st')"
        by (rule encodes_Inl [OF xs 2(2)])
      have "encode_refs (g x @ rs1) st = map_result (\<lambda>bs. as @ bs) (res1, st')"
        using as r(2) by (simp add: collect_in_append)
      moreover have "\<exists>res2. map_result (\<lambda>bs. as @ bs) (res1, st') = (res2, st')" by (cases res1) simp_all
      ultimately show ?thesis using r(1) by (intro exI [of _ "g x @ rs1"]) auto
    qed
  qed
qed

lemma encodes_map_result:
  assumes "encodes f refs rs x" and "\<And>y. refs' (h y) = refs y"
  shows "encodes (\<lambda>x st. map_result h (f x st)) refs' rs x"
  unfolding encodes_def
proof (intro conjI allI impI)
  fix st y st' assume "map_result h (f x st) = (Inr y, st')"
  then obtain z where z: "f x st = (Inr z, st')" "y = h z" by auto
  show "\<exists>ws. encode_refs rs st = (Inr ws, st') \<and> mset ws = mset (refs' y)"
    by (rule encodes_Inr [OF assms(1) z(1)]) (use z(2) assms(2) in auto)
next
  fix st e st' assume "map_result h (f x st) = (Inl e, st')"
  then have "f x st = (Inl e, st')" by (auto simp: map_result_def split: prod.splits sum.splits)
  then show "\<exists>rs1 res1. prefix rs1 rs \<and> encode_refs rs1 st = (res1, st')" by (rule encodes_Inl [OF assms(1)]) blast
qed

lemma encodes_none:
  assumes "\<And>st y st'. f x st = (Inr y, st') \<Longrightarrow> st' = st \<and> refs y = []" and "\<And>st e st'. f x st = (Inl e, st') \<Longrightarrow> st' = st"
  shows "encodes f refs [] x"
  unfolding encodes_def using assms by (metis collect_in.simps(1) prefix_bot.bot_least)

lemma encodes_fails: "encodes f refs rs x \<Longrightarrow> (\<And>st. g x st = f x st \<or> (\<exists>e. g x st = (Inl e, st))) \<Longrightarrow> encodes g refs rs x"
  unfolding encodes_def
proof (intro conjI allI impI)
  fix st y st'
  assume f: "(\<forall>st y st'. f x st = (Inr y, st') \<longrightarrow> (\<exists>ws. encode_refs rs st = (Inr ws, st') \<and> mset ws = mset (refs y))) \<and>
     (\<forall>st e st'. f x st = (Inl e, st') \<longrightarrow> (\<exists>rs1 res1. prefix rs1 rs \<and> encode_refs rs1 st = (res1, st')))"
    and g: "\<And>st. g x st = f x st \<or> (\<exists>e. g x st = (Inl e, st))"
  {
    assume y: "g x st = (Inr y, st')"
    then have "f x st = (Inr y, st')" using g [of st] by auto
    then show "\<exists>ws. encode_refs rs st = (Inr ws, st') \<and> mset ws = mset (refs y)" using f by blast
  next
    fix e assume e: "g x st = (Inl e, st')"
    show "\<exists>rs1 res1. prefix rs1 rs \<and> encode_refs rs1 st = (res1, st')"
    proof (cases "g x st = f x st")
      case True
      then show ?thesis using e f by metis
    next
      case False
      then have "st' = st" using g [of st] e by auto
      then show ?thesis by (intro exI [of _ "[]"]) simp
    qed
  }
qed

section \<open>Encoding values\<close>

lemma encodes_reference: "encodes encode_reference (\<lambda>w. [w]) [r] r"
proof (rule encodesI)
  show "\<exists>ws. encode_refs [r] st = (Inr ws, st') \<and> mset ws = mset [w]" if "encode_reference r st = (Inr w, st')" for st w st'
    using that by simp
  show "\<exists>rs1 res1. prefix rs1 [r] \<and> encode_refs rs1 st = (res1, st')" if "encode_reference r st = (Inl e, st')" for st e st'
    using that by (intro exI [of _ "[r]"]) simp
qed

lemma refs_of_reference: "encode_reference r st = (Inr w, st') \<Longrightarrow> wire_refs w = [w]"
  by (cases r; cases st) (auto simp: encode_import_def encode_local_def grant_in_def grant_def Let_def
      split: option.splits if_splits prod.splits sum.splits body.splits)

lemma data_has_no_refs: "encode_data s j = Inr w \<Longrightarrow> wire_refs w = []"
proof (induction j arbitrary: w)
  case (JArray items)
  have "\<forall>w \<in> set ws. wire_refs w = []" if "collect (\<lambda>item. encode_data s item) items = Inr ws" for ws
  proof -
    have "list_all2 (\<lambda>x w. wire_refs w = []) items ws"
      using collect_InrD [OF that] by (rule list.rel_mono_strong) (use JArray.IH in blast)
    then show ?thesis by (induction rule: list_all2_induct) auto
  qed
  then show ?case using JArray.prems
    by (auto simp: encode_data.simps [of s "JArray items"] split: if_splits sum.splits)
next
  case (JObject fs)
  have "\<forall>(k, w) \<in> set (btree ws). wire_refs w = []"
    if "collect (\<lambda>(k, v). case encode_data s v of Inl e \<Rightarrow> Inl e | Inr w \<Rightarrow> Inr (k, w)) fs = Inr ws" for ws
  proof -
    have "list_all2 (\<lambda>x y. wire_refs (snd y) = []) fs ws"
      using collect_InrD [OF that]
      by (rule list.rel_mono_strong) (use JObject.IH in \<open>fastforce split: sum.splits prod.splits\<close>)
    then have "\<forall>y \<in> set ws. wire_refs (snd y) = []" by (induction rule: list_all2_induct) auto
    then show ?thesis using set_btree [of ws] by fastforce
  qed
  then show ?case using JObject.prems
    by (auto simp: encode_data.simps [of s "JObject fs"] split: if_splits sum.splits)
qed (auto simp: encode_data.simps split: if_splits option.splits)

lemma encodes_admitted: "encodes f refs rs x \<Longrightarrow> encodes (\<lambda>x st. admitted v levels st (f x st)) refs rs x"
  by (erule encodes_fails) (auto simp: admitted_def split: option.splits)

lemma encodes_checked: "encodes f refs rs x \<Longrightarrow> encodes (\<lambda>x st. case c of Some e \<Rightarrow> (Inl e, st) | None \<Rightarrow> f x st) refs rs x"
  by (erule encodes_fails) (auto split: option.splits)

lemma encodes_part: "encodes (\<lambda>v st. enc v st) wire_refs (refs_of v) v \<Longrightarrow> encodes (\<lambda>v st. part enc v st) wire_refs (refs_of v) v"
proof (cases "v = Undefined")
  case True
  show ?thesis unfolding True by (rule encodesI) (auto simp: part_def)
next
  case False
  assume "encodes (\<lambda>v st. enc v st) wire_refs (refs_of v) v"
  then show ?thesis using False by (simp add: encodes_def part_def)
qed

lemma encodes_entry:
  assumes "encodes (\<lambda>v st. f v st) wire_refs (refs_of v) v" and "encodes (\<lambda>v st. g v st) wire_refs (refs_of k) k"
  shows "encodes (\<lambda>(k, v) st. case f v st of (Inl e, st) \<Rightarrow> (Inl e, st) | (Inr w, st) \<Rightarrow> map_result (\<lambda>kw. (kw, w)) (g k st))
    (\<lambda>(kw, w). wire_refs kw @ wire_refs w) (refs_of v @ refs_of k) (k, v)"
proof (rule encodesI)
  fix st y st'
  assume "(case (k, v) of (k, v) \<Rightarrow> \<lambda>st. case f v st of (Inl e, st) \<Rightarrow> (Inl e, st) | (Inr w, st) \<Rightarrow> map_result (\<lambda>kw. (kw, w)) (g k st)) st
      = (Inr y, st')"
  then obtain w st1 kw where w: "f v st = (Inr w, st1)" "g k st1 = (Inr kw, st')" "y = (kw, w)"
    by (auto split: prod.splits sum.splits)
  obtain as where as: "encode_refs (refs_of v) st = (Inr as, st1)" "mset as = mset (wire_refs w)" by (rule encodes_Inr [OF assms(1) w(1)])
  obtain bs where bs: "encode_refs (refs_of k) st1 = (Inr bs, st')" "mset bs = mset (wire_refs kw)" by (rule encodes_Inr [OF assms(2) w(2)])
  show "\<exists>ws. encode_refs (refs_of v @ refs_of k) st = (Inr ws, st') \<and> mset ws = mset (case y of (kw, w) \<Rightarrow> wire_refs kw @ wire_refs w)"
    using as bs w(3) by (intro exI [of _ "as @ bs"]) (simp add: collect_in_append)
next
  fix st e st'
  assume "(case (k, v) of (k, v) \<Rightarrow> \<lambda>st. case f v st of (Inl e, st) \<Rightarrow> (Inl e, st) | (Inr w, st) \<Rightarrow> map_result (\<lambda>kw. (kw, w)) (g k st)) st
      = (Inl e, st')"
  then consider e' where "f v st = (Inl e', st')" | w st1 e' where "f v st = (Inr w, st1)" "g k st1 = (Inl e', st')"
    by (auto simp: map_result_def split: prod.splits sum.splits)
  then show "\<exists>rs1 res1. prefix rs1 (refs_of v @ refs_of k) \<and> encode_refs rs1 st = (res1, st')"
  proof cases
    case 1
    obtain rs1 res1 where "prefix rs1 (refs_of v)" "encode_refs rs1 st = (res1, st')" by (rule encodes_Inl [OF assms(1) 1])
    then show ?thesis by (intro exI [of _ rs1] exI [of _ res1]) simp
  next
    case 2
    obtain as where as: "encode_refs (refs_of v) st = (Inr as, st1)" by (rule encodes_Inr [OF assms(1) 2(1)])
    obtain rs1 res1 where r: "prefix rs1 (refs_of k)" "encode_refs rs1 st1 = (res1, st')" by (rule encodes_Inl [OF assms(2) 2(2)])
    have "encode_refs (refs_of v @ rs1) st = map_result (\<lambda>bs. as @ bs) (res1, st')"
      using as r(2) by (simp add: collect_in_append)
    moreover have "\<exists>res2. map_result (\<lambda>bs. as @ bs) (res1, st') = (res2, st')" by (cases res1) simp_all
    ultimately show ?thesis using r(1) by (intro exI [of _ "refs_of v @ rs1"]) auto
  qed
qed

lemma keys_have_no_refs: "key what v = Inr k \<Longrightarrow> refs_of v = []"
  by (cases "(what, v)" rule: key.cases) simp_all

text \<open>Fields that are in order when they are encoded are in order on the wire.\<close>

lemma encodes_fields:
  assumes "encodes f (\<lambda>ws. concat (map (\<lambda>(k, w). wire_refs w) ws)) rs fs" and "sorted_keys fs"
    and "\<And>st ws st'. f fs st = (Inr ws, st') \<Longrightarrow> map fst ws = map fst fs"
  shows "encodes (\<lambda>fs st. map_result (\<lambda>ws. WRecord (btree ws)) (f fs st)) wire_refs rs fs"
proof (rule encodesI)
  fix st y st' assume "map_result (\<lambda>ws. WRecord (btree ws)) (f fs st) = (Inr y, st')"
  then obtain ws where ws: "f fs st = (Inr ws, st')" "y = WRecord (btree ws)" by auto
  have "btree ws = ws" by (rule btree_of_sorted) (use assms(2) assms(3) [OF ws(1)] in simp)
  moreover obtain us where "encode_refs rs st = (Inr us, st')" "mset us = mset (concat (map (\<lambda>(k, w). wire_refs w) ws))"
    by (rule encodes_Inr [OF assms(1) ws(1)])
  ultimately show "\<exists>us. encode_refs rs st = (Inr us, st') \<and> mset us = mset (wire_refs y)" using ws(2) by simp
next
  fix st e st' assume "map_result (\<lambda>ws. WRecord (btree ws)) (f fs st) = (Inl e, st')"
  then have e: "f fs st = (Inl e, st')" by (auto simp: map_result_def split: prod.splits sum.splits)
  show "\<exists>rs1 res1. prefix rs1 rs \<and> encode_refs rs1 st = (res1, st')" by (rule encodes_Inl [OF assms(1) e]) blast
qed

lemma collect_in_keys:
  "collect_in (\<lambda>(k, v) st. map_result (Pair k) (f v st)) fs st = (Inr ws, st') \<Longrightarrow> map fst ws = map fst fs"
  by (induction fs arbitrary: ws st) (auto split: prod.splits sum.splits)

lemma encodes_eq: "encodes g refs rs y \<Longrightarrow> (\<And>st. f x st = g y st) \<Longrightarrow> encodes f refs rs x"
  by (simp add: encodes_def)

lemma encodes_value: "value_ok v \<Longrightarrow> encodes (\<lambda>v st. encode_inner v levels st) wire_refs (refs_of v) v"
proof (induction v arbitrary: levels)
  case (Data j)
  show ?case by (rule encodesI) (auto dest: data_has_no_refs intro: exI [of _ "[]"] split: if_splits)
next
  case (VReference r)
  show ?case by (rule encodes_eq [of encode_reference _ _ r]) (auto simp: encodes_def refs_of_reference)
next
  case (VList vs)
  have "encodes (collect_in (\<lambda>v st. part (\<lambda>v st. encode_inner v (levels - 1) st) v st)) (\<lambda>ws. concat (map wire_refs ws))
      (concat (map refs_of vs)) vs"
    by (intro encodes_collect encodes_part VList.IH) (use VList.prems in \<open>auto simp: list_all_iff\<close>)
  then have "encodes (\<lambda>vs st. map_result WList (collect_in (\<lambda>v st. part (\<lambda>v st. encode_inner v (levels - 1) st) v st) vs st))
      wire_refs (concat (map refs_of vs)) vs"
    by (rule encodes_map_result) simp
  from encodes_admitted [OF this, of "VList vs" levels]
  show ?case unfolding refs_of.simps by (rule encodes_eq) simp
next
  case (VSet vs)
  have "encodes (collect_in (\<lambda>v st. encode_inner v (levels - 1) st)) (\<lambda>ws. concat (map wire_refs ws)) (concat (map refs_of vs)) vs"
    by (intro encodes_collect VSet.IH) (use VSet.prems in \<open>auto simp: list_all_iff\<close>)
  then have "encodes (\<lambda>vs st. map_result WSet (collect_in (\<lambda>v st. encode_inner v (levels - 1) st) vs st))
      wire_refs (concat (map refs_of vs)) vs"
    by (rule encodes_map_result) simp
  from encodes_admitted [OF encodes_checked [OF this],
      of "VSet vs" levels "check_keys ''set element'' vs"]
  show ?case unfolding refs_of.simps by (rule encodes_eq) simp
next
  case (VRecord fs)
  let ?f = "\<lambda>(k, v) st. map_result (Pair k) (part (\<lambda>v st. encode_inner v (levels - 1) st) v st)"
  have "encodes (collect_in ?f) (\<lambda>ws. concat (map (\<lambda>(k, w). wire_refs w) ws)) (concat (map (\<lambda>(k, v). refs_of v) fs)) fs"
  proof (rule encodes_collect)
    fix x assume x: "x \<in> set fs"
    obtain k v where kv: "x = (k, v)" by (cases x)
    then have "encodes (\<lambda>v st. part (\<lambda>v st. encode_inner v (levels - 1) st) v st) wire_refs (refs_of v) v"
      using VRecord.IH [OF x, of v] VRecord.prems x by (intro encodes_part) (auto simp: list_all_iff)
    then have "encodes (\<lambda>v st. map_result (Pair k) (part (\<lambda>v st. encode_inner v (levels - 1) st) v st))
        (\<lambda>(k, w). wire_refs w) (refs_of v) v"
      by (rule encodes_map_result) simp
    then show "encodes ?f (\<lambda>(k, w). wire_refs w) (case x of (k, v) \<Rightarrow> refs_of v) x"
      unfolding kv prod.case by (rule encodes_eq) simp
  qed
  then have "encodes (\<lambda>fs st. map_result (\<lambda>ws. WRecord (btree ws)) (collect_in ?f fs st)) wire_refs (concat (map (\<lambda>(k, v). refs_of v) fs)) fs"
    by (rule encodes_fields) (use VRecord.prems collect_in_keys in \<open>auto\<close>)
  from encodes_admitted [OF this, of "VRecord fs" levels]
  show ?case unfolding refs_of.simps by (rule encodes_eq) simp
next
  case (VMap es)
  let ?f = "\<lambda>(k, v) st. case part (\<lambda>v st. encode_inner v (levels - 1) st) v st of
              (Inl e, st) \<Rightarrow> (Inl e, st)
            | (Inr w, st) \<Rightarrow> map_result (\<lambda>kw. (kw, w)) (encode_inner k (levels - 1) st)"
  have "encodes (collect_in ?f) (\<lambda>ws. concat (map (\<lambda>(k, w). wire_refs k @ wire_refs w) ws))
      (concat (map (\<lambda>(k, v). refs_of v @ refs_of k) es)) es"
  proof (rule encodes_collect)
    fix x assume x: "x \<in> set es"
    obtain k v where kv: "x = (k, v)" by (cases x)
    have ok: "value_ok k" "value_ok v" using VMap.prems x kv by (auto simp: list_all_iff)
    have "encodes ?f (\<lambda>(kw, w). wire_refs kw @ wire_refs w) (refs_of v @ refs_of k) (k, v)"
      by (rule encodes_entry) (use VMap.IH(1) [OF x, of k] VMap.IH(2) [OF x, of v] ok kv in \<open>auto intro!: encodes_part\<close>)
    then show "encodes ?f (\<lambda>(k, w). wire_refs k @ wire_refs w) (case x of (k, v) \<Rightarrow> refs_of v @ refs_of k) x"
      using kv by simp
  qed
  then have "encodes (\<lambda>es st. map_result WMap (collect_in ?f es st)) wire_refs (concat (map (\<lambda>(k, v). refs_of v @ refs_of k) es)) es"
    by (rule encodes_map_result) simp
  from encodes_admitted [OF encodes_checked [OF this],
      of "VMap es" levels "check_keys ''map key'' (map fst es)"]
  show ?case unfolding refs_of.simps by (rule encodes_eq) simp
qed ((simp only: refs_of.simps, (rule encodes_none; auto simp: admitted_def split: if_splits option.splits))+)

section \<open>What is encoded is granted, and given back where it fails\<close>

lemma encode_refs_grow:
  assumes "encode_refs rs (s, gs) = (res, st')" and "exports_ok obs s" and "\<forall>r \<in> set rs. reference_in obs r"
  shows "\<exists>new. grew obs (s, gs) st' new"
  using assms
proof (induction rs arbitrary: s gs res)
  case Nil
  then show ?case using grew_refl [of obs "(s, gs)"] by auto
next
  case (Cons r rs)
  obtain res1 s1 gs1 where r: "encode_reference r (s, gs) = (res1, s1, gs1)" by (cases "encode_reference r (s, gs)")
  obtain new where new: "grew obs (s, gs) (s1, gs1) new"
    using encode_reference_grows [OF r Cons.prems(2)] Cons.prems(3) by auto
  show ?case
  proof (cases res1)
    case (Inl e)
    then show ?thesis using Cons.prems(1) r new by auto
  next
    case (Inr w)
    then obtain res2 where "encode_refs rs (s1, gs1) = (res2, st')"
      using Cons.prems(1) r by (cases "encode_refs rs (s1, gs1)") (auto split: sum.splits)
    moreover have "exports_ok obs s1" using new by (simp add: grew_def)
    ultimately obtain new' where "grew obs (s1, gs1) st' new'" using Cons.IH [of s1 gs1 res2] Cons.prems(3) by auto
    then show ?thesis using grew_trans [OF new] by blast
  qed
qed

lemma encode_value_grows:
  assumes "encode_inner v levels (s, gs) = (res, st')" and "exports_ok obs s" and "value_ok v"
    and "\<forall>r \<in> set (refs_of v). reference_in obs r"
  shows "\<exists>new. grew obs (s, gs) st' new"
proof (cases res)
  case (Inl e)
  obtain rs1 res1 where r: "prefix rs1 (refs_of v)" "encode_refs rs1 (s, gs) = (res1, st')"
    by (rule encodes_Inl [OF encodes_value [OF assms(3)] assms(1) [unfolded Inl]])
  show ?thesis by (rule encode_refs_grow [OF r(2) assms(2)]) (use assms(4) r(1) in \<open>auto dest: set_mono_prefix\<close>)
next
  case (Inr w)
  obtain ws where "encode_refs (refs_of v) (s, gs) = (Inr ws, st')"
    by (rule encodes_Inr [OF encodes_value [OF assms(3)] assms(1) [unfolded Inr]])
  then show ?thesis by (rule encode_refs_grow [OF _ assms(2,4)])
qed

text \<open>A value that cannot be sent leaves every grant as it was.\<close>

lemma unsent_value_leaves_exports:
  assumes "encode_granting v levels s = (Inl e, s')" and "exports_ok obs s" and "value_ok v"
    and "\<forall>r \<in> set (refs_of v). reference_in obs r"
  shows "se_exports s' = (se_exports s)\<lparr>xs_next := xs_next (se_exports s')\<rparr> \<and> same_session s s' \<and> exports_ok obs s'"
proof -
  obtain res s1 gs where enc: "encode_inner v levels (s, []) = (res, s1, gs)" by (cases "encode_inner v levels (s, [])")
  then have s': "s' = s1\<lparr>se_exports := ungrant gs (se_exports s1)\<rparr>"
    using assms(1) by (auto simp: encode_granting_def or_ungrant_def split: sum.splits)
  obtain new where g: "grew obs (s, []) (s1, gs) new" using encode_value_grows [OF enc assms(2-4)] by blast
  note u = ungrant_granting [OF assms(2) g]
  have ss: "same_session s s1" and t1: "tables_ok obs (se_next_ptr s1) (se_exports s1)" "grants_ok (se_exports s1)"
    using g by (simp_all add: grew_def exports_ok_def)
  have "same_session s s'" using ss unfolding s' same_session_def by (metis session.update_convs(7) session.select_convs session.surjective)
  moreover have "exports_ok obs s'"
    using ungrant_spec [OF t1, of gs] g u(1) unfolding s' by (simp add: grew_def granting_def exports_ok_def)
  ultimately show ?thesis using u(2) s' by simp
qed

end
