(* ===== verification/Session_Receiving.thy ===== *)
theory Session_Receiving
  imports Session_Sending
begin

text \<open>
  Decoding a value decodes every reference in it, in order, whatever values it
  refuses: only a transport error, of a reference, stops it.
\<close>

fun decode_ref :: "wire_value \<Rightarrow> session \<Rightarrow> (session_error + reference) \<times> session" where
  "decode_ref (WReference rid home k origin) s = decode_reference rid home k origin s"
| "decode_ref w s = (Inl Panicked, s)"

abbreviation decode_refs :: "wire_value list \<Rightarrow> session \<Rightarrow> (session_error + reference list) \<times> session" where
  "decode_refs \<equiv> collect_in decode_ref"

lemma decode_reference_transport: "decode_reference rid home k origin s = (Inl e, s') \<Longrightarrow> \<not> is_value_error e"
  by (auto simp: decode_reference_def decode_home_def decode_import_def find_export_def Let_def
      split: if_splits option.splits sum.splits prod.splits)

lemma decode_refs_transport: "decode_refs ws s = (Inl e, s') \<Longrightarrow> \<not> is_value_error e"
proof (induction ws arbitrary: s)
  case (Cons w ws)
  have "decode_ref w s = (Inl e, s') \<Longrightarrow> \<not> is_value_error e" for s s' by (cases w) (auto dest: decode_reference_transport)
  then show ?case using Cons by (auto split: prod.splits sum.splits)
qed simp

definition reads :: "('a \<Rightarrow> session \<Rightarrow> (session_error + 'b) \<times> session) \<Rightarrow> wire_value list \<Rightarrow> 'a \<Rightarrow> bool" where
  "reads f rs x \<longleftrightarrow> (\<forall>st res st'. f x st = (res, st') \<longrightarrow>
     (\<exists>r. decode_refs rs st = (r, st') \<and>
       (case r of Inl e \<Rightarrow> res = Inl e | Inr _ \<Rightarrow> (\<forall>e. res = Inl e \<longrightarrow> is_value_error e))))"

lemma readsD: "reads f rs x \<Longrightarrow> f x st = (res, st') \<Longrightarrow>
    (\<exists>e. decode_refs rs st = (Inl e, st') \<and> res = Inl e \<and> \<not> is_value_error e) \<or>
    (\<exists>as. decode_refs rs st = (Inr as, st') \<and> (\<forall>e. res = Inl e \<longrightarrow> is_value_error e))"
proof -
  assume "reads f rs x" and "f x st = (res, st')"
  then obtain r where "decode_refs rs st = (r, st')" "case r of Inl e \<Rightarrow> res = Inl e | Inr _ \<Rightarrow> (\<forall>e. res = Inl e \<longrightarrow> is_value_error e)"
    unfolding reads_def by blast
  then show ?thesis using decode_refs_transport by (cases r) auto
qed

lemma readsI:
  assumes "\<And>st res st'. f x st = (res, st') \<Longrightarrow>
    (\<exists>e. decode_refs rs st = (Inl e, st') \<and> res = Inl e) \<or>
    (\<exists>as. decode_refs rs st = (Inr as, st') \<and> (\<forall>e. res = Inl e \<longrightarrow> is_value_error e))"
  shows "reads f rs x"
  unfolding reads_def
proof (intro allI impI)
  fix st res st' assume "f x st = (res, st')"
  from assms [OF this] show "\<exists>r. decode_refs rs st = (r, st') \<and>
      (case r of Inl e \<Rightarrow> res = Inl e | Inr _ \<Rightarrow> (\<forall>e. res = Inl e \<longrightarrow> is_value_error e))"
  proof (elim disjE exE conjE)
    show ?thesis if "decode_refs rs st = (Inl e, st')" "res = Inl e" for e using that by (intro exI [of _ "Inl e"]) simp
    show ?thesis if "decode_refs rs st = (Inr as, st')" "\<forall>e. res = Inl e \<longrightarrow> is_value_error e" for as
      using that by (intro exI [of _ "Inr as"]) simp
  qed
qed

lemma reads_each:
  assumes "\<And>x. x \<in> set xs \<Longrightarrow> reads f (g x) x"
  shows "reads (each_past f) (concat (map g xs)) xs"
  using assms
proof (induction xs)
  case Nil
  show ?case by (rule readsI) auto
next
  case (Cons x xs)
  then have x: "reads f (g x) x" and xs: "reads (each_past f) (concat (map g xs)) xs" by simp_all
  show ?case
  proof (rule readsI)
    fix st res st' assume e: "each_past f (x # xs) st = (res, st')"
    obtain r1 st1 where r1: "f x st = (r1, st1)" by (cases "f x st")
    obtain r2 st2 where r2: "each_past f xs st1 = (r2, st2)" by (cases "each_past f xs st1")
    from readsD [OF x r1] show "(\<exists>e. decode_refs (concat (map g (x # xs))) st = (Inl e, st') \<and> res = Inl e) \<or>
      (\<exists>as. decode_refs (concat (map g (x # xs))) st = (Inr as, st') \<and> (\<forall>e. res = Inl e \<longrightarrow> is_value_error e))"
    proof (elim disjE exE conjE)
      fix e' assume "decode_refs (g x) st = (Inl e', st1)" "r1 = Inl e'" "\<not> is_value_error e'"
      then show ?thesis using e r1 by (simp add: collect_in_append)
    next
      fix as assume as: "decode_refs (g x) st = (Inr as, st1)" "\<forall>e. r1 = Inl e \<longrightarrow> is_value_error e"
      from readsD [OF xs r2] show ?thesis
      proof (elim disjE exE conjE)
        fix e' assume "decode_refs (concat (map g xs)) st1 = (Inl e', st2)" "r2 = Inl e'" "\<not> is_value_error e'"
        then show ?thesis using e r1 r2 as by (cases r1) (auto simp: collect_in_append)
      next
        fix bs assume "decode_refs (concat (map g xs)) st1 = (Inr bs, st2)" "\<forall>e. r2 = Inl e \<longrightarrow> is_value_error e"
        then show ?thesis using e r1 r2 as by (cases r1; cases r2) (auto simp: collect_in_append)
      qed
    qed
  qed
qed

lemma reads_map_result: "reads f rs x \<Longrightarrow> reads (\<lambda>x s. map_result h (f x s)) rs x"
proof (rule readsI)
  fix st res st' assume f: "reads f rs x" and e: "map_result h (f x st) = (res, st')"
  obtain r1 where r1: "f x st = (r1, st')" using e by (cases "f x st"; cases "fst (f x st)") auto
  show "(\<exists>e. decode_refs rs st = (Inl e, st') \<and> res = Inl e) \<or>
      (\<exists>as. decode_refs rs st = (Inr as, st') \<and> (\<forall>e. res = Inl e \<longrightarrow> is_value_error e))"
    using readsD [OF f r1] e r1 by (cases r1) auto
qed

text \<open>What is read may still be refused.\<close>

lemma reads_then:
  assumes "reads f rs x"
    and "\<And>st. g y st = (case f x st of (Inl e, st') \<Rightarrow> (Inl e, st') | (Inr a, st') \<Rightarrow> (h st a, st'))"
    and "\<And>st a e. h st a = Inl e \<Longrightarrow> is_value_error e"
  shows "reads g rs y"
proof (rule readsI)
  fix st res st' assume e: "g y st = (res, st')"
  obtain r1 st1 where r1: "f x st = (r1, st1)" by (cases "f x st")
  show "(\<exists>e. decode_refs rs st = (Inl e, st') \<and> res = Inl e) \<or>
      (\<exists>as. decode_refs rs st = (Inr as, st') \<and> (\<forall>e. res = Inl e \<longrightarrow> is_value_error e))"
    using readsD [OF assms(1) r1] e r1 assms(2) [of st] by (cases r1) (auto dest: assms(3))
qed

lemma reads_none: "(\<And>st. snd (f x st) = st) \<Longrightarrow> (\<And>st e. fst (f x st) = Inl e \<Longrightarrow> is_value_error e) \<Longrightarrow> reads f [] x"
  by (rule readsI) (metis collect_in.simps(1) fst_conv snd_conv)

lemma undeclared_value_error: "undeclared s w = Some e \<Longrightarrow> is_value_error e"
  by (auto simp: undeclared_def split: option.splits if_splits)

lemma check_keys_value_error: "check_keys what vs = Some e \<Longrightarrow> is_value_error e"
  by (auto simp: check_keys_def dest!: keys_from_value_error)

lemma read_text_value_error: "decode_text w \<noteq> None \<Longrightarrow> read_text w = Inl e \<Longrightarrow> is_value_error e"
  by (cases w) (auto simp: read_text_def value_or_error_def split: sum.splits)

lemma reads_text: "(\<And>st. f x st = taken st w (read_text w, st)) \<Longrightarrow> decode_text w \<noteq> None \<Longrightarrow> reads f [] x"
  using undeclared_value_error read_text_value_error [of w]
  by (intro reads_none) (auto simp: taken_def split: option.splits)

lemma concat_pairs: "concat (map g (concat (map (\<lambda>(k, v). [k, v]) es))) = concat (map (\<lambda>(k, v). g k @ g v) es)"
  by (induction es) auto

lemma reads_value: "reads decode (wire_refs w) w"
proof (induction w)
  case (WList ws)
  have "reads (each_past (\<lambda>w s. decode w s)) (concat (map wire_refs ws)) ws" by (rule reads_each) (rule WList.IH)
  then show ?case unfolding wire_refs.simps
    by (rule reads_then [where h = "\<lambda>_ vs. Inr (VList (nulls vs))"]) (simp_all add: map_result_def split: prod.split sum.split)
next
  case (WRecord fs)
  have "reads (each_past (\<lambda>w s. decode w s)) (concat (map wire_refs (map snd fs))) (map snd fs)"
    by (rule reads_each) (use WRecord.IH in auto)
  moreover have "concat (map wire_refs (map snd fs)) = concat (map (\<lambda>(k, w). wire_refs w) fs)"
    by (induction fs) auto
  ultimately show ?case unfolding wire_refs.simps
    by (intro reads_then [where h = "\<lambda>_ vs. Inr (VRecord (btree (zip (map fst fs) (nulls vs))))"])
      (simp_all add: map_result_def split: prod.split sum.split)
next
  case (WReference rid home k origin)
  show ?case
  proof (rule readsI)
    fix st res st' assume "decode (WReference rid home k origin) st = (res, st')"
    then show "(\<exists>e. decode_refs (wire_refs (WReference rid home k origin)) st = (Inl e, st') \<and> res = Inl e) \<or>
      (\<exists>as. decode_refs (wire_refs (WReference rid home k origin)) st = (Inr as, st') \<and> (\<forall>e. res = Inl e \<longrightarrow> is_value_error e))"
      by (cases "decode_reference rid home k origin st"; cases "fst (decode_reference rid home k origin st)") auto
  qed
next
  case (WMap es)
  have "reads (each_past (\<lambda>w s. decode w s)) (concat (map wire_refs (concat (map (\<lambda>(k, v). [k, v]) es)))) (concat (map (\<lambda>(k, v). [k, v]) es))"
    by (rule reads_each) (use WMap.IH in auto)
  then show ?case unfolding wire_refs.simps concat_pairs
    by (rule reads_then [where h = "\<lambda>s vs. case undeclared s (WMap es) of
             Some e \<Rightarrow> Inl e
           | None \<Rightarrow>
               (let entries = entries_of vs in
                case check_keys ''map key'' (map fst entries) of Some e \<Rightarrow> Inl e | None \<Rightarrow> Inr (VMap entries))"])
      (auto simp: Let_def split: prod.split sum.split option.split option.split_asm dest: undeclared_value_error check_keys_value_error)
next
  case (WSet ws)
  have "reads (each_past (\<lambda>w s. decode w s)) (concat (map wire_refs ws)) ws" by (rule reads_each) (rule WSet.IH)
  then show ?case unfolding wire_refs.simps
    by (rule reads_then [where h = "\<lambda>s vs. case undeclared s (WSet ws) of
             Some e \<Rightarrow> Inl e
           | None \<Rightarrow> (case check_keys ''set element'' vs of Some e \<Rightarrow> Inl e | None \<Rightarrow> Inr (VSet vs))"])
      (auto split: prod.split sum.split option.split option.split_asm dest: undeclared_value_error check_keys_value_error)
qed (simp only: wire_refs.simps, ((rule reads_text, rule decode.simps; simp) | (rule reads_none; simp)))+

text \<open>Every reference of a value is imported, past every value error.\<close>

lemma decode_reads_refs:
  assumes "decode w s = (res, s')"
  shows "(\<exists>e. decode_refs (wire_refs w) s = (Inl e, s') \<and> res = Inl e \<and> \<not> is_value_error e) \<or>
    (\<exists>rs. decode_refs (wire_refs w) s = (Inr rs, s') \<and> (\<forall>e. res = Inl e \<longrightarrow> is_value_error e))"
  by (rule readsD [OF reads_value assms])

end
