(* ===== verification/Session_Link.thy ===== *)
theory Session_Link
  imports Session_Receiving
begin

text \<open>
  Two ends of a session and the references between them,
  \<open>crates/rutis-bridge/src/session/rpc.rs\<close>.

  Of every frame only what concerns references is kept: those in its values,
  the one it is addressed to, and what it releases; a frame that is being made
  is collected under the lock of the outgoing queue.  Each step is one section
  under a lock of one end, in any order.  Imports may be dropped by any thread
  once no value holds them.
\<close>

section \<open>Steps\<close>

datatype item =
    Refer nat bool kind "string list"
  | Target nat bool
  | Released nat nat

record party =
  pa_session :: session
  pa_objects :: "shared_object set"
  pa_items :: "item list"
  pa_grants :: "nat list"
  pa_using :: "nat set"

text \<open>What receiving does with a reference of a value, the target of a call, and a release.\<close>

fun receive_item :: "item \<Rightarrow> session \<Rightarrow> session_error option \<times> session" where
  "receive_item (Refer rid home k origin) s =
     (case decode_reference rid home k origin s of (Inl e, s) \<Rightarrow> (Some e, s) | (Inr _, s) \<Rightarrow> (None, s))"
| "receive_item (Target rid object) s =
     (case (if object then find_export_object rid (se_exports s) else find_export rid (se_exports s)) of
        Inl e \<Rightarrow> (Some e, s)
      | Inr _ \<Rightarrow> (None, s))"
| "receive_item (Released rid n) s =
     (case release_export rid n (se_exports s) of
        Inl e \<Rightarrow> (Some e, s)
      | Inr xs \<Rightarrow> (None, s\<lparr>se_exports := xs\<rparr>))"

fun item_of :: "wire_value \<Rightarrow> item list" where
  "item_of (WReference rid home k origin) = [Refer rid home k origin]"
| "item_of w = []"

text \<open>The import a reference is, where it is of this session.\<close>

fun import_of :: "reference \<Rightarrow> import option" where
  "import_of (Remote im) = Some im"
| "import_of (Home im) = Some im"
| "import_of (Local ob) = None"

definition holds :: "party \<Rightarrow> import \<Rightarrow> bool" where
  "holds p im \<longleftrightarrow> (\<exists>h. se_held (pa_session p) (im_ptr im) = Some h \<and> hi_import h = im \<and> hi_phase h = Held)"

definition may_send :: "party \<Rightarrow> reference \<Rightarrow> bool" where
  "may_send p r \<longleftrightarrow> reference_in (pa_objects p) r \<and>
     (\<forall>im. import_of r = Some im \<and> im_peer im = se_number (pa_session p) \<longrightarrow> holds p im)"

definition used_by :: "party \<Rightarrow> reference \<Rightarrow> nat set" where
  "used_by p r = {im_ptr im | im. import_of r = Some im \<and> im_peer im = se_number (pa_session p)}"

inductive party_step :: "party \<times> item list \<times> item list \<Rightarrow> party \<times> item list \<times> item list \<Rightarrow> bool" where
  new_object: "ob_ptr ob = se_next_ptr (pa_session p) \<Longrightarrow> relay_key ob = None \<Longrightarrow>
    party_step (p, out, inc)
      (p\<lparr>pa_objects := insert ob (pa_objects p),
         pa_session := (pa_session p)\<lparr>se_next_ptr := se_next_ptr (pa_session p) + 1\<rparr>\<rparr>, out, inc)"
| surroundings:
    "party_step (p, out, inc)
      (p\<lparr>pa_session := (pa_session p)\<lparr>se_peers := peers, se_background := background\<rparr>\<rparr>, out, inc)"
| encode: "may_send p r \<Longrightarrow> encode_reference r (pa_session p, pa_grants p) = (Inr w, s, gs) \<Longrightarrow>
    party_step (p, out, inc)
      (p\<lparr>pa_session := s, pa_grants := gs, pa_items := pa_items p @ item_of w, pa_using := pa_using p \<union> used_by p r\<rparr>, out, inc)"
| refused: "may_send p r \<Longrightarrow> encode_reference r (pa_session p, pa_grants p) = (Inl e, s, gs) \<Longrightarrow>
    party_step (p, out, inc) (p\<lparr>pa_session := s, pa_grants := gs\<rparr>, out, inc)"
| give_up:
    "party_step (p, out, inc)
      (p\<lparr>pa_session := (pa_session p)\<lparr>se_exports := ungrant (pa_grants p) (se_exports (pa_session p))\<rparr>,
         pa_items := [], pa_grants := [], pa_using := {}\<rparr>, out, inc)"
| address: "holds p im \<Longrightarrow> (object \<Longrightarrow> im_kind im = KObject) \<Longrightarrow>
    party_step (p, out, inc)
      (p\<lparr>pa_items := pa_items p @ [Target (im_id im) object], pa_using := insert (im_ptr im) (pa_using p)\<rparr>, out, inc)"
| write_frame:
    "party_step (p, out, inc) (p\<lparr>pa_items := [], pa_grants := [], pa_using := {}\<rparr>, out @ pa_items p, inc)"
| drop_last: "se_held (pa_session p) q = Some h \<Longrightarrow> hi_phase h = Held \<Longrightarrow> q \<notin> pa_using p \<Longrightarrow>
    party_step (p, out, inc) (p\<lparr>pa_session := drop_holder q (pa_session p)\<rparr>, out, inc)"
| unlist: "se_held (pa_session p) q = Some h \<Longrightarrow> hi_phase h = Dropped \<Longrightarrow>
    party_step (p, out, inc) (p\<lparr>pa_session := drop_entry q (pa_session p)\<rparr>, out, inc)"
| release: "se_held (pa_session p) q = Some h \<Longrightarrow> hi_phase h = Unlisted \<Longrightarrow> pa_items p = [] \<Longrightarrow>
    drop_release q (pa_session p) = (Some (rid, n), s) \<Longrightarrow>
    party_step (p, out, inc) (p\<lparr>pa_session := s\<rparr>, out @ [Released rid n], inc)"
| receive: "receive_item it (pa_session p) = (None, s) \<Longrightarrow>
    party_step (p, out, it # inc) (p\<lparr>pa_session := s\<rparr>, out, inc)"

text \<open>Two ends, and what is under way from each to the other.\<close>

type_synonym link = "(party \<times> party) \<times> item list \<times> item list"

inductive link_step :: "link \<Rightarrow> link \<Rightarrow> bool" where
  near: "party_step (a, ab, ba) (a', ab', ba') \<Longrightarrow> link_step ((a, b), ab, ba) ((a', b), ab', ba')"
| far: "party_step (b, ba, ab) (b', ba', ab') \<Longrightarrow> link_step ((a, b), ab, ba) ((a, b'), ab', ba')"

text \<open>A session as it is made.\<close>

definition fresh_party :: "session \<Rightarrow> party" where
  "fresh_party s = \<lparr>pa_session = s\<lparr>se_exports := no_exports, se_imports := Map.empty, se_held := Map.empty\<rparr>,
     pa_objects = {}, pa_items = [], pa_grants = [], pa_using = {}\<rparr>"

inductive linked :: "link \<Rightarrow> bool" where
  start: "linked ((fresh_party s, fresh_party s'), [], [])"
| step: "linked l \<Longrightarrow> link_step l l' \<Longrightarrow> linked l'"

section \<open>Counting\<close>

fun refs :: "item list \<Rightarrow> (nat \<times> kind \<times> string list) list" where
  "refs [] = []"
| "refs (Refer rid False k origin # its) = (rid, k, origin) # refs its"
| "refs (it # its) = refs its"

fun rels :: "item list \<Rightarrow> nat \<Rightarrow> nat" where
  "rels [] q = 0"
| "rels (Released rid n # its) q = (if rid = q then n else 0) + rels its q"
| "rels (it # its) q = rels its q"

text \<open>What an item says of an export of the far end: the kind it relies on.\<close>

fun home_use :: "item \<Rightarrow> (nat \<times> kind option) option" where
  "home_use (Refer rid True k origin) = Some (rid, Some k)"
| "home_use (Target rid object) = Some (rid, if object then Some KObject else None)"
| "home_use it = None"

lemma refs_append [simp]: "refs (xs @ ys) = refs xs @ refs ys"
  by (induction xs rule: refs.induct) auto

lemma rels_append [simp]: "rels (xs @ ys) q = rels xs q + rels ys q"
  by (induction xs q rule: rels.induct) auto

definition contrib :: "nat \<Rightarrow> held_import \<Rightarrow> nat" where
  "contrib rid h = (if im_id (hi_import h) = rid then hi_grants h else 0)"

definition heldsum :: "(nat \<rightharpoonup> held_import) \<Rightarrow> nat \<Rightarrow> nat" where
  "heldsum m rid = (\<Sum>p \<in> dom m. contrib rid (the (m p)))"

lemma heldsum_empty [simp]: "heldsum Map.empty rid = 0"
  by (simp add: heldsum_def)

lemma heldsum_remove:
  assumes "finite (dom m)" and "m p = Some h"
  shows "heldsum m rid = contrib rid h + heldsum (m(p := None)) rid"
proof -
  have "p \<in> dom m" using assms(2) by auto
  then have "heldsum m rid = contrib rid (the (m p)) + (\<Sum>q \<in> dom m - {p}. contrib rid (the (m q)))"
    using assms(1) by (simp add: heldsum_def sum.remove)
  also have "(\<Sum>q \<in> dom m - {p}. contrib rid (the (m q))) = heldsum (m(p := None)) rid"
    by (auto simp: heldsum_def intro!: sum.cong)
  finally show ?thesis using assms(2) by simp
qed

lemma heldsum_insert:
  assumes "finite (dom m)" and "m p = None"
  shows "heldsum (m(p \<mapsto> h)) rid = contrib rid h + heldsum m rid"
  using heldsum_remove [of "m(p \<mapsto> h)" p h rid] assms by (simp add: fun_upd_idem)

lemma heldsum_update:
  assumes "finite (dom m)" and "m p = Some h"
  shows "heldsum (m(p \<mapsto> h')) rid + contrib rid h = contrib rid h' + heldsum m rid"
  using heldsum_remove [of "m(p \<mapsto> h')" p h' rid] heldsum_remove [OF assms, of rid] assms(1) by simp

lemma heldsum_member: "finite (dom m) \<Longrightarrow> m p = Some h \<Longrightarrow> contrib rid h \<le> heldsum m rid"
  using heldsum_remove [of m p h rid] by simp

text \<open>Every use of an export that is under way is kept by an import or a release after it.\<close>

fun covered :: "(nat \<Rightarrow> nat) \<Rightarrow> item list \<Rightarrow> bool" where
  "covered f [] \<longleftrightarrow> True"
| "covered f (it # its) \<longleftrightarrow> (\<forall>rid k. home_use it = Some (rid, k) \<longrightarrow> 0 < f rid + rels its rid) \<and> covered f its"

lemma covered_mono:
  "covered f its \<Longrightarrow> (\<And>rid. f rid + rels its rid \<le> g rid + rels (its @ rest) rid) \<Longrightarrow>
   covered g rest \<Longrightarrow> covered g (its @ rest)"
proof (induction its)
  case (Cons it its)
  have le: "f rid + rels its rid \<le> g rid + rels (its @ rest) rid" for rid
    using Cons.prems(2) [of rid] by (cases it) auto
  have "0 < g rid + rels (its @ rest) rid" if "home_use it = Some (rid, k)" for rid k
  proof -
    have "0 < f rid + rels its rid" using Cons.prems(1) that by simp
    then show ?thesis using le [of rid] by (rule order_less_le_trans)
  qed
  then show ?case using Cons.IH [OF _ le Cons.prems(3)] Cons.prems(1) by simp
qed simp

lemma covered_same: "covered f its \<Longrightarrow> (\<And>rid. f rid \<le> g rid) \<Longrightarrow> covered g its"
  using covered_mono [of f its g "[]"] by simp

section \<open>One direction\<close>

text \<open>
  The end that exports, seen by its exports, the frame it makes and what is under
  way; the end that imports, by what it holds and the uses it makes of it.
\<close>

definition named :: "session \<Rightarrow> nat \<Rightarrow> kind \<Rightarrow> string list \<Rightarrow> bool" where
  "named s rid k origin \<longleftrightarrow> (\<exists>ob. objects_of (se_exports s) rid = Some ob \<and> k = object_kind ob \<and> origin = wire_origin (se_tag s) ob)"

definition of_kind :: "session \<Rightarrow> nat \<Rightarrow> kind option \<Rightarrow> bool" where
  "of_kind s rid k \<longleftrightarrow> (\<exists>ob. objects_of (se_exports s) rid = Some ob \<and> (\<forall>k'. k = Some k' \<longrightarrow> k' = object_kind ob))"

text \<open>The importing end by itself.\<close>

definition holding :: "party \<Rightarrow> bool" where
  "holding p \<longleftrightarrow> finite (dom (se_held (pa_session p))) \<and>
     (\<forall>q h. se_held (pa_session p) q = Some h \<longrightarrow> im_ptr (hi_import h) = q \<and> im_peer (hi_import h) = se_number (pa_session p) \<and>
        q < se_next_ptr (pa_session p) \<and> 0 < hi_grants h) \<and>
     (\<forall>rid q. se_imports (pa_session p) rid = Some q \<longrightarrow>
        (\<exists>h. se_held (pa_session p) q = Some h \<and> im_id (hi_import h) = rid \<and> hi_phase h \<noteq> Unlisted)) \<and>
     (\<forall>it \<in> set (pa_items p). \<forall>rid k. home_use it = Some (rid, k) \<longrightarrow>
        (\<exists>q \<in> pa_using p. \<exists>h. se_held (pa_session p) q = Some h \<and> im_id (hi_import h) = rid \<and>
           (\<forall>k'. k = Some k' \<longrightarrow> k' = im_kind (hi_import h)))) \<and>
     (\<forall>q \<in> pa_using p. \<exists>h. se_held (pa_session p) q = Some h \<and> hi_phase h = Held) \<and>
     (\<forall>rid n. Released rid n \<notin> set (pa_items p))"

text \<open>The exporting end by itself.\<close>

definition exporting :: "party \<Rightarrow> bool" where
  "exporting p \<longleftrightarrow> exports_ok (pa_objects p) (pa_session p) \<and> map fst (refs (pa_items p)) = pa_grants p"

text \<open>Every grant is under way, held or on its way back.\<close>

definition balanced :: "party \<Rightarrow> party \<Rightarrow> item list \<Rightarrow> item list \<Rightarrow> bool" where
  "balanced a b ab ba \<longleftrightarrow> (\<forall>rid. granted (se_exports (pa_session a)) rid =
     count_list (map fst (refs ab)) rid + count_list (pa_grants a) rid + heldsum (se_held (pa_session b)) rid + rels ba rid)"

definition agreed :: "party \<Rightarrow> party \<Rightarrow> item list \<Rightarrow> item list \<Rightarrow> bool" where
  "agreed a b ab ba \<longleftrightarrow>
     (\<forall>rid k origin. (rid, k, origin) \<in> set (refs (ab @ pa_items a)) \<longrightarrow> named (pa_session a) rid k origin) \<and>
     (\<forall>q h. se_held (pa_session b) q = Some h \<longrightarrow>
        named (pa_session a) (im_id (hi_import h)) (im_kind (hi_import h)) (im_origin (hi_import h))) \<and>
     (\<forall>it \<in> set ba. \<forall>rid k. home_use it = Some (rid, k) \<longrightarrow> of_kind (pa_session a) rid k) \<and>
     (\<forall>rid n. Released rid n \<in> set ba \<longrightarrow> 0 < n) \<and>
     covered (heldsum (se_held (pa_session b))) ba"

definition directed :: "party \<Rightarrow> party \<Rightarrow> item list \<Rightarrow> item list \<Rightarrow> bool" where
  "directed a b ab ba \<longleftrightarrow> exporting a \<and> holding b \<and> balanced a b ab ba \<and> agreed a b ab ba"

definition consistent :: "link \<Rightarrow> bool" where
  "consistent l = (case l of ((a, b), ab, ba) \<Rightarrow> directed a b ab ba \<and> directed b a ba ab)"

section \<open>What is under way can be received\<close>

lemma granted_object: "0 < granted xs rid \<Longrightarrow> \<exists>ob. objects_of xs rid = Some ob"
  by (auto simp: granted_def objects_of_def split: option.splits)

lemma object_granted: "grants_ok xs \<Longrightarrow> objects_of xs rid = Some ob \<Longrightarrow> 0 < granted xs rid"
  by (auto simp: granted_def objects_of_def grants_ok_def)

lemma exporting_grants: "exporting p \<Longrightarrow> grants_ok (se_exports (pa_session p))"
  by (simp add: exporting_def exports_ok_def)

lemma granted_bound: "grants_ok xs \<Longrightarrow> granted xs rid \<le> u64_max"
  by (auto simp: granted_def grants_ok_def split: option.splits)

lemma upgrade_Some: "holding p \<Longrightarrow> upgrade rid (pa_session p) = Some (q, h) \<Longrightarrow>
    se_held (pa_session p) q = Some h \<and> im_id (hi_import h) = rid \<and> se_imports (pa_session p) rid = Some q"
  unfolding holding_def by (fastforce simp: upgrade_def split: option.splits if_splits)

text \<open>An honest end is never sent what ends its session.\<close>

lemma receive_refers:
  assumes "directed a b (Refer rid False k origin # ab) ba"
  shows "\<exists>s'. receive_item (Refer rid False k origin) (pa_session b) = (None, s')"
proof -
  have n: "named (pa_session a) rid k origin" and h: "holding b" and e: "exporting a"
    using assms by (simp_all add: directed_def agreed_def)
  have "0 < rid \<and> rid \<le> MAX_ID"
    using n e by (fastforce simp: named_def exporting_def exports_ok_def tables_ok_def)
  moreover have "im_kind (hi_import h) = k \<and> im_origin (hi_import h) = origin \<and> hi_grants h < u64_max"
    if u: "upgrade rid (pa_session b) = Some (q, h)" for q h
  proof -
    have q: "se_held (pa_session b) q = Some h" "im_id (hi_import h) = rid" using upgrade_Some [OF \<open>holding b\<close> u] by simp_all
    then have "named (pa_session a) rid (im_kind (hi_import h)) (im_origin (hi_import h))"
      using assms by (auto simp: directed_def agreed_def)
    then have "im_kind (hi_import h) = k \<and> im_origin (hi_import h) = origin" using n by (auto simp: named_def)
    moreover have "hi_grants h \<le> heldsum (se_held (pa_session b)) rid"
      using heldsum_member [of "se_held (pa_session b)" q h rid] q \<open>holding b\<close> by (simp add: holding_def contrib_def)
    moreover have "heldsum (se_held (pa_session b)) rid < granted (se_exports (pa_session a)) rid"
      using assms by (simp add: directed_def balanced_def)
    moreover have "granted (se_exports (pa_session a)) rid \<le> u64_max" using granted_bound exporting_grants [OF e] by blast
    ultimately show ?thesis by simp
  qed
  ultimately show ?thesis
    by (auto simp: decode_reference_def decode_import_def Let_def split: option.splits)
qed

lemma receive_uses:
  assumes "directed a b ab (it # ba)" and "home_use it = Some (rid, k)"
  shows "\<exists>s'. receive_item it (pa_session a) = (None, s')"
proof -
  obtain ob where ob: "objects_of (se_exports (pa_session a)) rid = Some ob" "\<forall>k'. k = Some k' \<longrightarrow> k' = object_kind ob"
    using assms by (auto simp: directed_def agreed_def of_kind_def)
  then have "find_export rid (se_exports (pa_session a)) = Inr ob" by (auto simp: find_export_def objects_of_def)
  then show ?thesis using assms(2) ob(2)
    by (cases it rule: home_use.cases) (auto simp: decode_reference_def decode_home_def find_export_object_def split: if_splits)
qed

lemma receive_releases:
  assumes "directed a b ab (Released rid n # ba)"
  shows "\<exists>s'. receive_item (Released rid n) (pa_session a) = (None, s')"
proof -
  have n: "0 < n" using assms by (auto simp: directed_def agreed_def)
  have "n \<le> granted (se_exports (pa_session a)) rid" using assms by (simp add: directed_def balanced_def)
  then obtain en where "xs_entries (se_exports (pa_session a)) rid = Some en" "n \<le> ex_grants en"
    using n by (auto simp: granted_def split: option.splits)
  then show ?thesis using n by (simp add: release_lessen)
qed

lemma consistent_receives:
  assumes "consistent ((a, b), ab, it # ba)"
  shows "\<exists>s'. receive_item it (pa_session a) = (None, s')"
proof (cases it)
  case (Refer rid home k origin)
  then show ?thesis using assms receive_refers receive_uses by (cases home) (fastforce simp: consistent_def)+
next
  case (Target rid object)
  then show ?thesis using assms receive_uses by (fastforce simp: consistent_def)
next
  case (Released rid n)
  then show ?thesis using assms receive_releases by (fastforce simp: consistent_def)
qed

end
