(* ===== verification/Session_Balance.thy ===== *)
theory Session_Balance
  imports Session_Link
begin

text \<open>
  Every step of an end keeps its references consistent with the other end, in
  both directions: as the end that exports and as the end that imports.
\<close>

section \<open>Views\<close>

lemma exporter_view:
  assumes "directed a b ab ba" and "exporting a'"
    and "se_exports (pa_session a') = se_exports (pa_session a)" and "se_tag (pa_session a') = se_tag (pa_session a)"
    and "pa_grants a' = pa_grants a" and "refs (pa_items a') = refs (pa_items a)" and "refs ab' = refs ab"
  shows "directed a' b ab' ba"
  using assms by (simp add: directed_def balanced_def agreed_def named_def of_kind_def)

lemma importer_view:
  assumes "directed a b ab ba" and "holding b'" and "se_held (pa_session b') = se_held (pa_session b)"
  shows "directed a b' ab ba"
  using assms by (simp add: directed_def balanced_def agreed_def)

lemma directed_exporting: "directed a b ab ba \<Longrightarrow> exporting a"
  by (simp add: directed_def)

lemma directed_holding: "directed a b ab ba \<Longrightarrow> holding b"
  by (simp add: directed_def)

lemma holding_cong:
  assumes "holding p" and "se_held (pa_session p') = se_held (pa_session p)" and "se_imports (pa_session p') = se_imports (pa_session p)"
    and "se_number (pa_session p') = se_number (pa_session p)" and "se_next_ptr (pa_session p) \<le> se_next_ptr (pa_session p')"
    and "pa_items p' = pa_items p" and "pa_using p' = pa_using p"
  shows "holding p'"
  using assms unfolding holding_def by (auto intro: order_less_le_trans)

lemma holding_idle:
  assumes "holding p" and "se_held (pa_session p') = se_held (pa_session p)" and "se_imports (pa_session p') = se_imports (pa_session p)"
    and "se_number (pa_session p') = se_number (pa_session p)" and "se_next_ptr (pa_session p) \<le> se_next_ptr (pa_session p')"
    and "pa_items p' = []" and "pa_using p' = {}"
  shows "holding p'"
  using assms unfolding holding_def by (auto intro: order_less_le_trans)

lemma exporting_cong:
  assumes "exporting p" and "pa_objects p' = pa_objects p" and "se_exports (pa_session p') = se_exports (pa_session p)"
    and "se_next_ptr (pa_session p) \<le> se_next_ptr (pa_session p')" and "refs (pa_items p') = refs (pa_items p)" and "pa_grants p' = pa_grants p"
  shows "exporting p'"
  using assms unfolding exporting_def exports_ok_def tables_ok_def addresses_ok_def by (auto intro: order_less_le_trans)

text \<open>Entries that go were not referred to any more.\<close>

lemma agreed_fewer:
  assumes "directed a b ab ba" and "exporting a'" and "se_tag (pa_session a') = se_tag (pa_session a)"
    and "\<And>rid ob. objects_of (se_exports (pa_session a)) rid = Some ob \<Longrightarrow> 0 < granted (se_exports (pa_session a')) rid \<Longrightarrow>
      objects_of (se_exports (pa_session a')) rid = Some ob"
    and "balanced a' b ab' ba'" and "set (refs ab') \<subseteq> set (refs ab)" and "set (refs (pa_items a')) \<subseteq> set (refs (pa_items a))"
    and "map fst (refs (pa_items a')) = pa_grants a'"
    and "set ba' \<subseteq> set ba" and "covered (heldsum (se_held (pa_session b))) ba'"
  shows "directed a' b ab' ba'"
proof -
  let ?g = "granted (se_exports (pa_session a'))"
  have ag: "agreed a b ab ba" and h: "holding b" using assms(1) by (simp_all add: directed_def)
  have keep: "named (pa_session a') rid k origin" if "named (pa_session a) rid k origin" "0 < ?g rid" for rid k origin
    using that assms(3,4) unfolding named_def by fastforce
  have bal: "?g rid = count_list (map fst (refs ab')) rid + count_list (pa_grants a') rid + heldsum (se_held (pa_session b)) rid + rels ba' rid"
    for rid using assms(5) by (simp add: balanced_def)
  have "named (pa_session a') rid k origin" if r: "(rid, k, origin) \<in> set (refs (ab' @ pa_items a'))" for rid k origin
  proof (rule keep)
    show "named (pa_session a) rid k origin" using r ag assms(6,7) by (auto simp: agreed_def)
    have "rid \<in> fst ` set (refs ab') \<or> rid \<in> fst ` set (refs (pa_items a'))" using r by force
    then have "rid \<in> set (map fst (refs ab')) \<or> rid \<in> set (pa_grants a')" using assms(8) [symmetric] by simp
    then have "count_list (map fst (refs ab')) rid \<noteq> 0 \<or> count_list (pa_grants a') rid \<noteq> 0" by (simp only: count_list_0_iff) blast
    then show "0 < ?g rid" using bal [of rid] by linarith
  qed
  moreover have "named (pa_session a') (im_id (hi_import i)) (im_kind (hi_import i)) (im_origin (hi_import i))"
    if q: "se_held (pa_session b) q = Some i" for q i
  proof (rule keep)
    show "named (pa_session a) (im_id (hi_import i)) (im_kind (hi_import i)) (im_origin (hi_import i))"
      using q ag by (simp add: agreed_def)
    have "0 < contrib (im_id (hi_import i)) i" using h q by (auto simp: contrib_def holding_def)
    also have "\<dots> \<le> heldsum (se_held (pa_session b)) (im_id (hi_import i))"
      using heldsum_member h q by (simp add: holding_def)
    finally show "0 < ?g (im_id (hi_import i))" using bal [of "im_id (hi_import i)"] by linarith
  qed
  moreover have "of_kind (pa_session a') rid k" if it: "it \<in> set ba'" "home_use it = Some (rid, k)" for it rid k
  proof -
    have "of_kind (pa_session a) rid k" using it ag assms(9) by (auto simp: agreed_def)
    moreover have "0 < heldsum (se_held (pa_session b)) rid + rels ba' rid"
      using assms(10) it
    proof (induction ba')
      case (Cons x xs)
      then show ?case by (cases x) auto
    qed simp
    then have "0 < ?g rid" using bal [of rid] by linarith
    ultimately show ?thesis using assms(4) unfolding of_kind_def by fastforce
  qed
  ultimately show ?thesis using assms(2,5,9,10) h ag unfolding directed_def agreed_def by auto
qed

section \<open>Steps of the exporting end\<close>

lemma directed_new_object:
  assumes "directed a b ab ba" and "ob_ptr ob = se_next_ptr (pa_session a)" and "relay_key ob = None"
  shows "directed (a\<lparr>pa_objects := insert ob (pa_objects a),
      pa_session := (pa_session a)\<lparr>se_next_ptr := se_next_ptr (pa_session a) + 1\<rparr>\<rparr>) b ab ba"
proof (rule exporter_view [OF assms(1)])
  let ?X = "ran (objects_of (se_exports (pa_session a)))"
  let ?O = "pa_objects a"
  have e: "exporting a" by (rule directed_exporting [OF assms(1)])
  then have ad: "addresses_ok ?O (se_next_ptr (pa_session a)) ?X" by (simp add: exporting_def exports_ok_def tables_ok_def)
  have "ob_ptr ob \<notin> ob_ptr ` ((?O \<union> ?X) - {ob})" using ad assms(2) by (auto simp: addresses_ok_def)
  then have "inj_on ob_ptr (insert ob ?O \<union> ?X)" using ad by (simp add: addresses_ok_def)
  moreover have "\<forall>x \<in> insert ob ?O \<union> ?X. ob_ptr x < se_next_ptr (pa_session a) + 1"
    using ad assms(2) by (auto simp: addresses_ok_def less_Suc_eq)
  ultimately have "addresses_ok (insert ob ?O) (se_next_ptr (pa_session a) + 1) ?X"
    using ad assms(3) by (auto simp: addresses_ok_def)
  then show "exporting (a\<lparr>pa_objects := insert ob ?O, pa_session := (pa_session a)\<lparr>se_next_ptr := se_next_ptr (pa_session a) + 1\<rparr>\<rparr>)"
    using e by (simp add: exporting_def exports_ok_def tables_ok_def)
qed simp_all

lemma encode_failed_grants: "encode_reference r (s, gs) = (Inl e, s', gs') \<Longrightarrow> gs' = gs"
proof -
  have i: "encode_import im (s, gs) = (Inl e, s', gs') \<Longrightarrow> gs' = gs" for im
    by (auto simp: encode_import_def Let_def dest: grant_in_Inl split: if_splits option.splits sum.splits prod.splits)
  have l: "encode_local ob (s, gs) = (Inl e, s', gs') \<Longrightarrow> gs' = gs" for ob
    by (auto simp: encode_local_def Let_def dest: grant_in_Inl split: if_splits option.splits sum.splits prod.splits wire_value.splits)
  show "encode_reference r (s, gs) = (Inl e, s', gs') \<Longrightarrow> gs' = gs"
    by (cases r) (auto dest: i l split: if_splits body.splits)
qed

text \<open>More grants, more items that carry them.\<close>

lemma directed_grew:
  assumes "directed a b ab ba" and "grew (pa_objects a) (pa_session a, pa_grants a) (s, gs) new"
    and "map fst (refs more_items) = new" and "\<And>rid k origin. (rid, k, origin) \<in> set (refs more_items) \<Longrightarrow> named s rid k origin"
  shows "directed (a\<lparr>pa_session := s, pa_grants := gs, pa_items := pa_items a @ more_items, pa_using := us\<rparr>) b ab ba"
proof -
  let ?a = "a\<lparr>pa_session := s, pa_grants := gs, pa_items := pa_items a @ more_items, pa_using := us\<rparr>"
  have g: "granting (se_exports (pa_session a)) new (se_exports s)" and gs: "gs = pa_grants a @ new"
    and ok: "exports_ok (pa_objects a) s" and ss: "same_session (pa_session a) s"
    using assms(2) by (simp_all add: grew_def)
  have tag: "se_tag s = se_tag (pa_session a)" using same_session_fields [OF ss] by simp
  have named: "named (pa_session a) rid k origin \<Longrightarrow> named s rid k origin" for rid k origin
    using granting_objects [OF g] tag by (auto simp: named_def)
  have kind: "of_kind (pa_session a) rid k \<Longrightarrow> of_kind s rid k" for rid k
    using granting_objects [OF g] by (auto simp: of_kind_def)
  have "exporting ?a" using directed_exporting [OF assms(1)] ok gs assms(3) by (simp add: exporting_def)
  moreover have "balanced ?a b ab ba" using assms(1) g gs by (simp add: directed_def balanced_def granting_def)
  moreover have "agreed ?a b ab ba" using assms(1,4) named kind unfolding directed_def agreed_def by auto
  ultimately show ?thesis using directed_holding [OF assms(1)] by (simp add: directed_def)
qed

lemma directed_give_up:
  assumes "directed a b ab ba"
  shows "directed (a\<lparr>pa_session := (pa_session a)\<lparr>se_exports := ungrant (pa_grants a) (se_exports (pa_session a))\<rparr>,
         pa_items := [], pa_grants := [], pa_using := {}\<rparr>) b ab ba"
    (is "directed ?a b ab ba")
proof -
  let ?xs = "se_exports (pa_session a)"
  have e: "exporting a" by (rule directed_exporting [OF assms])
  have t: "tables_ok (pa_objects a) (se_next_ptr (pa_session a)) ?xs" "grants_ok ?xs" using e by (simp_all add: exporting_def exports_ok_def)
  have c: "count_list (pa_grants a) rid \<le> granted ?xs rid" for rid using assms by (simp add: directed_def balanced_def)
  note u = ungrant_spec [OF t c]
  have g: "granted (ungrant (pa_grants a) ?xs) rid = granted ?xs rid - count_list (pa_grants a) rid" for rid
    using u by (auto simp: granted_def split: option.splits)
  show ?thesis
  proof (rule agreed_fewer [OF assms])
    show "exporting ?a" using u by (simp add: exporting_def exports_ok_def)
    show "balanced ?a b ab ba" using assms g by (simp add: directed_def balanced_def)
    show "objects_of (se_exports (pa_session ?a)) rid = Some ob"
      if "objects_of ?xs rid = Some ob" "0 < granted (se_exports (pa_session ?a)) rid" for rid ob
      using that u by (auto simp: objects_of_def granted_def split: option.splits if_splits)
    show "covered (heldsum (se_held (pa_session b))) ba" using assms by (simp add: directed_def agreed_def)
  qed simp_all
qed

lemma directed_written:
  assumes "directed a b ab ba"
  shows "directed (a\<lparr>pa_items := [], pa_grants := [], pa_using := {}\<rparr>) b (ab @ pa_items a) ba"
proof -
  have e: "exporting a" by (rule directed_exporting [OF assms])
  then have "map fst (refs (pa_items a)) = pa_grants a" by (simp add: exporting_def)
  then show ?thesis using assms e
    by (simp add: directed_def balanced_def agreed_def exporting_def named_def of_kind_def)
qed

lemma directed_released:
  assumes "directed a b ab (Released rid n # ba)" and "receive_item (Released rid n) (pa_session a) = (None, s)"
  shows "directed (a\<lparr>pa_session := s\<rparr>) b ab ba" (is "directed ?a b ab ba")
proof -
  let ?xs = "se_exports (pa_session a)"
  have e: "exporting a" by (rule directed_exporting [OF assms(1)])
  have t: "tables_ok (pa_objects a) (se_next_ptr (pa_session a)) ?xs" "grants_ok ?xs" using e by (simp_all add: exporting_def exports_ok_def)
  obtain en where en: "xs_entries ?xs rid = Some en" "n \<le> ex_grants en" "s = (pa_session a)\<lparr>se_exports := lessen rid n ?xs\<rparr>"
    using assms(2) by (auto simp: release_lessen split: option.splits if_splits)
  note l = lessen_spec [OF t en(1), of n]
  show ?thesis
  proof (rule agreed_fewer [OF assms(1)])
    show "exporting ?a" using l en(3) e by (simp add: exporting_def exports_ok_def)
    have "granted ?xs q = count_list (map fst (refs ab)) q + count_list (pa_grants a) q + heldsum (se_held (pa_session b)) q
        + ((if rid = q then n else 0) + rels ba q)" for q
      using assms(1) by (simp add: directed_def balanced_def)
    moreover have "granted ?xs rid = ex_grants en" using en(1) by (simp add: granted_def)
    ultimately show "balanced ?a b ab ba" using l(5) en(2,3) by (auto simp: balanced_def)
    show "objects_of (se_exports (pa_session ?a)) q = Some ob"
      if "objects_of ?xs q = Some ob" "0 < granted (se_exports (pa_session ?a)) q" for q ob
      using that l(4,5) en by (auto simp: objects_of_def split: if_splits)
    show "covered (heldsum (se_held (pa_session b))) ba" using assms(1) by (simp add: directed_def agreed_def)
  qed (use e en(3) in \<open>auto simp: exporting_def\<close>)
qed

lemma directed_used:
  assumes "directed a b ab (it # ba)" and "rels [it] = (\<lambda>_. 0)"
  shows "directed a b ab ba"
proof -
  have "rels (it # ba) = rels ba" using assms(2) by (cases it) (auto simp: fun_eq_iff)
  then show ?thesis using assms(1) unfolding directed_def balanced_def agreed_def by auto
qed

section \<open>Steps of the importing end\<close>

lemma holding_parts:
  assumes "holding p"
  shows "finite (dom (se_held (pa_session p)))"
    and "\<And>q h. se_held (pa_session p) q = Some h \<Longrightarrow> im_ptr (hi_import h) = q \<and> im_peer (hi_import h) = se_number (pa_session p) \<and>
        q < se_next_ptr (pa_session p) \<and> 0 < hi_grants h"
    and "\<And>rid q. se_imports (pa_session p) rid = Some q \<Longrightarrow>
        \<exists>h. se_held (pa_session p) q = Some h \<and> im_id (hi_import h) = rid \<and> hi_phase h \<noteq> Unlisted"
    and "\<And>it rid k. it \<in> set (pa_items p) \<Longrightarrow> home_use it = Some (rid, k) \<Longrightarrow>
        \<exists>q \<in> pa_using p. \<exists>h. se_held (pa_session p) q = Some h \<and> im_id (hi_import h) = rid \<and>
           (\<forall>k'. k = Some k' \<longrightarrow> k' = im_kind (hi_import h))"
    and "\<And>q. q \<in> pa_using p \<Longrightarrow> \<exists>h. se_held (pa_session p) q = Some h \<and> hi_phase h = Held"
    and "\<And>rid n. Released rid n \<notin> set (pa_items p)"
  using assms unfolding holding_def by blast+

text \<open>More uses of imports that are held.\<close>

lemma holding_uses:
  assumes "holding p" and "same_session (pa_session p) s"
    and "\<And>it rid k. it \<in> set its \<Longrightarrow> home_use it = Some (rid, k) \<Longrightarrow>
      \<exists>q \<in> us. \<exists>h. se_held (pa_session p) q = Some h \<and> im_id (hi_import h) = rid \<and> (\<forall>k'. k = Some k' \<longrightarrow> k' = im_kind (hi_import h))"
    and "\<And>q. q \<in> us \<Longrightarrow> \<exists>h. se_held (pa_session p) q = Some h \<and> hi_phase h = Held"
    and "\<And>rid n. Released rid n \<notin> set its"
  shows "holding (p\<lparr>pa_session := s, pa_grants := gs, pa_items := pa_items p @ its, pa_using := pa_using p \<union> us\<rparr>)"
proof -
  note h = holding_parts [OF assms(1)] and f = same_session_fields [OF assms(2)]
  have "\<exists>q \<in> pa_using p \<union> us. \<exists>h. se_held (pa_session p) q = Some h \<and> im_id (hi_import h) = rid \<and>
      (\<forall>k'. k = Some k' \<longrightarrow> k' = im_kind (hi_import h))"
    if "it \<in> set (pa_items p @ its)" "home_use it = Some (rid, k)" for it rid k
    using that h(4) [of it rid k] assms(3) [of it rid k] by (metis UnCI UnE set_append)
  moreover have "\<exists>h. se_held (pa_session p) q = Some h \<and> hi_phase h = Held" if "q \<in> pa_using p \<union> us" for q
    using that h(5) assms(4) by blast
  moreover have "q < se_next_ptr s" if "se_held (pa_session p) q = Some i" for q i
    using h(2) [OF that] f(9) by simp
  ultimately show ?thesis unfolding holding_def using h(1,2,3,6) assms(5) f(1-4) by simp
qed

text \<open>An import loses its holders, its entry, itself.\<close>

lemma holding_change:
  assumes "holding p" and "se_held (pa_session p) q = Some h" and "q \<notin> pa_using p"
    and "hi_import h' = hi_import h" and "0 < hi_grants h'"
    and "\<And>rid r. imps rid = Some r \<Longrightarrow> se_imports (pa_session p) rid = Some r \<and> (r = q \<longrightarrow> hi_phase h' \<noteq> Unlisted)"
  shows "holding (p\<lparr>pa_session := (pa_session p)\<lparr>se_held := (se_held (pa_session p))(q \<mapsto> h'), se_imports := imps\<rparr>\<rparr>)"
proof -
  note h = holding_parts [OF assms(1)]
  let ?held = "(se_held (pa_session p))(q \<mapsto> h')"
  have "finite (dom ?held)" using h(1) by simp
  moreover have "im_ptr (hi_import i) = r \<and> im_peer (hi_import i) = se_number (pa_session p) \<and> r < se_next_ptr (pa_session p) \<and> 0 < hi_grants i"
    if "?held r = Some i" for r i using that h(2) [OF assms(2)] h(2) [of r i] assms(4,5) by (auto split: if_splits)
  moreover have "\<exists>i. ?held r = Some i \<and> im_id (hi_import i) = rid \<and> hi_phase i \<noteq> Unlisted" if r: "imps rid = Some r" for rid r
    using assms(6) [OF r] h(3) [of rid r] assms(2,4) by auto
  moreover have "\<exists>r \<in> pa_using p. \<exists>i. ?held r = Some i \<and> im_id (hi_import i) = rid \<and> (\<forall>k'. k = Some k' \<longrightarrow> k' = im_kind (hi_import i))"
    if it: "it \<in> set (pa_items p)" "home_use it = Some (rid, k)" for it rid k
  proof -
    obtain r i where "r \<in> pa_using p" "se_held (pa_session p) r = Some i" "im_id (hi_import i) = rid"
      "\<forall>k'. k = Some k' \<longrightarrow> k' = im_kind (hi_import i)"
      using h(4) [OF it] by blast
    then show ?thesis using assms(3) by (intro bexI [of _ r] exI [of _ i]) auto
  qed
  moreover have "\<exists>i. ?held r = Some i \<and> hi_phase i = Held" if "r \<in> pa_using p" for r
    using h(5) [OF that] assms(3) that by auto
  ultimately show ?thesis using h(6) unfolding holding_def by simp
qed

lemma directed_change:
  assumes "directed a b ab ba" and "se_held (pa_session b) q = Some h" and "holding b'"
    and "se_held (pa_session b') = (se_held (pa_session b))(q \<mapsto> h')" and "hi_import h' = hi_import h" and "hi_grants h' = hi_grants h"
  shows "directed a b' ab ba"
proof -
  have fin: "finite (dom (se_held (pa_session b)))" using directed_holding [OF assms(1)] by (rule holding_parts(1))
  have "contrib rid h' = contrib rid h" for rid using assms(5,6) by (simp add: contrib_def)
  then have "heldsum (se_held (pa_session b')) rid = heldsum (se_held (pa_session b)) rid" for rid
    using heldsum_update [OF fin assms(2), of h' rid] by (simp add: assms(4))
  then have hs: "heldsum (se_held (pa_session b')) = heldsum (se_held (pa_session b))" by (rule ext)
  have "named (pa_session a) (im_id (hi_import i)) (im_kind (hi_import i)) (im_origin (hi_import i))"
    if "se_held (pa_session b') r = Some i" for r i
    using that assms(1,2,4,5) by (auto simp: directed_def agreed_def split: if_splits)
  then show ?thesis using assms(1,3) hs by (simp add: directed_def balanced_def agreed_def)
qed

lemma directed_drop_last:
  assumes "directed a b ab ba" and "se_held (pa_session b) q = Some h" and "hi_phase h = Held" and "q \<notin> pa_using b"
  shows "directed a (b\<lparr>pa_session := drop_holder q (pa_session b)\<rparr>) ab ba"
proof (rule directed_change [OF assms(1,2)])
  have hb: "holding b" by (rule directed_holding [OF assms(1)])
  have e: "drop_holder q (pa_session b) =
    (pa_session b)\<lparr>se_held := (se_held (pa_session b))(q \<mapsto> h\<lparr>hi_phase := Dropped\<rparr>), se_imports := se_imports (pa_session b)\<rparr>"
    using assms(2) by (simp add: drop_holder_def)
  show "holding (b\<lparr>pa_session := drop_holder q (pa_session b)\<rparr>)"
    unfolding e by (rule holding_change [OF hb assms(2,4)]) (use holding_parts(2) [OF hb assms(2)] in simp_all)
  show "se_held (pa_session (b\<lparr>pa_session := drop_holder q (pa_session b)\<rparr>)) = (se_held (pa_session b))(q \<mapsto> h\<lparr>hi_phase := Dropped\<rparr>)"
    by (simp add: e)
qed simp_all

lemma not_using: "holding b \<Longrightarrow> se_held (pa_session b) q = Some h \<Longrightarrow> hi_phase h \<noteq> Held \<Longrightarrow> q \<notin> pa_using b"
  using holding_parts(5) by fastforce

lemma directed_unlist:
  assumes "directed a b ab ba" and "se_held (pa_session b) q = Some h" and "hi_phase h = Dropped"
  shows "directed a (b\<lparr>pa_session := drop_entry q (pa_session b)\<rparr>) ab ba"
proof (rule directed_change [OF assms(1,2)])
  let ?rid = "im_id (hi_import h)"
  define imps where "imps = (if se_imports (pa_session b) ?rid = Some q then (se_imports (pa_session b))(?rid := None) else se_imports (pa_session b))"
  have hb: "holding b" by (rule directed_holding [OF assms(1)])
  have e: "drop_entry q (pa_session b) =
    (pa_session b)\<lparr>se_held := (se_held (pa_session b))(q \<mapsto> h\<lparr>hi_phase := Unlisted\<rparr>), se_imports := imps\<rparr>"
    using assms(2) by (simp add: drop_entry_def Let_def imps_def)
  show "holding (b\<lparr>pa_session := drop_entry q (pa_session b)\<rparr>)"
    unfolding e
  proof (rule holding_change [OF hb assms(2)])
    show "se_imports (pa_session b) rid = Some r \<and> (r = q \<longrightarrow> hi_phase (h\<lparr>hi_phase := Unlisted\<rparr>) \<noteq> Unlisted)"
      if r: "imps rid = Some r" for rid r
    proof -
      have i: "se_imports (pa_session b) rid = Some r" using r by (auto simp: imps_def split: if_splits)
      then have "r \<noteq> q" using holding_parts(3) [OF hb i] assms(2) r by (auto simp: imps_def split: if_splits)
      then show ?thesis using i by simp
    qed
  qed (use holding_parts(2) [OF hb assms(2)] not_using [OF hb assms(2)] assms(3) in simp_all)
  show "se_held (pa_session (b\<lparr>pa_session := drop_entry q (pa_session b)\<rparr>)) = (se_held (pa_session b))(q \<mapsto> h\<lparr>hi_phase := Unlisted\<rparr>)"
    by (simp add: e)
qed simp_all

lemma directed_release:
  assumes "directed a b ab ba" and "se_held (pa_session b) q = Some h" and "hi_phase h = Unlisted" and "pa_items b = []"
    and "drop_release q (pa_session b) = (Some (rid, n), s)"
  shows "directed a (b\<lparr>pa_session := s\<rparr>) ab (ba @ [Released rid n])"
proof -
  have hb: "holding b" by (rule directed_holding [OF assms(1)])
  note h = holding_parts [OF hb]
  let ?held = "(se_held (pa_session b))(q := None)"
  have s: "s = (pa_session b)\<lparr>se_held := ?held\<rparr>" "rid = im_id (hi_import h)" "n = hi_grants h"
    using assms(2,5) by (simp_all add: drop_release_def)
  have nq: "q \<notin> pa_using b" using not_using [OF hb assms(2)] assms(3) by simp
  have hs: "heldsum (se_held (pa_session b)) r = (if rid = r then n else 0) + heldsum ?held r" for r
    using heldsum_remove [OF h(1) assms(2)] s(2,3) by (simp add: contrib_def)
  have "holding (b\<lparr>pa_session := s\<rparr>)"
  proof -
    have "finite (dom ?held)" using h(1) by simp
    moreover have "\<exists>i. ?held r = Some i \<and> im_id (hi_import i) = x \<and> hi_phase i \<noteq> Unlisted" if "se_imports (pa_session b) x = Some r" for x r
      using h(3) [OF that] assms(2,3) by auto
    moreover have "\<exists>i. ?held r = Some i \<and> hi_phase i = Held" if "r \<in> pa_using b" for r
      using h(5) [OF that] nq that by auto
    ultimately show ?thesis using h(2) assms(4) s(1) unfolding holding_def by simp
  qed
  moreover have "balanced a (b\<lparr>pa_session := s\<rparr>) ab (ba @ [Released rid n])"
    using assms(1) hs s(1) by (simp add: directed_def balanced_def)
  moreover have "covered (heldsum ?held) (ba @ [Released rid n])"
  proof (rule covered_mono)
    show "covered (heldsum (se_held (pa_session b))) ba" using assms(1) by (simp add: directed_def agreed_def)
  qed (use hs in auto)
  moreover have "0 < n" using h(2) [OF assms(2)] s(3) by simp
  ultimately show ?thesis using assms(1) s(1) unfolding directed_def agreed_def by (auto split: if_splits)
qed

lemma directed_frame:
  assumes "directed a b ab ba"
  shows "directed a (b\<lparr>pa_items := [], pa_grants := [], pa_using := {}\<rparr>) ab (ba @ pa_items b)"
proof -
  have hb: "holding b" by (rule directed_holding [OF assms])
  note h = holding_parts [OF hb]
  have "\<forall>rid n. Released rid n \<notin> set its \<Longrightarrow> rels its q = 0" for its q
    by (induction its q rule: rels.induct) auto
  then have r: "rels (pa_items b) q = 0" for q using h(6) by blast
  have live: "0 < heldsum (se_held (pa_session b)) rid \<and> of_kind (pa_session a) rid k"
    if it: "it \<in> set (pa_items b)" "home_use it = Some (rid, k)" for it rid k
  proof -
    obtain q i where q: "se_held (pa_session b) q = Some i" "im_id (hi_import i) = rid" "\<forall>k'. k = Some k' \<longrightarrow> k' = im_kind (hi_import i)"
      using h(4) [OF it] by blast
    have "0 < contrib rid i" using q h(2) [OF q(1)] by (simp add: contrib_def)
    also have "\<dots> \<le> heldsum (se_held (pa_session b)) rid" by (rule heldsum_member [OF h(1) q(1)])
    finally have "0 < heldsum (se_held (pa_session b)) rid" .
    moreover have "named (pa_session a) rid (im_kind (hi_import i)) (im_origin (hi_import i))"
      using assms q(1,2) by (auto simp: directed_def agreed_def)
    ultimately show ?thesis using q(3) by (auto simp: named_def of_kind_def)
  qed
  have "covered (heldsum (se_held (pa_session b))) its" if "set its \<subseteq> set (pa_items b)" for its
    using that live by (induction its) auto
  then have "covered (heldsum (se_held (pa_session b))) (ba @ pa_items b)"
    using assms by (intro covered_mono) (auto simp: directed_def agreed_def)
  moreover have "holding (b\<lparr>pa_items := [], pa_grants := [], pa_using := {}\<rparr>)" by (rule holding_idle [OF hb]) simp_all
  ultimately show ?thesis using assms r live h(6) unfolding directed_def balanced_def agreed_def by auto
qed

lemma directed_import:
  assumes "directed a b (Refer rid False k origin # ab) ba"
    and "receive_item (Refer rid False k origin) (pa_session b) = (None, s)"
  shows "directed a (b\<lparr>pa_session := s\<rparr>) ab ba"
proof -
  have hb: "holding b" by (rule directed_holding [OF assms(1)])
  note h = holding_parts [OF hb]
  have n: "named (pa_session a) rid k origin" using assms(1) by (simp add: directed_def agreed_def)
  let ?old = "se_held (pa_session b)"
  have known: ?thesis if s: "holding (b\<lparr>pa_session := s\<rparr>)" "\<And>r. heldsum (se_held s) r = heldsum ?old r + (if rid = r then 1 else 0)"
    "\<And>q i. se_held s q = Some i \<Longrightarrow> im_id (hi_import i) = rid \<and> im_kind (hi_import i) = k \<and> im_origin (hi_import i) = origin \<or>
      (\<exists>i'. ?old q = Some i' \<and> hi_import i' = hi_import i)"
  proof -
    have "balanced a (b\<lparr>pa_session := s\<rparr>) ab ba" using assms(1) s(2) by (auto simp: directed_def balanced_def)
    moreover have "covered (heldsum (se_held s)) ba"
      by (rule covered_same [of "heldsum ?old"]) (use assms(1) s(2) in \<open>simp_all add: directed_def agreed_def\<close>)
    moreover have "named (pa_session a) (im_id (hi_import i)) (im_kind (hi_import i)) (im_origin (hi_import i))"
      if "se_held s q = Some i" for q i
      using s(3) [OF that] n assms(1) unfolding directed_def agreed_def by metis
    ultimately show ?thesis using assms(1) s(1) unfolding directed_def agreed_def by auto
  qed
  show ?thesis
  proof (cases "upgrade rid (pa_session b)")
    case (Some qi)
    obtain q i where qi: "qi = (q, i)" by (cases qi)
    have q: "?old q = Some i" "im_id (hi_import i) = rid" using upgrade_Some [OF hb] Some qi by simp_all
    have s: "s = (pa_session b)\<lparr>se_held := ?old(q \<mapsto> i\<lparr>hi_grants := hi_grants i + 1\<rparr>)\<rparr>" "im_kind (hi_import i) = k" "im_origin (hi_import i) = origin"
      using assms(2) Some qi by (auto simp: decode_reference_def decode_import_def split: if_splits)
    show ?thesis
    proof (rule known)
      have "holding (b\<lparr>pa_session := (pa_session b)\<lparr>se_held := ?old(q \<mapsto> i\<lparr>hi_grants := hi_grants i + 1\<rparr>)\<rparr>\<rparr>)"
      proof -
        have "\<exists>i'. (?old(q \<mapsto> i\<lparr>hi_grants := hi_grants i + 1\<rparr>)) r = Some i' \<and> im_id (hi_import i') = x \<and> hi_phase i' \<noteq> Unlisted"
          if "se_imports (pa_session b) x = Some r" for x r using h(3) [OF that] q by auto
        moreover have "\<exists>r \<in> pa_using b. \<exists>i'. (?old(q \<mapsto> i\<lparr>hi_grants := hi_grants i + 1\<rparr>)) r = Some i' \<and> im_id (hi_import i') = x \<and>
            (\<forall>k'. k = Some k' \<longrightarrow> k' = im_kind (hi_import i'))"
          if it: "it \<in> set (pa_items b)" "home_use it = Some (x, k)" for it x k
        proof -
          obtain r j where "r \<in> pa_using b" "?old r = Some j" "im_id (hi_import j) = x" "\<forall>k'. k = Some k' \<longrightarrow> k' = im_kind (hi_import j)"
            using h(4) [OF it] by blast
          then show ?thesis using q(1) by (intro bexI [of _ r]) auto
        qed
        moreover have "\<exists>i'. (?old(q \<mapsto> i\<lparr>hi_grants := hi_grants i + 1\<rparr>)) r = Some i' \<and> hi_phase i' = Held" if "r \<in> pa_using b" for r
          using h(5) [OF that] q(1) by auto
        moreover have "im_ptr (hi_import j) = r \<and> im_peer (hi_import j) = se_number (pa_session b) \<and> r < se_next_ptr (pa_session b) \<and> 0 < hi_grants j"
          if "(?old(q \<mapsto> i\<lparr>hi_grants := hi_grants i + 1\<rparr>)) r = Some j" for r j
          using that h(2) [OF q(1)] h(2) [of r j] by (auto split: if_splits)
        ultimately show ?thesis using h(1,6) unfolding holding_def by simp
      qed
      then show "holding (b\<lparr>pa_session := s\<rparr>)" by (simp add: s(1))
      show "heldsum (se_held s) r = heldsum ?old r + (if rid = r then 1 else 0)" for r
        using heldsum_update [OF h(1) q(1), of "i\<lparr>hi_grants := hi_grants i + 1\<rparr>" r] s(1) q(2) by (auto simp: contrib_def)
    qed (use s q in \<open>auto split: if_splits\<close>)
  next
    case None
    define q where "q = se_next_ptr (pa_session b)"
    define i where "i = \<lparr>hi_import = \<lparr>im_ptr = q, im_peer = se_number (pa_session b), im_id = rid, im_kind = k, im_origin = origin\<rparr>,
      hi_grants = 1, hi_phase = Held\<rparr>"
    have s: "s = (pa_session b)\<lparr>se_held := ?old(q \<mapsto> i), se_imports := (se_imports (pa_session b))(rid \<mapsto> q), se_next_ptr := q + 1\<rparr>"
      using assms(2) None by (auto simp: decode_reference_def decode_import_def q_def i_def Let_def split: if_splits)
    have fresh: "?old q = None" using h(2) [of q] q_def by (cases "?old q") auto
    show ?thesis
    proof (rule known)
      have "\<exists>i'. (?old(q \<mapsto> i)) r = Some i' \<and> im_id (hi_import i') = x \<and> hi_phase i' \<noteq> Unlisted"
        if r: "((se_imports (pa_session b))(rid \<mapsto> q)) x = Some r" for x r
      proof (cases "x = rid")
        case True
        then show ?thesis using r by (simp add: i_def)
      next
        case False
        then obtain j where "?old r = Some j" "im_id (hi_import j) = x" "hi_phase j \<noteq> Unlisted" using h(3) [of x r] r by auto
        then show ?thesis using fresh by (intro exI [of _ j]) auto
      qed
      moreover have "\<exists>r \<in> pa_using b. \<exists>i'. (?old(q \<mapsto> i)) r = Some i' \<and> im_id (hi_import i') = x \<and>
          (\<forall>k'. k = Some k' \<longrightarrow> k' = im_kind (hi_import i'))"
        if it: "it \<in> set (pa_items b)" "home_use it = Some (x, k)" for it x k
      proof -
        obtain r j where "r \<in> pa_using b" "?old r = Some j" "im_id (hi_import j) = x" "\<forall>k'. k = Some k' \<longrightarrow> k' = im_kind (hi_import j)"
          using h(4) [OF it] by blast
        then show ?thesis using fresh by (intro bexI [of _ r] exI [of _ j]) auto
      qed
      moreover have "\<exists>i'. (?old(q \<mapsto> i)) r = Some i' \<and> hi_phase i' = Held" if "r \<in> pa_using b" for r
        using h(5) [OF that] fresh by auto
      moreover have "im_ptr (hi_import j) = r \<and> im_peer (hi_import j) = se_number (pa_session b) \<and> r < q + 1 \<and> 0 < hi_grants j"
        if "(?old(q \<mapsto> i)) r = Some j" for r j
        using that h(2) [of r j] q_def by (auto simp: i_def split: if_splits)
      ultimately show "holding (b\<lparr>pa_session := s\<rparr>)" using h(1,6) unfolding holding_def by (simp add: s)
      show "heldsum (se_held s) r = heldsum ?old r + (if rid = r then 1 else 0)" for r
        using heldsum_insert [OF h(1) fresh, of i r] by (simp add: s contrib_def i_def)
    qed (auto simp: s i_def split: if_splits)
  qed
qed

section \<open>Every step\<close>

lemma import_of_holds: "may_send p r \<Longrightarrow> import_of r = Some im \<Longrightarrow> im_peer im = se_number (pa_session p) \<Longrightarrow> holds p im"
  by (simp add: may_send_def)

lemma refs_item_of: "refs (item_of w) = (case w of WReference rid False k origin \<Rightarrow> [(rid, k, origin)] | _ \<Rightarrow> [])"
  by (cases w rule: item_of.cases) (auto split: bool.split)

text \<open>As the exporting end.\<close>

lemma exporter_step:
  assumes "party_step (p, out, inc) (p', out', inc')" and "directed p b out inc"
  shows "directed p' b out' inc'"
  using assms(1)
proof (cases rule: party_step.cases)
  case (new_object ob)
  then show ?thesis using directed_new_object [OF assms(2)] by simp
next
  case (surroundings peers background)
  show ?thesis unfolding surroundings
    by (rule exporter_view [OF assms(2)])
      (use directed_exporting [OF assms(2)] in \<open>simp_all add: exporting_def exports_ok_def\<close>)
next
  case (encode r w s gs)
  have e: "exports_ok (pa_objects p) (pa_session p)" using directed_exporting [OF assms(2)] by (simp add: exporting_def)
  obtain new where g: "grew (pa_objects p) (pa_session p, pa_grants p) (s, gs) new" "sent_reference s w new r"
    using encode_reference_grows [OF encode(5) e] encode(4) by (auto simp: may_send_def)
  have "map fst (refs (item_of w)) = new \<and> (\<forall>rid k origin. (rid, k, origin) \<in> set (refs (item_of w)) \<longrightarrow> named s rid k origin)"
    using g(2) by (auto simp: sent_reference_def named_def)
  then show ?thesis unfolding encode using directed_grew [OF assms(2) g(1), of "item_of w" "pa_using p \<union> used_by p r"] by simp
next
  case (refused r e s gs)
  have e: "exports_ok (pa_objects p) (pa_session p)" using directed_exporting [OF assms(2)] by (simp add: exporting_def)
  obtain new where g: "grew (pa_objects p) (pa_session p, pa_grants p) (s, gs) new"
    using encode_reference_grows [OF refused(5) e] refused(4) by (auto simp: may_send_def)
  have "new = []" using encode_failed_grants [OF refused(5)] g by (simp add: grew_def)
  then show ?thesis unfolding refused using directed_grew [OF assms(2), of s gs new "[]" "pa_using p"] g by simp
next
  case give_up
  then show ?thesis using directed_give_up [OF assms(2)] by simp
next
  case (address im object)
  show ?thesis unfolding address
    by (rule exporter_view [OF assms(2)]) (use directed_exporting [OF assms(2)] in \<open>simp_all add: exporting_def\<close>)
next
  case write_frame
  then show ?thesis using directed_written [OF assms(2)] by simp
next
  case (drop_last q h)
  show ?thesis unfolding drop_last
    by (rule exporter_view [OF assms(2)])
      (use directed_exporting [OF assms(2)] drop_last in \<open>simp_all add: drop_holder_def exporting_def exports_ok_def\<close>)
next
  case (unlist q h)
  show ?thesis unfolding unlist
    by (rule exporter_view [OF assms(2)])
      (use directed_exporting [OF assms(2)] unlist in \<open>simp_all add: drop_entry_def Let_def exporting_def exports_ok_def\<close>)
next
  case (release q h rid n s)
  show ?thesis unfolding release
    by (rule exporter_view [OF assms(2)])
      (use directed_exporting [OF assms(2)] release in \<open>auto simp: drop_release_def exporting_def exports_ok_def\<close>)
next
  case (receive it s)
  show ?thesis
  proof (cases it)
    case (Refer rid home k origin)
    have same: "se_exports s = se_exports (pa_session p) \<and> se_tag s = se_tag (pa_session p) \<and> se_next_ptr (pa_session p) \<le> se_next_ptr s"
      using receive(4) Refer
      by (auto simp: decode_reference_def decode_home_def decode_import_def Let_def
          split: if_splits option.splits sum.splits prod.splits)
    have d: "directed p b out inc'" using directed_used [of p b out it inc'] assms(2) receive(1-3) Refer by (auto simp: fun_eq_iff)
    have "directed (p\<lparr>pa_session := s\<rparr>) b out inc'"
      by (rule exporter_view [OF d])
        (use exporting_cong [OF directed_exporting [OF d], of "p\<lparr>pa_session := s\<rparr>"] same in simp_all)
    then show ?thesis using receive(1-3) by simp
  next
    case (Target rid object)
    have "s = pa_session p" using receive(4) Target by (auto split: sum.splits if_splits)
    moreover have "directed p b out inc'" using directed_used [of p b out it inc'] assms(2) receive(1-3) Target by (auto simp: fun_eq_iff)
    ultimately show ?thesis using receive(1-3) by simp
  next
    case (Released rid n)
    then show ?thesis using directed_released [of p b out rid n inc' s] assms(2) receive by simp
  qed
qed


text \<open>As the importing end.\<close>

lemma importer_encodes:
  assumes "holding p" and "exporting p" and "may_send p r" and "encode_reference r (pa_session p, pa_grants p) = (res, s, gs)"
  shows "same_session (pa_session p) s"
    and "res = Inr w \<Longrightarrow>
      holding (p\<lparr>pa_session := s, pa_grants := gs, pa_items := pa_items p @ item_of w, pa_using := pa_using p \<union> used_by p r\<rparr>)"
proof -
  have e: "exports_ok (pa_objects p) (pa_session p)" using assms(2) by (simp add: exporting_def)
  obtain new where g: "grew (pa_objects p) (pa_session p, pa_grants p) (s, gs) new" "\<And>w. res = Inr w \<Longrightarrow> sent_reference s w new r"
    using encode_reference_grows [OF assms(4) e] assms(3) by (auto simp: may_send_def)
  then show ss: "same_session (pa_session p) s" by (simp add: grew_def)
  have held: "\<exists>h. se_held (pa_session p) q = Some h \<and> hi_phase h = Held" if "q \<in> used_by p r" for q
    using that import_of_holds [OF assms(3)] unfolding used_by_def holds_def by blast
  show "holding (p\<lparr>pa_session := s, pa_grants := gs, pa_items := pa_items p @ item_of w, pa_using := pa_using p \<union> used_by p r\<rparr>)"
    if "res = Inr w"
  proof (rule holding_uses [OF assms(1) ss _ held])
    note sent = g(2) [OF that, unfolded sent_reference_def]
    show "Released rid n \<notin> set (item_of w)" for rid n by (cases w rule: item_of.cases) auto
    show "\<exists>q \<in> used_by p r. \<exists>h. se_held (pa_session p) q = Some h \<and> im_id (hi_import h) = rid \<and> (\<forall>k'. k = Some k' \<longrightarrow> k' = im_kind (hi_import h))"
      if it: "it \<in> set (item_of w)" "home_use it = Some (rid, k)" for it rid k
    proof -
      obtain im where im: "r = Remote im \<or> r = Home im" "im_peer im = se_number s" "w = WReference (im_id im) True (im_kind im) (im_origin im)"
        using sent it by auto
      then have i: "import_of r = Some im" "im_peer im = se_number (pa_session p)" using same_session_fields(1) [OF ss] by auto
      then obtain h where "se_held (pa_session p) (im_ptr im) = Some h" "hi_import h = im"
        using import_of_holds [OF assms(3)] unfolding holds_def by blast
      moreover have "im_ptr im \<in> used_by p r" using i by (auto simp: used_by_def)
      moreover have "rid = im_id im" "k = Some (im_kind im)" using it im(3) by simp_all
      ultimately show ?thesis by (intro bexI [of _ "im_ptr im"] exI [of _ h]) simp_all
    qed
  qed
qed

lemma directed_no_import:
  assumes "directed a b (it # ab) ba" and "refs [it] = []"
  shows "directed a b ab ba"
proof -
  have "refs (it # its) = refs its" for its using refs_append [of "[it]" its] assms(2) by simp
  then show ?thesis using assms(1) unfolding directed_def balanced_def agreed_def by simp
qed

lemma importer_receives:
  assumes "receive_item it (pa_session p) = (None, s)" and "directed a p (it # inc) out"
  shows "directed a (p\<lparr>pa_session := s\<rparr>) inc out"
proof (cases "refs [it] = []")
  case True
  have same: "se_held s = se_held (pa_session p) \<and> se_imports s = se_imports (pa_session p) \<and> se_number s = se_number (pa_session p) \<and>
      se_next_ptr s = se_next_ptr (pa_session p)"
  proof (cases it)
    case (Refer rid home k origin)
    then have "home" using True by (cases home) auto
    then show ?thesis using assms(1) Refer
      by (auto simp: decode_reference_def decode_home_def split: if_splits option.splits sum.splits prod.splits)
  qed (use assms(1) in \<open>auto split: sum.splits if_splits\<close>)
  have "holding p" by (rule directed_holding [OF assms(2)])
  then have "holding (p\<lparr>pa_session := s\<rparr>)" by (rule holding_cong) (use same in simp_all)
  then show ?thesis by (rule importer_view [OF directed_no_import [OF assms(2) True]]) (use same in simp)
next
  case False
  then obtain rid k origin where "it = Refer rid False k origin" by (cases "[it]" rule: refs.cases) auto
  then show ?thesis using directed_import [of a p rid k origin inc out s] assms by simp
qed

lemma importer_step:
  assumes "party_step (p, out, inc) (p', out', inc')" and "directed a p inc out" and "exporting p"
  shows "directed a p' inc' out'"
  using assms(1)
proof (cases rule: party_step.cases)
  case (new_object ob)
  show ?thesis unfolding new_object
    by (rule importer_view [OF assms(2) holding_cong [OF directed_holding [OF assms(2)]]]) simp_all
next
  case (surroundings peers background)
  show ?thesis unfolding surroundings
    by (rule importer_view [OF assms(2) holding_cong [OF directed_holding [OF assms(2)]]]) simp_all
next
  case (encode r w s gs)
  note i = importer_encodes [OF directed_holding [OF assms(2)] assms(3) encode(4,5)]
  show ?thesis unfolding encode(1-3)
    by (rule importer_view [OF assms(2) i(2) [OF refl]]) (use same_session_fields [OF i(1)] in simp)
next
  case (refused r e s gs)
  note f = same_session_fields [OF importer_encodes(1) [OF directed_holding [OF assms(2)] assms(3) refused(4,5)]]
  show ?thesis unfolding refused(1-3)
    by (rule importer_view [OF assms(2) holding_cong [OF directed_holding [OF assms(2)]]]) (use f in simp_all)
next
  case give_up
  show ?thesis unfolding give_up
    by (rule importer_view [OF assms(2) holding_idle [OF directed_holding [OF assms(2)]]]) simp_all
next
  case (address im object)
  obtain h where h: "se_held (pa_session p) (im_ptr im) = Some h" "hi_import h = im" "hi_phase h = Held"
    using address by (auto simp: holds_def)
  have "holding (p\<lparr>pa_session := pa_session p, pa_grants := pa_grants p, pa_items := pa_items p @ [Target (im_id im) object],
      pa_using := pa_using p \<union> {im_ptr im}\<rparr>)"
    by (rule holding_uses [OF directed_holding [OF assms(2)]]) (use h address in \<open>auto split: if_splits\<close>)
  then show ?thesis unfolding address by (intro importer_view [OF assms(2)]) simp_all
next
  case write_frame
  then show ?thesis using directed_frame [OF assms(2)] by simp
next
  case (drop_last q h)
  then show ?thesis using directed_drop_last [OF assms(2)] by simp
next
  case (unlist q h)
  then show ?thesis using directed_unlist [OF assms(2)] by simp
next
  case (release q h rid n s)
  then show ?thesis using directed_release [OF assms(2)] by simp
next
  case (receive it s)
  then show ?thesis using importer_receives [of it p s a inc' out] assms(2) by simp
qed

lemma consistent_step:
  assumes "consistent l" and "link_step l l'"
  shows "consistent l'"
  using assms(2)
proof cases
  case (near a ab ba a' ab' ba' b)
  then show ?thesis using assms(1) exporter_step [OF near(3), of b] importer_step [OF near(3), of b] directed_exporting
    by (auto simp: consistent_def)
next
  case (far b ba ab b' ba' ab' a)
  then show ?thesis using assms(1) exporter_step [OF far(3), of a] importer_step [OF far(3), of a] directed_exporting
    by (auto simp: consistent_def)
qed

lemma fresh_directed: "directed (fresh_party s) (fresh_party s') [] []"
  by (simp add: directed_def exporting_def holding_def balanced_def agreed_def fresh_party_def no_exports_def
      exports_ok_def tables_ok_def grants_ok_def addresses_ok_def objects_of_def granted_def)

lemma linked_consistent: "linked l \<Longrightarrow> consistent l"
proof (induction rule: linked.induct)
  case (start s s')
  then show ?case by (simp add: consistent_def fresh_directed)
next
  case (step l l')
  then show ?case using consistent_step by blast
qed

end
