(* ===== verification/Session_Data.thy ===== *)
theory Session_Data
  imports Session_Crossing
begin

text \<open>
  A value as JSON data, \<open>Value::json\<close> and \<open>Value::list\<close> of
  \<open>crates/rutis-bridge/src/session/rpc.rs\<close>: data that crossed a session is the
  data it was, up to the order of fields.
\<close>

text \<open>\<open>to_json_number\<close>: the number serde holds an integer as.\<close>

definition json_integer :: "int \<Rightarrow> number" where
  "json_integer i = (if i < 0 then NegInt i else PosInt (nat i))"

fun value_json :: "session_value \<Rightarrow> session_error + json" where
  "value_json Undefined = Inr JNull"
| "value_json (Data j) = Inr j"
| "value_json (VList vs) = (case collect value_json vs of Inl e \<Rightarrow> Inl e | Inr js \<Rightarrow> Inr (JArray js))"
| "value_json (VRecord fs) =
     (case collect (\<lambda>(k, v). case value_json v of Inl e \<Rightarrow> Inl e | Inr j \<Rightarrow> Inr (k, j)) fs of
        Inl e \<Rightarrow> Inl e
      | Inr js \<Rightarrow> Inr (JObject js))"
| "value_json (VReference r) = Inl (ValueError (Unexpected ''data'' ''a reference''))"
| "value_json Signal = Inl (ValueError (Unexpected ''data'' ''a signal''))"
| "value_json (VBigInt b) =
     (case to_json_int b of
        Some i \<Rightarrow> Inr (JNumber (json_integer i))
      | None \<Rightarrow> Inl (ValueError (Unexpected ''data'' ''a bigint beyond 64 bits'')))"
| "value_json other = Inl (ValueError (Unexpected ''data'' (describe_value other)))"

fun value_list :: "session_value \<Rightarrow> session_error + session_value list" where
  "value_list (VList vs) = Inr vs"
| "value_list (Data (JArray items)) = Inr (map Data items)"
| "value_list v = Inl (ValueError (Unexpected ''argument array'' []))"

text \<open>Objects are the same whatever the order of their fields.\<close>

fun canonical :: "json \<Rightarrow> json" where
  "canonical (JArray items) = JArray (map canonical items)"
| "canonical (JObject fs) = JObject (btree (map (\<lambda>(k, v). (k, canonical v)) fs))"
| "canonical j = j"

definition same_data :: "json \<Rightarrow> session_error + json \<Rightarrow> bool" where
  "same_data j r \<longleftrightarrow> (case r of Inl e \<Rightarrow> False | Inr j' \<Rightarrow> canonical j' = canonical j)"

lemma same_data_Inr: "same_data j r \<longleftrightarrow> (\<exists>j'. r = Inr j' \<and> canonical j' = canonical j)"
  by (cases r) (auto simp: same_data_def)

lemma integer_comes_back:
  assumes "number_ok n" and "beyond_safe n"
  shows "value_json (VBigInt (BigInt (show_integer n))) = Inr (JNumber n)"
proof (cases n)
  case (PosInt i)
  then show ?thesis using assms(1) bigint_values(3) [of "int i"] by (simp add: bigint_from_int_def json_integer_def)
next
  case (NegInt i)
  then show ?thesis using assms(1) bigint_values(3) [of i] by (simp add: bigint_from_int_def json_integer_def)
qed (use assms(2) in \<open>simp add: beyond_safe_def\<close>)

lemma collect_items:
  "list_all (\<lambda>j. same_data j (value_json (f j))) items \<Longrightarrow>
   \<exists>js. collect value_json (map f items) = Inr js \<and> map canonical js = map canonical items"
  by (induction items) (auto simp: same_data_Inr)

lemma collect_fields:
  "list_all (\<lambda>(k, j). same_data j (value_json (f j))) fs \<Longrightarrow>
   \<exists>js. collect (\<lambda>(k, v). case value_json v of Inl e \<Rightarrow> Inl e | Inr j \<Rightarrow> Inr (k, j)) (map (\<lambda>(k, j). (k, f j)) fs) = Inr js \<and>
     map (\<lambda>(k, j). (k, canonical j)) js = map (\<lambda>(k, j). (k, canonical j)) fs"
  by (induction fs) (auto simp: same_data_Inr)

lemma crossed_data_same: "json_ok j \<Longrightarrow> same_data j (value_json (crossed_data j))"
proof (induction j)
  case (JNumber n)
  then show ?case using integer_comes_back by (simp add: same_data_Inr)
next
  case (JArray items)
  then have "list_all (\<lambda>j. same_data j (value_json (crossed_data j))) items" by (simp add: list_all_iff)
  from collect_items [OF this] show ?case by (auto simp: same_data_Inr)
next
  case (JObject fs)
  have "list_all (\<lambda>(k, j). same_data j (value_json (crossed_data j))) (btree fs)"
    using JObject set_btree [of fs] by (fastforce simp: list_all_iff)
  from collect_fields [OF this] obtain js where js:
    "collect (\<lambda>(k, v). case value_json v of Inl e \<Rightarrow> Inl e | Inr j \<Rightarrow> Inr (k, j)) (map (\<lambda>(k, j). (k, crossed_data j)) (btree fs)) = Inr js"
    "map (\<lambda>(k, j). (k, canonical j)) js = map (\<lambda>(k, j). (k, canonical j)) (btree fs)" by blast
  then have "canonical (JObject js) = canonical (JObject fs)" by (simp add: btree_map)
  then show ?case using js(1) by (simp add: same_data_Inr btree_map)
qed (simp_all add: same_data_Inr)

end
