(* ===== verification/Session_Theorems.thy ===== *)
theory Session_Theorems
  imports Session_Balance Session_Data
begin

text \<open>
  What values and references do when they cross a session: the properties of
  the codec of \<open>crates/rutis-bridge/src/session/rpc.rs\<close>, of the exports it keeps
  and of the references two ends count.
\<close>

section \<open>Values\<close>

text \<open>A session as it is made, for a peer that takes and declares the capabilities given.\<close>

definition example_session :: "nat \<Rightarrow> string \<Rightarrow> string list \<Rightarrow> session" where
  "example_session n tag caps =
     \<lparr>se_number = n, se_tag = tag, se_peers = Map.empty, se_background = True, se_taken = caps, se_declared = caps,
      se_exports = no_exports, se_imports = Map.empty, se_held = Map.empty, se_next_ptr = 0\<rparr>"

lemma digit_chars:
  "digit_char 0 = CHR ''0''" "digit_char 1 = CHR ''1''" "digit_char 2 = CHR ''2''" "digit_char 3 = CHR ''3''" "digit_char 4 = CHR ''4''"
  "digit_char 5 = CHR ''5''" "digit_char 7 = CHR ''7''" "digit_char 9 = CHR ''9''"
  by code_simp+

lemma large_integers: "show_int 9007199254740992 = ''9007199254740992''" "show_int (- 9007199254740993) = ''-9007199254740993''"
  by (simp_all add: show_int_def show_nat.simps digit_chars digit_chars(2) [simplified])

lemmas encoding_simps = example_session_def encode_granting_def or_ungrant_def admitted_def sendable_def supports_def
  capability_def check_keys_def number_key_def part_def encode_data.simps map_result_def btree_def
  beyond_safe_def SAFE_INTEGER_def large_integers

text \<open>
  C29. A value without references crosses as it is: whatever was encoded
  grants nothing and changes nothing at the sender, and a receiver that
  declares what the sender takes decodes it, without a change of its own, as
  the same value, undefined inside it null and the integers of its data beyond
  2^53-1 bigints.
\<close>

theorem values_cross:
  assumes "encode_granting v levels s = (Inr (w, gs), s')" and "plain v" and "value_ok v" and "caps_agree s r"
  shows "gs = [] \<and> s' = s \<and> decode w r = (Inr (crossed v), r)"
proof -
  have "encode_inner v levels (s, []) = (Inr w, s', gs)"
    using assms(1) by (auto simp: encode_granting_def or_ungrant_def simp del: encode_inner.simps split: prod.splits sum.splits)
  from encode_decode_value [OF this assms(2-4)] show ?thesis by (simp add: decodes_to_def)
qed

lemma values_cross_witness:
  "\<exists>w. decode w (example_session 2 ''b'' [''value-map'', ''value-bigint'']) =
     (Inr (VMap [(Data (JString ''k''), Data JNull), (Data (JBool True), VBigInt (BigInt ''9007199254740992''))]),
      example_session 2 ''b'' [''value-map'', ''value-bigint''])"
proof -
  let ?v = "VMap [(Data (JString ''k''), Undefined), (Data (JBool True), Data (JNumber (PosInt 9007199254740992)))]"
  let ?s = "example_session 1 ''a'' [''value-map'', ''value-bigint'']"
  have e: "encode_granting ?v 64 ?s =
      (Inr (WMap [(WData (JString ''k''), WData JNull), (WData (JBool True), WBigInt ''9007199254740992'')], []), ?s)"
    by (simp add: encoding_simps)
  let ?r = "example_session 2 ''b'' [''value-map'', ''value-bigint'']"
  have a: "caps_agree ?s ?r" by (simp add: caps_agree_def example_session_def)
  have c: "crossed ?v = VMap [(Data (JString ''k''), Data JNull), (Data (JBool True), VBigInt (BigInt ''9007199254740992''))]"
    by (simp add: null_if_undefined_def beyond_safe_def SAFE_INTEGER_def large_integers)
  have p: "plain ?v" "value_ok ?v" by simp_all
  show ?thesis using values_cross [OF e p a] unfolding c by blast
qed

text \<open>
  C30. JSON data is the data it was when it comes out of a session: what its
  receiver reads of it as data is the same, the order of fields aside, though
  integers beyond 2^53-1 crossed as bigints and what holds them as lists and
  records.
\<close>

theorem data_comes_back:
  assumes "encode_granting (Data j) levels s = (Inr (w, gs), s')" and "json_ok j" and "caps_agree s r"
  shows "\<exists>v j'. decode w r = (Inr v, r) \<and> value_json v = Inr j' \<and> canonical j' = canonical j"
proof -
  have "encode_inner (Data j) levels (s, []) = (Inr w, s', gs)"
    using assms(1) by (auto simp: encode_granting_def or_ungrant_def simp del: encode_inner.simps split: prod.splits sum.splits)
  from encode_decode_value [OF this _ _ assms(3)] have "decode w r = (Inr (crossed_data j), r)"
    using assms(2) by (simp add: decodes_to_def)
  then show ?thesis using crossed_data_same [OF assms(2)] by (simp add: same_data_Inr)
qed

lemma data_comes_back_witness:
  "\<exists>w v. decode w (example_session 2 ''b'' [''value-bigint'']) = (Inr v, example_session 2 ''b'' [''value-bigint'']) \<and>
     (\<exists>j'. value_json v = Inr j' \<and>
        canonical j' = JObject [(''a'', JNumber (NegInt (- 9007199254740993))), (''b'', JArray [JNull])])"
proof -
  let ?j = "JObject [(''b'', JArray [JNull]), (''a'', JNumber (NegInt (- 9007199254740993)))]"
  let ?s = "example_session 1 ''a'' [''value-bigint'']"
  have e: "encode_granting (Data ?j) 64 ?s =
      (Inr (WRecord [(''a'', WBigInt ''-9007199254740993''), (''b'', WData (JArray [JNull]))], []), ?s)"
    by (simp add: encoding_simps)
  have c: "canonical ?j = JObject [(''a'', JNumber (NegInt (- 9007199254740993))), (''b'', JArray [JNull])]"
    by code_simp
  have a: "caps_agree ?s (example_session 2 ''b'' [''value-bigint''])" by (simp add: caps_agree_def example_session_def)
  have k: "json_ok ?j" by simp
  show ?thesis using data_comes_back [OF e k a] unfolding c by blast
qed

lemma keyable_numbers:
  assumes "list_all number_ok ns" and "\<forall>n \<in> set ns. \<exists>k. key what (Data (JNumber n)) = Inr k"
  obtains f where "map (key what) (map (\<lambda>n. Data (JNumber n)) ns) = map Inr (map f ns)"
    and "\<And>a b. a \<in> set ns \<Longrightarrow> b \<in> set ns \<Longrightarrow> f a = f b \<longleftrightarrow> number_value a = number_value b"
proof -
  define f where "f n = projr (key what (Data (JNumber n)))" for n
  have k: "key what (Data (JNumber n)) = Inr (f n)" if "n \<in> set ns" for n
    using assms(2) that by (auto simp: f_def simp del: key.simps)
  show ?thesis
  proof (rule that [of f])
    show "map (key what) (map (\<lambda>n. Data (JNumber n)) ns) = map Inr (map f ns)" using k by (simp del: key.simps)
    show "f a = f b \<longleftrightarrow> number_value a = number_value b" if "a \<in> set ns" "b \<in> set ns" for a b
      using number_keys [OF _ _ k [OF that(1)] k [OF that(2)]] assms(1) that by (auto simp: list_all_iff)
  qed
qed

text \<open>
  C37. Numbers are the same key of a map exactly where they are the same number:
  whether written as an integer or a float, and beyond 2^53-1 where they are sent
  as bigints, keys are refused as duplicates if and only if two are equal in value.
\<close>

theorem numbers_are_keys_by_value:
  assumes "list_all number_ok ns" and "\<forall>n \<in> set ns. \<exists>k. key what (Data (JNumber n)) = Inr k"
  shows "check_keys what (map (\<lambda>n. Data (JNumber n)) ns) = None \<longleftrightarrow> distinct (map number_value ns)"
proof -
  obtain f where f: "map (key what) (map (\<lambda>n. Data (JNumber n)) ns) = map Inr (map f ns)"
    "\<And>a b. a \<in> set ns \<Longrightarrow> b \<in> set ns \<Longrightarrow> f a = f b \<longleftrightarrow> number_value a = number_value b"
    using keyable_numbers [OF assms] by blast
  have i: "map Inr (map f ns) = map Inr ks \<longleftrightarrow> ks = map f ns" for ks :: "map_key list"
    using inj_map_eq_map [of Inr "map f ns" ks] by (auto simp del: map_map)
  have "check_keys what (map (\<lambda>n. Data (JNumber n)) ns) = None \<longleftrightarrow> distinct (map f ns)"
    by (simp only: check_keys_None f(1) i simp_thms)
  also have "\<dots> \<longleftrightarrow> distinct (map number_value ns)" using f(2) by (simp add: distinct_map inj_on_def)
  finally show ?thesis .
qed

lemma numbers_are_keys_by_value_witness:
  "check_keys ''map key'' (map (\<lambda>n. Data (JNumber n)) [PosInt 6, Float 3 (- 1), Float 3 1]) \<noteq> None"
proof -
  let ?ns = "[PosInt 6, Float 3 (- 1), Float 3 1]"
  have ok: "list_all number_ok ?ns" by simp
  have keyable: "\<forall>n \<in> set ?ns. \<exists>k. key ''map key'' (Data (JNumber n)) = Inr k"
    by (simp add: beyond_safe_def number_key_def has_fraction_def float_int_def SAFE_INTEGER_def)
  show ?thesis using numbers_are_keys_by_value [OF ok keyable] by simp
qed

section \<open>Errors\<close>

text \<open>
  C35. A value that cannot be sent is as if it never had been: every export has
  as many grants as before, an object that was exported for it is not any more,
  and of the rest only numbers are used up, those of references and those of
  allocations.
\<close>

theorem unsent_value_changes_nothing:
  assumes "encode_granting v levels s = (Inl e, s')" and "exports_ok obs s" and "value_ok v"
    and "\<forall>r \<in> set (refs_of v). reference_in obs r"
  shows "s' = s\<lparr>se_exports := (se_exports s)\<lparr>xs_next := xs_next (se_exports s')\<rparr>, se_next_ptr := se_next_ptr s'\<rparr> \<and>
    exports_ok obs s'"
proof -
  note u = unsent_value_leaves_exports [OF assms]
  then have "s = s'\<lparr>se_exports := se_exports s, se_next_ptr := se_next_ptr s\<rparr>" by (simp add: same_session_def)
  then have "s\<lparr>se_exports := se_exports s', se_next_ptr := se_next_ptr s'\<rparr> = s'"
    by (metis session.surjective session.update_convs(7,10))
  then show ?thesis using u by simp
qed

definition example_object :: shared_object where
  "example_object = \<lparr>ob_ptr = 0, ob_body = FunctionBody, ob_origin = [''work''], ob_chain = None\<rparr>"

lemma fresh_exports_ok:
  assumes "ob_ptr ob < p" and "relay_key ob = None"
  shows "exports_ok {ob} (s\<lparr>se_exports := no_exports, se_next_ptr := p\<rparr>)"
  using assms by (simp add: exports_ok_def tables_ok_def grants_ok_def addresses_ok_def objects_of_def no_exports_def)

lemma unsent_value_changes_nothing_witness:
  "\<exists>s'. encode_granting (VList [VReference (Local example_object), VUuid (Uuid (replicate 16 (CHR 0x00)))]) 64
     ((example_session 1 ''a'' [])\<lparr>se_exports := no_exports, se_next_ptr := 1\<rparr>) = (Inl (ValueError (NotTaken ''uuid'' ''a uuid'')), s') \<and>
   xs_entries (se_exports s') = Map.empty \<and> xs_identities (se_exports s') = Map.empty"
proof -
  let ?v = "VList [VReference (Local example_object), VUuid (Uuid (replicate 16 (CHR 0x00)))]"
  let ?s = "(example_session 1 ''a'' [])\<lparr>se_exports := no_exports, se_next_ptr := 1\<rparr>"
  have "fst (encode_granting ?v 64 ?s) = Inl (ValueError (NotTaken ''uuid'' ''a uuid''))"
    by (simp add: encoding_simps example_object_def encode_local_def no_exports_def allocate_def MAX_ID_def u64_max_def
        grant_in_def grant_def Let_def)
  then obtain s' where e: "encode_granting ?v 64 ?s = (Inl (ValueError (NotTaken ''uuid'' ''a uuid'')), s')"
    by (metis prod.collapse)
  have ok: "exports_ok {example_object} ?s" by (rule fresh_exports_ok) (simp_all add: example_object_def relay_key_def)
  have v: "value_ok ?v" by (simp add: uuid_ok_def)
  have r: "\<forall>r \<in> set (refs_of ?v). reference_in {example_object} r" by simp
  have "se_exports s' = no_exports\<lparr>xs_next := xs_next (se_exports s')\<rparr>"
    using unsent_value_changes_nothing [OF e ok v r] by (metis session.select_convs(7) session.surjective session.update_convs(7,10))
  then have "xs_entries (se_exports s') = Map.empty \<and> xs_identities (se_exports s') = Map.empty"
    by (metis exports.select_convs(2,3) exports.surjective exports.update_convs(1) no_exports_def)
  then show ?thesis using e by blast
qed

text \<open>
  C36. A value that is refused still imports what it carries: decoding decodes
  each of its references, in order, and changes nothing else, whatever of the
  value is refused; only a reference that breaks the protocol stops it, and
  then with the error that ends the session.
\<close>

theorem refused_values_import_references:
  assumes "decode w s = (res, s')"
  shows "(\<exists>e. decode_refs (wire_refs w) s = (Inl e, s') \<and> res = Inl e \<and> \<not> is_value_error e) \<or>
    (\<exists>rs. decode_refs (wire_refs w) s = (Inr rs, s') \<and> (\<forall>e. res = Inl e \<longrightarrow> is_value_error e))"
  by (rule decode_reads_refs [OF assms])

lemma refused_values_import_references_witness:
  "\<exists>s'. decode (WList [WReference 1 False KFunction [], WUuid ''x'', WReference 2 False KFuture []]) (example_session 1 ''a'' []) =
      (Inl (ValueError (NotDeclared ''uuid'')), s') \<and> se_imports s' 1 \<noteq> None \<and> se_imports s' 2 \<noteq> None"
proof -
  let ?w = "WList [WReference 1 False KFunction [], WUuid ''x'', WReference 2 False KFuture []]"
  let ?s = "example_session 1 ''a'' []"
  have f: "fst (decode ?w ?s) = Inl (ValueError (NotDeclared ''uuid''))"
    by (simp add: example_session_def decode_reference_def decode_import_def upgrade_def MAX_ID_def Let_def map_result_def
        taken_def undeclared_def declares_def capability_def)
  then obtain s' where d: "decode ?w ?s = (Inl (ValueError (NotDeclared ''uuid'')), s')" by (metis prod.collapse)
  then have "decode_refs (wire_refs ?w) ?s = (fst (decode_refs (wire_refs ?w) ?s), s')"
    using refused_values_import_references [OF d] by auto
  then have "s' = snd (decode_refs (wire_refs ?w) ?s)" by (metis snd_conv)
  then have "se_imports s' 1 \<noteq> None \<and> se_imports s' 2 \<noteq> None"
    by (simp add: example_session_def decode_reference_def decode_import_def upgrade_def MAX_ID_def Let_def)
  then show ?thesis using d by blast
qed

end
