(* ===== verification/Link_Theorems.thy ===== *)
theory Link_Theorems
  imports Session_Theorems
begin

text \<open>
  The references between the two ends of a session, \<open>crates/rutis-bridge/src/session/rpc.rs\<close>:
  the properties of every state two ends reach from the start of a session.
\<close>

section \<open>One reference, sent and released\<close>

text \<open>
  An example: the near end exports a function, the far end imports it and
  calls it, then drops it.
\<close>

definition near_start :: session where
  "near_start = example_session 1 ''a'' []"

definition far_start :: session where
  "far_start = example_session 2 ''b'' []"

definition near_end :: "nat \<Rightarrow> party" where
  "near_end n = (fresh_party near_start)
     \<lparr>pa_objects := {example_object},
      pa_session := near_start\<lparr>se_next_ptr := 1,
        se_exports := \<lparr>xs_next = 1,
          xs_entries = (if n = 0 then Map.empty else [1 \<mapsto> \<lparr>ex_object = example_object, ex_grants = n\<rparr>]),
          xs_identities = (if n = 0 then Map.empty else [0 \<mapsto> 1]), xs_relays = Map.empty\<rparr>\<rparr>\<rparr>"

definition example_import :: import where
  "example_import = \<lparr>im_ptr = 0, im_peer = 2, im_id = 1, im_kind = KFunction, im_origin = [''work'']\<rparr>"

definition far_end :: "phase \<Rightarrow> party" where
  "far_end ph = (fresh_party far_start)
     \<lparr>pa_session := far_start\<lparr>se_held := [0 \<mapsto> \<lparr>hi_import = example_import, hi_grants = 1, hi_phase = ph\<rparr>],
        se_imports := (if ph = Unlisted then Map.empty else [1 \<mapsto> 0]), se_next_ptr := 1\<rparr>\<rparr>"

definition far_done :: party where
  "far_done = (fresh_party far_start)\<lparr>pa_session := far_start\<lparr>se_next_ptr := 1\<rparr>\<rparr>"

lemmas example_simps = near_start_def far_start_def near_end_def far_end_def far_done_def fresh_party_def example_session_def
  example_object_def example_import_def no_exports_def

lemma near_sends:
  "linked ((near_end 1, fresh_party far_start), [Refer 1 False KFunction [''work'']], [])"
proof -
  let ?a = "fresh_party near_start"
  let ?b = "fresh_party far_start"
  let ?s = "(pa_session ?a)\<lparr>se_next_ptr := 1\<rparr>"
  let ?a1 = "?a\<lparr>pa_objects := {example_object}, pa_session := ?s\<rparr>"
  let ?r = "Local example_object"
  have "party_step (?a, [], []) (?a\<lparr>pa_objects := insert example_object (pa_objects ?a),
      pa_session := (pa_session ?a)\<lparr>se_next_ptr := se_next_ptr (pa_session ?a) + 1\<rparr>\<rparr>, [], [])"
    by (rule party_step.new_object) (simp_all add: example_simps relay_key_def)
  then have "party_step (?a, [], []) (?a1, [], [])" by (simp add: example_simps)
  then have 1: "linked ((?a1, ?b), [], [])" by (rule linked.step [OF linked.start link_step.near])
  have e: "encode_reference ?r (pa_session ?a1, pa_grants ?a1) =
      (Inr (WReference 1 False KFunction [''work'']), pa_session (near_end 1), [1])"
    by (simp add: example_simps encode_local_def allocate_def MAX_ID_def u64_max_def grant_in_def grant_def Let_def object_kind_def)
  have "may_send ?a1 ?r" by (simp add: may_send_def)
  from party_step.encode [OF this e, of "[]" "[]"]
  have "party_step (?a1, [], []) ((near_end 1)\<lparr>pa_items := [Refer 1 False KFunction [''work'']], pa_grants := [1]\<rparr>, [], [])"
    by (simp add: example_simps used_by_def)
  then have "linked (((near_end 1)\<lparr>pa_items := [Refer 1 False KFunction [''work'']], pa_grants := [1]\<rparr>, ?b), [], [])"
    by (rule linked.step [OF 1 link_step.near])
  moreover have "party_step ((near_end 1)\<lparr>pa_items := [Refer 1 False KFunction [''work'']], pa_grants := [1]\<rparr>, [], [])
      (near_end 1, [Refer 1 False KFunction [''work'']], [])"
    using party_step.write_frame [of "(near_end 1)\<lparr>pa_items := [Refer 1 False KFunction [''work'']], pa_grants := [1]\<rparr>" "[]" "[]"]
    by (simp add: example_simps)
  ultimately show ?thesis by (rule linked.step [OF _ link_step.near])
qed

lemma far_holds: "linked ((near_end 1, far_end Held), [], [])"
proof -
  have "receive_item (Refer 1 False KFunction [''work'']) (pa_session (fresh_party far_start)) = (None, pa_session (far_end Held))"
    by (simp add: example_simps decode_reference_def decode_import_def upgrade_def MAX_ID_def Let_def)
  from party_step.receive [OF this, of "[]" "[]"]
  have "party_step (fresh_party far_start, [], [Refer 1 False KFunction [''work'']]) (far_end Held, [], [])"
    by (simp add: example_simps)
  then show ?thesis by (rule linked.step [OF near_sends link_step.far])
qed

lemma far_calls_and_drops: "linked ((near_end 1, far_done), [], [Target 1 False, Released 1 1])"
proof -
  let ?b = "(far_end Held)\<lparr>pa_items := [Target 1 False], pa_using := {0}\<rparr>"
  have "holds (far_end Held) example_import" by (simp add: holds_def example_simps)
  from party_step.address [OF this, of False "[]" "[]"]
  have "party_step (far_end Held, [], []) (?b, [], [])" by (simp add: example_simps)
  then have 1: "linked ((near_end 1, ?b), [], [])" by (rule linked.step [OF far_holds link_step.far])
  have "party_step (?b, [], []) (far_end Held, [Target 1 False], [])"
    using party_step.write_frame [of ?b "[]" "[]"] by (simp add: example_simps)
  then have 2: "linked ((near_end 1, far_end Held), [], [Target 1 False])" by (rule linked.step [OF 1 link_step.far])
  have "party_step (far_end Held, [Target 1 False], []) (far_end Dropped, [Target 1 False], [])"
    using party_step.drop_last [of "far_end Held" 0 _ "[Target 1 False]" "[]"] by (simp add: example_simps drop_holder_def)
  then have 3: "linked ((near_end 1, far_end Dropped), [], [Target 1 False])" by (rule linked.step [OF 2 link_step.far])
  have "party_step (far_end Dropped, [Target 1 False], []) (far_end Unlisted, [Target 1 False], [])"
    using party_step.unlist [of "far_end Dropped" 0 _ "[Target 1 False]" "[]"] by (simp add: example_simps drop_entry_def)
  then have 4: "linked ((near_end 1, far_end Unlisted), [], [Target 1 False])" by (rule linked.step [OF 3 link_step.far])
  have "party_step (far_end Unlisted, [Target 1 False], []) (far_done, [Target 1 False] @ [Released 1 1], [])"
    using party_step.release [of "far_end Unlisted" 0 _ 1 1 "pa_session far_done" "[Target 1 False]" "[]"]
    by (simp add: example_simps drop_release_def)
  then show ?thesis using linked.step [OF 4 link_step.far] by simp
qed

lemma near_settles: "linked ((near_end 0, far_done), [], [])"
proof -
  have "receive_item (Target 1 False) (pa_session (near_end 1)) = (None, pa_session (near_end 1))"
    by (simp add: example_simps find_export_def)
  from party_step.receive [OF this, of "[]" "[Released 1 1]"]
  have "party_step (near_end 1, [], [Target 1 False, Released 1 1]) (near_end 1, [], [Released 1 1])" by (simp add: example_simps)
  then have 1: "linked ((near_end 1, far_done), [], [Released 1 1])" by (rule linked.step [OF far_calls_and_drops link_step.near])
  have "receive_item (Released 1 1) (pa_session (near_end 1)) = (None, pa_session (near_end 0))"
    by (simp add: example_simps release_export_def remove_export_def relay_key_def Let_def)
  from party_step.receive [OF this, of "[]" "[]"]
  have "party_step (near_end 1, [], [Released 1 1]) (near_end 0, [], [])" by (simp add: example_simps)
  then show ?thesis by (rule linked.step [OF 1 link_step.near])
qed

section \<open>Every state two ends reach\<close>

lemma linked_directed: "linked ((a, b), ab, ba) \<Longrightarrow> directed a b ab ba \<and> directed b a ba ab"
  using linked_consistent [of "((a, b), ab, ba)"] by (simp add: consistent_def)

text \<open>
  C31. No grant of a reference is lost or made up: in every state, however the
  steps of the two ends were interleaved, an export of either end has as many
  grants as are in frames under way, in the frame being made, held by the
  imports of the other end, and on their way back in releases.
\<close>

theorem every_grant_is_accounted:
  assumes "linked ((a, b), ab, ba)"
  shows "granted (se_exports (pa_session a)) rid =
      count_list (map fst (refs ab)) rid + count_list (pa_grants a) rid + heldsum (se_held (pa_session b)) rid + rels ba rid \<and>
    granted (se_exports (pa_session b)) rid =
      count_list (map fst (refs ba)) rid + count_list (pa_grants b) rid + heldsum (se_held (pa_session a)) rid + rels ab rid"
  using linked_directed [OF assms] by (simp_all add: directed_def balanced_def)

lemma every_grant_is_accounted_witness:
  "granted (se_exports (pa_session (near_end 1))) 1 = rels [Target 1 False, Released 1 1] 1"
  using every_grant_is_accounted [OF far_calls_and_drops, of 1] by (simp add: example_simps)

text \<open>
  C32. What an honest end sends never ends the session: whatever reference,
  call of a reference or release is under way, and whatever was encoded, given
  up, dropped and released meanwhile at either end, the end that receives it
  takes it without an error.
\<close>

theorem references_never_end_a_session:
  assumes "linked ((a, b), ab, ba)"
  shows "(\<forall>it its. ba = it # its \<longrightarrow> fst (receive_item it (pa_session a)) = None) \<and>
    (\<forall>it its. ab = it # its \<longrightarrow> fst (receive_item it (pa_session b)) = None)"
proof (intro conjI allI impI)
  have c: "consistent ((a, b), ab, ba)" "consistent ((b, a), ba, ab)"
    using linked_consistent [OF assms] by (simp_all add: consistent_def)
  show "fst (receive_item it (pa_session a)) = None" if "ba = it # its" for it its
    using consistent_receives [of a b ab it its] c(1) that by auto
  show "fst (receive_item it (pa_session b)) = None" if "ab = it # its" for it its
    using consistent_receives [of b a ba it its] c(2) that by auto
qed

lemma references_never_end_a_session_witness:
  "fst (receive_item (Target 1 False) (pa_session (near_end 1))) = None"
  using references_never_end_a_session [OF far_calls_and_drops] by simp

text \<open>
  C33. A reference a program holds is there: for every import of an end, until
  its release was written, the other end has an export under its number, of its
  kind and with its origin, that is granted at least as often as the import was.
\<close>

theorem held_references_are_live:
  assumes "linked ((a, b), ab, ba)" and "se_held (pa_session b) q = Some h"
  shows "\<exists>ob. objects_of (se_exports (pa_session a)) (im_id (hi_import h)) = Some ob \<and>
    im_kind (hi_import h) = object_kind ob \<and> im_origin (hi_import h) = wire_origin (se_tag (pa_session a)) ob \<and>
    0 < hi_grants h \<and> hi_grants h \<le> granted (se_exports (pa_session a)) (im_id (hi_import h))"
proof -
  have d: "directed a b ab ba" using linked_directed [OF assms(1)] by simp
  have hb: "holding b" by (rule directed_holding [OF d])
  have "named (pa_session a) (im_id (hi_import h)) (im_kind (hi_import h)) (im_origin (hi_import h))"
    using d assms(2) by (simp add: directed_def agreed_def)
  moreover have "contrib (im_id (hi_import h)) h \<le> heldsum (se_held (pa_session b)) (im_id (hi_import h))"
    by (rule heldsum_member [OF holding_parts(1) [OF hb] assms(2)])
  then have "hi_grants h \<le> granted (se_exports (pa_session a)) (im_id (hi_import h))"
    using d by (simp add: directed_def balanced_def contrib_def)
  ultimately show ?thesis using holding_parts(2) [OF hb assms(2)] by (auto simp: named_def)
qed

lemma held_references_are_live_witness:
  "\<exists>ob. objects_of (se_exports (pa_session (near_end 1))) 1 = Some ob \<and> KFunction = object_kind ob"
proof -
  have h: "se_held (pa_session (far_end Held)) 0 = Some \<lparr>hi_import = example_import, hi_grants = 1, hi_phase = Held\<rparr>"
    by (simp add: far_end_def)
  show ?thesis using held_references_are_live [OF far_holds h] by (auto simp: example_import_def)
qed

text \<open>
  C34. Nothing leaks: once the other end holds no import any more and no frame
  is under way or being made, every export is gone, with its entries in the
  tables of identities and relays.
\<close>

theorem settled_links_export_nothing:
  assumes "linked ((a, b), [], [])" and "pa_items a = []" and "se_held (pa_session b) = Map.empty"
  shows "xs_entries (se_exports (pa_session a)) = Map.empty \<and> xs_identities (se_exports (pa_session a)) = Map.empty \<and>
    xs_relays (se_exports (pa_session a)) = Map.empty"
proof -
  let ?xs = "se_exports (pa_session a)"
  have d: "directed a b [] []" using linked_directed [OF assms(1)] by simp
  then have e: "exporting a" by (rule directed_exporting)
  then have "pa_grants a = []" using assms(2) by (simp add: exporting_def)
  then have "granted ?xs rid = 0" for rid using d assms(3) by (simp add: directed_def balanced_def)
  then have none: "objects_of ?xs rid = None" for rid
    using object_granted [OF exporting_grants [OF e], of rid] by (cases "objects_of ?xs rid") auto
  have t: "tables_ok (pa_objects a) (se_next_ptr (pa_session a)) ?xs" using e by (simp add: exporting_def exports_ok_def)
  have "xs_identities ?xs q = None" "xs_relays ?xs q = None" for q
    using t none unfolding tables_ok_def by (metis option.distinct(1) option.exhaust)+
  moreover have "xs_entries ?xs rid = None" for rid using none [of rid] by (simp add: objects_of_def)
  ultimately show ?thesis by auto
qed

lemma settled_links_export_nothing_witness:
  "xs_entries (se_exports (pa_session (near_end 0))) = Map.empty"
  using settled_links_export_nothing [OF near_settles] by (simp add: example_simps)

end
