(* ===== verification/Spec2Isabelle.thy ===== *)
theory Spec2Isabelle
  imports Effects Kernel_Properties Service_Properties Closing_Properties Waits_Properties Event_Modes Line_Properties
    Restart_Properties Queue_Theorems Value_Theorems Link_Theorems
begin

text \<open>
  A verification development of rutis, a plugin framework: plugins are mounted
  as fibers in a tree, provide services to each other, register effects that
  are undone when they end, and talk through an event bus; a loader composes
  the rows of plugins from patch layers; a host runs plugins of other
  languages as processes and bridges them over channels.

  The parts, and how they interact

  The kernel (\<open>crates/rutis/src\<close>).  A fiber (\<open>fiber.rs\<close>) is a mounted plugin
  with a state (Pending, Loading, Active, Failed, Unloading, Disposed), a
  mailbox of intents and one driver that works through them.  Loading and
  unloading run under the locks of the fiber; effects (\<open>effect.rs\<close>) are
  drained by the unload; services live in the registry (\<open>registry.rs\<close>), whose
  bindings decide when dependent fibers load; contexts (\<open>ctx.rs\<close>) are what a
  plugin calls, and every registration is checked against the generation the
  context was made for.  The model cuts the code into atomic sections at
  awaits and where a lock is let go, and runs every interleaving of them.

    Core_Types       keys, qualifiers, states, errors (\<open>key.rs\<close>, \<open>error.rs\<close>)
    Effects          effect records, concurrent drain and join (\<open>effect.rs\<close>)
    Kernel_State     fibers, intents, tasks, bindings, the shared state
    Registry         bindings, injects, notifications (\<open>registry.rs\<close>)
    Fiber_Ops        state changes, load, fail, unload (\<open>fiber.rs\<close>)
    Cleanup_Ops      withdrawal of services, disposal of children (\<open>ctx.rs\<close>)
    Driver_Ops       the driver's intents and its two ends (\<open>drive\<close>)
    Contexts         effects, provides, reads, writers (\<open>ctx.rs\<close>, \<open>writer.rs\<close>)
    Fiber_Api        spawn, mount, dispose, restart, update, shutdown
    System           threads of sections, steps, the reachable states
    Lifecycle        legal lives of a fiber; what each section expects
    Kernel_Safety    the invariant of the reachable states
    Scenarios        scripted runs that the witnesses rest on
    Kernel_Properties, Service_Properties, Closing_Properties
                     the properties of lives, loads and generations; of
                     services; of unloads, disposal and shutdown

  The event bus (\<open>crates/rutis/src/bus.rs\<close>, \<open>bus/table.rs\<close>, \<open>bus/run.rs\<close>).
  Listeners are entries of one table; a dispatch selects the live ones of its
  name in registration order and runs them in its mode.  The emits of a name
  share one list, extended by registrations and dropped by removals.

    Event_Table      the table, selection, shared lists, their invariants
    Event_Bus        registration, withdrawal, starting a call, filters, the
                     loops of the modes, threads on one bus
    Event_Properties the invariant of the reachable buses
    Event_Dispatch   registration order, watchers, once listeners
    Event_Modes      what serial, waterfall, parallel dispatches and emits do

  Synchronous waits (\<open>crates/rutis-bridge/src/session/rpc/waits.rs\<close>).  Calls
  that wait across runtimes are recorded, and a forward that would close a
  cycle is refused.

    Waits            the table, the wait graph, the search, the forward
    Waits_Search     the search finds a cycle exactly when there is one
    Waits_Properties exactness, forwards, the lock-free counters

  The line channel (\<open>crates/rutis-bridge/src/pipe/lines.rs\<close>): Line_Channel
  (sending, receiving, the limit, the writer's handle) and Line_Properties.

  The restart policy (\<open>crates/rutis-host/src/restart.rs\<close>): Restart_Policy (the
  backoff, the supervising loop) and Restart_Properties.

  Patch layers (\<open>crates/rutis-loader/src/patch.rs\<close>): Json (values and objects
  in serde's order), Patches (the arena, patches, composition),
  Patch_Properties (the arena is a forest, every walk ends) and
  Patch_Theorems (inserts, overrides, refused patches).

  Edits of the editable layer (\<open>crates/rutis-loader/src/edit.rs\<close>): Edits (locating
  a row in the layer's inserts, overrides, every edit), Edit_Properties (the
  walks up the composed rows end), Edit_Sources (the layers that rows name,
  and their inserts) and Edit_Theorems (what an edit does to the composition).

  The queue of edits (\<open>loader/commit.rs\<close>, \<open>loader/api.rs\<close>, \<open>persist.rs\<close>): Edit_Queue
  (committing an edit, rolling back, storing and replaying the queue, the
  operations edit, flush and reconcile over an outside of running tree and
  storage), Queue_Properties (the queue replays the storage), Queue_Accounts
  (where every queued edit goes) and Queue_Theorems.

  Values of sessions (\<open>crates/rutis-bridge/src/session/values.rs\<close>):
  Value_Calendar (days and dates), Decimal_Text and Value_Text (numbers, dates,
  times and points in time as text), Value_Bytes (base64), Value_Uuid and
  Value_Theorems.

  Sessions (\<open>crates/rutis-bridge/src/session/rpc.rs\<close>, \<open>rpc/relay.rs\<close>,
  \<open>rpc/crossing.rs\<close>, \<open>protocol.rs\<close>).  A value crosses as a wire value; functions,
  futures and objects cross as references, which the sending end exports and
  counts, and the receiving end imports, counts and at last releases.

    Value_Numbers, Value_Keys   integers and decimals as text; values, and the
                                keys of maps and sets among them
    Session_State               exports, imports and every operation on them
    Session_Values              encoding and decoding of values and arguments
    Session_Data                values as JSON data
    Session_Crossing            what a value is after it crossed
    Session_Exports, Session_Giving_Back, Session_Sending, Session_Receiving
                                consistent exports; grants given back; the
                                references of a value, sent and received
    Session_Link                two ends, their steps and what is under way
    Session_Balance             every step keeps the two ends consistent
    Session_Theorems, Link_Theorems
                                the properties of values and of references

  Rutis_Prelude holds the operations on strings, lists and association lists
  that these share, and the lemma collections.

  How the model stands for the code

  An \<open>Arc\<close> is a number into a table, \<open>Arc::ptr_eq\<close> equality of numbers, a
  \<open>Weak\<close> upgrade a lookup.  User code (plugins, factories, effects, listeners,
  filters, the answer of a stream or a runtime) is a parameter: an environment
  of the step, an argument of the loop, or a list of what each call returned.
  Panics of user code are outcomes, as the code catches them.  Errors are the
  left of a sum.  Identifiers are counters with the code's checks; sequence
  numbers, positions and durations are unbounded, and stay far from their
  bounds in the code.  Interfaces are locales (cleanups, the binding table,
  the table by name) with an interpretation on the model's own definitions.

  A session.  An object and an import are records with the number of their
  allocation, which is never used again.  An import is dropped in three
  sections, in between which other sections run.  Of the frames of a session
  the model of two ends keeps what concerns references, in the order they are
  written; frames are made under the lock of the queue of frames, so one at a
  time.  A relay's lookup before and after its background executor is had is
  one lookup.  The bits of a float stand for its odd mantissa and exponent.

  Fuel.  The walks up and down the tree of fibers use the number of the next
  fiber as fuel: parents have smaller numbers than their children.  The walk
  back along a cycle of waits uses the number of calls.  Writing out and
  flattening patched rows uses the number of nodes; that this is enough, for
  any layers, is a property (\<open>Patch_Properties.composing_always_ends\<close>).

  What the properties show, by group: lives of fibers, exclusive drivers and
  admission of loads (Kernel_Properties); provides, withdrawals, reads and
  rewrites of services (Service_Properties); unloads, shutdown and disposal,
  with two ways in which the code loses work (Closing_Properties); cleanups
  once and in reverse (Effects); exact cycle detection (Waits_Properties);
  selection order, shared lists, once listeners and the modes (Event_Dispatch,
  Event_Modes); round trips, refusals and release of the line channel
  (Line_Properties); limits and liveness of restarts (Restart_Properties);
  ends, inserts, overrides and refusals of patches (Patch_Properties,
  Patch_Theorems); where edits are written and what undoes them (Edit_Theorems);
  what the queue of edits holds and that none is lost (Queue_Theorems); days
  against counting and round trips of texts (Value_Theorems); round trips of
  values, keys by value, values that are refused (Session_Theorems); the
  counting of references between two ends: nothing lost, nothing leaked, no
  session ended (Link_Theorems).

  Not modelled

  In the kernel: recovery of a driver whose own code panicked, copies of
  plugin definitions across contexts, service events and the names of marked
  services, reports of waiting and of what a shutdown is stuck below, waits
  with a time limit, capacities of tables.  In the bus: the queue of the emits
  of one name and its backlog, the threads of watchers, calls made for another
  node, and the encoding of events.  How the host notices an end of a process.
  The rest of the loader (reconciling the running tree, catalogs), of the bridge
  (typed objects, transports, calls, the end of a session), of the host and the profiles, the
  generators and the tools: they are listed with their reasons in the
  manifest; several are planned.
\<close>

end
